(* ===== verification/Prelude.thy ===== *)
theory Prelude
  imports Main "HOL-Library.Word" "HOL-Library.Monad_Syntax"
begin

text \<open>
  What every component shares: the machine types, the error numbers of \<open>kern/errno.h\<close>,
  assertions, page arithmetic on 32-bit addresses, byte memories, and the generic lemmas on
  lists and options behind the component proofs.

  Conventions. A function that can stop the kernel (a failed \<open>KASSERT\<close>, a \<open>panic\<close>, the use
  of a null pointer) or loop forever has an \<open>option\<close> result: \<open>None\<close> is "the call does not
  return". An error number handed to the caller is \<open>Inl e\<close> of a sum, a normal result is
  \<open>Inr v\<close>. Spinlock brackets are not modelled in the sequential components: each operation is
  one atomic transition.
\<close>

unbundle bit_operations_syntax

section \<open>Machine types and error numbers\<close>

type_synonym u8 = "8 word"
type_synonym u16 = "16 word"
type_synonym u32 = "32 word"
type_synonym u64 = "64 word"
type_synonym vaddr = u32
type_synonym paddr = u32
type_synonym bytes = "nat \<Rightarrow> u8"

datatype errno =
    ENOSYS | ENOMEM | EAGAIN | EINTR | EFAULT | ENAMETOOLONG | EINVAL | EPERM | EACCES
  | ENOTDIR | EISDIR | ENOENT | ENOTEMPTY | EEXIST | EXDEV | ENODEV | ENXIO | EBUSY | EIO
  | EFBIG | ENOSPC | ENFILE | EMFILE | EBADF | ENOEXEC | EIOCTL

text \<open>The numbers, as they reach a program.\<close>

fun errno_code :: "errno \<Rightarrow> int" where
  "errno_code ENOSYS = 1"
| "errno_code ENOMEM = 3"
| "errno_code EAGAIN = 4"
| "errno_code EINTR = 5"
| "errno_code EFAULT = 6"
| "errno_code ENAMETOOLONG = 7"
| "errno_code EINVAL = 8"
| "errno_code EPERM = 9"
| "errno_code EACCES = 10"
| "errno_code ENOTDIR = 17"
| "errno_code EISDIR = 18"
| "errno_code ENOENT = 19"
| "errno_code ENOTEMPTY = 21"
| "errno_code EEXIST = 22"
| "errno_code EXDEV = 24"
| "errno_code ENODEV = 25"
| "errno_code ENXIO = 26"
| "errno_code EBUSY = 27"
| "errno_code EIO = 32"
| "errno_code EFBIG = 38"
| "errno_code ENOSPC = 36"
| "errno_code ENFILE = 29"
| "errno_code EMFILE = 28"
| "errno_code EBADF = 30"
| "errno_code ENOEXEC = 13"
| "errno_code EIOCTL = 31"

section \<open>Assertions\<close>

definition kassert :: "bool \<Rightarrow> unit option" where
  "kassert b = (if b then Some () else None)"

named_theorems kcode \<open>unfolding rules that run the assertions and binds of a model\<close>

lemma kassert_True [simp, kcode]: "kassert True = Some ()"
  by (simp add: kassert_def)

lemma kassert_False [simp, kcode]: "kassert False = None"
  by (simp add: kassert_def)

lemma kassert_Some [simp]: "kassert b = Some u \<longleftrightarrow> b"
  by (cases u) (simp add: kassert_def)

lemma kassert_bind_Some [simp]: "kassert b \<bind> f = Some r \<longleftrightarrow> b \<and> f () = Some r"
  by (simp add: kassert_def)

lemma kassert_bind_if: "kassert b \<bind> f = (if b then f () else None)"
  by (simp add: kassert_def)

section \<open>Pages\<close>

abbreviation PAGE_SIZE :: nat where "PAGE_SIZE \<equiv> 4096"
abbreviation PAGE_FRAME :: u32 where "PAGE_FRAME \<equiv> 0xfffff000"
abbreviation MIPS_KSEG0 :: u32 where "MIPS_KSEG0 \<equiv> 0x80000000"
abbreviation USERSTACK :: u32 where "USERSTACK \<equiv> MIPS_KSEG0"

text \<open>The number of the page an address lies in, and the address of a page or frame.\<close>

definition vpn :: "u32 \<Rightarrow> nat" where
  "vpn a = unat a div 4096"

definition page_addr :: "nat \<Rightarrow> u32" where
  "page_addr n = of_nat (n * 4096)"

lemma unat_lt_32 [simp]:
  fixes a :: u32
  shows "unat a < 4294967296"
proof -
  have "(unsigned a :: nat) < 2 ^ LENGTH(32)" by (rule unsigned_less)
  then show ?thesis by simp
qed

lemma unat_word_of_nat_32: "n < 4294967296 \<Longrightarrow> unat (word_of_nat n :: u32) = n"
  by (simp add: unat_of_nat take_bit_eq_mod)

lemma unat_drop_bit_32:
  fixes a :: u32
  shows "unat (drop_bit n a) = unat a div 2 ^ n"
  by (metis unat_drop_bit_eq drop_bit_eq_div)

lemma frame_mask_eq: "(0xfffff000 :: u32) = push_bit 12 (mask 20)"
  and outer_mask_eq: "(0xFFC00000 :: u32) = push_bit 22 (mask 10)"
  and inner_mask_eq: "(0x003FF000 :: u32) = push_bit 12 (mask 10)"
  and disp_mask_eq: "(0xFFF :: u32) = mask 12"
  by (simp_all add: mask_eq_exp_minus_1)

lemma vpn_bound: "vpn a < 1048576"
  using unat_lt_32 [of a] unfolding vpn_def by linarith

lemma vpn_div_bound [simp]: "vpn a div 1024 < 1024"
  using vpn_bound [of a] by linarith

lemma vpn_user: "a < USERSTACK \<Longrightarrow> vpn a < 524288"
  by (simp add: vpn_def word_less_nat_alt)

lemma unat_page_addr: "n < 1048576 \<Longrightarrow> unat (page_addr n) = n * 4096"
  unfolding page_addr_def by (rule unat_word_of_nat_32) simp

lemma vpn_page_addr: "n < 1048576 \<Longrightarrow> vpn (page_addr n) = n"
  by (simp add: vpn_def unat_page_addr)

lemma page_addr_eq_iff:
  "m < 1048576 \<Longrightarrow> n < 1048576 \<Longrightarrow> page_addr m = page_addr n \<longleftrightarrow> m = n"
  by (metis vpn_page_addr)

lemma page_addr_0 [simp]: "page_addr 0 = 0"
  by (simp add: page_addr_def)

lemma page_addr_eq_0_iff: "n < 1048576 \<Longrightarrow> page_addr n = 0 \<longleftrightarrow> n = 0"
  using page_addr_eq_iff [of n 0] by simp

lemma page_frame_mask: "a AND PAGE_FRAME = page_addr (vpn a)"
proof -
  have "unat a div 4096 * 4096 < 4294967296"
    using unat_lt_32 [of a] by linarith
  then have "unat (push_bit 12 (drop_bit 12 a)) = unat a div 4096 * 4096"
    by (simp add: push_bit_eq_mult unat_word_ariths unat_drop_bit_32)
  moreover have "a AND PAGE_FRAME = push_bit 12 (drop_bit 12 a)"
    unfolding frame_mask_eq by (intro bit_eqI) (auto simp: bit_simps)
  ultimately show ?thesis
    by (simp add: word_unat_eq_iff unat_page_addr vpn_bound vpn_def [symmetric])
qed

lemma page_addr_vpn_unat: "unat (page_addr (vpn a)) = vpn a * 4096"
  by (simp add: unat_page_addr vpn_bound)

lemma vpn_frame_mask [simp]: "vpn (a AND PAGE_FRAME) = vpn a"
  by (simp add: page_frame_mask vpn_page_addr vpn_bound)

lemma page_addr_aligned: "n < 1048576 \<Longrightarrow> page_addr n AND PAGE_FRAME = page_addr n"
  by (simp add: page_frame_mask vpn_page_addr)

text \<open>The three fields of a virtual address, as the masks and shifts of \<open>pt.c\<close> take them.\<close>

lemma outer_bits: "unat (drop_bit 22 (a AND (0xFFC00000 :: u32))) = vpn a div 1024"
proof -
  have "drop_bit 22 (a AND (0xFFC00000 :: u32)) = drop_bit 22 a"
    unfolding outer_mask_eq by (intro bit_eqI) (auto simp: bit_simps dest: bit_imp_le_length)
  then show ?thesis by (simp add: unat_drop_bit_32 vpn_def div_mult2_eq [symmetric])
qed

lemma inner_bits: "unat (drop_bit 12 (a AND (0x003FF000 :: u32))) = vpn a mod 1024"
proof -
  have "drop_bit 12 (a AND (0x003FF000 :: u32)) = take_bit 10 (drop_bit 12 a)"
    unfolding inner_mask_eq by (intro bit_eqI) (auto simp: bit_simps)
  moreover have "unat (take_bit 10 (drop_bit 12 a)) = vpn a mod 1024"
    by (subst unsigned_take_bit_eq) (simp_all add: unat_drop_bit_32 take_bit_eq_mod vpn_def)
  ultimately show ?thesis by simp
qed

lemma displacement_bits: "unat (a AND (0xFFF :: u32)) = unat a mod 4096"
proof -
  have "unat (take_bit 12 a) = take_bit 12 (unat a)" by (simp add: unsigned_take_bit_eq)
  then show ?thesis
    unfolding disp_mask_eq by (simp add: take_bit_eq_mask [symmetric] take_bit_eq_mod)
qed

section \<open>Byte memories\<close>

text \<open>
  \<open>blit dst d src s n\<close> copies \<open>n\<close> bytes from \<open>src\<close> at \<open>s\<close> to \<open>dst\<close> at \<open>d\<close>;
  \<open>fill dst d n b\<close> sets \<open>n\<close> bytes; \<open>store\<close> writes a list. \<open>page_at m a\<close> is the
  content of the page at \<open>a\<close>, independent of what lies around it.
\<close>

definition blit :: "bytes \<Rightarrow> nat \<Rightarrow> bytes \<Rightarrow> nat \<Rightarrow> nat \<Rightarrow> bytes" where
  "blit dst d src s n = (\<lambda>a. if d \<le> a \<and> a < d + n then src (s + (a - d)) else dst a)"

definition fill :: "bytes \<Rightarrow> nat \<Rightarrow> nat \<Rightarrow> u8 \<Rightarrow> bytes" where
  "fill dst d n b = (\<lambda>a. if d \<le> a \<and> a < d + n then b else dst a)"

definition store :: "bytes \<Rightarrow> nat \<Rightarrow> u8 list \<Rightarrow> bytes" where
  "store dst d bs = (\<lambda>a. if d \<le> a \<and> a < d + length bs then bs ! (a - d) else dst a)"

definition page_at :: "bytes \<Rightarrow> nat \<Rightarrow> bytes" where
  "page_at m a = (\<lambda>i. if i < PAGE_SIZE then m (a + i) else 0)"

named_theorems pages \<open>the content of a page after writes to pages\<close>

lemma page_at_blit_same [pages]: "page_at (blit dst d src s PAGE_SIZE) d = page_at src s"
  by (rule ext) (simp add: page_at_def blit_def)

lemma page_at_blit_other [pages]:
  "a + PAGE_SIZE \<le> d \<or> d + n \<le> a \<Longrightarrow> page_at (blit dst d src s n) a = page_at dst a"
  by (rule ext) (auto simp: page_at_def blit_def)

lemma page_at_fill_same [pages]:
  "page_at (fill dst d PAGE_SIZE b) d = (\<lambda>i. if i < PAGE_SIZE then b else 0)"
  by (rule ext) (simp add: page_at_def fill_def)

lemma page_at_fill_other [pages]:
  "a + PAGE_SIZE \<le> d \<or> d + n \<le> a \<Longrightarrow> page_at (fill dst d n b) a = page_at dst a"
  by (rule ext) (auto simp: page_at_def fill_def)

lemma page_at_store_other [pages]:
  "a + PAGE_SIZE \<le> d \<or> d + length bs \<le> a \<Longrightarrow> page_at (store dst d bs) a = page_at dst a"
  by (rule ext) (auto simp: page_at_def store_def)

lemma frames_apart: "(m::nat) \<noteq> n \<Longrightarrow> m * 4096 + 4096 \<le> n * 4096 \<or> n * 4096 + 4096 \<le> m * 4096"
  by arith

section \<open>The environment of the virtual memory system\<close>

text \<open>
  What the VM code calls outside its own files, as parameters: whether the kernel heap serves
  the requests of this call (every failing \<open>kmalloc\<close> on these paths ends in a failed
  assertion), whether \<open>vfs_open\<close> finds the swap file, the residue a \<open>VOP_WRITE\<close> of one page
  to the swap file leaves at a given offset, the result and residue of reading a page from it,
  and the result and bytes of a \<open>VOP_READ\<close> from an executable's vnode at an offset.
\<close>

record vm_io =
  io_kmalloc :: bool
  io_open :: bool
  io_swap_write :: "int \<Rightarrow> nat"
  io_swap_read :: "int \<Rightarrow> errno option \<times> nat"
  io_vop_read :: "nat \<Rightarrow> int \<Rightarrow> nat \<Rightarrow> errno option \<times> u8 list"

text \<open>Files that transfer everything they are asked to.\<close>

definition io_reliable :: "vm_io \<Rightarrow> bool" where
  "io_reliable io \<longleftrightarrow> io_kmalloc io \<and> (\<forall>off. io_swap_write io off = 0) \<and>
     (\<forall>off. io_swap_read io off = (None, 0))"

section \<open>Searching an array\<close>

text \<open>The first index from \<open>i\<close> on whose element satisfies \<open>P\<close>: the shape of most scans.\<close>

fun find_from :: "('a \<Rightarrow> bool) \<Rightarrow> nat \<Rightarrow> 'a list \<Rightarrow> nat option" where
  "find_from P i [] = None"
| "find_from P i (x # xs) = (if P x then Some i else find_from P (Suc i) xs)"

lemma find_from_SomeD:
  "find_from P i xs = Some k \<Longrightarrow>
    i \<le> k \<and> k < i + length xs \<and> P (xs ! (k - i)) \<and> (\<forall>j<k - i. \<not> P (xs ! j))"
proof (induction xs arbitrary: i)
  case Nil
  then show ?case by simp
next
  case (Cons x xs)
  show ?case
  proof (cases "P x")
    case True
    with Cons.prems show ?thesis by simp
  next
    case False
    with Cons.prems have "find_from P (Suc i) xs = Some k" by simp
    from Cons.IH [OF this] False show ?thesis
      by (auto simp: nth_Cons' Suc_diff_Suc less_Suc_eq_0_disj)
  qed
qed

lemma find_from_None_iff: "find_from P i xs = None \<longleftrightarrow> (\<forall>x\<in>set xs. \<not> P x)"
  by (induction xs arbitrary: i) auto

end
