(* ===== verification/PageTable.thy ===== *)
theory PageTable
  imports Prelude
begin

text \<open>
  The two-level page table of \<open>kern/vm/pt.c\<close> and \<open>kern/include/pt.h\<close>: a directory of 1024
  outer entries, each with an optional inner table of 1024 entries. Reads and writes by
  virtual address refine a flat map from page numbers to a frame address and a swap offset;
  the interface of the other VM modules is the locale \<open>page_map\<close> over that map.
  The parameter \<open>km\<close> says whether the kernel heap can serve the call: every
  \<open>kmalloc\<close> here is followed by a \<open>KASSERT\<close> on its result. \<open>pt_destroy\<close> needs
  \<open>page_free\<close> and is in theory AddrSpace.
\<close>

section \<open>Data\<close>

abbreviation SIZE_PT_OUTER :: nat where "SIZE_PT_OUTER \<equiv> 1024"
abbreviation SIZE_PT_INNER :: nat where "SIZE_PT_INNER \<equiv> 1024"
abbreviation PFN_NOT_USED :: paddr where "PFN_NOT_USED \<equiv> 0"
abbreviation P_OUT_MASK :: u32 where "P_OUT_MASK \<equiv> 0xFFC00000"
abbreviation P_IN_MASK :: u32 where "P_IN_MASK \<equiv> 0x003FF000"
abbreviation D_MASK :: u32 where "D_MASK \<equiv> 0x00000FFF"

record pt_inner_entry =
  in_valid :: bool
  pfn :: paddr
  swap_offset :: int

record pt_outer_entry =
  out_valid :: bool
  out_size :: nat
  out_pages :: "pt_inner_entry list option"

record pt_directory =
  pt_size :: nat
  pt_pages :: "pt_outer_entry list"

section \<open>Operations\<close>

definition get_outer_index :: "vaddr \<Rightarrow> nat" where
  "get_outer_index va = unat (drop_bit 22 (va AND P_OUT_MASK))"

definition get_inner_index :: "vaddr \<Rightarrow> nat" where
  "get_inner_index va = unat (drop_bit 12 (va AND P_IN_MASK))"

definition get_page_offset :: "vaddr \<Rightarrow> nat" where
  "get_page_offset va = unat (va AND D_MASK)"

text \<open>The field \<open>size\<close> of a fresh outer entry is not initialised by the code and never read
  before \<open>pt_define_inner\<close> sets it.\<close>

definition pt_create :: "bool \<Rightarrow> pt_directory option" where
  "pt_create km = do {
     kassert km;
     Some \<lparr>pt_size = SIZE_PT_OUTER,
           pt_pages = replicate SIZE_PT_OUTER \<lparr>out_valid = False, out_size = 0, out_pages = None\<rparr>\<rparr> }"

definition unused_inner_entry :: pt_inner_entry where
  "unused_inner_entry = \<lparr>in_valid = False, pfn = PFN_NOT_USED, swap_offset = -1\<rparr>"

definition pt_define_inner :: "bool \<Rightarrow> pt_directory \<Rightarrow> vaddr \<Rightarrow> pt_directory option" where
  "pt_define_inner km pt va = do {
     let index = get_outer_index va;
     kassert (\<not> out_valid (pt_pages pt ! index));
     kassert km;
     Some (pt\<lparr>pt_pages := (pt_pages pt)[index :=
       \<lparr>out_valid = True, out_size = SIZE_PT_INNER,
        out_pages = Some (replicate SIZE_PT_INNER unused_inner_entry)\<rparr>]\<rparr>) }"

text \<open>The three index assertions at the head of every lookup and update.\<close>

definition pt_check_indices :: "vaddr \<Rightarrow> unit option" where
  "pt_check_indices va = do {
     kassert (get_outer_index va < SIZE_PT_OUTER);
     kassert (get_inner_index va < SIZE_PT_INNER);
     kassert (get_page_offset va < PAGE_SIZE) }"

definition pt_get_pa :: "pt_directory \<Rightarrow> vaddr \<Rightarrow> paddr option" where
  "pt_get_pa pt va = do {
     pt_check_indices va;
     let out = pt_pages pt ! get_outer_index va;
     if out_valid out then do {
       ps \<leftarrow> out_pages out;
       let e = ps ! get_inner_index va;
       if in_valid e then Some (pfn e) else Some PFN_NOT_USED }
     else Some PFN_NOT_USED }"

definition pt_get_offset :: "pt_directory \<Rightarrow> vaddr \<Rightarrow> int option" where
  "pt_get_offset pt va = do {
     pt_check_indices va;
     let out = pt_pages pt ! get_outer_index va;
     if out_valid out then do {
       ps \<leftarrow> out_pages out;
       let e = ps ! get_inner_index va;
       if in_valid e then Some (swap_offset e) else Some (-1) }
     else Some (-1) }"

text \<open>Storing into an inner entry, after the inner table has been made if it was missing.\<close>

definition pt_store_inner ::
    "pt_directory \<Rightarrow> vaddr \<Rightarrow> (pt_inner_entry \<Rightarrow> pt_inner_entry) \<Rightarrow> pt_directory option" where
  "pt_store_inner pt va f = do {
     let outer = get_outer_index va;
     let inner = get_inner_index va;
     kassert (out_valid (pt_pages pt ! outer));
     ps \<leftarrow> out_pages (pt_pages pt ! outer);
     Some (pt\<lparr>pt_pages := (pt_pages pt)[outer :=
       (pt_pages pt ! outer)\<lparr>out_pages := Some (ps[inner := f (ps ! inner)])\<rparr>]\<rparr>) }"

definition pt_set_pa :: "bool \<Rightarrow> pt_directory \<Rightarrow> vaddr \<Rightarrow> paddr \<Rightarrow> pt_directory option" where
  "pt_set_pa km pt va pa = do {
     pt_check_indices va;
     pt \<leftarrow> (if \<not> out_valid (pt_pages pt ! get_outer_index va) then pt_define_inner km pt va else Some pt);
     pt_store_inner pt va (\<lambda>e. e\<lparr>in_valid := True, pfn := pa\<rparr>) }"

definition pt_set_offset :: "bool \<Rightarrow> pt_directory \<Rightarrow> vaddr \<Rightarrow> int \<Rightarrow> pt_directory option" where
  "pt_set_offset km pt va offset = do {
     pt_check_indices va;
     pt \<leftarrow> (if \<not> out_valid (pt_pages pt ! get_outer_index va) then pt_define_inner km pt va else Some pt);
     pt_store_inner pt va (\<lambda>e. e\<lparr>in_valid := True, swap_offset := offset\<rparr>) }"

section \<open>The flat view\<close>

definition pt_wf :: "pt_directory \<Rightarrow> bool" where
  "pt_wf pt \<longleftrightarrow> pt_size pt = SIZE_PT_OUTER \<and> length (pt_pages pt) = SIZE_PT_OUTER \<and>
     (\<forall>out\<in>set (pt_pages pt).
        if out_valid out
        then out_size out = SIZE_PT_INNER \<and>
             (\<exists>ps. out_pages out = Some ps \<and> length ps = SIZE_PT_INNER \<and>
                   (\<forall>e\<in>set ps. in_valid e \<or> e = unused_inner_entry))
        else out_pages out = None)"

definition pt_entry :: "pt_directory \<Rightarrow> nat \<Rightarrow> (paddr \<times> int) option" where
  "pt_entry pt p =
     (if p \<ge> SIZE_PT_OUTER * SIZE_PT_INNER then None
      else let out = pt_pages pt ! (p div SIZE_PT_INNER)
           in if out_valid out
              then (case out_pages out of None \<Rightarrow> None
                    | Some ps \<Rightarrow> let e = ps ! (p mod SIZE_PT_INNER)
                                in if in_valid e then Some (pfn e, swap_offset e) else None)
              else None)"

lemma get_outer_index_eq: "get_outer_index va = vpn va div 1024"
  unfolding get_outer_index_def by (rule outer_bits)

lemma get_inner_index_eq: "get_inner_index va = vpn va mod 1024"
  unfolding get_inner_index_def by (rule inner_bits)

lemma pt_check_indices_ok [simp]: "pt_check_indices va = Some ()"
  by (simp add: pt_check_indices_def get_outer_index_eq get_inner_index_eq get_page_offset_def
      displacement_bits)

lemma pt_wf_outer:
  assumes "pt_wf pt" and "i < 1024"
  obtains "\<not> out_valid (pt_pages pt ! i)" "out_pages (pt_pages pt ! i) = None"
  | ps where "out_valid (pt_pages pt ! i)" "out_size (pt_pages pt ! i) = 1024"
      "out_pages (pt_pages pt ! i) = Some ps" "length ps = 1024"
      "\<And>j. j < 1024 \<Longrightarrow> in_valid (ps ! j) \<or> ps ! j = unused_inner_entry"
proof -
  from assms have "pt_pages pt ! i \<in> set (pt_pages pt)" by (simp add: pt_wf_def)
  with assms(1) have "if out_valid (pt_pages pt ! i)
        then out_size (pt_pages pt ! i) = SIZE_PT_INNER \<and>
             (\<exists>ps. out_pages (pt_pages pt ! i) = Some ps \<and> length ps = SIZE_PT_INNER \<and>
                   (\<forall>e\<in>set ps. in_valid e \<or> e = unused_inner_entry))
        else out_pages (pt_pages pt ! i) = None"
    unfolding pt_wf_def by blast
  then show thesis
  proof (cases "out_valid (pt_pages pt ! i)")
    case True
    with \<open>if _ then _ else _\<close> obtain ps where ps: "out_size (pt_pages pt ! i) = 1024"
      "out_pages (pt_pages pt ! i) = Some ps" "length ps = 1024"
      "\<forall>e\<in>set ps. in_valid e \<or> e = unused_inner_entry" by auto
    then have "in_valid (ps ! j) \<or> ps ! j = unused_inner_entry" if "j < 1024" for j
      using that by (metis nth_mem)
    with True ps show thesis by (intro that(2)) auto
  qed (auto intro: that)
qed

lemma outer_entry_update:
  "out_valid r \<Longrightarrow> out_size r = n \<Longrightarrow>
    r\<lparr>out_pages := x\<rparr> = \<lparr>out_valid = True, out_size = n, out_pages = x\<rparr>"
  by (cases r) simp

lemma pt_wf_update:
  assumes "pt_wf pt" and "i < 1024" and "length ps = 1024"
    and "\<And>j. j < 1024 \<Longrightarrow> in_valid (ps ! j) \<or> ps ! j = unused_inner_entry"
  shows "pt_wf (pt\<lparr>pt_pages := (pt_pages pt)[i :=
           \<lparr>out_valid = True, out_size = 1024, out_pages = Some ps\<rparr>]\<rparr>)"
proof -
  have "\<forall>e\<in>set ps. in_valid e \<or> e = unused_inner_entry"
    using assms(3,4) by (metis in_set_conv_nth)
  then show ?thesis
    using assms(1,3) unfolding pt_wf_def by (auto dest!: set_update_subset_insert [THEN subsetD])
qed

lemma pt_get_pa_eq:
  assumes "pt_wf pt"
  shows "pt_get_pa pt va = Some (case pt_entry pt (vpn va) of None \<Rightarrow> PFN_NOT_USED | Some e \<Rightarrow> fst e)"
  using vpn_bound [of va]
  by (rule_tac pt_wf_outer [OF assms vpn_div_bound, of va])
     (auto simp: pt_get_pa_def pt_entry_def Let_def get_outer_index_eq get_inner_index_eq)

lemma pt_get_offset_eq:
  assumes "pt_wf pt"
  shows "pt_get_offset pt va = Some (case pt_entry pt (vpn va) of None \<Rightarrow> -1 | Some e \<Rightarrow> snd e)"
  using vpn_bound [of va]
  by (rule_tac pt_wf_outer [OF assms vpn_div_bound, of va])
     (auto simp: pt_get_offset_def pt_entry_def Let_def get_outer_index_eq get_inner_index_eq)

text \<open>One store into an inner entry, seen on the flat map.\<close>

definition pt_update :: "bool \<Rightarrow> pt_directory \<Rightarrow> vaddr \<Rightarrow> (pt_inner_entry \<Rightarrow> pt_inner_entry) \<Rightarrow>
    pt_directory option" where
  "pt_update km pt va f = do {
     pt \<leftarrow> (if \<not> out_valid (pt_pages pt ! get_outer_index va) then pt_define_inner km pt va else Some pt);
     pt_store_inner pt va f }"

lemma page_split_eq_iff: "(p::nat) = q \<longleftrightarrow> p div 1024 = q div 1024 \<and> p mod 1024 = q mod 1024"
  by (metis div_mult_mod_eq)

lemma pt_update_flat:
  assumes wf: "pt_wf pt" and km: "km \<or> pt_entry pt (vpn va) \<noteq> None" and f: "\<And>e. in_valid (f e)"
  obtains pt' where "pt_update km pt va f = Some pt'" "pt_wf pt'"
    "pt_entry pt' = (pt_entry pt)(vpn va \<mapsto>
       (let e = f (case pt_entry pt (vpn va) of None \<Rightarrow> unused_inner_entry
                   | Some (pa, off) \<Rightarrow> \<lparr>in_valid = True, pfn = pa, swap_offset = off\<rparr>)
        in (pfn e, swap_offset e)))"
proof -
  let ?i = "vpn va div 1024" and ?j = "vpn va mod 1024"
  have i: "?i < 1024" and j: "?j < 1024" and b: "vpn va < 1048576"
    using vpn_bound [of va] by auto
  note len = wf [unfolded pt_wf_def, THEN conjunct2, THEN conjunct1]
  define ps where "ps = (case out_pages (pt_pages pt ! ?i) of
      None \<Rightarrow> replicate 1024 unused_inner_entry | Some ps \<Rightarrow> ps)"
  define out where "out = \<lparr>out_valid = True, out_size = 1024, out_pages = Some (ps[?j := f (ps ! ?j)])\<rparr>"
  define pt' where "pt' = pt\<lparr>pt_pages := (pt_pages pt)[?i := out]\<rparr>"
  have ps: "length ps = 1024 \<and> (\<forall>k<1024. in_valid (ps ! k) \<or> ps ! k = unused_inner_entry)"
    by (rule pt_wf_outer [OF wf i]) (simp_all add: ps_def)
  have old: "pt_entry pt q = (if in_valid (ps ! (q mod 1024))
        then Some (pfn (ps ! (q mod 1024)), swap_offset (ps ! (q mod 1024))) else None)"
    if "q div 1024 = ?i" "q < 1048576" for q
    using that by (rule_tac pt_wf_outer [OF wf i])
      (simp_all add: pt_entry_def ps_def Let_def unused_inner_entry_def)
  have entry: "(case pt_entry pt (vpn va) of None \<Rightarrow> unused_inner_entry
                   | Some (pa, off) \<Rightarrow> \<lparr>in_valid = True, pfn = pa, swap_offset = off\<rparr>) = ps ! ?j"
    using ps [THEN conjunct2, rule_format, OF j] b old [of "vpn va"] by auto
  have "pt_update km pt va f = Some pt'"
  proof (cases "out_valid (pt_pages pt ! ?i)")
    case True
    show ?thesis
      by (rule pt_wf_outer [OF wf i]) (use True in \<open>simp_all add: pt_update_def pt_store_inner_def
        Let_def get_outer_index_eq get_inner_index_eq pt'_def out_def ps_def outer_entry_update\<close>)
  next
    case False
    then have "pt_entry pt (vpn va) = None" using b by (simp add: pt_entry_def)
    with km have km by simp
    show ?thesis
      by (rule pt_wf_outer [OF wf i]) (use False \<open>km\<close> len i in \<open>simp_all add: pt_update_def
        pt_define_inner_def pt_store_inner_def Let_def get_outer_index_eq get_inner_index_eq
        pt'_def out_def ps_def\<close>)
  qed
  moreover have "pt_wf pt'" unfolding pt'_def out_def
    using wf i j ps f by (intro pt_wf_update) (auto simp: nth_list_update)
  moreover have "pt_entry pt' q = ((pt_entry pt)(vpn va \<mapsto> (pfn (f (ps ! ?j)), swap_offset (f (ps ! ?j))))) q" for q
  proof (cases "q < 1048576 \<and> q div 1024 = ?i")
    case True
    then have "pt_entry pt' q = (let e = ps[?j := f (ps ! ?j)] ! (q mod 1024)
        in if in_valid e then Some (pfn e, swap_offset e) else None)"
      using len i by (simp add: pt_entry_def pt'_def out_def)
    then show ?thesis
      using True old [of q] j ps f
      by (auto simp: Let_def nth_list_update page_split_eq_iff [of q])
  next
    case False
    then have "q \<noteq> vpn va" using b by auto
    moreover have "pt_entry pt' q = pt_entry pt q"
      using False by (auto simp: pt_entry_def pt'_def)
    ultimately show ?thesis by simp
  qed
  ultimately show thesis using that [of pt'] unfolding entry Let_def by (metis ext)
qed

lemma pt_set_pa_update: "pt_set_pa km pt va pa = pt_update km pt va (\<lambda>e. e\<lparr>in_valid := True, pfn := pa\<rparr>)"
  by (simp add: pt_set_pa_def pt_update_def)

lemma pt_set_offset_update:
  "pt_set_offset km pt va off = pt_update km pt va (\<lambda>e. e\<lparr>in_valid := True, swap_offset := off\<rparr>)"
  by (simp add: pt_set_offset_def pt_update_def)

definition entry_pa :: "(paddr \<times> int) option \<Rightarrow> paddr" where
  "entry_pa e = (case e of None \<Rightarrow> PFN_NOT_USED | Some x \<Rightarrow> fst x)"

definition entry_offset :: "(paddr \<times> int) option \<Rightarrow> int" where
  "entry_offset e = (case e of None \<Rightarrow> -1 | Some x \<Rightarrow> snd x)"

lemma entry_simps [simp]:
  "entry_pa None = 0" "entry_pa (Some (a, b)) = a"
  "entry_offset None = -1" "entry_offset (Some (a, b)) = b"
  by (simp_all add: entry_pa_def entry_offset_def)

lemma pt_wf_create: "pt_create True = Some pt \<Longrightarrow> pt_wf pt \<and> pt_entry pt = Map.empty"
  by (auto simp: pt_create_def pt_wf_def pt_entry_def Let_def intro!: ext)

section \<open>The interface\<close>

text \<open>
  What \<open>coremap.c\<close> and \<open>vmc1.c\<close> rely on: the four accessors act on a map from page
  numbers to entries. The client lemmas are about the two sequences of calls that move a page
  out to swap and back in.
\<close>

locale page_map =
  fixes wf :: "'t \<Rightarrow> bool"
    and entry :: "'t \<Rightarrow> nat \<Rightarrow> (paddr \<times> int) option"
    and get_pa :: "'t \<Rightarrow> vaddr \<Rightarrow> paddr option"
    and get_offset :: "'t \<Rightarrow> vaddr \<Rightarrow> int option"
    and set_pa :: "bool \<Rightarrow> 't \<Rightarrow> vaddr \<Rightarrow> paddr \<Rightarrow> 't option"
    and set_offset :: "bool \<Rightarrow> 't \<Rightarrow> vaddr \<Rightarrow> int \<Rightarrow> 't option"
  assumes get_pa: "wf t \<Longrightarrow> get_pa t va = Some (entry_pa (entry t (vpn va)))"
    and get_offset: "wf t \<Longrightarrow> get_offset t va = Some (entry_offset (entry t (vpn va)))"
    and set_pa: "wf t \<Longrightarrow> km \<or> entry t (vpn va) \<noteq> None \<Longrightarrow>
      \<exists>t'. set_pa km t va pa = Some t' \<and> wf t' \<and>
        entry t' = (entry t)(vpn va \<mapsto> (pa, entry_offset (entry t (vpn va))))"
    and set_offset: "wf t \<Longrightarrow> km \<or> entry t (vpn va) \<noteq> None \<Longrightarrow>
      \<exists>t'. set_offset km t va off = Some t' \<and> wf t' \<and>
        entry t' = (entry t)(vpn va \<mapsto> (entry_pa (entry t (vpn va)), off))"
begin

lemma set_both:
  assumes "wf t" and "km \<or> entry t (vpn va) \<noteq> None" and "vpn va' = vpn va"
  obtains t1 t2 where "set_offset km t va off = Some t1" "set_pa km t1 va' pa = Some t2" "wf t2"
    "entry t2 = (entry t)(vpn va \<mapsto> (pa, off))"
proof -
  from set_offset [OF assms(1,2)] obtain t1 where t1: "set_offset km t va off = Some t1" "wf t1"
    "entry t1 = (entry t)(vpn va \<mapsto> (entry_pa (entry t (vpn va)), off))" by blast
  with assms(3) have "km \<or> entry t1 (vpn va') \<noteq> None" by simp
  from set_pa [OF t1(2) this] obtain t2 where "set_pa km t1 va' pa = Some t2" "wf t2"
    "entry t2 = (entry t1)(vpn va' \<mapsto> (pa, entry_offset (entry t1 (vpn va'))))" by blast
  with t1 assms(3) show thesis by (intro that) auto
qed

lemma set_pa_fresh:
  assumes "wf t" and "entry t (vpn va) = None"
  obtains t' where "set_pa True t va pa = Some t'" "wf t'" "entry t' = (entry t)(vpn va \<mapsto> (pa, -1))"
  using set_pa [OF assms(1), of True va pa] assms(2) by auto

lemma set_pa_needs_memory:
  assumes "wf t" and "set_pa km t va pa = Some t'" and "km \<or> entry t (vpn va) \<noteq> None"
  shows "get_pa t' va = Some pa"
  using set_pa [OF assms(1,3), of pa] assms(2) by (auto simp: get_pa)

end

interpretation two_level: page_map pt_wf pt_entry pt_get_pa pt_get_offset pt_set_pa pt_set_offset
proof unfold_locales
  fix t va km pa off
  assume wf: "pt_wf t"
  show "pt_get_pa t va = Some (entry_pa (pt_entry t (vpn va)))"
    by (simp add: pt_get_pa_eq wf entry_pa_def)
  show "pt_get_offset t va = Some (entry_offset (pt_entry t (vpn va)))"
    by (simp add: pt_get_offset_eq wf entry_offset_def)
  assume km: "km \<or> pt_entry t (vpn va) \<noteq> None"
  show "\<exists>t'. pt_set_pa km t va pa = Some t' \<and> pt_wf t' \<and>
        pt_entry t' = (pt_entry t)(vpn va \<mapsto> (pa, entry_offset (pt_entry t (vpn va))))"
    unfolding pt_set_pa_update
    by (rule pt_update_flat [OF wf km, of "\<lambda>e. e\<lparr>in_valid := True, pfn := pa\<rparr>"])
       (auto simp: unused_inner_entry_def split: option.splits)
  show "\<exists>t'. pt_set_offset km t va off = Some t' \<and> pt_wf t' \<and>
        pt_entry t' = (pt_entry t)(vpn va \<mapsto> (entry_pa (pt_entry t (vpn va)), off))"
    unfolding pt_set_offset_update
    by (rule pt_update_flat [OF wf km, of "\<lambda>e. e\<lparr>in_valid := True, swap_offset := off\<rparr>"])
       (auto simp: unused_inner_entry_def split: option.splits)
qed

text \<open>An update that came back has the effect of the law, however full the heap was.\<close>

lemma pt_set_pa_mono: "pt_set_pa km t va pa = Some t' \<Longrightarrow> pt_set_pa True t va pa = Some t'"
  by (cases km) (auto simp: pt_set_pa_def pt_define_inner_def bind_eq_Some_conv split: if_splits)

lemma pt_set_offset_mono: "pt_set_offset km t va off = Some t' \<Longrightarrow> pt_set_offset True t va off = Some t'"
  by (cases km) (auto simp: pt_set_offset_def pt_define_inner_def bind_eq_Some_conv split: if_splits)

lemma pt_set_pa_SomeD:
  assumes "pt_wf t" and "pt_set_pa km t va pa = Some t'"
  shows "pt_wf t' \<and> pt_entry t' = (pt_entry t)(vpn va \<mapsto> (pa, entry_offset (pt_entry t (vpn va))))"
  using two_level.set_pa [OF assms(1), of True va pa] pt_set_pa_mono [OF assms(2)] by auto

lemma pt_set_offset_SomeD:
  assumes "pt_wf t" and "pt_set_offset km t va off = Some t'"
  shows "pt_wf t' \<and> pt_entry t' = (pt_entry t)(vpn va \<mapsto> (entry_pa (pt_entry t (vpn va)), off))"
  using two_level.set_offset [OF assms(1), of True va off] pt_set_offset_mono [OF assms(2)] by auto

section \<open>Reads after writes\<close>

text \<open>C9: The two-level page table is a flat map: with kernel memory at hand, \<open>pt_set_pa\<close> and
  \<open>pt_set_offset\<close> return, change exactly the field they name for exactly the page of the given
  address, and every \<open>pt_get_pa\<close> and \<open>pt_get_offset\<close>, of any address, reads what was last
  written there (0 and -1 for a page never written).\<close>

theorem page_table_reads_writes:
  assumes "pt_wf t"
  shows "(\<exists>t'. pt_set_pa True t va pa = Some t' \<and> pt_wf t' \<and>
      (\<forall>vb. pt_get_pa t' vb = (if vpn vb = vpn va then Some pa else pt_get_pa t vb) \<and>
            pt_get_offset t' vb = pt_get_offset t vb)) \<and>
    (\<exists>t'. pt_set_offset True t va off = Some t' \<and> pt_wf t' \<and>
      (\<forall>vb. pt_get_offset t' vb = (if vpn vb = vpn va then Some off else pt_get_offset t vb) \<and>
            pt_get_pa t' vb = pt_get_pa t vb))"
proof -
  from two_level.set_pa [where km = True and va = va and pa = pa, OF assms] obtain t1
    where "pt_set_pa True t va pa = Some t1" "pt_wf t1"
      "pt_entry t1 = (pt_entry t)(vpn va \<mapsto> (pa, entry_offset (pt_entry t (vpn va))))" by auto
  moreover from two_level.set_offset [where km = True and va = va and off = off, OF assms] obtain t2
    where "pt_set_offset True t va off = Some t2" "pt_wf t2"
      "pt_entry t2 = (pt_entry t)(vpn va \<mapsto> (entry_pa (pt_entry t (vpn va)), off))" by auto
  ultimately show ?thesis
    using assms by (simp add: two_level.get_pa two_level.get_offset)
qed

theorem page_table_reads_writes_witness:
  "\<exists>t t'. pt_create True = Some t \<and> pt_set_pa True t 0x400123 0x5000 = Some t' \<and>
     pt_get_pa t' 0x400fff = Some 0x5000 \<and> pt_get_pa t' 0x401000 = Some 0"
proof -
  obtain t where t: "pt_create True = Some t" by (simp add: pt_create_def)
  from pt_wf_create [OF t] have wf: "pt_wf t" and e: "pt_entry t = Map.empty" by auto
  from page_table_reads_writes [where va = "0x400123" and pa = "0x5000" and off = 0, OF wf] t
  show ?thesis by (auto simp: vpn_def two_level.get_pa [OF wf] e)
qed

end
