(* ===== verification/Statistics.thy ===== *)
theory Statistics
  imports Prelude
begin

text \<open>
  \<open>kern/vm/statistics.c\<close>: the ten event counters of the virtual memory system, their
  activation flag, and the consistency report of \<open>print_all_statistics\<close>. The report is
  modelled by the list of warnings it prints; the lines with the counters themselves are plain
  output. The counters are \<open>unsigned int\<close> and wrap.
\<close>

section \<open>Counters\<close>

datatype stat =
    TLB_FAULT | TLB_FAULT_FREE | TLB_FAULT_REPLACE | TLB_INVALIDATE | TLB_RELOAD
  | PAGE_FAULT_ZERO | PAGE_FAULT_DISK | ELF_FILE_READ | SWAP_FILE_READ | SWAP_FILE_WRITE

primrec stat_index :: "stat \<Rightarrow> nat" where
  "stat_index TLB_FAULT = 0"
| "stat_index TLB_FAULT_FREE = 1"
| "stat_index TLB_FAULT_REPLACE = 2"
| "stat_index TLB_INVALIDATE = 3"
| "stat_index TLB_RELOAD = 4"
| "stat_index PAGE_FAULT_ZERO = 5"
| "stat_index PAGE_FAULT_DISK = 6"
| "stat_index ELF_FILE_READ = 7"
| "stat_index SWAP_FILE_READ = 8"
| "stat_index SWAP_FILE_WRITE = 9"

abbreviation N_STATS :: nat where "N_STATS \<equiv> 10"

record statistics =
  counters :: "u32 list"
  is_active :: bool

definition init_statistics :: "statistics \<Rightarrow> statistics" where
  "init_statistics s = s\<lparr>counters := replicate N_STATS 0, is_active := True\<rparr>"

definition increment_statistics :: "nat \<Rightarrow> statistics \<Rightarrow> statistics option" where
  "increment_statistics stat s =
     (if is_active s then do {
        kassert (stat < N_STATS);
        Some (s\<lparr>counters := (counters s)[stat := counters s ! stat + 1]\<rparr>) }
      else Some s)"

datatype stat_warning =
    Faults_not_free_plus_replace u32 u32
  | Faults_not_reload_plus_disk_plus_zero u32 u32
  | Disk_not_elf_plus_swap u32 u32

definition counter :: "statistics \<Rightarrow> stat \<Rightarrow> u32" where
  "counter s k = counters s ! stat_index k"

definition print_all_statistics :: "statistics \<Rightarrow> stat_warning list" where
  "print_all_statistics s =
     (if \<not> is_active s then []
      else let tlb_faults = counter s TLB_FAULT;
               pf_disk = counter s PAGE_FAULT_DISK;
               fr = counter s TLB_FAULT_FREE + counter s TLB_FAULT_REPLACE;
               tlbr_pfd_pfz = counter s TLB_RELOAD + counter s PAGE_FAULT_DISK + counter s PAGE_FAULT_ZERO;
               pfelf_pfswp = counter s ELF_FILE_READ + counter s SWAP_FILE_READ
           in (if tlb_faults \<noteq> fr then [Faults_not_free_plus_replace tlb_faults fr] else [])
            @ (if tlb_faults \<noteq> tlbr_pfd_pfz
               then [Faults_not_reload_plus_disk_plus_zero tlb_faults tlbr_pfd_pfz] else [])
            @ (if pf_disk \<noteq> pfelf_pfswp then [Disk_not_elf_plus_swap pf_disk pfelf_pfswp] else []))"

section \<open>Counting as a total function\<close>

text \<open>\<open>tick k\<close> is what \<open>increment_statistics\<close> does for a named counter: it never fails.\<close>

definition tick :: "stat \<Rightarrow> statistics \<Rightarrow> statistics" where
  "tick k s = (if is_active s
     then s\<lparr>counters := (counters s)[stat_index k := counters s ! stat_index k + 1]\<rparr> else s)"

definition stats_wf :: "statistics \<Rightarrow> bool" where
  "stats_wf s \<longleftrightarrow> length (counters s) = N_STATS"

lemma stat_index_less [simp]: "stat_index k < N_STATS"
  by (cases k) simp_all

lemma stat_index_inj [simp]: "stat_index j = stat_index k \<longleftrightarrow> j = k"
  by (cases j; cases k) simp_all

declare stat_index.simps [simp del]

lemma increment_statistics_eq [simp]: "increment_statistics (stat_index k) s = Some (tick k s)"
  by (simp add: increment_statistics_def tick_def)

lemma is_active_tick [simp]: "is_active (tick k s) = is_active s"
  by (simp add: tick_def)

lemma stats_wf_tick [simp]: "stats_wf (tick k s) = stats_wf s"
  by (simp add: stats_wf_def tick_def)

lemma stats_wf_init [simp]: "stats_wf (init_statistics s)"
  by (simp add: stats_wf_def init_statistics_def)

lemma counter_tick:
  assumes "stats_wf s" and "is_active s"
  shows "counter (tick k s) j = (if j = k then counter s j + 1 else counter s j)"
proof -
  have "stat_index k < length (counters s)"
    using assms(1) stat_index_less [of k] by (simp only: stats_wf_def)
  then show ?thesis using assms(2) by (auto simp: counter_def tick_def nth_list_update)
qed

text \<open>
  The three equations \<open>print_all_statistics\<close> checks, with a debt: how many events of the
  current fault have been counted as served but not yet as TLB fault.
\<close>

definition stats_balanced :: "u32 \<Rightarrow> statistics \<Rightarrow> bool" where
  "stats_balanced debt s \<longleftrightarrow> stats_wf s \<and>
     (is_active s \<longrightarrow>
       counter s TLB_FAULT = counter s TLB_FAULT_FREE + counter s TLB_FAULT_REPLACE \<and>
       counter s TLB_FAULT + debt
         = counter s TLB_RELOAD + counter s PAGE_FAULT_DISK + counter s PAGE_FAULT_ZERO \<and>
       counter s PAGE_FAULT_DISK = counter s ELF_FILE_READ + counter s SWAP_FILE_READ)"

lemma stats_balanced_wf: "stats_balanced d s \<Longrightarrow> stats_wf s"
  by (simp add: stats_balanced_def)

lemma stats_balanced_init: "stats_balanced 0 (init_statistics s)"
proof -
  have "counter (init_statistics s) k = 0" for k
    using stat_index_less [of k] by (simp add: counter_def init_statistics_def del: replicate_Suc)
  then show ?thesis by (simp add: stats_balanced_def)
qed

lemma stats_balanced_silent: "stats_balanced 0 s \<Longrightarrow> print_all_statistics s = []"
  by (auto simp: stats_balanced_def print_all_statistics_def Let_def)

lemma stats_balanced_ticks:
  "stats_balanced d s \<Longrightarrow> stats_balanced d (tick SWAP_FILE_WRITE s)"
  "stats_balanced d s \<Longrightarrow> stats_balanced d (tick TLB_INVALIDATE s)"
  "stats_balanced d s \<Longrightarrow> stats_balanced (d + 1) (tick TLB_RELOAD s)"
  "stats_balanced d s \<Longrightarrow> stats_balanced (d + 1) (tick PAGE_FAULT_ZERO s)"
  "stats_balanced d s \<Longrightarrow> stats_balanced (d + 1) (tick PAGE_FAULT_DISK (tick ELF_FILE_READ s))"
  "stats_balanced d s \<Longrightarrow> stats_balanced (d + 1) (tick SWAP_FILE_READ (tick PAGE_FAULT_DISK s))"
  "stats_balanced (d + 1) s \<Longrightarrow> stats_balanced d (tick TLB_FAULT_FREE (tick TLB_FAULT s))"
  "stats_balanced (d + 1) s \<Longrightarrow> stats_balanced d (tick TLB_FAULT_REPLACE (tick TLB_FAULT s))"
  by (auto simp: stats_balanced_def counter_tick algebra_simps)

end
