(* ===== verification/Swapfile.thy ===== *)
theory Swapfile
  imports Statistics
begin

text \<open>
  \<open>kern/vm/swapfile.c\<close> and the physical-memory bump allocator of
  \<open>arch/mips/vm/ram.c\<close>. The swap file is an array of bytes with a table of 2304 page slots;
  its reads and writes can come up short, as the environment \<open>vm_io\<close> says. The interface other
  modules rely on, a store of pages addressed by file offset, is the locale \<open>backing_store\<close>.
\<close>

section \<open>Early physical memory\<close>

record ram_state =
  firstpaddr :: paddr
  lastpaddr :: paddr

definition ram_bootstrap :: "u32 \<Rightarrow> vaddr \<Rightarrow> ram_state" where
  "ram_bootstrap mainbus_ramsize firstfree =
     (let ramsize = (if mainbus_ramsize > 512 * 1024 * 1024 then 512 * 1024 * 1024 else mainbus_ramsize)
      in \<lparr>firstpaddr = firstfree - MIPS_KSEG0, lastpaddr = ramsize\<rparr>)"

definition ram_stealmem :: "nat \<Rightarrow> ram_state \<Rightarrow> paddr \<times> ram_state" where
  "ram_stealmem npages r =
     (let size = of_nat (npages * PAGE_SIZE)
      in if firstpaddr r + size > lastpaddr r then (0, r)
         else (firstpaddr r, r\<lparr>firstpaddr := firstpaddr r + size\<rparr>))"

definition ram_getsize :: "ram_state \<Rightarrow> paddr" where
  "ram_getsize r = lastpaddr r"

definition ram_getfirstfree :: "ram_state \<Rightarrow> paddr \<times> ram_state" where
  "ram_getfirstfree r = (firstpaddr r, \<lparr>firstpaddr = 0, lastpaddr = 0\<rparr>)"

text \<open>Page-granular view: frames \<open>nxt\<close> up to \<open>limit\<close> have not been handed out.\<close>

definition ram_frames :: "ram_state \<Rightarrow> nat \<Rightarrow> nat \<Rightarrow> bool" where
  "ram_frames r nxt limit \<longleftrightarrow> firstpaddr r = page_addr nxt \<and> lastpaddr r = page_addr limit \<and>
     0 < nxt \<and> nxt \<le> limit \<and> limit \<le> 131072"

lemma page_addr_add:
  "m + n < 1048576 \<Longrightarrow> page_addr m + of_nat n * 4096 = page_addr (m + n)"
  by (simp add: page_addr_def algebra_simps)

lemma page_addr_less_iff:
  "m < 1048576 \<Longrightarrow> n < 1048576 \<Longrightarrow> page_addr m < page_addr n \<longleftrightarrow> m < n"
  by (simp add: word_less_nat_alt unat_page_addr)

lemma ram_stealmem_frames:
  assumes "ram_frames r nxt limit" and "n \<le> 131072"
  shows "nxt + n \<le> limit \<Longrightarrow> ram_stealmem n r = (page_addr nxt, r\<lparr>firstpaddr := page_addr (nxt + n)\<rparr>)
           \<and> ram_frames (r\<lparr>firstpaddr := page_addr (nxt + n)\<rparr>) (nxt + n) limit"
    and "limit < nxt + n \<Longrightarrow> ram_stealmem n r = (0, r)"
  using assms by (simp_all add: ram_frames_def ram_stealmem_def page_addr_add page_addr_less_iff Let_def)

section \<open>The swap table\<close>

abbreviation FILE_SIZE :: nat where "FILE_SIZE \<equiv> 9437184"
abbreviation NUM_PAGES :: nat where "NUM_PAGES \<equiv> 2304"

record swap_page =
  ppadd :: paddr
  pvadd :: vaddr
  sp_offset :: int
  sp_free :: bool

record swap_state =
  swap_list :: "swap_page list"
  swap_open :: bool
  timesOut :: int
  timesIn :: int
  swap_data :: bytes

definition unused_swap_page :: swap_page where
  "unused_swap_page = \<lparr>ppadd = 0, pvadd = 0, sp_offset = 0, sp_free = True\<rparr>"

definition swapfile_init :: "vm_io \<Rightarrow> swap_state \<Rightarrow> swap_state option" where
  "swapfile_init io sw = do {
     let sw = sw\<lparr>swap_list := replicate NUM_PAGES unused_swap_page\<rparr>;
     kassert (io_open io);
     Some (sw\<lparr>swap_open := True\<rparr>) }"

definition swap_out ::
    "vm_io \<Rightarrow> paddr \<Rightarrow> vaddr \<Rightarrow> bytes \<Rightarrow> swap_state \<times> statistics \<Rightarrow> (int \<times> swap_state \<times> statistics) option" where
  "swap_out io ppaddr pvaddr mem = (\<lambda>(sw, st). do {
     free_index \<leftarrow> find_from sp_free 0 (swap_list sw);
     let sw = sw\<lparr>timesOut := timesOut sw + 1\<rparr>;
     let page_offset = free_index * PAGE_SIZE;
     kassert (page_offset < FILE_SIZE);
     kassert (ppaddr AND PAGE_FRAME = ppaddr);
     kassert (io_swap_write io (int page_offset) = 0);
     let sw = sw\<lparr>swap_data := blit (swap_data sw) page_offset mem (unat ppaddr) PAGE_SIZE\<rparr>;
     let sw = sw\<lparr>swap_list := (swap_list sw)[free_index :=
        \<lparr>ppadd = ppaddr, pvadd = pvaddr, sp_offset = int page_offset, sp_free = False\<rparr>]\<rparr>;
     st \<leftarrow> increment_statistics (stat_index SWAP_FILE_WRITE) st;
     Some (sp_offset (swap_list sw ! free_index), sw, st) })"

text \<open>An offset past the table would be an access out of bounds, outside the model.\<close>

definition swap_in ::
    "vm_io \<Rightarrow> paddr \<Rightarrow> int \<Rightarrow> bytes \<Rightarrow> swap_state \<times> statistics
      \<Rightarrow> (int \<times> bytes \<times> swap_state \<times> statistics) option" where
  "swap_in io ppadd' offset mem = (\<lambda>(sw, st). do {
     let sw = sw\<lparr>timesIn := timesIn sw + 1\<rparr>;
     kassert (offset \<ge> 0);
     let page_index = nat offset div PAGE_SIZE;
     kassert (page_index < length (swap_list sw));
     let sw = sw\<lparr>swap_list := (swap_list sw)[page_index := unused_swap_page]\<rparr>;
     let (result, resid) = io_swap_read io offset;
     kassert (result = None);
     kassert (resid = 0);
     let mem = blit mem (unat ppadd') (swap_data sw) (nat offset) PAGE_SIZE;
     st \<leftarrow> increment_statistics (stat_index PAGE_FAULT_DISK) st;
     st \<leftarrow> increment_statistics (stat_index SWAP_FILE_READ) st;
     Some (sp_offset (swap_list sw ! page_index), mem, sw, st) })"

definition swap_shutdown :: "swap_state \<Rightarrow> swap_state" where
  "swap_shutdown sw = sw\<lparr>swap_open := False, swap_list := replicate NUM_PAGES unused_swap_page\<rparr>"

definition getIn :: "swap_state \<Rightarrow> int" where
  "getIn sw = timesIn sw"

definition getOut :: "swap_state \<Rightarrow> int" where
  "getOut sw = timesOut sw"

section \<open>Slots\<close>

definition swap_wf :: "swap_state \<Rightarrow> bool" where
  "swap_wf sw \<longleftrightarrow> length (swap_list sw) = NUM_PAGES"

text \<open>What slot \<open>k\<close>, at file offset \<open>k * 4096\<close>, holds: the address and bytes of a page.\<close>

definition swap_slot :: "swap_state \<Rightarrow> nat \<Rightarrow> (vaddr \<times> bytes) option" where
  "swap_slot sw k =
     (if k < NUM_PAGES \<and> \<not> sp_free (swap_list sw ! k)
      then Some (pvadd (swap_list sw ! k), page_at (swap_data sw) (k * PAGE_SIZE)) else None)"

definition swap_full :: "swap_state \<Rightarrow> bool" where
  "swap_full sw \<longleftrightarrow> (\<forall>k<NUM_PAGES. swap_slot sw k \<noteq> None)"

lemma swap_slot_init [simp]:
  "swap_slot (sw\<lparr>swap_list := replicate NUM_PAGES unused_swap_page\<rparr>) k = None"
  "swap_slot (sw\<lparr>swap_list := replicate NUM_PAGES unused_swap_page, swap_open := b\<rparr>) k = None"
  by (auto simp: swap_slot_def unused_swap_page_def)

lemma swap_wf_init: "swapfile_init io sw = Some sw' \<Longrightarrow> swap_wf sw' \<and> swap_slot sw' k = None"
  by (auto simp: swapfile_init_def swap_wf_def Let_def)

lemma swap_full_find: "swap_wf sw \<Longrightarrow> find_from sp_free 0 (swap_list sw) = None \<longleftrightarrow> swap_full sw"
  by (auto simp: find_from_None_iff swap_full_def swap_slot_def swap_wf_def all_set_conv_all_nth)

lemma swap_out_success:
  assumes wf: "swap_wf sw"
  shows "(\<exists>r. swap_out io pa va mem (sw, st) = Some r) \<longleftrightarrow>
    (\<exists>k. find_from sp_free 0 (swap_list sw) = Some k \<and> io_swap_write io (int (k * PAGE_SIZE)) = 0) \<and>
    pa AND PAGE_FRAME = pa"
proof -
  have "k < NUM_PAGES" if "find_from sp_free 0 (swap_list sw) = Some k" for k
    using find_from_SomeD [OF that] wf by (simp add: swap_wf_def)
  then show ?thesis
    by (cases "find_from sp_free 0 (swap_list sw)")
       (auto simp: swap_out_def Let_def kassert_bind_if)
qed

lemma swap_out_SomeD:
  assumes wf: "swap_wf sw" and out: "swap_out io pa va mem (sw, st) = Some (off, sw', st')"
  obtains k where "off = int (k * PAGE_SIZE)" "st' = tick SWAP_FILE_WRITE st"
    "swap_wf sw'" "k < NUM_PAGES" "swap_slot sw k = None"
    "swap_slot sw' = (swap_slot sw)(k \<mapsto> (va, page_at mem (unat pa)))" "pa AND PAGE_FRAME = pa"
proof -
  from out obtain k where k: "find_from sp_free 0 (swap_list sw) = Some k"
    by (auto simp: swap_out_def bind_eq_Some_conv)
  from find_from_SomeD [OF k] wf have bound: "k < NUM_PAGES" and free: "sp_free (swap_list sw ! k)"
    by (auto simp: swap_wf_def)
  from out k bound wf have pa: "pa AND PAGE_FRAME = pa" and off: "off = int (k * PAGE_SIZE)"
    and st': "st' = tick SWAP_FILE_WRITE st"
    and sw': "sw' = sw\<lparr>timesOut := timesOut sw + 1,
      swap_data := blit (swap_data sw) (k * PAGE_SIZE) mem (unat pa) PAGE_SIZE,
      swap_list := (swap_list sw)[k :=
        \<lparr>ppadd = pa, pvadd = va, sp_offset = int (k * PAGE_SIZE), sp_free = False\<rparr>]\<rparr>"
    by (auto simp: swap_out_def Let_def swap_wf_def)
  have "swap_slot sw' j = ((swap_slot sw)(k \<mapsto> (va, page_at mem (unat pa)))) j" for j
  proof (cases "j = k")
    case True
    then show ?thesis using wf bound by (simp add: swap_slot_def sw' swap_wf_def pages)
  next
    case False
    then have "j * PAGE_SIZE + PAGE_SIZE \<le> k * PAGE_SIZE \<or> k * PAGE_SIZE + PAGE_SIZE \<le> j * PAGE_SIZE"
      by (rule frames_apart)
    with False show ?thesis by (simp add: swap_slot_def sw' pages)
  qed
  then have "swap_slot sw' = (swap_slot sw)(k \<mapsto> (va, page_at mem (unat pa)))" by (rule ext)
  then show thesis
    using that [of k] bound free wf off st' pa by (simp add: sw' swap_wf_def swap_slot_def)
qed

lemma swap_out_fails: "swap_wf sw \<Longrightarrow> swap_full sw \<Longrightarrow> swap_out io pa va mem (sw, st) = None"
  by (simp add: swap_out_def swap_full_find [symmetric])

lemma swap_in_eq:
  assumes wf: "swap_wf sw" and k: "k < NUM_PAGES" and io: "io_swap_read io (int (k * PAGE_SIZE)) = (None, 0)"
  obtains sw' where
    "swap_in io pa (int (k * PAGE_SIZE)) mem (sw, st)
      = Some (0, blit mem (unat pa) (swap_data sw) (k * PAGE_SIZE) PAGE_SIZE, sw',
              tick SWAP_FILE_READ (tick PAGE_FAULT_DISK st))"
    "swap_wf sw'" "swap_slot sw' = (swap_slot sw)(k := None)"
proof -
  define sw' where "sw' = sw\<lparr>timesIn := timesIn sw + 1,
      swap_list := (swap_list sw)[k := unused_swap_page]\<rparr>"
  have "swap_slot sw' j = ((swap_slot sw)(k := None)) j" for j
    using wf k by (auto simp: swap_slot_def sw'_def swap_wf_def unused_swap_page_def nth_list_update)
  then have "swap_slot sw' = (swap_slot sw)(k := None)" by (rule ext)
  moreover have "swap_in io pa (int (k * PAGE_SIZE)) mem (sw, st)
      = Some (0, blit mem (unat pa) (swap_data sw) (k * PAGE_SIZE) PAGE_SIZE, sw',
              tick SWAP_FILE_READ (tick PAGE_FAULT_DISK st))"
    using k io wf by (simp add: swap_in_def sw'_def Let_def swap_wf_def nat_mult_distrib unused_swap_page_def)
  moreover have "swap_wf sw'" using wf by (simp add: sw'_def swap_wf_def)
  ultimately show thesis by (rule that [rotated 2])
qed

section \<open>The interface\<close>

text \<open>
  A store of pages: \<open>put\<close> files the page in memory at a frame under an offset that was free,
  \<open>take\<close> brings it back and frees the offset. The client lemmas are about a page that stays
  out while other pages come and go.
\<close>

locale backing_store =
  fixes wf :: "'s \<Rightarrow> bool"
    and slot :: "'s \<Rightarrow> nat \<Rightarrow> (vaddr \<times> bytes) option"
    and put :: "paddr \<Rightarrow> vaddr \<Rightarrow> bytes \<Rightarrow> 's \<Rightarrow> (int \<times> 's) option"
    and take :: "paddr \<Rightarrow> int \<Rightarrow> bytes \<Rightarrow> 's \<Rightarrow> (bytes \<times> 's) option"
    and readable :: "int \<Rightarrow> bool"
  assumes put: "wf s \<Longrightarrow> put pa va m s = Some (off, s') \<Longrightarrow>
      \<exists>k. off = int (k * PAGE_SIZE) \<and> wf s' \<and> slot s k = None \<and>
          slot s' = (slot s)(k \<mapsto> (va, page_at m (unat pa)))"
    and take: "wf s \<Longrightarrow> slot s k = Some (va, c) \<Longrightarrow> readable (int (k * PAGE_SIZE)) \<Longrightarrow>
      \<exists>m' s'. take pa (int (k * PAGE_SIZE)) m s = Some (m', s') \<and> wf s' \<and>
          slot s' = (slot s)(k := None) \<and> page_at m' (unat pa) = c"
begin

lemma put_keeps_others:
  assumes "wf s" and "put pa va m s = Some (off, s')" and "slot s j = Some x"
  shows "slot s' j = Some x"
  using put [OF assms(1,2)] assms(3) by auto

lemma put_take:
  assumes "wf s" and "put pa va m s = Some (off, s1)" and "readable off"
  shows "\<exists>m' s2. take pa' off m1 s1 = Some (m', s2) \<and> slot s2 = slot s \<and>
           page_at m' (unat pa') = page_at m (unat pa)"
proof -
  from put [OF assms(1,2)] obtain k where k: "off = int (k * PAGE_SIZE)" "wf s1" "slot s k = None"
    "slot s1 = (slot s)(k \<mapsto> (va, page_at m (unat pa)))" by blast
  then have "slot s1 k = Some (va, page_at m (unat pa))" by simp
  from take [OF k(2) this, of pa' m1] k assms(3) show ?thesis by (auto simp: fun_upd_idem)
qed

lemma put_put_take:
  assumes "wf s" and "put pa va m s = Some (off, s1)" and "put pb vb n s1 = Some (off', s2)"
    and "readable off"
  shows "off' \<noteq> off"
    and "\<exists>m' s3. take pa' off m1 s2 = Some (m', s3) \<and> page_at m' (unat pa') = page_at m (unat pa)"
proof -
  from put [OF assms(1,2)] obtain k where k: "off = int (k * PAGE_SIZE)" "wf s1"
    "slot s1 = (slot s)(k \<mapsto> (va, page_at m (unat pa)))" by blast
  from put [OF k(2) assms(3)] obtain j where j: "off' = int (j * PAGE_SIZE)" "wf s2" "slot s1 j = None"
    "slot s2 = (slot s1)(j \<mapsto> (vb, page_at n (unat pb)))" by blast
  from k(3) j(3) have "j \<noteq> k" by auto
  with k j show "off' \<noteq> off" by simp
  from \<open>j \<noteq> k\<close> k j have "slot s2 k = Some (va, page_at m (unat pa))" by simp
  from take [OF j(2) this, of pa' m1] k(1) assms(4)
  show "\<exists>m' s3. take pa' off m1 s2 = Some (m', s3) \<and> page_at m' (unat pa') = page_at m (unat pa)"
    by auto
qed

end

definition swap_put :: "vm_io \<Rightarrow> paddr \<Rightarrow> vaddr \<Rightarrow> bytes \<Rightarrow> swap_state \<Rightarrow> (int \<times> swap_state) option" where
  "swap_put io pa va m sw =
     map_option (\<lambda>(off, sw', _). (off, sw'))
       (swap_out io pa va m (sw, \<lparr>counters = replicate N_STATS 0, is_active = False\<rparr>))"

definition swap_take :: "vm_io \<Rightarrow> paddr \<Rightarrow> int \<Rightarrow> bytes \<Rightarrow> swap_state \<Rightarrow> (bytes \<times> swap_state) option" where
  "swap_take io pa off m sw =
     map_option (\<lambda>(_, m', sw', _). (m', sw'))
       (swap_in io pa off m (sw, \<lparr>counters = replicate N_STATS 0, is_active = False\<rparr>))"

interpretation swapfile: backing_store swap_wf swap_slot "swap_put io" "swap_take io"
    "\<lambda>off. io_swap_read io off = (None, 0)" for io
proof unfold_locales
  fix s pa va m off s'
  assume wf: "swap_wf s" and put: "swap_put io pa va m s = Some (off, s')"
  let ?st = "\<lparr>counters = replicate N_STATS 0, is_active = False\<rparr> :: statistics"
  from put obtain st' where out: "swap_out io pa va m (s, ?st) = Some (off, s', st')"
    by (auto simp: swap_put_def)
  show "\<exists>k. off = int (k * PAGE_SIZE) \<and> swap_wf s' \<and> swap_slot s k = None \<and>
          swap_slot s' = (swap_slot s)(k \<mapsto> (va, page_at m (unat pa)))"
    by (rule swap_out_SomeD [OF wf out]) auto
next
  fix s k va c pa m
  assume wf: "swap_wf s" and slot: "swap_slot s k = Some (va, c)"
    and io: "io_swap_read io (int (k * PAGE_SIZE)) = (None, 0)"
  let ?st = "\<lparr>counters = replicate N_STATS 0, is_active = False\<rparr> :: statistics"
  from slot have k: "k < NUM_PAGES" and c: "c = page_at (swap_data s) (k * PAGE_SIZE)"
    by (auto simp: swap_slot_def split: if_splits)
  show "\<exists>m' s'. swap_take io pa (int (k * PAGE_SIZE)) m s = Some (m', s') \<and> swap_wf s' \<and>
          swap_slot s' = (swap_slot s)(k := None) \<and> page_at m' (unat pa) = c"
    by (rule swap_in_eq [OF wf k io, of pa m ?st]) (auto simp: swap_take_def c pages)
qed

text \<open>The interface hides the counters; the operations themselves do the same whatever they are.\<close>

lemma swap_put_counters:
  "swap_out io pa va m (sw, st) = Some (off, sw', st') \<Longrightarrow> swap_put io pa va m sw = Some (off, sw')"
  by (auto simp: swap_put_def swap_out_def Let_def bind_eq_Some_conv split: option.splits)

lemma swap_take_counters:
  "swap_take io pa off m sw = Some (m', sw') \<Longrightarrow> \<exists>r st'. swap_in io pa off m (sw, st) = Some (r, m', sw', st')"
  by (auto simp: swap_take_def swap_in_def Let_def bind_eq_Some_conv split: option.splits prod.splits if_splits)

end
