(* ===== verification/Segments.thy ===== *)
theory Segments
  imports Statistics
begin

text \<open>
  \<open>kern/vm/segments.c\<close>: the three segments of an address space and the demand loading of one
  page of a segment from the executable. The size computations are the 32-bit ones of the code
  (\<open>size_t\<close>, \<open>vaddr_t\<close> and \<open>unsigned long\<close> are 32 bits wide on the MIPS). Which bytes of
  the file go to which bytes of the frame is \<open>seg_plan_page\<close>; \<open>seg_load_page\<close> carries it out.
\<close>

section \<open>Segments\<close>

abbreviation PF_X :: u32 where "PF_X \<equiv> 1"
abbreviation PF_W :: u32 where "PF_W \<equiv> 2"
abbreviation PF_R :: u32 where "PF_R \<equiv> 4"
abbreviation PF_S :: u32 where "PF_S \<equiv> 8"
abbreviation PT_LOAD :: u32 where "PT_LOAD \<equiv> 1"
abbreviation VMC1_STACKPAGES :: u32 where "VMC1_STACKPAGES \<equiv> 12"

record segment =
  p_type :: u32
  p_offset :: u32
  p_vaddr :: u32
  p_filesz :: u32
  p_memsz :: u32
  p_permission :: u32
  seg_vnode :: "nat option"

definition empty_segment :: segment where
  "empty_segment = \<lparr>p_type = 0, p_offset = 0, p_vaddr = 0, p_filesz = 0, p_memsz = 0,
     p_permission = 0, seg_vnode = None\<rparr>"

definition seg_create :: "bool \<Rightarrow> segment option" where
  "seg_create km = do { kassert km; Some empty_segment }"

text \<open>The seven assertions that a segment has not been defined yet.\<close>

definition seg_check_undefined :: "segment \<Rightarrow> unit option" where
  "seg_check_undefined seg = do {
     kassert (p_type seg = 0);
     kassert (p_offset seg = 0);
     kassert (p_vaddr seg = 0);
     kassert (p_filesz seg = 0);
     kassert (p_memsz seg = 0);
     kassert (p_permission seg = 0);
     kassert (seg_vnode seg = None) }"

definition seg_define ::
    "segment \<Rightarrow> u32 \<Rightarrow> u32 \<Rightarrow> u32 \<Rightarrow> u32 \<Rightarrow> u32 \<Rightarrow> u32 \<Rightarrow> nat option \<Rightarrow> segment option" where
  "seg_define seg type offset vaddr filesz memsz permission v = do {
     seg_check_undefined seg;
     Some \<lparr>p_type = type, p_offset = offset, p_vaddr = vaddr, p_filesz = filesz,
           p_memsz = memsz, p_permission = permission, seg_vnode = v\<rparr> }"

definition seg_define_stack :: "segment \<Rightarrow> segment option" where
  "seg_define_stack seg = do {
     seg_check_undefined seg;
     Some \<lparr>p_type = PT_LOAD, p_offset = 0, p_vaddr = USERSTACK - VMC1_STACKPAGES * 4096,
           p_filesz = 0, p_memsz = VMC1_STACKPAGES * 4096, p_permission = PF_S,
           seg_vnode = None\<rparr> }"

definition seg_copy :: "bool \<Rightarrow> segment \<Rightarrow> segment option" where
  "seg_copy km old = do {
     newps \<leftarrow> seg_create km;
     seg_define newps (p_type old) (p_offset old) (p_vaddr old) (p_filesz old) (p_memsz old)
       (p_permission old) (seg_vnode old) }"

section \<open>Loading a page\<close>

text \<open>
  The destination, the length and the file offset of the read for the page of \<open>va\<close>, and the
  segment with its file size clamped: the body of \<open>seg_load_page\<close> up to the zeroing.
\<close>

definition seg_plan_page :: "segment \<Rightarrow> vaddr \<Rightarrow> paddr \<Rightarrow> (segment \<times> paddr \<times> u32 \<times> u32) option" where
  "seg_plan_page seg va pa = do {
     kassert (seg_vnode seg \<noteq> None);
     let npages = p_memsz seg + (va AND NOT PAGE_FRAME);
     let npages = (npages + 4096 - 1) AND PAGE_FRAME;
     let npages = npages div 4096;
     let seg = (if p_filesz seg > npages * 4096 then seg\<lparr>p_filesz := npages * 4096\<rparr> else seg);
     let page_index = (va - (p_vaddr seg AND PAGE_FRAME)) div 4096;
     kassert (page_index < npages);
     let vbaseoffset = p_vaddr seg AND NOT PAGE_FRAME;
     let filesz = p_filesz seg;
     if page_index = 0 then
       Some (seg, pa + vbaseoffset,
             if 4096 - vbaseoffset > filesz then filesz else 4096 - vbaseoffset,
             p_offset seg)
     else if page_index = npages - 1 then
       let voffset = (npages - 1) * 4096 - vbaseoffset
       in if filesz > voffset then Some (seg, pa, filesz - voffset, p_offset seg + voffset)
          else Some (seg, pa, 0, filesz)
     else if filesz > (page_index + 1) * 4096 - vbaseoffset then
       Some (seg, pa, 4096, p_offset seg + page_index * 4096 - vbaseoffset)
     else if filesz < page_index * 4096 - vbaseoffset then
       Some (seg, pa, 0, filesz)
     else
       Some (seg, pa, filesz - (page_index * 4096 - vbaseoffset),
             p_offset seg + page_index * 4096 - vbaseoffset) }"

text \<open>
  The result code is \<open>None\<close> for 0. Whatever bytes \<open>VOP_READ\<close> transferred are in memory, also
  when it fails or comes up short.
\<close>

definition seg_load_page ::
    "vm_io \<Rightarrow> segment \<Rightarrow> vaddr \<Rightarrow> paddr \<Rightarrow> bytes \<Rightarrow> statistics
      \<Rightarrow> (errno option \<times> segment \<times> bytes \<times> statistics) option" where
  "seg_load_page io seg va pa mem st = do {
     (seg, dest_paddr, read_len, file_offset) \<leftarrow> seg_plan_page seg va pa;
     v \<leftarrow> seg_vnode seg;
     kassert (pa > 0);
     let mem = fill mem (unat pa) PAGE_SIZE 0;
     st \<leftarrow> (if read_len = 0 then increment_statistics (stat_index PAGE_FAULT_ZERO) st
           else do {
             st \<leftarrow> increment_statistics (stat_index ELF_FILE_READ) st;
             increment_statistics (stat_index PAGE_FAULT_DISK) st });
     let (result, bs) = io_vop_read io v (uint file_offset) (unat read_len);
     let bs = take (unat read_len) bs;
     let mem = store mem (unat dest_paddr) bs;
     (case result of
        Some e \<Rightarrow> Some (Some e, seg, mem, st)
      | None \<Rightarrow> if length bs \<noteq> unat read_len then Some (Some ENOEXEC, seg, mem, st)
                else Some (None, seg, mem, st)) }"

section \<open>What a page of a segment holds\<close>

text \<open>
  Segments as the linker lays them out: page-aligned, in user space, the file part no longer
  than the memory part, and no wrap-around of the file offset. \<open>seg_contains\<close> is the half-open
  range the segment is defined on.
\<close>

definition seg_aligned :: "segment \<Rightarrow> bool" where
  "seg_aligned seg \<longleftrightarrow> p_vaddr seg AND PAGE_FRAME = p_vaddr seg \<and> p_filesz seg \<le> p_memsz seg \<and>
     unat (p_vaddr seg) + unat (p_memsz seg) \<le> unat USERSTACK \<and>
     unat (p_offset seg) + unat (p_filesz seg) < 2 ^ 32"

definition seg_contains :: "segment \<Rightarrow> vaddr \<Rightarrow> bool" where
  "seg_contains seg va \<longleftrightarrow> p_vaddr seg \<le> va \<and> unat va < unat (p_vaddr seg) + unat (p_memsz seg)"

definition seg_page_index :: "segment \<Rightarrow> vaddr \<Rightarrow> nat" where
  "seg_page_index seg va = vpn va - vpn (p_vaddr seg)"

text \<open>The bytes of the file that belong on the page: the rest of the file part from the page's
  start, at most a page, nothing when the page is past the file part.\<close>

definition seg_page_bytes :: "segment \<Rightarrow> vaddr \<Rightarrow> nat" where
  "seg_page_bytes seg va = min PAGE_SIZE (unat (p_filesz seg) - seg_page_index seg va * PAGE_SIZE)"

definition seg_page_offset :: "segment \<Rightarrow> vaddr \<Rightarrow> nat" where
  "seg_page_offset seg va = unat (p_offset seg) + seg_page_index seg va * PAGE_SIZE"

lemma not_frame_mask: "va AND NOT PAGE_FRAME = va AND (0xFFF :: u32)"
proof -
  have "(NOT PAGE_FRAME :: u32) = 0xFFF"
    unfolding frame_mask_eq disp_mask_eq by (intro bit_eqI) (auto simp: bit_simps)
  then show ?thesis by metis
qed

lemma unat_page_disp: "unat (va AND NOT PAGE_FRAME) = unat va mod 4096"
  unfolding not_frame_mask by (rule displacement_bits)

lemma aligned_disp: "a AND PAGE_FRAME = a \<Longrightarrow> a AND NOT PAGE_FRAME = 0"
  by (metis and.right_neutral bit.conj_cancel_right and.assoc and_zero_eq)

lemma aligned_unat: "a AND PAGE_FRAME = a \<Longrightarrow> unat a = vpn a * 4096"
  by (metis page_addr_vpn_unat page_frame_mask)

lemma page_round_up:
  fixes n :: u32
  assumes "unat n + 4095 < 2 ^ 32"
  shows "unat (((n + 4096 - 1) AND PAGE_FRAME) div 4096) = (unat n + 4095) div 4096"
proof -
  have "unat (n + 4096 - 1) = unat n + 4095"
  proof -
    have "n + 4096 - 1 = n + 4095" by (simp add: algebra_simps)
    then show ?thesis using assms by (simp add: unat_word_ariths)
  qed
  then have "vpn (n + 4096 - 1) = (unat n + 4095) div 4096" by (simp add: vpn_def)
  moreover have "unat (((n + 4096 - 1) AND PAGE_FRAME) div 4096) = vpn (n + 4096 - 1)"
    unfolding page_frame_mask by (simp only: unat_div page_addr_vpn_unat) simp
  ultimately show ?thesis by simp
qed

lemma seg_page_arith:
  assumes al: "seg_aligned seg" and inn: "seg_contains seg va"
  defines "k \<equiv> seg_page_index seg va" and "np \<equiv> (unat (p_memsz seg) + unat va mod 4096 + 4095) div 4096"
  shows "unat ((va - (p_vaddr seg AND PAGE_FRAME)) div 4096) = k" and "k < np"
    and "np \<le> 524289"
    and "unat (p_filesz seg) \<le> np * 4096"
    and "unat (((p_memsz seg + (va AND NOT PAGE_FRAME) + 4096 - 1) AND PAGE_FRAME) div 4096) = np"
proof -
  have v: "p_vaddr seg AND PAGE_FRAME = p_vaddr seg" and fm: "unat (p_filesz seg) \<le> unat (p_memsz seg)"
    and top: "unat (p_vaddr seg) + unat (p_memsz seg) \<le> 2147483648"
    using al by (auto simp: seg_aligned_def word_le_nat_alt)
  have vv: "unat (p_vaddr seg) = vpn (p_vaddr seg) * 4096" by (rule aligned_unat [OF v])
  have lo: "unat (p_vaddr seg) \<le> unat va" and hi: "unat va < unat (p_vaddr seg) + unat (p_memsz seg)"
    using inn by (auto simp: seg_contains_def word_le_nat_alt)
  have "unat (va - p_vaddr seg) = unat va - unat (p_vaddr seg)"
    using lo by (simp add: unat_sub_if')
  then have "unat ((va - p_vaddr seg) div 4096) = (unat va - unat (p_vaddr seg)) div 4096"
    by (simp add: unat_div)
  moreover have "(unat va - unat (p_vaddr seg)) div 4096 = k"
    unfolding k_def seg_page_index_def vpn_def [of va] vv using lo vv by simp
  ultimately show "unat ((va - (p_vaddr seg AND PAGE_FRAME)) div 4096) = k" unfolding v by simp
  have "k * 4096 + unat va mod 4096 = unat va - unat (p_vaddr seg)"
  proof -
    have "vpn (p_vaddr seg) \<le> unat va div 4096" using lo vv by linarith
    then have "k * 4096 = unat va div 4096 * 4096 - vpn (p_vaddr seg) * 4096"
      unfolding k_def seg_page_index_def vpn_def [of va] by (simp add: diff_mult_distrib)
    moreover have "unat va = unat va div 4096 * 4096 + unat va mod 4096" by simp
    ultimately show ?thesis using vv lo \<open>vpn (p_vaddr seg) \<le> unat va div 4096\<close> by linarith
  qed
  then show "k < np" using hi lo unfolding np_def by linarith
  show "np \<le> 524289" "unat (p_filesz seg) \<le> np * 4096"
    using top fm unfolding np_def by linarith+
  have "unat (p_memsz seg + (va AND NOT PAGE_FRAME)) = unat (p_memsz seg) + unat va mod 4096"
    using top unfolding not_frame_mask by (simp add: unat_word_ariths displacement_bits)
  then show "unat (((p_memsz seg + (va AND NOT PAGE_FRAME) + 4096 - 1) AND PAGE_FRAME) div 4096) = np"
    using top page_round_up [of "p_memsz seg + (va AND NOT PAGE_FRAME)"] unfolding np_def by simp
qed


lemma seg_plan_cases:
  fixes seg :: segment and va :: vaddr
  defines "npw \<equiv> ((p_memsz seg + (va AND NOT PAGE_FRAME) + 4096 - 1) AND PAGE_FRAME) div 4096"
    and "kw \<equiv> (va - (p_vaddr seg AND PAGE_FRAME)) div 4096"
  assumes v: "seg_vnode seg \<noteq> None" and clamp: "\<not> p_filesz seg > npw * 4096" and lt: "kw < npw"
    and base: "p_vaddr seg AND NOT PAGE_FRAME = 0"
  shows "seg_plan_page seg va pa =
    (if kw = 0 then
       Some (seg, pa, if 4096 > p_filesz seg then p_filesz seg else 4096, p_offset seg)
     else if kw = npw - 1 then
       (if p_filesz seg > (npw - 1) * 4096
        then Some (seg, pa, p_filesz seg - (npw - 1) * 4096, p_offset seg + (npw - 1) * 4096)
        else Some (seg, pa, 0, p_filesz seg))
     else if p_filesz seg > (kw + 1) * 4096 then
       Some (seg, pa, 4096, p_offset seg + kw * 4096)
     else if p_filesz seg < kw * 4096 then Some (seg, pa, 0, p_filesz seg)
     else Some (seg, pa, p_filesz seg - kw * 4096, p_offset seg + kw * 4096))"
  unfolding seg_plan_page_def Let_def npw_def [symmetric]
  using v lt clamp
  by (simp only: kassert_bind_if if_True if_False simp_thms kw_def [symmetric] base add_0_right
      diff_zero cong: if_cong)

lemma word_split_page:
  fixes w f off :: u32 and k :: nat
  assumes "unat w = k * 4096" "unat off + unat f < 4294967296"
  shows "f > w \<longleftrightarrow> unat f > k * 4096" "w > f \<longleftrightarrow> k * 4096 > unat f"
    "k * 4096 \<le> unat f \<Longrightarrow> unat (f - w) = unat f - k * 4096"
    "k * 4096 \<le> unat f \<Longrightarrow> unat (off + w) = unat off + k * 4096"
  using assms by (simp_all add: word_less_nat_alt unat_sub_if' unat_word_ariths)

lemma word_pages:
  fixes w :: u32
  assumes "unat w = n" "n \<le> 524289"
  shows "unat (w * 4096) = n * 4096" "unat ((w + 1) * 4096) = (n + 1) * 4096"
    "0 < n \<Longrightarrow> unat (w - 1) = n - 1"
  using assms by (auto simp: unat_word_ariths unat_sub_if')

lemma seg_plan_page_spec:
  assumes al: "seg_aligned seg" and inn: "seg_contains seg va" and v: "seg_vnode seg \<noteq> None"
  shows "\<exists>len off. seg_plan_page seg va pa = Some (seg, pa, len, off) \<and>
    unat len = seg_page_bytes seg va \<and>
    (0 < seg_page_bytes seg va \<longrightarrow> unat off = seg_page_offset seg va)"
proof -
  define k where "k = seg_page_index seg va"
  define np where "np = (unat (p_memsz seg) + unat va mod 4096 + 4095) div 4096"
  define npw where "npw = ((p_memsz seg + (va AND NOT PAGE_FRAME) + 4096 - 1) AND PAGE_FRAME) div 4096"
  define kw where "kw = (va - (p_vaddr seg AND PAGE_FRAME)) div 4096"
  note ar = seg_page_arith [OF al inn, folded k_def np_def npw_def kw_def]
  have kn: "k \<le> 524289" "0 < np" using ar(2,3) by auto
  have base: "p_vaddr seg AND NOT PAGE_FRAME = 0"
    using al by (intro aligned_disp) (simp add: seg_aligned_def)
  have off: "unat (p_offset seg) + unat (p_filesz seg) < 4294967296"
    using al by (simp add: seg_aligned_def)
  note npw_nat = word_pages [OF ar(5) ar(3)] and kw_nat = word_pages [OF ar(1) kn(1)]
  define hw where "hw = (kw + 1) * 4096"
  define lw where "lw = (npw - 1) * 4096"
  have last4: "unat lw = (np - 1) * 4096"
    unfolding lw_def using word_pages(1) [OF npw_nat(3) [OF kn(2)]] ar(3) by simp
  note lst = word_split_page [OF last4 off] and mid = word_split_page [OF kw_nat(1) off]
    and nxt = word_split_page [OF kw_nat(2) [folded hw_def] off]
  have clamp: "\<not> p_filesz seg > npw * 4096"
    using ar(4) npw_nat(1) by (simp add: word_less_nat_alt)
  have lt: "kw < npw" using ar(1,2,5) by (simp add: word_less_nat_alt)
  note plan = seg_plan_cases [OF v, of va pa, folded npw_def kw_def, OF clamp lt base, folded lw_def hw_def]
  have bytes: "seg_page_bytes seg va = min 4096 (unat (p_filesz seg) - k * 4096)"
    by (simp add: seg_page_bytes_def k_def)
  have so: "seg_page_offset seg va = unat (p_offset seg) + k * 4096"
    by (simp add: seg_page_offset_def k_def)
  consider (first) "kw = 0" | (last) "kw \<noteq> 0" "kw = npw - 1" | (middle) "kw \<noteq> 0" "kw \<noteq> npw - 1"
    by blast
  then show ?thesis
  proof cases
    case first
    then have "k = 0" using ar(1) by simp
    with first show ?thesis unfolding plan bytes so by (auto simp: word_less_nat_alt)
  next
    case last
    then have "k = np - 1" using ar(1) npw_nat(3) kn(2) by metis
    with last ar(4) show ?thesis unfolding plan bytes so by (auto simp: lst kn)
  next
    case middle
    then show ?thesis unfolding plan bytes so by (auto simp: mid nxt)
  qed
qed
section \<open>The loaded page\<close>

text \<open>A vnode that is a plain file with content \<open>c\<close>: reads stop at its end and never fail.\<close>

definition io_file :: "vm_io \<Rightarrow> nat \<Rightarrow> u8 list \<Rightarrow> bool" where
  "io_file io v c \<longleftrightarrow> (\<forall>off n. io_vop_read io v off n = (None, take n (drop (nat off) c)))"

definition seg_page_content :: "u8 list \<Rightarrow> segment \<Rightarrow> vaddr \<Rightarrow> bytes" where
  "seg_page_content c seg va =
     (\<lambda>i. if i < seg_page_bytes seg va then c ! (seg_page_offset seg va + i) else 0)"

lemma seg_page_bytes_le: "seg_page_bytes seg va \<le> PAGE_SIZE"
  by (simp add: seg_page_bytes_def)

lemma page_at_store_same:
  "length bs \<le> PAGE_SIZE \<Longrightarrow> page_at (store (fill m a PAGE_SIZE 0) a bs) a
     = (\<lambda>i. if i < length bs then bs ! i else 0)"
  by (rule ext) (auto simp: page_at_def store_def fill_def)

lemma seg_load_page_cases:
  assumes al: "seg_aligned seg" and inn: "seg_contains seg va" and v: "seg_vnode seg = Some v"
    and pa: "0 < pa"
  obtains bs r where
    "seg_load_page io seg va pa mem st = Some (r, seg, store (fill mem (unat pa) PAGE_SIZE 0) (unat pa) bs,
       if seg_page_bytes seg va = 0 then tick PAGE_FAULT_ZERO st
       else tick PAGE_FAULT_DISK (tick ELF_FILE_READ st))"
    "length bs \<le> seg_page_bytes seg va" "r = None \<longrightarrow> length bs = seg_page_bytes seg va"
    "\<And>c. io_file io v c \<Longrightarrow> unat (p_offset seg) + unat (p_filesz seg) \<le> length c \<Longrightarrow>
       r = None \<and> bs = take (seg_page_bytes seg va) (drop (seg_page_offset seg va) c)"
proof -
  let ?n = "seg_page_bytes seg va"
  from seg_plan_page_spec [OF al inn, of pa] v obtain len off where
    plan: "seg_plan_page seg va pa = Some (seg, pa, len, off)" and len: "unat len = ?n"
    and off: "0 < ?n \<Longrightarrow> unat off = seg_page_offset seg va" by auto
  obtain res bs0 where rd: "io_vop_read io v (uint off) ?n = (res, bs0)" by fastforce
  define bs where "bs = take ?n bs0"
  define r where "r = (case res of Some e \<Rightarrow> Some e | None \<Rightarrow> if length bs \<noteq> ?n then Some ENOEXEC else None)"
  have nil: "?n = 0 \<Longrightarrow> bs = []" by (simp add: bs_def)
  have len0: "len = 0 \<longleftrightarrow> ?n = 0" using len by (metis unat_eq_zero)
  have "seg_load_page io seg va pa mem st = Some (r, seg, store (fill mem (unat pa) PAGE_SIZE 0) (unat pa) bs,
       if ?n = 0 then tick PAGE_FAULT_ZERO st else tick PAGE_FAULT_DISK (tick ELF_FILE_READ st))"
    using nil by (simp add: seg_load_page_def plan v pa rd len len0 r_def bs_def [symmetric] Let_def
        split: option.split)
  moreover have "length bs \<le> ?n" by (simp add: bs_def)
  moreover have "r = None \<longrightarrow> length bs = ?n" by (auto simp: r_def split: option.splits if_splits)
  moreover have "r = None \<and> bs = take ?n (drop (seg_page_offset seg va) c)"
    if c: "io_file io v c" "unat (p_offset seg) + unat (p_filesz seg) \<le> length c" for c
  proof (cases "?n = 0")
    case True
    with c(1) rd show ?thesis by (simp add: io_file_def r_def bs_def)
  next
    case False
    with off have o: "unat off = seg_page_offset seg va" by simp
    from c(1) rd o have "res = None" "bs0 = take ?n (drop (seg_page_offset seg va) c)"
      by (simp_all add: io_file_def)
    moreover have "seg_page_offset seg va + ?n \<le> length c"
      using c(2) False by (auto simp: seg_page_offset_def seg_page_bytes_def)
    ultimately show ?thesis by (simp add: r_def bs_def)
  qed
  ultimately show thesis by (rule that)
qed

lemma seg_load_page_content:
  assumes "seg_aligned seg" "seg_contains seg va" "seg_vnode seg = Some v" "0 < pa"
    and "io_file io v c" "unat (p_offset seg) + unat (p_filesz seg) \<le> length c"
  obtains mem' where "seg_load_page io seg va pa mem st = Some (None, seg, mem',
       if seg_page_bytes seg va = 0 then tick PAGE_FAULT_ZERO st
       else tick PAGE_FAULT_DISK (tick ELF_FILE_READ st))"
    "page_at mem' (unat pa) = seg_page_content c seg va"
    "\<And>a. a + PAGE_SIZE \<le> unat pa \<or> unat pa + PAGE_SIZE \<le> a \<Longrightarrow> page_at mem' a = page_at mem a"
proof -
  let ?n = "seg_page_bytes seg va"
  obtain bs r where l: "seg_load_page io seg va pa mem st
       = Some (r, seg, store (fill mem (unat pa) PAGE_SIZE 0) (unat pa) bs,
       if ?n = 0 then tick PAGE_FAULT_ZERO st else tick PAGE_FAULT_DISK (tick ELF_FILE_READ st))"
    "length bs \<le> ?n" "r = None" "bs = take ?n (drop (seg_page_offset seg va) c)"
    using seg_load_page_cases [OF assms(1-4), of io mem st] assms(5,6) by metis
  have room: "seg_page_offset seg va + ?n \<le> length c" if "0 < ?n"
    using assms(6) that by (auto simp: seg_page_offset_def seg_page_bytes_def)
  then have bs: "length bs = ?n" using l(4) by (cases "?n = 0") auto
  show thesis
  proof (rule that [of "store (fill mem (unat pa) PAGE_SIZE 0) (unat pa) bs"])
    show "page_at (store (fill mem (unat pa) PAGE_SIZE 0) (unat pa) bs) (unat pa) = seg_page_content c seg va"
      using bs l(4) seg_page_bytes_le [of seg va] room
      by (subst page_at_store_same) (auto simp: seg_page_content_def)
    show "page_at (store (fill mem (unat pa) PAGE_SIZE 0) (unat pa) bs) a = page_at mem a"
      if "a + PAGE_SIZE \<le> unat pa \<or> unat pa + PAGE_SIZE \<le> a" for a
    proof -
      have "a + PAGE_SIZE \<le> unat pa \<or> unat pa + length bs \<le> a"
        using that bs seg_page_bytes_le [of seg va] by linarith
      with that show ?thesis by (simp add: page_at_store_other page_at_fill_other)
    qed
  qed (use l in simp)
qed

text \<open>The first address past an aligned segment that ends on a page boundary fails the
  index assertion.\<close>

lemma seg_plan_page_end:
  assumes "seg_aligned seg" and "seg_vnode seg \<noteq> None" and "unat (p_memsz seg) mod 4096 = 0"
    and "unat va = unat (p_vaddr seg) + unat (p_memsz seg)"
  shows "seg_plan_page seg va pa = None"
proof -
  have v: "p_vaddr seg AND PAGE_FRAME = p_vaddr seg"
    and top: "unat (p_vaddr seg) + unat (p_memsz seg) \<le> 2147483648"
    using assms(1) by (auto simp: seg_aligned_def word_le_nat_alt)
  define npw where "npw = ((p_memsz seg + (va AND NOT PAGE_FRAME) + 4096 - 1) AND PAGE_FRAME) div 4096"
  define kw where "kw = (va - (p_vaddr seg AND PAGE_FRAME)) div 4096"
  have vv: "unat (p_vaddr seg) mod 4096 = 0" using aligned_unat [OF v] by simp
  have "unat va mod 4096 = 0" unfolding assms(4) using assms(3) vv by (simp add: mod_0_imp_dvd)
  then have "unat (va AND NOT PAGE_FRAME) = 0" by (metis unat_page_disp)
  then have "va AND NOT PAGE_FRAME = 0" by (metis unat_eq_zero)
  then have "unat npw = (unat (p_memsz seg) + 4095) div 4096"
    unfolding npw_def using page_round_up [of "p_memsz seg"] top by simp
  also have "\<dots> = unat (p_memsz seg) div 4096"
  proof -
    from assms(3) obtain m where "unat (p_memsz seg) = 4096 * m" by (metis mod_0_imp_dvd dvdE)
    then show ?thesis by simp
  qed
  finally have "unat npw = unat (p_memsz seg) div 4096" .
  moreover have "unat (va - p_vaddr seg) = unat (p_memsz seg)"
    using assms(4) by (simp add: unat_sub_if')
  then have "unat kw = unat (p_memsz seg) div 4096" unfolding kw_def v by (simp add: unat_div)
  ultimately have "\<not> kw < npw" by (simp add: word_less_nat_alt)
  moreover have "p_vaddr (if b then seg\<lparr>p_filesz := w\<rparr> else seg) = p_vaddr seg" for b w by simp
  ultimately show ?thesis
    unfolding seg_plan_page_def Let_def npw_def [symmetric]
    by (simp only: kassert_bind_if kw_def [symmetric] if_False) simp
qed

section \<open>The page a fault brings in\<close>

text \<open>C10: A page of a segment is loaded as the ELF header prescribes: for an aligned segment and an
  address inside it, \<open>seg_load_page\<close> returns without an error, the frame holds the bytes of the
  executable that belong to that page followed by zeros (zeros only, past the file size), and no
  other page of memory is touched.\<close>

theorem segment_page_is_loaded:
  assumes "seg_aligned seg" and "seg_contains seg va" and "seg_vnode seg = Some v" and "0 < pa"
    and "io_file io v c" and "unat (p_offset seg) + unat (p_filesz seg) \<le> length c"
  shows "\<exists>mem' st'. seg_load_page io seg va pa mem st = Some (None, seg, mem', st') \<and>
    page_at mem' (unat pa) = seg_page_content c seg va \<and>
    (\<forall>a. a + PAGE_SIZE \<le> unat pa \<or> unat pa + PAGE_SIZE \<le> a \<longrightarrow> page_at mem' a = page_at mem a)"
  using seg_load_page_content [OF assms, of mem st] by metis

theorem segment_page_is_loaded_witness:
  "\<exists>io seg mem' st st'. seg_load_page io seg 0x400004 0x2000 (\<lambda>_. 9) st = Some (None, seg, mem', st') \<and>
     mem' 0x2001 = 22 \<and> mem' 0x2005 = 0"
proof -
  define c :: "u8 list" where "c = [11, 22, 33, 44, 55]"
  define io where "io = \<lparr>io_kmalloc = True, io_open = True, io_swap_write = (\<lambda>_. 0), io_swap_read = (\<lambda>_. (None, 0)),
     io_vop_read = (\<lambda>v off len. (None, take len (drop (nat off) c)))\<rparr>"
  define seg where "seg = \<lparr>p_type = PT_LOAD, p_offset = 0, p_vaddr = 0x400000, p_filesz = 5, p_memsz = 8192,
     p_permission = 5, seg_vnode = Some 7\<rparr>"
  have "\<exists>mem' st'. seg_load_page io seg 0x400004 0x2000 (\<lambda>_. 9) (undefined :: statistics) = Some (None, seg, mem', st') \<and>
    page_at mem' (unat (0x2000 :: u32)) = seg_page_content c seg 0x400004 \<and>
    (\<forall>a. a + PAGE_SIZE \<le> unat (0x2000 :: u32) \<or> unat (0x2000 :: u32) + PAGE_SIZE \<le> a \<longrightarrow> page_at mem' a = page_at (\<lambda>_. 9) a)"
    by (rule segment_page_is_loaded)
      (simp_all add: seg_def seg_aligned_def seg_contains_def c_def io_file_def io_def)
  then obtain mem' st' where run: "seg_load_page io seg 0x400004 0x2000 (\<lambda>_. 9) undefined = Some (None, seg, mem', st')"
    and pg: "page_at mem' 0x2000 = seg_page_content c seg 0x400004" by auto
  have "mem' 0x2001 = 22" "mem' 0x2005 = 0"
    using fun_cong [OF pg, of 1] fun_cong [OF pg, of 5]
    by (simp_all add: page_at_def seg_page_content_def seg_page_bytes_def seg_page_offset_def seg_page_index_def
        seg_def c_def vpn_def)
  with run show ?thesis by blast
qed

text \<open>The first address past a segment that ends on a page boundary must not reach
  \<open>seg_load_page\<close>: the page computation fails its assertion there and the kernel panics.
  (\<open>as_get_segment\<close>, whose upper bounds are inclusive, does pass that address on.)\<close>

theorem segment_end_panics:
  assumes "seg_aligned seg" and "seg_vnode seg \<noteq> None" and "unat (p_memsz seg) mod 4096 = 0"
    and "unat va = unat (p_vaddr seg) + unat (p_memsz seg)"
  shows "seg_load_page io seg va pa mem st = None"
  using seg_plan_page_end [OF assms] by (simp add: seg_load_page_def)

theorem segment_end_panics_witness:
  "\<forall>io mem st. seg_load_page io \<lparr>p_type = PT_LOAD, p_offset = 0, p_vaddr = 0x400000, p_filesz = 5, p_memsz = 8192,
     p_permission = 5, seg_vnode = Some 7\<rparr> 0x402000 0x2000 mem st = None"
  by (intro allI, rule segment_end_panics) (simp_all add: seg_aligned_def)

end
