(* ===== verification/Tlb.thy ===== *)
theory Tlb
  imports Prelude
begin

text \<open>
  The 64-entry MIPS TLB as \<open>arch/mips/include/tlb.h\<close> specifies it (the functions are the
  assembly of \<open>arch/mips/vm/tlb-mips161.S\<close>), and the round-robin choice of a slot in
  \<open>kern/vm/vmc1.c\<close>. An entry is the pair of its words entryhi and entrylo; a probe matches
  the page field whether or not the entry is valid.
\<close>

type_synonym tlb = "(u32 \<times> u32) list"

abbreviation NUM_TLB :: nat where "NUM_TLB \<equiv> 64"
abbreviation TLBLO_PPAGE :: u32 where "TLBLO_PPAGE \<equiv> 0xfffff000"
abbreviation TLBLO_DIRTY :: u32 where "TLBLO_DIRTY \<equiv> 0x400"
abbreviation TLBLO_VALID :: u32 where "TLBLO_VALID \<equiv> 0x200"
abbreviation TLBLO_INVALID :: u32 where "TLBLO_INVALID \<equiv> 0"

definition TLBHI_INVALID :: "nat \<Rightarrow> u32" where
  "TLBHI_INVALID entryno = page_addr (0x80000 + entryno)"

definition tlb_write :: "u32 \<Rightarrow> u32 \<Rightarrow> nat \<Rightarrow> tlb \<Rightarrow> tlb" where
  "tlb_write entryhi entrylo index t = t[index := (entryhi, entrylo)]"

definition tlb_read :: "nat \<Rightarrow> tlb \<Rightarrow> u32 \<times> u32" where
  "tlb_read index t = t ! index"

definition tlb_probe :: "u32 \<Rightarrow> tlb \<Rightarrow> int" where
  "tlb_probe entryhi t =
     (case find_from (\<lambda>e. vpn (fst e) = vpn entryhi) 0 t of None \<Rightarrow> -1 | Some k \<Rightarrow> int k)"

text \<open>The flush loop of \<open>as_activate\<close> and \<open>as_deactivate\<close>.\<close>

fun tlb_flush_from :: "nat list \<Rightarrow> tlb \<Rightarrow> tlb" where
  "tlb_flush_from [] t = t"
| "tlb_flush_from (i # is) t = tlb_flush_from is (tlb_write (TLBHI_INVALID i) TLBLO_INVALID i t)"

definition tlb_flush :: "tlb \<Rightarrow> tlb" where
  "tlb_flush t = tlb_flush_from [0..<NUM_TLB] t"

text \<open>\<open>tlb_get_rr_victim\<close>: the slot to overwrite and the new value of \<open>current_victim\<close>.\<close>

definition tlb_get_rr_victim :: "nat \<Rightarrow> nat \<times> nat" where
  "tlb_get_rr_victim current_victim = (current_victim, (current_victim + 1) mod NUM_TLB)"

section \<open>Well-formed TLBs\<close>

text \<open>
  Every slot is either invalidated with its own unmapped page or holds a valid translation of
  a user page, and no two slots hold the same page: the condition the hardware requires.
\<close>

definition tlb_entry :: "(nat \<Rightarrow> u32 \<Rightarrow> bool) \<Rightarrow> nat \<Rightarrow> u32 \<times> u32 \<Rightarrow> bool" where
  "tlb_entry R i e \<longleftrightarrow>
     e = (TLBHI_INVALID i, TLBLO_INVALID) \<or>
     (\<exists>p. p < 0x80000 \<and> fst e = page_addr p \<and> snd e AND TLBLO_VALID \<noteq> 0 \<and> R p (snd e))"

definition tlb_ok :: "(nat \<Rightarrow> u32 \<Rightarrow> bool) \<Rightarrow> tlb \<Rightarrow> bool" where
  "tlb_ok R t \<longleftrightarrow> length t = NUM_TLB \<and> (\<forall>i<NUM_TLB. tlb_entry R i (t ! i)) \<and>
     distinct (map (vpn \<circ> fst) t)"

definition tlb_has :: "tlb \<Rightarrow> nat \<Rightarrow> bool" where
  "tlb_has t p \<longleftrightarrow> (\<exists>e\<in>set t. vpn (fst e) = p)"

lemma vpn_TLBHI_INVALID: "i < NUM_TLB \<Longrightarrow> vpn (TLBHI_INVALID i) = 0x80000 + i"
  by (simp add: TLBHI_INVALID_def vpn_page_addr)

lemma tlb_entry_mono:
  "tlb_entry R i e \<Longrightarrow> (\<And>p lo. fst e = page_addr p \<Longrightarrow> p < 0x80000 \<Longrightarrow> lo = snd e \<Longrightarrow> R p lo \<Longrightarrow> R' p lo)
    \<Longrightarrow> tlb_entry R' i e"
  unfolding tlb_entry_def by blast

lemma tlb_ok_mono:
  assumes "tlb_ok R t"
    and "\<And>p lo. p < 0x80000 \<Longrightarrow> tlb_has t p \<Longrightarrow> R p lo \<Longrightarrow> R' p lo"
  shows "tlb_ok R' t"
proof -
  have "tlb_entry R' i (t ! i)" if i: "i < NUM_TLB" for i
  proof (rule tlb_entry_mono)
    show "tlb_entry R i (t ! i)" using assms(1) i by (simp add: tlb_ok_def)
    fix p lo assume p: "fst (t ! i) = page_addr p" "p < 0x80000" and "R p lo"
    moreover have "t ! i \<in> set t" using assms(1) i by (simp add: tlb_ok_def)
    then have "tlb_has t p"
      using p by (auto simp: tlb_has_def vpn_page_addr intro!: bexI [of _ "t ! i"])
    ultimately show "R' p lo" using assms(2) by blast
  qed
  with assms(1) show ?thesis by (simp add: tlb_ok_def)
qed

lemma tlb_probe_miss: "tlb_probe va t < 0 \<longleftrightarrow> \<not> tlb_has t (vpn va)"
proof (cases "find_from (\<lambda>e. vpn (fst e) = vpn va) 0 t")
  case None
  then have "\<not> tlb_has t (vpn va)" by (auto simp: tlb_has_def find_from_None_iff)
  with None show ?thesis by (simp add: tlb_probe_def)
next
  case (Some k)
  from find_from_SomeD [OF Some] have "k < length t" "vpn (fst (t ! k)) = vpn va" by auto
  then have "tlb_has t (vpn va)" unfolding tlb_has_def by (metis nth_mem)
  with Some show ?thesis by (simp add: tlb_probe_def)
qed

lemma tlb_probe_hit:
  assumes "tlb_has t (vpn va)"
  obtains k where "tlb_probe va t = int k" "k < length t" "vpn (fst (t ! k)) = vpn va"
proof -
  from assms have "find_from (\<lambda>e. vpn (fst e) = vpn va) 0 t \<noteq> None"
    by (auto simp: find_from_None_iff tlb_has_def)
  then obtain k where k: "find_from (\<lambda>e. vpn (fst e) = vpn va) 0 t = Some k" by blast
  from find_from_SomeD [OF k] k show thesis by (intro that [of k]) (auto simp: tlb_probe_def)
qed

lemma tlb_has_nth: "tlb_has t p \<longleftrightarrow> (\<exists>i<length t. vpn (fst (t ! i)) = p)"
  unfolding tlb_has_def by (metis in_set_conv_nth)

text \<open>Writing a slot keeps the pages distinct when the page is not in the TLB yet.\<close>

lemma tlb_ok_write:
  assumes "tlb_ok R t" and "i < NUM_TLB" and "tlb_entry R i (hi, lo)"
    and "\<And>j. j < NUM_TLB \<Longrightarrow> j \<noteq> i \<Longrightarrow> vpn (fst (t ! j)) \<noteq> vpn hi"
  shows "tlb_ok R (tlb_write hi lo i t)"
proof -
  have len: "length t = NUM_TLB" using assms(1) by (simp add: tlb_ok_def)
  have "distinct ((map (vpn \<circ> fst) t)[i := vpn hi])"
    using assms(1,2) assms(4) [symmetric] assms(4) len
    unfolding distinct_conv_nth tlb_ok_def by (simp add: nth_list_update)
  then have "distinct (map (vpn \<circ> fst) (t[i := (hi, lo)]))"
    by (simp add: map_update comp_def)
  with assms len show ?thesis
    by (auto simp: tlb_ok_def tlb_write_def nth_list_update)
qed

lemma tlb_has_write:
  "i < length t \<Longrightarrow> tlb_has (tlb_write hi lo i t) p \<longleftrightarrow>
    p = vpn hi \<or> (\<exists>j<length t. j \<noteq> i \<and> vpn (fst (t ! j)) = p)"
  by (auto simp: tlb_has_nth tlb_write_def nth_list_update)

lemma tlb_ok_has:
  assumes "tlb_ok R t" and "tlb_has t p" and "p < 0x80000"
  obtains i where "i < NUM_TLB" "fst (t ! i) = page_addr p" "R p (snd (t ! i))"
    "snd (t ! i) AND TLBLO_VALID \<noteq> 0"
proof -
  from assms(1,2) obtain i where i: "i < NUM_TLB" "vpn (fst (t ! i)) = p"
    by (auto simp: tlb_has_nth tlb_ok_def)
  with assms(1) have "tlb_entry R i (t ! i)" by (simp add: tlb_ok_def)
  with i assms(3) show thesis
    by (auto simp: tlb_entry_def vpn_TLBHI_INVALID vpn_page_addr intro: that)
qed

text \<open>Invalidation of the slot a probe found.\<close>

definition tlb_invalidate_page :: "u32 \<Rightarrow> tlb \<Rightarrow> tlb" where
  "tlb_invalidate_page va t =
     (let index = tlb_probe va t
      in if index \<ge> 0 then tlb_write (TLBHI_INVALID (nat index)) TLBLO_INVALID (nat index) t else t)"

lemma tlb_ok_invalidate:
  assumes ok: "tlb_ok R t" and user: "vpn va < 0x80000"
  shows "tlb_ok R (tlb_invalidate_page va t)"
    and "\<not> tlb_has (tlb_invalidate_page va t) (vpn va)"
    and "tlb_has (tlb_invalidate_page va t) p \<Longrightarrow> p < 0x80000 \<Longrightarrow> tlb_has t p"
proof -
  have len: "length t = NUM_TLB" using ok by (simp add: tlb_ok_def)
  consider (miss) "\<not> tlb_has t (vpn va)" | (hit) "tlb_has t (vpn va)" by blast
  then have "tlb_ok R (tlb_invalidate_page va t) \<and> \<not> tlb_has (tlb_invalidate_page va t) (vpn va) \<and>
      (tlb_has (tlb_invalidate_page va t) p \<longrightarrow> p < 0x80000 \<longrightarrow> tlb_has t p)"
  proof cases
    case miss
    then have "tlb_invalidate_page va t = t"
      using tlb_probe_miss [of va t] by (auto simp: tlb_invalidate_page_def Let_def)
    with miss ok show ?thesis by simp
  next
    case hit
    then obtain k where k: "tlb_probe va t = int k" "k < NUM_TLB" "vpn (fst (t ! k)) = vpn va"
      using len by (auto elim: tlb_probe_hit)
    then have eq: "tlb_invalidate_page va t = tlb_write (TLBHI_INVALID k) TLBLO_INVALID k t"
      by (simp add: tlb_invalidate_page_def)
    have others: "vpn (fst (t ! j)) \<noteq> 0x80000 + k" if "j < NUM_TLB" "j \<noteq> k" for j
    proof -
      have "tlb_entry R j (t ! j)" using ok that by (simp add: tlb_ok_def)
      then show ?thesis using that k(2)
        by (auto simp: tlb_entry_def vpn_TLBHI_INVALID vpn_page_addr)
    qed
    have uniq: "vpn (fst (t ! j)) \<noteq> vpn va" if "j < NUM_TLB" "j \<noteq> k" for j
    proof -
      have "distinct (map (vpn \<circ> fst) t)" using ok by (simp add: tlb_ok_def)
      with that k(2) len have "vpn (fst (t ! j)) \<noteq> vpn (fst (t ! k))"
        by (simp add: distinct_conv_nth)
      with k(3) show ?thesis by simp
    qed
    have "tlb_ok R (tlb_invalidate_page va t)" unfolding eq
      using ok k(2) others by (intro tlb_ok_write) (auto simp: tlb_entry_def vpn_TLBHI_INVALID)
    moreover have "\<not> tlb_has (tlb_invalidate_page va t) (vpn va)"
      using k(2) len user uniq by (auto simp: eq tlb_has_write vpn_TLBHI_INVALID)
    moreover have "tlb_has t p" if "tlb_has (tlb_invalidate_page va t) p" "p < 0x80000"
    proof -
      have "p = vpn (TLBHI_INVALID k) \<or> (\<exists>j<length t. j \<noteq> k \<and> vpn (fst (t ! j)) = p)"
        using that(1) k(2) len unfolding eq by (simp add: tlb_has_write)
      then show ?thesis using that(2) k(2) by (auto simp: vpn_TLBHI_INVALID tlb_has_nth)
    qed
    ultimately show ?thesis by blast
  qed
  then show "tlb_ok R (tlb_invalidate_page va t)"
    and "\<not> tlb_has (tlb_invalidate_page va t) (vpn va)"
    and "tlb_has (tlb_invalidate_page va t) p \<Longrightarrow> p < 0x80000 \<Longrightarrow> tlb_has t p"
    by blast+
qed

section \<open>The flush\<close>

lemma tlb_flush_from_nth:
  "distinct is \<Longrightarrow> \<forall>i\<in>set is. i < length t \<Longrightarrow> j < length t \<Longrightarrow>
    tlb_flush_from is t ! j = (if j \<in> set is then (TLBHI_INVALID j, TLBLO_INVALID) else t ! j)
    \<and> length (tlb_flush_from is t) = length t"
  by (induction "is" arbitrary: t) (auto simp: tlb_write_def)

lemma tlb_flush_eq:
  assumes "length t = NUM_TLB"
  shows "tlb_flush t = map (\<lambda>i. (TLBHI_INVALID i, TLBLO_INVALID)) [0..<NUM_TLB]"
proof (rule nth_equalityI)
  have "tlb_flush t ! 0 = (TLBHI_INVALID 0, TLBLO_INVALID) \<and> length (tlb_flush t) = length t"
    unfolding tlb_flush_def using tlb_flush_from_nth [of "[0..<NUM_TLB]" t 0] assms
    by (simp del: upt_Suc)
  then show "length (tlb_flush t) = length (map (\<lambda>i. (TLBHI_INVALID i, TLBLO_INVALID)) [0..<NUM_TLB])"
    using assms by simp
  then show "tlb_flush t ! i = map (\<lambda>i. (TLBHI_INVALID i, TLBLO_INVALID)) [0..<NUM_TLB] ! i"
    if "i < length (tlb_flush t)" for i
    using tlb_flush_from_nth [of "[0..<NUM_TLB]" t i] that assms by (simp add: tlb_flush_def)
qed

lemma tlb_ok_flush:
  assumes "length t = NUM_TLB"
  shows "tlb_ok R (tlb_flush t)" and "p < 0x80000 \<Longrightarrow> \<not> tlb_has (tlb_flush t) p"
proof -
  have "map (vpn \<circ> fst) (tlb_flush t) = map (\<lambda>i. 0x80000 + i) [0..<NUM_TLB]"
    by (simp add: tlb_flush_eq [OF assms] vpn_TLBHI_INVALID del: upt_Suc)
  moreover have "distinct (map (\<lambda>i. 0x80000 + i) [0..<NUM_TLB])"
    by (simp add: distinct_map inj_on_def del: upt_Suc)
  ultimately have "distinct (map (vpn \<circ> fst) (tlb_flush t))" by metis
  then show "tlb_ok R (tlb_flush t)"
    by (simp add: tlb_flush_eq [OF assms] tlb_ok_def tlb_entry_def del: upt_Suc)
  show "\<not> tlb_has (tlb_flush t) p" if "p < 0x80000"
    using that by (auto simp: tlb_flush_eq [OF assms] tlb_has_def vpn_TLBHI_INVALID simp del: upt_Suc)
qed


section \<open>Translation\<close>

text \<open>What the hardware makes of an address: the frame address and whether writes are allowed.\<close>

definition tlb_translate :: "tlb \<Rightarrow> vaddr \<Rightarrow> (paddr \<times> bool) option" where
  "tlb_translate t va =
     (let i = tlb_probe va t
      in if i < 0 then None
         else let lo = snd (t ! nat i)
              in if lo AND TLBLO_VALID = 0 then None
                 else Some (lo AND TLBLO_PPAGE, lo AND TLBLO_DIRTY \<noteq> 0))"

lemma tlb_translate_entry:
  assumes ok: "tlb_ok R t" and i: "i < NUM_TLB" "t ! i = (page_addr p, lo)" and p: "p = vpn va" "p < 0x80000"
  shows "tlb_translate t va = Some (lo AND TLBLO_PPAGE, lo AND TLBLO_DIRTY \<noteq> 0)"
proof -
  have len: "length t = NUM_TLB" and dist: "distinct (map (vpn \<circ> fst) t)" and ent: "tlb_entry R i (t ! i)"
    using ok i(1) by (simp_all add: tlb_ok_def)
  have vi: "vpn (fst (t ! i)) = p" using i p by (simp add: vpn_page_addr)
  have "tlb_has t p" using vi i len by (auto simp: tlb_has_nth)
  then obtain k where k: "tlb_probe va t = int k" "k < length t" "vpn (fst (t ! k)) = p"
    unfolding p(1) by (rule tlb_probe_hit)
  have "k = i"
    using dist k(2,3) vi i(1) len unfolding distinct_conv_nth by (metis (no_types, lifting) comp_apply length_map nth_map)
  moreover have "lo AND TLBLO_VALID \<noteq> 0"
    using ent i p vpn_TLBHI_INVALID [OF i(1)] by (auto simp: tlb_entry_def page_addr_eq_iff TLBHI_INVALID_def)
  ultimately show ?thesis using k(1) i by (simp add: tlb_translate_def)
qed

lemma tlb_translate_SomeD:
  assumes ok: "tlb_ok R t" and tr: "tlb_translate t va = Some (pa, w)" and va: "vpn va < 0x80000"
  obtains lo where "R (vpn va) lo" "pa = lo AND TLBLO_PPAGE" "w \<longleftrightarrow> lo AND TLBLO_DIRTY \<noteq> 0"
proof -
  from tr have "\<not> tlb_probe va t < 0" by (auto simp: tlb_translate_def Let_def)
  then have "tlb_has t (vpn va)" using tlb_probe_miss by blast
  then obtain k where k: "tlb_probe va t = int k" "k < length t" "vpn (fst (t ! k)) = vpn va"
    by (rule tlb_probe_hit)
  have kn: "k < NUM_TLB" and ent: "tlb_entry R k (t ! k)" using ok k by (simp_all add: tlb_ok_def)
  have "fst (t ! k) \<noteq> TLBHI_INVALID k"
    using k(3) va vpn_TLBHI_INVALID [OF kn] by auto
  with ent obtain p where "p < 0x80000" "fst (t ! k) = page_addr p" "R p (snd (t ! k))"
    by (auto simp: tlb_entry_def)
  with k(3) have "R (vpn va) (snd (t ! k))" by (simp add: vpn_page_addr)
  then show thesis
    by (rule that) (use tr k(1) in \<open>auto simp: tlb_translate_def Let_def split: if_splits\<close>)
qed

end
