(* ===== verification/Coremap.thy ===== *)
theory Coremap
  imports PageTable Swapfile Segments Tlb
begin

text \<open>
  \<open>kern/vm/coremap.c\<close> and \<open>kern/vm/vm_tlb.c\<close>: the table of physical frames, the allocation
  of frames to user pages and to the kernel, and page replacement. The state \<open>vm_state\<close> is the
  virtual memory system as a whole, because eviction reaches from the frame table into the swap
  file, the page table, the TLB and the statistics. Page tables and address spaces live in
  heaps, so that two address spaces can share a page table, as after \<open>as_copy\<close>.

  An index outside the frame table makes a call not return (\<open>None\<close>): in C it would be an access
  out of bounds. \<open>vm_can_sleep\<close> asserts that no spinlock is held, which the sequential model
  has no way to violate, so it does not appear.
\<close>

section \<open>State\<close>

datatype status_t = fixed | free | dirty | clean

record coremap_entry =
  ce_as :: "nat option"
  status :: status_t
  ce_vaddr :: vaddr
  alloc_size :: nat

record addrspace =
  as_pt :: nat
  as_code :: segment
  as_data :: segment
  as_stack :: segment

record vm_state =
  coremap :: "coremap_entry list"
  coremapActive :: bool
  cm_victim :: nat
  ram :: ram_state
  swap :: swap_state
  tlb :: tlb
  tlb_victim :: nat
  stats :: statistics
  mem :: bytes
  pts :: "nat \<rightharpoonup> pt_directory"
  ases :: "nat \<rightharpoonup> addrspace"
  next_ptr :: nat
  curas :: "nat option"

abbreviation nRamFrames :: "vm_state \<Rightarrow> nat" where
  "nRamFrames s \<equiv> length (coremap s)"

definition cm_get :: "nat \<Rightarrow> vm_state \<Rightarrow> coremap_entry option" where
  "cm_get i s = (if i < length (coremap s) then Some (coremap s ! i) else None)"

definition cm_set :: "nat \<Rightarrow> coremap_entry \<Rightarrow> vm_state \<Rightarrow> vm_state option" where
  "cm_set i e s = (if i < length (coremap s) then Some (s\<lparr>coremap := (coremap s)[i := e]\<rparr>) else None)"

section \<open>Start and shutdown\<close>

definition isCoremapActive :: "vm_state \<Rightarrow> bool" where
  "isCoremapActive s = coremapActive s"

text \<open>
  The table is a \<open>kmalloc\<close> of 16 bytes per frame. Before the coremap is active, a request of
  2048 bytes or more takes whole pages from \<open>ram_stealmem\<close>; smaller ones are left to the heap.
\<close>

definition coremap_init :: "vm_io \<Rightarrow> vm_state \<Rightarrow> vm_state option" where
  "coremap_init io s = do {
     let n = unat (ram_getsize (ram s)) div PAGE_SIZE;
     kassert (n > 0);
     let coremap_size = 16 * n;
     kassert (io_kmalloc io);
     let s = (if coremap_size \<ge> 2048
              then s\<lparr>ram := snd (ram_stealmem ((coremap_size + PAGE_SIZE - 1) div PAGE_SIZE) (ram s))\<rparr>
              else s);
     Some (s\<lparr>coremap := replicate n \<lparr>ce_as = None, status = clean, ce_vaddr = 0, alloc_size = 0\<rparr>,
             coremapActive := True\<rparr>) }"

definition coremap_shutdown :: "vm_state \<Rightarrow> vm_state" where
  "coremap_shutdown s = s\<lparr>coremapActive := False, coremap := []\<rparr>"

section \<open>Choosing a victim\<close>

text \<open>
  The loop of \<open>get_victim_coremap\<close>: it may not end, when no run of \<open>sz\<close> frames is
  replaceable. \<open>len\<close> frames up to \<open>victim\<close> have been found, \<open>cv\<close> is the static
  \<open>current_victim\<close>.
\<close>

definition replaceable :: "coremap_entry \<Rightarrow> bool" where
  "replaceable e \<longleftrightarrow> status e \<noteq> fixed \<and> status e \<noteq> clean"

text \<open>The frame the scan looks at next: it starts over where the run would not fit any more.\<close>

definition scan_pos :: "coremap_entry list \<Rightarrow> nat \<Rightarrow> nat \<Rightarrow> nat \<Rightarrow> nat" where
  "scan_pos cm sz len cv = (if cv + (sz - len) \<ge> length cm then 1 else cv)"

partial_function (option) victim_scan ::
    "coremap_entry list \<Rightarrow> nat \<Rightarrow> nat \<Rightarrow> nat \<Rightarrow> int \<Rightarrow> (int \<times> nat) option" where
  "victim_scan cm sz len cv victim =
     (if len < sz then
        let cv = scan_pos cm sz len cv
        in if cv \<ge> length cm then None
           else if replaceable (cm ! cv)
             then victim_scan cm sz (len + 1) ((cv + 1) mod length cm) (int cv)
             else victim_scan cm sz 0 ((cv + 1) mod length cm) (int cv)
      else Some (victim - (int len - 1), cv))"

definition get_victim_coremap :: "nat \<Rightarrow> vm_state \<Rightarrow> (nat \<times> vm_state) option" where
  "get_victim_coremap sz s = do {
     kassert (sz \<noteq> 0);
     (victim, cv) \<leftarrow> victim_scan (coremap s) sz 0 (cm_victim s) (-1);
     if 0 \<le> victim then Some (nat victim, s\<lparr>cm_victim := cv\<rparr>) else None }"

section \<open>Eviction\<close>

definition tlb_remove_by_va :: "vaddr \<Rightarrow> vm_state \<Rightarrow> int \<times> vm_state" where
  "tlb_remove_by_va va s =
     (case curas s of None \<Rightarrow> (-1, s) | Some _ \<Rightarrow> (0, s\<lparr>tlb := tlb_invalidate_page va (tlb s)\<rparr>))"

text \<open>
  The common sequence of \<open>getppage_user\<close> and \<open>getppages\<close> that moves the page in frame
  \<open>pos\<close> to swap. It records the move in the page table of the requesting address space \<open>a\<close>,
  as the code does, not in that of the frame's owner.
\<close>

definition evict_frame :: "vm_io \<Rightarrow> nat \<Rightarrow> nat \<Rightarrow> vm_state \<Rightarrow> vm_state option" where
  "evict_frame io a pos s = do {
     let victim_pa = page_addr pos;
     e \<leftarrow> cm_get pos s;
     let victim_va = ce_vaddr e;
     (result_swap_out, sw, st) \<leftarrow> swap_out io victim_pa victim_va (mem s) (swap s, stats s);
     let s = s\<lparr>swap := sw, stats := st\<rparr>;
     A \<leftarrow> ases s a;
     pt \<leftarrow> pts s (as_pt A);
     pt \<leftarrow> pt_set_offset (io_kmalloc io) pt victim_va result_swap_out;
     pt \<leftarrow> pt_set_pa (io_kmalloc io) pt victim_va 0;
     let s = s\<lparr>pts := (pts s)(as_pt A \<mapsto> pt)\<rparr>;
     let (result, s) = tlb_remove_by_va victim_va s;
     kassert (result = 0);
     Some s }"

fun evict_frames :: "vm_io \<Rightarrow> nat \<Rightarrow> nat list \<Rightarrow> vm_state \<Rightarrow> vm_state option" where
  "evict_frames io a [] s = Some s"
| "evict_frames io a (pos # ps) s = do { s \<leftarrow> evict_frame io a pos s; evict_frames io a ps s }"

section \<open>Frames for user pages\<close>

definition getppage_user :: "vm_io \<Rightarrow> vaddr \<Rightarrow> nat \<Rightarrow> vm_state \<Rightarrow> (paddr \<times> vm_state) option" where
  "getppage_user io va a s = do {
     (pa, pos, s) \<leftarrow>
       (case find_from (\<lambda>e. status e = free) 1 (drop 1 (coremap s)) of
          Some i \<Rightarrow> Some (page_addr i, i, s)
        | None \<Rightarrow>
            let (pa, r) = ram_stealmem 1 (ram s); s = s\<lparr>ram := r\<rparr>
            in if pa = 0 then do {
                 (victim, s) \<leftarrow> get_victim_coremap 1 s;
                 s \<leftarrow> evict_frame io a victim s;
                 Some (page_addr victim, victim, s) }
               else Some (pa, unat pa div PAGE_SIZE, s));
     s \<leftarrow> cm_set pos \<lparr>ce_as = Some a, status = dirty, ce_vaddr = va, alloc_size = 1\<rparr> s;
     Some (pa, s) }"

definition page_alloc :: "vm_io \<Rightarrow> vaddr \<Rightarrow> vm_state \<Rightarrow> (paddr \<times> vm_state) option" where
  "page_alloc io va s =
     (if \<not> isCoremapActive s then Some (0, s)
      else do { a \<leftarrow> curas s; getppage_user io va a s })"

definition page_free :: "paddr \<Rightarrow> vm_state \<Rightarrow> vm_state option" where
  "page_free addr s = do {
     let pos = unat addr div PAGE_SIZE;
     e \<leftarrow> cm_get pos s;
     kassert (status e \<noteq> fixed);
     cm_set pos \<lparr>ce_as = None, status = free, ce_vaddr = 0, alloc_size = 0\<rparr> s }"

section \<open>Frames for the kernel\<close>

text \<open>The scan of \<open>getfreeppages\<close> over the frame numbers from 1: \<open>first\<close> is the start of the
  current run of free frames; the result is the start of the run found, or -1.\<close>

fun free_run_scan :: "coremap_entry list \<Rightarrow> nat \<Rightarrow> int \<Rightarrow> nat list \<Rightarrow> int" where
  "free_run_scan cm npages first [] = -1"
| "free_run_scan cm npages first (i # is) =
     (if status (cm ! i) = free then
        let first = (if i = 0 \<or> status (cm ! (i - 1)) \<noteq> free then int i else first)
        in if int i - first + 1 \<ge> int npages then first else free_run_scan cm npages first is
      else free_run_scan cm npages first is)"

fun fix_frames :: "nat list \<Rightarrow> vm_state \<Rightarrow> vm_state option" where
  "fix_frames [] s = Some s"
| "fix_frames (i # is) s = do {
     e \<leftarrow> cm_get i s;
     s \<leftarrow> cm_set i (e\<lparr>status := fixed\<rparr>) s;
     kassert (alloc_size e = 0);
     fix_frames is s }"

definition getfreeppages :: "nat \<Rightarrow> vm_state \<Rightarrow> (paddr \<times> vm_state) option" where
  "getfreeppages npages s =
     (if \<not> isCoremapActive s then Some (0, s)
      else let found = free_run_scan (coremap s) npages (-1) [1..<nRamFrames s]
           in if found \<ge> 0 then do {
                s \<leftarrow> fix_frames [nat found..<nat found + npages] s;
                e \<leftarrow> cm_get (nat found) s;
                s \<leftarrow> cm_set (nat found) (e\<lparr>alloc_size := npages\<rparr>) s;
                Some (page_addr (nat found), s) }
              else Some (0, s))"

fun set_fixed :: "nat list \<Rightarrow> vm_state \<Rightarrow> vm_state option" where
  "set_fixed [] s = Some s"
| "set_fixed (i # is) s = do {
     e \<leftarrow> cm_get i s; s \<leftarrow> cm_set i (e\<lparr>status := fixed\<rparr>) s; set_fixed is s }"

text \<open>The end of \<open>getppages\<close>: the block is recorded as the kernel's.\<close>

definition mark_kernel :: "paddr \<Rightarrow> nat \<Rightarrow> vm_state \<Rightarrow> (paddr \<times> vm_state) option" where
  "mark_kernel addr npages s =
     (if addr \<noteq> 0 \<and> isCoremapActive s then do {
        let f = unat addr div PAGE_SIZE;
        e \<leftarrow> cm_get f s;
        s \<leftarrow> cm_set f (e\<lparr>alloc_size := npages, status := fixed\<rparr>) s;
        s \<leftarrow> set_fixed (map (\<lambda>i. f + i) [1..<npages]) s;
        Some (addr, s) }
      else Some (addr, s))"

definition getppages :: "vm_io \<Rightarrow> nat \<Rightarrow> vm_state \<Rightarrow> (paddr \<times> vm_state) option" where
  "getppages io npages s = do {
     (addr, s) \<leftarrow> getfreeppages npages s;
     let (addr, s) = (if addr = 0 then let (pa, r) = ram_stealmem npages (ram s) in (pa, s\<lparr>ram := r\<rparr>)
                      else (addr, s));
     if addr = 0 then do {
       (victim, s) \<leftarrow> get_victim_coremap npages s;
       (case curas s of
          None \<Rightarrow> Some (0, s)
        | Some a \<Rightarrow> do {
            s \<leftarrow> evict_frames io a (map (\<lambda>i. victim + i) [0..<npages]) s;
            mark_kernel (page_addr victim) npages s }) }
     else mark_kernel addr npages s }"

definition alloc_kpages :: "vm_io \<Rightarrow> nat \<Rightarrow> vm_state \<Rightarrow> (vaddr \<times> vm_state) option" where
  "alloc_kpages io npages s = do {
     (pa, s) \<leftarrow> getppages io npages s;
     if pa = 0 then Some (0, s) else Some (pa + MIPS_KSEG0, s) }"

fun release_frames :: "nat list \<Rightarrow> vm_state \<Rightarrow> vm_state option" where
  "release_frames [] s = Some s"
| "release_frames (i # is) s = do {
     e \<leftarrow> cm_get i s;
     s \<leftarrow> cm_set i (e\<lparr>status := free, ce_as := None, alloc_size := 0\<rparr>) s;
     release_frames is s }"

definition freeppages :: "paddr \<Rightarrow> nat \<Rightarrow> vm_state \<Rightarrow> (int \<times> vm_state) option" where
  "freeppages addr npages s =
     (if \<not> isCoremapActive s then Some (0, s)
      else do {
        let first = unat addr div PAGE_SIZE;
        kassert (nRamFrames s > first);
        s \<leftarrow> release_frames [first..<first + npages] s;
        Some (1, s) })"

definition free_kpages :: "vaddr \<Rightarrow> vm_state \<Rightarrow> vm_state option" where
  "free_kpages addr s =
     (if isCoremapActive s then do {
        let paddr = addr - MIPS_KSEG0;
        let first = unat paddr div PAGE_SIZE;
        kassert (nRamFrames s > first);
        e \<leftarrow> cm_get first s;
        (_, s) \<leftarrow> freeppages paddr (alloc_size e) s;
        Some s }
      else Some s)"

section \<open>The victim scan\<close>

text \<open>
  The round robin returns a run of replaceable frames that avoids frame 0 and lies inside the
  table, and it ends whenever such a run exists.
\<close>

definition replaceable_run :: "coremap_entry list \<Rightarrow> nat \<Rightarrow> nat \<Rightarrow> bool" where
  "replaceable_run cm start n \<longleftrightarrow>
     start + n < length cm \<and> (\<forall>i<n. replaceable (cm ! (start + i)))"

text \<open>Loop invariant: the \<open>len\<close> frames before \<open>cv\<close> are replaceable and the run fits.\<close>

definition scan_inv :: "coremap_entry list \<Rightarrow> nat \<Rightarrow> nat \<Rightarrow> nat \<Rightarrow> int \<Rightarrow> bool" where
  "scan_inv cm sz len cv victim \<longleftrightarrow>
     len \<le> sz \<and> cv < length cm \<and> len \<le> cv \<and>
     (\<forall>i<len. replaceable (cm ! (cv - len + i))) \<and>
     (0 < len \<longrightarrow> victim = int cv - 1 \<and> cv - len + sz < length cm)"

lemma scan_inv_start: "cv < length cm \<Longrightarrow> scan_inv cm sz 0 cv v"
  by (simp add: scan_inv_def)

lemma scan_step:
  assumes inv: "scan_inv cm sz len cv v" and "len < sz" and room: "sz + 1 < length cm"
  shows "scan_pos cm sz len cv + (sz - len) < length cm"
    and "0 < len \<Longrightarrow> scan_pos cm sz len cv = cv"
    and "(scan_pos cm sz len cv + 1) mod length cm = scan_pos cm sz len cv + 1"
    and "replaceable (cm ! scan_pos cm sz len cv) \<Longrightarrow>
      scan_inv cm sz (len + 1) (scan_pos cm sz len cv + 1) (int (scan_pos cm sz len cv))"
    and "scan_inv cm sz 0 (scan_pos cm sz len cv + 1) (int (scan_pos cm sz len cv))"
proof -
  show stay: "0 < len \<Longrightarrow> scan_pos cm sz len cv = cv"
    using inv assms(2) by (auto simp: scan_inv_def scan_pos_def)
  show fit: "scan_pos cm sz len cv + (sz - len) < length cm"
    using inv assms(2) room by (auto simp: scan_inv_def scan_pos_def)
  with assms(2) have lt: "scan_pos cm sz len cv + 1 < length cm" by linarith
  then show "(scan_pos cm sz len cv + 1) mod length cm = scan_pos cm sz len cv + 1" by simp
  show "scan_inv cm sz 0 (scan_pos cm sz len cv + 1) (int (scan_pos cm sz len cv))"
    using lt by (simp add: scan_inv_def)
  assume r: "replaceable (cm ! scan_pos cm sz len cv)"
  show "scan_inv cm sz (len + 1) (scan_pos cm sz len cv + 1) (int (scan_pos cm sz len cv))"
  proof (cases "0 < len")
    case True
    with stay have "scan_pos cm sz len cv = cv" by simp
    with True inv r assms(2) lt show ?thesis
      by (auto simp: scan_inv_def less_Suc_eq Suc_diff_le)
  next
    case False
    with r assms(2) lt fit show ?thesis by (simp add: scan_inv_def)
  qed
qed

lemma victim_scan_step:
  assumes "scan_inv cm sz len cv v" and "len < sz" and "sz + 1 < length cm"
  shows "victim_scan cm sz len cv v =
    (let p = scan_pos cm sz len cv
     in victim_scan cm sz (if replaceable (cm ! p) then len + 1 else 0) (p + 1) (int p))"
proof -
  have "scan_pos cm sz len cv < length cm" using scan_step(1) [OF assms] by linarith
  then show ?thesis
    using assms(2) scan_step(3) [OF assms]
    by (subst victim_scan.simps) (simp add: Let_def)
qed

lemma victim_scan_done:
  assumes "scan_inv cm sz sz cv v" and "0 < sz"
  shows "victim_scan cm sz sz cv v = Some (int (cv - sz), cv)" and "replaceable_run cm (cv - sz) sz"
  using assms by (auto simp: scan_inv_def replaceable_run_def victim_scan.simps [of cm sz sz])

lemma victim_scan_sound:
  assumes "victim_scan cm sz len cv v = Some (r, cv')"
    and "scan_inv cm sz len cv v" and "0 < sz" and "sz + 1 < length cm"
  shows "0 \<le> r \<and> replaceable_run cm (nat r) sz \<and> cv' < length cm"
proof -
  let ?P = "\<lambda>cm sz len cv v y. scan_inv cm sz len cv v \<longrightarrow> 0 < sz \<longrightarrow> sz + 1 < length cm \<longrightarrow>
      0 \<le> fst y \<and> replaceable_run cm (nat (fst y)) sz \<and> snd y < length cm"
  have "?P cm sz len cv v (r, cv')"
  proof (rule victim_scan.raw_induct [where P = ?P, OF _ assms(1)], intro impI)
    fix f cm sz len cv v and y :: "int \<times> nat"
    assume IH: "\<And>cm sz len cv v y. f cm sz len cv v = Some y \<Longrightarrow> ?P cm sz len cv v y"
      and eq: "(if len < sz then
        let cv = scan_pos cm sz len cv
        in if length cm \<le> cv then None
           else if replaceable (cm ! cv) then f cm sz (len + 1) ((cv + 1) mod length cm) (int cv)
             else f cm sz 0 ((cv + 1) mod length cm) (int cv)
      else Some (v - (int len - 1), cv)) = Some y"
      and inv: "scan_inv cm sz len cv v" and pos: "0 < sz" and room: "sz + 1 < length cm"
    show "0 \<le> fst y \<and> replaceable_run cm (nat (fst y)) sz \<and> snd y < length cm"
    proof (cases "len < sz")
      case True
      let ?p = "scan_pos cm sz len cv"
      note st = scan_step [OF inv True room]
      have "?p < length cm" using st(1) by linarith
      with eq True have "f cm sz (if replaceable (cm ! ?p) then len + 1 else 0) (?p + 1) (int ?p) = Some y"
        using st(3) by (simp add: Let_def split: if_splits)
      from IH [OF this] st(4,5) pos room show ?thesis by (auto split: if_splits)
    next
      case False
      with inv have "len = sz" by (simp add: scan_inv_def)
      moreover from this have "nat (int cv - int sz) = cv - sz" by simp
      ultimately show ?thesis using eq inv pos by (auto simp: scan_inv_def replaceable_run_def)
    qed
  qed
  with assms show ?thesis by simp
qed

lemma victim_scan_complete:
  assumes run: "replaceable_run cm st sz" and st: "1 \<le> st"
    and inv: "scan_inv cm sz len cv v" and pos: "0 < sz"
  shows "\<exists>r. victim_scan cm sz len cv v = Some r"
  using inv
proof (induction "if cv \<le> st + len then st + sz - cv else length cm - cv + st + sz + 1"
    arbitrary: len cv v rule: less_induct)
  case less
  from run st have room: "sz + 1 < length cm" and fit: "st + sz < length cm"
    by (auto simp: replaceable_run_def)
  show ?case
  proof (cases "len < sz")
    case False
    with less.prems pos show ?thesis
      using victim_scan_done [of cm sz cv v] by (auto simp: scan_inv_def)
  next
    case True
    let ?p = "scan_pos cm sz len cv"
    let ?len = "if replaceable (cm ! ?p) then len + 1 else 0"
    note step = scan_step [OF less.prems True room]
    have inv': "scan_inv cm sz ?len (?p + 1) (int ?p)" using step(4,5) by auto
    have cv: "cv < length cm" using less.prems by (simp add: scan_inv_def)
    have in_run: "replaceable (cm ! i)" if "st \<le> i" "i < st + sz" for i
    proof -
      from run have "replaceable (cm ! (st + (i - st)))"
        using that unfolding replaceable_run_def by (metis less_diff_conv2 add.commute)
      with that show ?thesis by simp
    qed
    have "(if ?p + 1 \<le> st + ?len then st + sz - (?p + 1) else length cm - (?p + 1) + st + sz + 1)
        < (if cv \<le> st + len then st + sz - cv else length cm - cv + st + sz + 1)"
    proof (cases "cv \<le> st + len")
      case A: True
      have p: "?p = cv"
        using step(2) A fit by (cases "0 < len") (auto simp: scan_pos_def)
      show ?thesis
      proof (cases "cv < st")
        case True
        with A p show ?thesis by simp
      next
        case False
        with A True have "replaceable (cm ! cv)" by (intro in_run) auto
        with A p True False show ?thesis by simp
      qed
    next
      case B: False
      show ?thesis
      proof (cases "?p = cv")
        case True
        with B cv show ?thesis by auto
      next
        case False
        then have p: "?p = 1" "len = 0" using step(2) by (auto simp: scan_pos_def split: if_splits)
        have "?p + 1 \<le> st + ?len"
          using p st pos in_run [of 1] by (cases "st = 1") auto
        with B p cv show ?thesis by auto
      qed
    qed
    from less.hyps [OF this inv'] show ?thesis
      by (simp add: victim_scan_step [OF less.prems True room] Let_def)
  qed
qed

end
