(* ===== verification/Paging.thy ===== *)
theory Paging
  imports Coremap
begin

text \<open>
  The invariant that ties frame table, page table, swap table and TLB together while one address
  space is active, and its preservation by eviction and by the allocation of a user frame. The
  property that matters to a program is \<open>page_view\<close>, what each page of the address space
  holds, in memory or in swap: page replacement never changes it.
\<close>

section \<open>The content of an address space\<close>

definition page_view :: "(nat \<Rightarrow> (paddr \<times> int) option) \<Rightarrow> bytes \<Rightarrow> swap_state \<Rightarrow> nat \<Rightarrow> bytes option" where
  "page_view P m sw p =
     (case P p of None \<Rightarrow> None
      | Some (pa, off) \<Rightarrow>
          if off = -1 then Some (page_at m (unat pa))
          else map_option snd (swap_slot sw (nat off div PAGE_SIZE)))"

definition cur_pt :: "vm_state \<Rightarrow> pt_directory option" where
  "cur_pt s = do { a \<leftarrow> curas s; A \<leftarrow> ases s a; pts s (as_pt A) }"

definition cur_map :: "vm_state \<Rightarrow> nat \<Rightarrow> (paddr \<times> int) option" where
  "cur_map s = (case cur_pt s of None \<Rightarrow> (\<lambda>_. None) | Some pt \<Rightarrow> pt_entry pt)"

definition content :: "vm_state \<Rightarrow> nat \<Rightarrow> bytes option" where
  "content s = page_view (cur_map s) (mem s) (swap s)"

section \<open>The invariant\<close>

text \<open>
  \<open>X\<close> is a set of frames in transit: taken from the frame table but not yet, or no longer,
  mapped. An entry of the page table is resident in a dirty frame that points back to it, or
  swapped out in a slot that carries its address.
\<close>

definition resident :: "nat set \<Rightarrow> coremap_entry list \<Rightarrow> nat \<Rightarrow> paddr \<times> int \<Rightarrow> nat \<Rightarrow> bool" where
  "resident X cm p e f \<longleftrightarrow> 1 \<le> f \<and> f < length cm \<and> f \<notin> X \<and> e = (page_addr f, -1) \<and>
     status (cm ! f) = dirty \<and> ce_vaddr (cm ! f) = page_addr p"

definition swapped :: "swap_state \<Rightarrow> nat \<Rightarrow> paddr \<times> int \<Rightarrow> nat \<Rightarrow> bool" where
  "swapped sw p e k \<longleftrightarrow> e = (0, int (k * PAGE_SIZE)) \<and> (\<exists>c. swap_slot sw k = Some (page_addr p, c))"

definition entries_inv ::
    "nat set \<Rightarrow> (nat \<Rightarrow> (paddr \<times> int) option) \<Rightarrow> coremap_entry list \<Rightarrow> swap_state \<Rightarrow> bool" where
  "entries_inv X P cm sw \<longleftrightarrow>
     (\<forall>p e. P p = Some e \<longrightarrow> p < 0x80000 \<and> ((\<exists>f. resident X cm p e f) \<or> (\<exists>k. swapped sw p e k)))"

definition frames_inv ::
    "nat set \<Rightarrow> (nat \<Rightarrow> (paddr \<times> int) option) \<Rightarrow> coremap_entry list \<Rightarrow> nat \<Rightarrow> nat \<Rightarrow> bool" where
  "frames_inv X P cm nxt a \<longleftrightarrow>
     (\<forall>f<length cm. f \<notin> X \<longrightarrow> status (cm ! f) = dirty \<longrightarrow>
        ce_as (cm ! f) = Some a \<and> (\<exists>p<0x80000. ce_vaddr (cm ! f) = page_addr p \<and> P p = Some (page_addr f, -1))) \<and>
     (\<forall>f<length cm. nxt \<le> f \<longrightarrow> status (cm ! f) = clean) \<and>
     (0 < length cm \<longrightarrow> status (cm ! 0) \<noteq> free \<and> status (cm ! 0) \<noteq> dirty)"

definition slots_inv :: "(nat \<Rightarrow> (paddr \<times> int) option) \<Rightarrow> swap_state \<Rightarrow> bool" where
  "slots_inv P sw \<longleftrightarrow>
     (\<forall>k va c. swap_slot sw k = Some (va, c) \<longrightarrow>
        (\<exists>p<0x80000. va = page_addr p \<and> P p = Some (0, int (k * PAGE_SIZE))))"

definition tlb_maps :: "(nat \<Rightarrow> (paddr \<times> int) option) \<Rightarrow> nat \<Rightarrow> u32 \<Rightarrow> bool" where
  "tlb_maps P p lo \<longleftrightarrow> P p = Some (lo AND TLBLO_PPAGE, -1)"

definition vm_inv :: "nat set \<Rightarrow> vm_state \<Rightarrow> bool" where
  "vm_inv X s \<longleftrightarrow>
     (\<exists>a A pt nxt. curas s = Some a \<and> ases s a = Some A \<and> pts s (as_pt A) = Some pt \<and> pt_wf pt \<and>
        ram_frames (ram s) nxt (nRamFrames s) \<and>
        entries_inv X (pt_entry pt) (coremap s) (swap s) \<and>
        frames_inv X (pt_entry pt) (coremap s) nxt a \<and>
        slots_inv (pt_entry pt) (swap s) \<and> swap_wf (swap s) \<and>
        tlb_ok (tlb_maps (pt_entry pt)) (tlb s) \<and> tlb_victim s < NUM_TLB \<and>
        coremapActive s \<and> cm_victim s < nRamFrames s \<and> 2 < nRamFrames s)"

lemma cur_map_eq: "curas s = Some a \<Longrightarrow> ases s a = Some A \<Longrightarrow> pts s (as_pt A) = Some pt \<Longrightarrow> cur_map s = pt_entry pt"
  by (simp add: cur_map_def cur_pt_def)

lemma frame_number: "f < length cm \<Longrightarrow> ram_frames r nxt (length cm) \<Longrightarrow> f < 131072"
  by (simp add: ram_frames_def)

section \<open>Eviction\<close>

text \<open>What one eviction does to the four tables, over their flat views.\<close>

lemma evict_tables:
  assumes ent: "entries_inv {} P cm sw" and frm: "frames_inv {} P cm nxt a" and slt: "slots_inv P sw"
    and f: "f < length cm" "status (cm ! f) = dirty" and small: "length cm \<le> 131072"
    and p: "p < 0x80000" "ce_vaddr (cm ! f) = page_addr p" "P p = Some (page_addr f, -1)"
    and k: "swap_slot sw k = None" "k < NUM_PAGES"
    and sw': "swap_slot sw' = (swap_slot sw)(k \<mapsto> (page_addr p, page_at m (unat (page_addr f))))"
  defines "P' \<equiv> P(p \<mapsto> (0, int (k * PAGE_SIZE)))"
  shows "entries_inv {f} P' cm sw'" and "frames_inv {f} P' cm nxt a" and "slots_inv P' sw'"
    and "page_view P' m sw' = page_view P m sw"
proof -
  have fn: "g < 1048576" if "g < length cm" for g using that small by simp
  have only_p: "q = p" if "P q = Some (page_addr f, -1)" "q < 0x80000" for q
  proof -
    from ent that(1) have "(\<exists>g. resident {} cm q (page_addr f, -1) g) \<or> (\<exists>k. swapped sw q (page_addr f, -1) k)"
      unfolding entries_inv_def by blast
    moreover have "\<not> swapped sw q (page_addr f, -1) j" for j by (auto simp: swapped_def)
    ultimately obtain g where "resident {} cm q (page_addr f, -1) g" by blast
    then have "page_addr f = page_addr g" "g < length cm" "ce_vaddr (cm ! g) = page_addr q"
      by (auto simp: resident_def)
    with fn f(1) have "ce_vaddr (cm ! f) = page_addr q" by (simp add: page_addr_eq_iff)
    with p that(2) show ?thesis by (simp add: page_addr_eq_iff)
  qed
  show "entries_inv {f} P' cm sw'"
    unfolding entries_inv_def
  proof (intro allI impI)
    fix q e assume q: "P' q = Some e"
    show "q < 0x80000 \<and> ((\<exists>g. resident {f} cm q e g) \<or> (\<exists>k. swapped sw' q e k))"
    proof (cases "q = p")
      case True
      with q have "swapped sw' q e k" by (auto simp: P'_def swapped_def sw')
      with True p show ?thesis by blast
    next
      case False
      with q have Pq: "P q = Some e" by (simp add: P'_def)
      with ent have q': "q < 0x80000" and "(\<exists>g. resident {} cm q e g) \<or> (\<exists>k. swapped sw q e k)"
        unfolding entries_inv_def by blast+
      then show ?thesis
      proof (elim disjE exE)
        fix g assume g: "resident {} cm q e g"
        then have "g \<noteq> f" using Pq False only_p q' by (auto simp: resident_def)
        with g have "resident {f} cm q e g" by (auto simp: resident_def)
        with q' show ?thesis by blast
      next
        fix j assume "swapped sw q e j"
        with k have "swapped sw' q e j" by (auto simp: swapped_def sw')
        with q' show ?thesis by blast
      qed
    qed
  qed
  show "frames_inv {f} P' cm nxt a"
    unfolding frames_inv_def
  proof (intro conjI allI impI)
    fix g assume g: "g < length cm" "g \<notin> {f}" "status (cm ! g) = dirty"
    with frm obtain q where q: "ce_as (cm ! g) = Some a" "q < 0x80000" "ce_vaddr (cm ! g) = page_addr q"
      "P q = Some (page_addr g, -1)" unfolding frames_inv_def by auto
    with g p fn [OF g(1)] fn [OF f(1)] have "q \<noteq> p" by (auto simp: page_addr_eq_iff)
    with q show "ce_as (cm ! g) = Some a"
      and "\<exists>p<0x80000. ce_vaddr (cm ! g) = page_addr p \<and> P' p = Some (page_addr g, -1)"
      by (auto simp: P'_def)
  qed (use frm in \<open>auto simp: frames_inv_def\<close>)
  show "slots_inv P' sw'"
    unfolding slots_inv_def
  proof (intro allI impI)
    fix j va c assume j: "swap_slot sw' j = Some (va, c)"
    show "\<exists>q<0x80000. va = page_addr q \<and> P' q = Some (0, int (j * PAGE_SIZE))"
    proof (cases "j = k")
      case True
      with j p show ?thesis by (auto simp: sw' P'_def intro!: exI [of _ p])
    next
      case False
      with j have "swap_slot sw j = Some (va, c)" by (simp add: sw')
      with slt obtain q where "q < 0x80000" "va = page_addr q" "P q = Some (0, int (j * PAGE_SIZE))"
        unfolding slots_inv_def by blast
      moreover from this p have "q \<noteq> p" by auto
      ultimately show ?thesis by (auto simp: P'_def)
    qed
  qed
  show "page_view P' m sw' = page_view P m sw"
  proof (rule ext)
    fix q
    show "page_view P' m sw' q = page_view P m sw q"
    proof (cases "q = p")
      case True
      have "nat (int (k * PAGE_SIZE)) div PAGE_SIZE = k" by simp
      with True p show ?thesis by (simp add: page_view_def P'_def sw' del: of_nat_mult)
    next
      case False
      have "nat off div PAGE_SIZE \<noteq> k" if "P q = Some (pa, off)" "off \<noteq> -1" for pa off
      proof -
        from ent that(1) have "(\<exists>g. resident {} cm q (pa, off) g) \<or> (\<exists>k. swapped sw q (pa, off) k)"
          unfolding entries_inv_def by blast
        with that(2) obtain j where "swapped sw q (pa, off) j" by (auto simp: resident_def)
        then have "off = int (j * PAGE_SIZE)" "j \<noteq> k" using k by (auto simp: swapped_def)
        then show ?thesis by (simp del: of_nat_mult)
      qed
      with False show ?thesis
        by (auto simp: page_view_def P'_def sw' split: option.splits)
    qed
  qed
qed

lemma tlb_maps_update:
  assumes "tlb_ok (tlb_maps P) t" and "\<not> tlb_has t p"
  shows "tlb_ok (tlb_maps (P(p := e))) t"
  by (rule tlb_ok_mono [OF assms(1)]) (use assms(2) in \<open>auto simp: tlb_maps_def\<close>)

text \<open>
  A step of the VM that keeps what the address space holds: the frame table, the memory and the
  address spaces are those of before, entries change only for pages that were resident, and the
  TLB has lost translations at most.
\<close>

definition quiet_step :: "vm_state \<Rightarrow> vm_state \<Rightarrow> bool" where
  "quiet_step s s' \<longleftrightarrow> content s' = content s \<and> mem s' = mem s \<and> curas s' = curas s \<and> ases s' = ases s \<and>
     length (coremap s') = length (coremap s) \<and> tlb_victim s' = tlb_victim s \<and>
     (\<forall>q. (\<nexists>pa. cur_map s q = Some (pa, -1)) \<longrightarrow> cur_map s' q = cur_map s q) \<and>
     (\<forall>q<0x80000. tlb_has (tlb s') q \<longrightarrow> tlb_has (tlb s) q) \<and>
     (\<forall>d. stats_balanced d (stats s) \<longrightarrow> stats_balanced d (stats s'))"

lemma quiet_step_refl [simp]: "quiet_step s s"
  by (simp add: quiet_step_def)

lemma evict_frame_SomeD:
  assumes inv: "vm_inv {} s" and f: "f < nRamFrames s" "status (coremap s ! f) = dirty"
    and cur: "curas s = Some a" and ev: "evict_frame io a f s = Some s'"
  shows "vm_inv {f} s'" and "quiet_step s s'" and "coremap s' = coremap s"
proof -
  from inv cur obtain A pt nxt where A: "ases s a = Some A" "pts s (as_pt A) = Some pt" "pt_wf pt"
    and ram: "ram_frames (ram s) nxt (nRamFrames s)"
    and ent: "entries_inv {} (pt_entry pt) (coremap s) (swap s)"
    and frm: "frames_inv {} (pt_entry pt) (coremap s) nxt a"
    and slt: "slots_inv (pt_entry pt) (swap s)" and swf: "swap_wf (swap s)"
    and tlb: "tlb_ok (tlb_maps (pt_entry pt)) (tlb s)"
    and rest: "tlb_victim s < NUM_TLB" "coremapActive s" "cm_victim s < nRamFrames s" "2 < nRamFrames s"
    unfolding vm_inv_def by auto
  from frm f obtain p where p: "p < 0x80000" "ce_vaddr (coremap s ! f) = page_addr p"
    "pt_entry pt p = Some (page_addr f, -1)" unfolding frames_inv_def by auto
  have vp: "vpn (page_addr p) = p" using p(1) by (simp add: vpn_page_addr)
  from ev f(1) obtain off sw st where out: "swap_out io (page_addr f) (page_addr p) (mem s) (swap s, stats s) = Some (off, sw, st)"
    by (auto simp: evict_frame_def cm_get_def p Let_def bind_eq_Some_conv)
  from swap_out_SomeD [OF swf out] obtain k where k: "off = int (k * PAGE_SIZE)" "st = tick SWAP_FILE_WRITE (stats s)"
    "swap_wf sw" "k < NUM_PAGES" "swap_slot (swap s) k = None"
    "swap_slot sw = (swap_slot (swap s))(k \<mapsto> (page_addr p, page_at (mem s) (unat (page_addr f))))" .
  have km: "io_kmalloc io \<or> pt_entry pt (vpn (page_addr p)) \<noteq> None" by (simp add: vp p)
  from two_level.set_both [OF A(3) km refl, of off 0] obtain t1 t2 where
    t: "pt_set_offset (io_kmalloc io) pt (page_addr p) off = Some t1"
      "pt_set_pa (io_kmalloc io) t1 (page_addr p) 0 = Some t2" "pt_wf t2"
      "pt_entry t2 = (pt_entry pt)(p \<mapsto> (0, off))" unfolding vp by blast
  have s': "s' = s\<lparr>swap := sw, stats := st, pts := (pts s)(as_pt A \<mapsto> t2), tlb := tlb_invalidate_page (page_addr p) (tlb s)\<rparr>"
    using ev f(1) A cur out t by (simp add: evict_frame_def cm_get_def p Let_def tlb_remove_by_va_def)
  have P: "cur_map s = pt_entry pt" using cur A by (simp add: cur_map_eq)
  have P': "cur_map s' = (pt_entry pt)(p \<mapsto> (0, off))" using cur A t by (simp add: cur_map_eq s')
  from ram have small: "nRamFrames s \<le> 131072" by (simp add: ram_frames_def)
  note tab = evict_tables [OF ent frm slt f small p k(5,4,6)]
  note ti = tlb_ok_invalidate [OF tlb, of "page_addr p"]
  have tlb': "tlb_ok (tlb_maps (pt_entry t2)) (tlb s')"
    using ti(1,2) p(1) unfolding t(4) s' vp by (simp add: tlb_maps_update)
  show "vm_inv {f} s'"
    unfolding vm_inv_def
    by (intro exI [of _ a] exI [of _ A] exI [of _ t2] exI [of _ nxt])
      (use cur A ram rest tlb' t k(3) tab(1-3) in \<open>simp add: s' k(1)\<close>)
  show "coremap s' = coremap s" by (simp add: s')
  have "content s' = content s"
    unfolding content_def P P' using tab(4) by (simp add: s' k(1))
  moreover have "tlb_has (tlb s) q" if "tlb_has (tlb s') q" "q < 0x80000" for q
    using ti(3) [of q] that p(1) by (simp add: s' vp)
  ultimately show "quiet_step s s'"
    unfolding quiet_step_def P P' using p k(2) by (auto simp: s' stats_balanced_ticks)
qed

text \<open>With files that transfer everything and a slot left, eviction does not fail.\<close>

lemma evict_frame_total:
  assumes inv: "vm_inv {} s" and f: "f < nRamFrames s" "status (coremap s ! f) = dirty"
    and cur: "curas s = Some a" and io: "io_reliable io" and room: "\<not> swap_full (swap s)"
  shows "\<exists>s'. evict_frame io a f s = Some s'"
proof -
  from inv cur obtain A pt where A: "ases s a = Some A" "pts s (as_pt A) = Some pt" "pt_wf pt"
    and swf: "swap_wf (swap s)" and small: "nRamFrames s \<le> 131072"
    unfolding vm_inv_def by (auto simp: ram_frames_def)
  have al: "page_addr f AND PAGE_FRAME = page_addr f" using f small by (simp add: page_addr_aligned)
  let ?va = "ce_vaddr (coremap s ! f)"
  have "\<exists>k. find_from sp_free 0 (swap_list (swap s)) = Some k" using room swap_full_find [OF swf] by auto
  with swap_out_success [OF swf] al io obtain off sw st where
    out: "swap_out io (page_addr f) ?va (mem s) (swap s, stats s) = Some (off, sw, st)"
    unfolding io_reliable_def by (metis prod_cases3)
  have km: "io_kmalloc io \<or> pt_entry pt (vpn ?va) \<noteq> None" using io by (simp add: io_reliable_def)
  from two_level.set_both [OF A(3) km refl, of off 0] obtain t1 t2 where
    "pt_set_offset (io_kmalloc io) pt ?va off = Some t1" "pt_set_pa (io_kmalloc io) t1 ?va 0 = Some t2" by blast
  with f A out cur show ?thesis
    by (simp add: evict_frame_def cm_get_def Let_def tlb_remove_by_va_def)
qed

section \<open>Allocating a user frame\<close>

lemma vm_inv_take:
  assumes "vm_inv {} s" and "f < nRamFrames s" and "status (coremap s ! f) \<noteq> dirty"
  shows "vm_inv {f} s"
proof -
  have "resident {f} (coremap s) p e g" if "resident {} (coremap s) p e g" for p e g
    using that assms(3) by (auto simp: resident_def)
  then have "entries_inv {f} P (coremap s) (swap s)" if "entries_inv {} P (coremap s) (swap s)" for P
    using that unfolding entries_inv_def by blast
  moreover have "frames_inv {f} P (coremap s) nxt a" if "frames_inv {} P (coremap s) nxt a" for P nxt a
    using that by (auto simp: frames_inv_def)
  ultimately show ?thesis using assms(1) unfolding vm_inv_def by meson
qed

text \<open>Recording the new owner of a frame in transit: \<open>r\<close> is the memory still to be handed out.\<close>

definition claim :: "nat \<Rightarrow> nat \<Rightarrow> vaddr \<Rightarrow> vm_state \<Rightarrow> vm_state" where
  "claim f a va s = s\<lparr>coremap := (coremap s)[f := \<lparr>ce_as = Some a, status = dirty, ce_vaddr = va, alloc_size = 1\<rparr>]\<rparr>"

lemma claim_sel [simp]:
  "curas (claim f a va s) = curas s" "ases (claim f a va s) = ases s" "pts (claim f a va s) = pts s"
  "mem (claim f a va s) = mem s" "swap (claim f a va s) = swap s" "tlb (claim f a va s) = tlb s"
  "tlb_victim (claim f a va s) = tlb_victim s" "stats (claim f a va s) = stats s" "ram (claim f a va s) = ram s"
  "coremapActive (claim f a va s) = coremapActive s" "cm_victim (claim f a va s) = cm_victim s"
  "nRamFrames (claim f a va s) = nRamFrames s" "cur_map (claim f a va s) = cur_map s"
  "content (claim f a va s) = content s"
  by (simp_all add: claim_def cur_map_def cur_pt_def content_def)

lemma entries_inv_set:
  "entries_inv {f} P cm sw \<Longrightarrow> entries_inv {f} P (cm[f := e]) sw"
proof -
  have "resident {f} (cm[f := e]) p x g = resident {f} cm p x g" for p x g
    by (cases "g = f") (auto simp: resident_def)
  then show "entries_inv {f} P cm sw \<Longrightarrow> entries_inv {f} P (cm[f := e]) sw"
    by (simp add: entries_inv_def)
qed

lemma frames_inv_set:
  "frames_inv {f} P cm nxt a \<Longrightarrow> 1 \<le> f \<Longrightarrow> nxt \<le> nxt' \<Longrightarrow> f < nxt' \<Longrightarrow> frames_inv {f} P (cm[f := e]) nxt' a"
  by (auto simp: frames_inv_def nth_list_update)

lemma vm_inv_claim:
  assumes "vm_inv {f} s" and "1 \<le> f" and "status (coremap s ! f) \<noteq> clean" and "f < nRamFrames s"
  shows "vm_inv {f} (claim f a va s)"
proof -
  have "frames_inv {f} P (coremap (claim f a va s)) nxt b"
    if "frames_inv {f} P (coremap s) nxt b" for P nxt b
  proof -
    have "f < nxt" using that assms(3,4) by (metis frames_inv_def not_less)
    with that assms(2) show ?thesis unfolding claim_def by (simp add: frames_inv_set)
  qed
  then show ?thesis
    using assms(1) entries_inv_set unfolding vm_inv_def by (simp add: claim_def) meson
qed

lemma vm_inv_claim_new:
  assumes inv: "vm_inv {} s" and st: "ram_stealmem 1 (ram s) = (pa, r)" and "pa \<noteq> 0"
  obtains f where "pa = page_addr f" "1 \<le> f" "f < nRamFrames s"
    "vm_inv {f} (claim f a va (s\<lparr>ram := r\<rparr>))"
proof -
  from inv obtain b A pt nxt where *: "curas s = Some b" "ases s b = Some A" "pts s (as_pt A) = Some pt" "pt_wf pt"
    and ram: "ram_frames (ram s) nxt (nRamFrames s)"
    and ent: "entries_inv {} (pt_entry pt) (coremap s) (swap s)"
    and frm: "frames_inv {} (pt_entry pt) (coremap s) nxt b"
    and rest: "slots_inv (pt_entry pt) (swap s)" "swap_wf (swap s)" "tlb_ok (tlb_maps (pt_entry pt)) (tlb s)"
      "tlb_victim s < NUM_TLB" "coremapActive s" "cm_victim s < nRamFrames s" "2 < nRamFrames s"
    unfolding vm_inv_def by blast
  note sf = ram_stealmem_frames [OF ram, of 1]
  have lt: "nxt + 1 \<le> nRamFrames s" using sf(2) st assms(3) by fastforce
  with sf(1) st have pa: "pa = page_addr nxt" "ram_frames r (nxt + 1) (nRamFrames s)" by auto
  have n1: "1 \<le> nxt" using ram by (simp add: ram_frames_def)
  have "status (coremap s ! nxt) = clean" using frm lt by (simp add: frames_inv_def)
  with inv lt have "vm_inv {nxt} s" by (intro vm_inv_take) auto
  then have "entries_inv {nxt} (pt_entry pt) (coremap s) (swap s)"
    using * unfolding vm_inv_def by auto
  then have e: "entries_inv {nxt} (pt_entry pt) (coremap (claim nxt a va (s\<lparr>ram := r\<rparr>))) (swap s)"
    unfolding claim_def by (simp add: entries_inv_set)
  have "frames_inv {nxt} (pt_entry pt) (coremap s) nxt b" using frm by (auto simp: frames_inv_def)
  then have "frames_inv {nxt} (pt_entry pt) (coremap (claim nxt a va (s\<lparr>ram := r\<rparr>))) (nxt + 1) b"
    unfolding claim_def using n1 by (simp add: frames_inv_set)
  with e * rest pa have "vm_inv {nxt} (claim nxt a va (s\<lparr>ram := r\<rparr>))"
    unfolding vm_inv_def by (intro exI [of _ b] exI [of _ A] exI [of _ pt] exI [of _ "nxt + 1"]) simp
  with pa n1 lt show thesis by (intro that) auto
qed


lemma first_free_frame:
  "find_from (\<lambda>e. status e = free) 1 (drop 1 cm) = Some i \<Longrightarrow>
    1 \<le> i \<and> i < length cm \<and> status (cm ! i) = free"
  by (drule find_from_SomeD) auto

lemma no_free_frame:
  assumes "find_from (\<lambda>e. status e = free) 1 (drop 1 cm) = None" and "1 \<le> i" and "i < length cm"
  shows "status (cm ! i) \<noteq> free"
proof -
  have "cm ! i = drop 1 cm ! (i - 1)" and "i - 1 < length (drop 1 cm)" using assms(2,3) by auto
  then have "cm ! i \<in> set (drop 1 cm)" by (metis nth_mem)
  with assms(1) show ?thesis unfolding find_from_None_iff by blast
qed

text \<open>With no free frame, the victim of the round robin is a user page.\<close>

lemma user_victim:
  assumes inv: "vm_inv {} s" and none: "find_from (\<lambda>e. status e = free) 1 (drop 1 (coremap s)) = None"
    and v: "get_victim_coremap 1 s = Some (victim, s1)"
  shows "1 \<le> victim" and "victim < nRamFrames s" and "status (coremap s ! victim) = dirty"
    and "\<exists>cv<nRamFrames s. s1 = s\<lparr>cm_victim := cv\<rparr>"
proof -
  from v obtain r cv where vs: "victim_scan (coremap s) 1 0 (cm_victim s) (-1) = Some (r, cv)"
    and r: "victim = nat r" "s1 = s\<lparr>cm_victim := cv\<rparr>"
    by (auto simp: get_victim_coremap_def bind_eq_Some_conv split: if_splits)
  from inv have room: "1 + 1 < length (coremap s)" and "cm_victim s < nRamFrames s" by (auto simp: vm_inv_def)
  from victim_scan_sound [OF vs scan_inv_start [OF this(2)] _ room] r
  have run: "replaceable_run (coremap s) victim 1" and cv: "cv < nRamFrames s" by auto
  from run show vn: "victim < nRamFrames s" by (simp add: replaceable_run_def)
  have rep: "replaceable (coremap s ! victim)" using run by (simp add: replaceable_run_def)
  from inv have "status (coremap s ! 0) \<noteq> free \<and> status (coremap s ! 0) \<noteq> dirty"
    by (auto simp: vm_inv_def frames_inv_def)
  with rep show "1 \<le> victim"
    by (cases "coremap s ! 0"; cases "status (coremap s ! 0)"; cases victim) (auto simp: replaceable_def)
  with no_free_frame [OF none this vn] rep show "status (coremap s ! victim) = dirty"
    by (cases "status (coremap s ! victim)") (auto simp: replaceable_def)
  show "\<exists>cv<nRamFrames s. s1 = s\<lparr>cm_victim := cv\<rparr>" using r cv by blast
qed

lemma vm_inv_cm_victim [simp]:
  "cv < nRamFrames s \<Longrightarrow> vm_inv X s \<Longrightarrow> vm_inv X (s\<lparr>cm_victim := cv\<rparr>)"
  by (simp add: vm_inv_def) blast

lemma quiet_step_cm_victim [simp]: "quiet_step s (s\<lparr>cm_victim := cv\<rparr>)"
  by (simp add: quiet_step_def content_def cur_map_def cur_pt_def)

lemma quiet_step_ram [simp]: "quiet_step s (s\<lparr>ram := r\<rparr>)"
  by (simp add: quiet_step_def content_def cur_map_def cur_pt_def)

lemma quiet_step_claim: "quiet_step s s' \<Longrightarrow> quiet_step s (claim f a va s')"
  by (simp add: quiet_step_def)

lemma quiet_step_trans:
  assumes "quiet_step s1 s2" and "quiet_step s2 s3"
  shows "quiet_step s1 s3"
proof -
  have "cur_map s3 q = cur_map s1 q" if "\<nexists>pa. cur_map s1 q = Some (pa, -1)" for q
    using assms that unfolding quiet_step_def by metis
  with assms show ?thesis unfolding quiet_step_def by auto
qed

text \<open>
  The three ways \<open>getppage_user\<close> finds a frame, each with its frame of a well-formed state.
\<close>

theorem getppage_user_SomeD:
  assumes inv: "vm_inv {} s" and cur: "curas s = Some a"
    and get: "getppage_user io va a s = Some (pa, s')"
  obtains f where "pa = page_addr f" "1 \<le> f" "f < nRamFrames s" "vm_inv {f} s'" "quiet_step s s'"
    "coremap s' ! f = \<lparr>ce_as = Some a, status = dirty, ce_vaddr = va, alloc_size = 1\<rparr>"
proof (cases "find_from (\<lambda>e. status e = free) 1 (drop 1 (coremap s))")
  case (Some i)
  from first_free_frame [OF Some] have i: "1 \<le> i" "i < nRamFrames s" "status (coremap s ! i) = free" by auto
  from get Some i have "pa = page_addr i" "s' = claim i a va s"
    by (auto simp: getppage_user_def cm_set_def claim_def)
  moreover have "vm_inv {i} (claim i a va s)"
    using inv i by (intro vm_inv_claim vm_inv_take) auto
  moreover have "quiet_step s (claim i a va s)" by (simp add: quiet_step_claim)
  ultimately show thesis using i by (intro that [of i]) (auto simp: claim_def)
next
  case None
  obtain p0 r where st: "ram_stealmem 1 (ram s) = (p0, r)" by fastforce
  show thesis
  proof (cases "p0 = 0")
    case False
    from vm_inv_claim_new [OF inv st False] obtain f where
      f: "p0 = page_addr f" "1 \<le> f" "f < nRamFrames s" "vm_inv {f} (claim f a va (s\<lparr>ram := r\<rparr>))" .
    from inv have "f < 1048576" using f(3) by (auto simp: vm_inv_def ram_frames_def)
    then have "unat p0 div PAGE_SIZE = f" using f(1) by (simp add: unat_page_addr)
    with get None st False f have "pa = page_addr f" "s' = claim f a va (s\<lparr>ram := r\<rparr>)"
      by (auto simp: getppage_user_def cm_set_def claim_def)
    moreover have "quiet_step s (claim f a va (s\<lparr>ram := r\<rparr>))" by (simp add: quiet_step_claim)
    ultimately show thesis using f by (intro that [of f]) (simp_all add: claim_def)
  next
    case True
    have "r = ram s" using st True inv by (auto simp: ram_stealmem_def Let_def vm_inv_def ram_frames_def
      page_addr_eq_0_iff split: if_splits)
    with get None st True obtain victim s1 s2 where v: "get_victim_coremap 1 s = Some (victim, s1)"
      and ev: "evict_frame io a victim s1 = Some s2"
      and s': "cm_set victim \<lparr>ce_as = Some a, status = dirty, ce_vaddr = va, alloc_size = 1\<rparr> s2 = Some s'"
      and pa: "pa = page_addr victim"
      by (auto simp: getppage_user_def bind_eq_Some_conv)
    note uv = user_victim [OF inv None v]
    from uv(4) inv have inv1: "vm_inv {} s1" and q1: "quiet_step s s1" and c1: "coremap s1 = coremap s"
      and cur1: "curas s1 = Some a"
      using cur by auto
    from evict_frame_SomeD [OF inv1 _ _ cur1 ev] uv c1
    have ev': "vm_inv {victim} s2" "quiet_step s1 s2" "coremap s2 = coremap s" by auto
    from s' have "s' = claim victim a va s2" by (auto simp: cm_set_def claim_def split: if_splits)
    moreover have "vm_inv {victim} (claim victim a va s2)"
      using ev' uv by (intro vm_inv_claim) auto
    moreover have "quiet_step s (claim victim a va s2)"
      using q1 ev'(2) by (intro quiet_step_claim) (rule quiet_step_trans)
    ultimately show thesis using uv ev' pa by (intro that [of victim]) (auto simp: claim_def)
  qed
qed

section \<open>Mapping a frame and writing to it\<close>

definition same_outside :: "nat \<Rightarrow> bytes \<Rightarrow> bytes \<Rightarrow> bool" where
  "same_outside a m m' \<longleftrightarrow> (\<forall>b. b + PAGE_SIZE \<le> a \<or> a + PAGE_SIZE \<le> b \<longrightarrow> page_at m' b = page_at m b)"

lemma same_outside_refl [simp]: "same_outside a m m"
  by (simp add: same_outside_def)

lemma same_outside_trans: "same_outside a m m' \<Longrightarrow> same_outside a m' m'' \<Longrightarrow> same_outside a m m''"
  by (simp add: same_outside_def)

lemma same_outside_blit: "same_outside a m (blit m a src b PAGE_SIZE)"
  by (simp add: same_outside_def pages)

lemma same_outside_fill: "same_outside a m (fill m a PAGE_SIZE b)"
  by (simp add: same_outside_def pages)

text \<open>The tables after frame \<open>f\<close> has been given to page \<open>p\<close>; when \<open>p\<close> was in swap, its slot
  has been emptied.\<close>

lemma map_tables:
  assumes ent: "entries_inv {f} P cm sw" and frm: "frames_inv {f} P cm nxt a" and slt: "slots_inv P sw"
    and f: "1 \<le> f" "f < length cm" and small: "length cm \<le> 131072"
    and cmf: "cm ! f = \<lparr>ce_as = Some a, status = dirty, ce_vaddr = page_addr p, alloc_size = 1\<rparr>"
    and p: "p < 0x80000" "\<nexists>pa. P p = Some (pa, -1)"
    and sw': "swap_slot sw' = (\<lambda>k. if P p = Some (0, int (k * PAGE_SIZE)) then None else swap_slot sw k)"
  defines "P' \<equiv> P(p \<mapsto> (page_addr f, -1))"
  shows "entries_inv {} P' cm sw'" and "frames_inv {} P' cm nxt a" and "slots_inv P' sw'"
    and "same_outside (unat (page_addr f)) m m' \<Longrightarrow>
      page_view P' m' sw' = (page_view P m sw)(p \<mapsto> page_at m' (unat (page_addr f)))"
proof -
  have fn: "g < 1048576" if "g < length cm" for g using that small by simp
  have keep: "swapped sw' q e k" if "swapped sw q e k" "P q = Some e" "q \<noteq> p" "q < 0x80000" for q e k
  proof -
    from that(1) obtain c where c: "e = (0, int (k * PAGE_SIZE))" "swap_slot sw k = Some (page_addr q, c)"
      unfolding swapped_def by blast
    from slt c(2) obtain q' where "q' < 0x80000" "page_addr q = page_addr q'" "P q' = Some (0, int (k * PAGE_SIZE))"
      unfolding slots_inv_def by blast
    have "P p \<noteq> Some (0, int (k * PAGE_SIZE))"
    proof
      assume "P p = Some (0, int (k * PAGE_SIZE))"
      with ent have "(\<exists>g. resident {f} cm p (0, int (k * PAGE_SIZE)) g) \<or> (\<exists>j. swapped sw p (0, int (k * PAGE_SIZE)) j)"
        unfolding entries_inv_def by blast
      then have "(\<exists>j. swapped sw p (0, int (k * PAGE_SIZE)) j)" by (auto simp: resident_def)
      then have "\<exists>c. swap_slot sw k = Some (page_addr p, c)" by (auto simp: swapped_def)
      with c(2) that(3,4) p(1) show False by (auto simp: page_addr_eq_iff)
    qed
    with c show ?thesis by (auto simp: swapped_def sw')
  qed
  show "entries_inv {} P' cm sw'"
    unfolding entries_inv_def
  proof (intro allI impI)
    fix q e assume q: "P' q = Some e"
    show "q < 0x80000 \<and> ((\<exists>g. resident {} cm q e g) \<or> (\<exists>k. swapped sw' q e k))"
    proof (cases "q = p")
      case True
      with q f cmf have "resident {} cm q e f" by (simp add: P'_def resident_def)
      with True p show ?thesis by blast
    next
      case False
      with q have Pq: "P q = Some e" by (simp add: P'_def)
      with ent have "q < 0x80000" and "(\<exists>g. resident {f} cm q e g) \<or> (\<exists>k. swapped sw q e k)"
        unfolding entries_inv_def by blast+
      then show ?thesis
      proof (elim disjE exE)
        fix g assume "resident {f} cm q e g"
        then have "resident {} cm q e g" by (simp add: resident_def)
        with \<open>q < 0x80000\<close> show ?thesis by blast
      qed (use keep [OF _ Pq False] \<open>q < 0x80000\<close> in blast)
    qed
  qed
  show "frames_inv {} P' cm nxt a"
    unfolding frames_inv_def
  proof (intro conjI allI impI)
    fix g assume g: "g < length cm" "g \<notin> {}" "status (cm ! g) = dirty"
    have "ce_as (cm ! g) = Some a \<and> (\<exists>p<0x80000. ce_vaddr (cm ! g) = page_addr p \<and> P' p = Some (page_addr g, -1))"
    proof (cases "g = f")
      case True
      with cmf p show ?thesis by (auto simp: P'_def)
    next
      case False
      with frm g obtain q where "ce_as (cm ! g) = Some a" "q < 0x80000" "ce_vaddr (cm ! g) = page_addr q"
        "P q = Some (page_addr g, -1)" unfolding frames_inv_def by auto
      moreover from this p have "q \<noteq> p" by auto
      ultimately show ?thesis by (auto simp: P'_def)
    qed
    then show "ce_as (cm ! g) = Some a"
      and "\<exists>p<0x80000. ce_vaddr (cm ! g) = page_addr p \<and> P' p = Some (page_addr g, -1)" by auto
  qed (use frm in \<open>auto simp: frames_inv_def\<close>)
  show "slots_inv P' sw'"
    unfolding slots_inv_def
  proof (intro allI impI)
    fix k va c assume k: "swap_slot sw' k = Some (va, c)"
    then have Pp: "P p \<noteq> Some (0, int (k * PAGE_SIZE))" and "swap_slot sw k = Some (va, c)"
      by (auto simp: sw' split: if_splits)
    with slt obtain q where "q < 0x80000" "va = page_addr q" "P q = Some (0, int (k * PAGE_SIZE))"
      unfolding slots_inv_def by blast
    moreover from this Pp have "q \<noteq> p" by auto
    ultimately show "\<exists>q<0x80000. va = page_addr q \<and> P' q = Some (0, int (k * PAGE_SIZE))"
      by (auto simp: P'_def)
  qed
  assume same: "same_outside (unat (page_addr f)) m m'"
  show "page_view P' m' sw' = (page_view P m sw)(p \<mapsto> page_at m' (unat (page_addr f)))"
  proof (rule ext)
    fix q
    show "page_view P' m' sw' q = ((page_view P m sw)(p \<mapsto> page_at m' (unat (page_addr f)))) q"
    proof (cases "q = p")
      case True
      then show ?thesis by (simp add: page_view_def P'_def)
    next
      case False
      show ?thesis
      proof (cases "P q")
        case None
        with False show ?thesis by (simp add: page_view_def P'_def)
      next
        case (Some e)
        with ent have "q < 0x80000" and "(\<exists>g. resident {f} cm q e g) \<or> (\<exists>k. swapped sw q e k)"
          unfolding entries_inv_def by blast+
        then consider g where "resident {f} cm q e g" | k where "swapped sw q e k" "swapped sw' q e k"
          using keep Some False by blast
        then show ?thesis
        proof cases
          case 1
          then have g: "g < length cm" "g \<noteq> f" "e = (page_addr g, -1)" by (auto simp: resident_def)
          have "page_at m' (unat (page_addr g)) = page_at m (unat (page_addr g))"
            using same frames_apart [OF g(2)] fn [OF g(1)] fn [OF f(2)]
            by (auto simp: same_outside_def unat_page_addr)
          with Some g False show ?thesis by (simp add: page_view_def P'_def)
        next
          case 2
          then have e: "e = (0, int (k * PAGE_SIZE))" and "swap_slot sw' k \<noteq> None"
            unfolding swapped_def by auto
          then have eq: "swap_slot sw' k = swap_slot sw k" unfolding sw' by (auto split: if_splits)
          have "nat (int (k * PAGE_SIZE)) div PAGE_SIZE = k" by (simp del: of_nat_mult)
          with Some e False eq show ?thesis by (simp add: page_view_def P'_def del: of_nat_mult)
        qed
      qed
    qed
  qed
qed

lemma vm_inv_map:
  assumes inv: "vm_inv {f} s" and cur: "curas s = Some a" "ases s a = Some A" "pts s (as_pt A) = Some pt"
    and f: "1 \<le> f" "f < nRamFrames s"
    and cmf: "coremap s ! f = \<lparr>ce_as = Some a, status = dirty, ce_vaddr = page_addr p, alloc_size = 1\<rparr>"
    and p: "p < 0x80000" "\<nexists>pa. pt_entry pt p = Some (pa, -1)" "\<not> tlb_has (tlb s) p"
    and sw': "swap_slot sw' = (\<lambda>k. if pt_entry pt p = Some (0, int (k * PAGE_SIZE)) then None else swap_slot (swap s) k)"
      "swap_wf sw'"
    and pt': "pt_wf pt'" "pt_entry pt' = (pt_entry pt)(p \<mapsto> (page_addr f, -1))"
    and m': "same_outside (unat (page_addr f)) (mem s) m'"
    and s': "s' = s\<lparr>swap := sw', stats := st, mem := m', pts := (pts s)(as_pt A \<mapsto> pt')\<rparr>"
  shows "vm_inv {} s'" and "content s' = (content s)(p \<mapsto> page_at m' (unat (page_addr f)))"
    and "cur_map s' = (cur_map s)(p \<mapsto> (page_addr f, -1))"
proof -
  from inv cur obtain nxt where ram: "ram_frames (ram s) nxt (nRamFrames s)"
    and ent: "entries_inv {f} (pt_entry pt) (coremap s) (swap s)"
    and frm: "frames_inv {f} (pt_entry pt) (coremap s) nxt a"
    and slt: "slots_inv (pt_entry pt) (swap s)"
    and tlb: "tlb_ok (tlb_maps (pt_entry pt)) (tlb s)"
    and rest: "tlb_victim s < NUM_TLB" "coremapActive s" "cm_victim s < nRamFrames s" "2 < nRamFrames s"
    unfolding vm_inv_def by auto
  from ram have small: "nRamFrames s \<le> 131072" by (simp add: ram_frames_def)
  note tab = map_tables [OF ent frm slt f small cmf p(1,2) sw'(1)]
  have tlb': "tlb_ok (tlb_maps (pt_entry pt')) (tlb s)"
    unfolding pt'(2) by (rule tlb_maps_update [OF tlb p(3)])
  show "vm_inv {} s'"
    unfolding vm_inv_def
    by (intro exI [of _ a] exI [of _ A] exI [of _ pt'] exI [of _ nxt])
      (use cur ram tab(1-3) tlb' rest pt' sw' in \<open>simp add: s'\<close>)
  have P: "cur_map s = pt_entry pt" "cur_map s' = pt_entry pt'"
    using cur by (simp_all add: cur_map_eq s')
  then show "cur_map s' = (cur_map s)(p \<mapsto> (page_addr f, -1))" by (simp add: pt')
  show "content s' = (content s)(p \<mapsto> page_at m' (unat (page_addr f)))"
    unfolding content_def P pt'(2) using tab(4) [OF m'] by (simp add: s')
qed

lemma vm_inv_memory [simp]:
  "vm_inv X (s\<lparr>mem := m, stats := st\<rparr>) = vm_inv X s" "vm_inv X (s\<lparr>mem := m\<rparr>) = vm_inv X s"
  "vm_inv X (s\<lparr>stats := st\<rparr>) = vm_inv X s"
  by (simp_all add: vm_inv_def)

lemma cur_map_memory [simp]:
  "cur_map (s\<lparr>mem := m, stats := st\<rparr>) = cur_map s" "cur_map (s\<lparr>mem := m\<rparr>) = cur_map s"
  "cur_map (s\<lparr>stats := st\<rparr>) = cur_map s"
  by (simp_all add: cur_map_def cur_pt_def)

lemma content_stats [simp]: "content (s\<lparr>stats := st\<rparr>) = content s"
  by (simp add: content_def)

text \<open>A write to the frame of a resident page changes that page only.\<close>

lemma content_write:
  assumes inv: "vm_inv {} s" and p: "cur_map s p = Some (page_addr f, -1)" "f < nRamFrames s"
    and same: "same_outside (unat (page_addr f)) (mem s) m'"
  shows "content (s\<lparr>mem := m'\<rparr>) = (content s)(p \<mapsto> page_at m' (unat (page_addr f)))"
proof (rule ext)
  from inv obtain a A pt nxt where *: "curas s = Some a" "ases s a = Some A" "pts s (as_pt A) = Some pt"
    and small: "nRamFrames s \<le> 131072" and ent: "entries_inv {} (pt_entry pt) (coremap s) (swap s)"
    unfolding vm_inv_def by (auto simp: ram_frames_def)
  have P: "cur_map s = pt_entry pt" using * by (simp add: cur_map_eq)
  fix q
  show "content (s\<lparr>mem := m'\<rparr>) q = ((content s)(p \<mapsto> page_at m' (unat (page_addr f)))) q"
  proof (cases "q = p")
    case True
    with p show ?thesis by (simp add: content_def page_view_def)
  next
    case False
    have "page_at m' (unat pa) = page_at (mem s) (unat pa)" if q: "cur_map s q = Some (pa, -1)" for pa
    proof -
      have "q < 0x80000 \<and> (\<exists>g. resident {} (coremap s) q (pa, -1) g)"
        "p < 0x80000 \<and> (\<exists>g. resident {} (coremap s) p (page_addr f, -1) g)"
        using ent q p(1) unfolding P entries_inv_def swapped_def by fastforce+
      then obtain g h where g: "g < nRamFrames s" "pa = page_addr g" "ce_vaddr (coremap s ! g) = page_addr q" "q < 0x80000"
        and h: "h < nRamFrames s" "page_addr f = page_addr h" "ce_vaddr (coremap s ! h) = page_addr p" "p < 0x80000"
        unfolding resident_def by auto
      have "h = f" using h(1,2) p(2) small by (simp add: page_addr_eq_iff)
      with g h False have "g \<noteq> f" by (auto simp: page_addr_eq_iff)
      with same g(1,2) p(2) small frames_apart [of g f] show ?thesis
        by (auto simp: same_outside_def unat_page_addr)
    qed
    with False show ?thesis by (auto simp: content_def page_view_def split: option.split)
  qed
qed

section \<open>Allocation does not fail\<close>

text \<open>As long as there is a free frame, or memory never handed out, or room in the swap file and a
  frame between the first and the last that can be replaced: the last frame is never chosen by the
  round robin.\<close>

definition vm_room :: "vm_io \<Rightarrow> vm_state \<Rightarrow> bool" where
  "vm_room io s \<longleftrightarrow> io_reliable io \<and>
     ((\<exists>f. 1 \<le> f \<and> f < nRamFrames s \<and> status (coremap s ! f) = free) \<or>
      fst (ram_stealmem 1 (ram s)) \<noteq> 0 \<or>
      (\<not> swap_full (swap s) \<and> (\<exists>f. 1 \<le> f \<and> f + 1 < nRamFrames s \<and> replaceable (coremap s ! f))))"

theorem getppage_user_total:
  assumes inv: "vm_inv {} s" and cur: "curas s = Some a" and room: "vm_room io s"
  shows "\<exists>pa s'. getppage_user io va a s = Some (pa, s')"
proof (cases "find_from (\<lambda>e. status e = free) 1 (drop 1 (coremap s))")
  case (Some i)
  from first_free_frame [OF Some] Some show ?thesis by (simp add: getppage_user_def cm_set_def)
next
  case None
  obtain p0 r where st: "ram_stealmem 1 (ram s) = (p0, r)" by fastforce
  show ?thesis
  proof (cases "p0 = 0")
    case False
    from vm_inv_claim_new [OF inv st False] obtain f where f: "p0 = page_addr f" "f < nRamFrames s" by blast
    from inv have "f < 1048576" using f(2) by (auto simp: vm_inv_def ram_frames_def)
    then have "unat p0 div PAGE_SIZE = f" using f(1) by (simp add: unat_page_addr)
    with None st False f(2) show ?thesis by (simp add: getppage_user_def cm_set_def)
  next
    case True
    from room no_free_frame [OF None] st True obtain f where f: "1 \<le> f" "f + 1 < nRamFrames s" "replaceable (coremap s ! f)"
      and io: "io_reliable io" "\<not> swap_full (swap s)" unfolding vm_room_def by auto
    from f have run: "replaceable_run (coremap s) f 1" by (simp add: replaceable_run_def)
    from inv have cv: "cm_victim s < nRamFrames s" and big: "1 + 1 < nRamFrames s" by (auto simp: vm_inv_def)
    from victim_scan_complete [OF run f(1) scan_inv_start [OF cv, where v = "-1"]] obtain v cv' where
      vs: "victim_scan (coremap s) 1 0 (cm_victim s) (-1) = Some (v, cv')" by auto
    have "0 \<le> v" using victim_scan_sound [OF vs scan_inv_start [OF cv] _ big] by simp
    with vs have gv: "get_victim_coremap 1 s = Some (nat v, s\<lparr>cm_victim := cv'\<rparr>)"
      by (simp add: get_victim_coremap_def)
    have r: "r = ram s" using st True inv by (auto simp: ram_stealmem_def Let_def vm_inv_def ram_frames_def
      page_addr_eq_0_iff split: if_splits)
    note uv = user_victim [OF inv None gv]
    let ?s = "s\<lparr>cm_victim := cv'\<rparr>"
    from uv(4) inv have inv1: "vm_inv {} ?s" by auto
    obtain s2 where ev: "evict_frame io a (nat v) ?s = Some s2"
      using evict_frame_total [OF inv1 _ _ _ io(1)] uv(2,3) cur io(2) by auto
    have "coremap s2 = coremap s" using evict_frame_SomeD(3) [OF inv1 _ _ _ ev] uv(2,3) cur by simp
    with None st True r gv ev uv(2) show ?thesis by (simp add: getppage_user_def cm_set_def)
  qed
qed

end
