(* ===== verification/AddrSpace.thy ===== *)
theory AddrSpace
  imports Coremap
begin

text \<open>
  \<open>kern/vm/addrspace.c\<close> and the destruction of page tables in \<open>kern/vm/pt.c\<close>. An address
  space is a cell of the heap \<open>ases\<close> that points to a page table in the heap \<open>pts\<close>; a pointer to
  one of its segments, which the fault handler writes through, is a \<open>seg_ref\<close>. Closing the
  executable's vnode is left to the caller of \<open>as_destroy\<close>, which returns it.
\<close>

section \<open>Segments of an address space\<close>

datatype seg_ref = Code | Data | Stack

fun as_seg :: "seg_ref \<Rightarrow> addrspace \<Rightarrow> segment" where
  "as_seg Code A = as_code A"
| "as_seg Data A = as_data A"
| "as_seg Stack A = as_stack A"

fun as_set_seg :: "seg_ref \<Rightarrow> segment \<Rightarrow> addrspace \<Rightarrow> addrspace" where
  "as_set_seg Code sg A = A\<lparr>as_code := sg\<rparr>"
| "as_set_seg Data sg A = A\<lparr>as_data := sg\<rparr>"
| "as_set_seg Stack sg A = A\<lparr>as_stack := sg\<rparr>"

lemma as_pt_set_seg [simp]: "as_pt (as_set_seg r sg A) = as_pt A"
  by (cases r) simp_all

lemma as_seg_set_seg: "as_seg q (as_set_seg r sg A) = (if q = r then sg else as_seg q A)"
  by (cases q; cases r) simp_all

definition as_get_segment :: "addrspace \<Rightarrow> vaddr \<Rightarrow> seg_ref option" where
  "as_get_segment as va =
     (let base_seg1 = p_vaddr (as_code as);
          top_seg1 = p_vaddr (as_code as) + p_memsz (as_code as);
          base_seg2 = p_vaddr (as_data as);
          top_seg2 = p_vaddr (as_data as) + p_memsz (as_data as);
          base_seg3 = p_vaddr (as_stack as);
          top_seg3 = USERSTACK
      in if va \<ge> base_seg1 \<and> va \<le> top_seg1 then Some Code
         else if va \<ge> base_seg2 \<and> va \<le> top_seg2 then Some Data
         else if va \<ge> base_seg3 \<and> va \<le> top_seg3 then Some Stack
         else None)"

section \<open>Creation and copy\<close>

definition as_create :: "vm_io \<Rightarrow> vm_state \<Rightarrow> (nat option \<times> vm_state) option" where
  "as_create io s =
     (if \<not> io_kmalloc io then Some (None, s)
      else do {
        code \<leftarrow> seg_create (io_kmalloc io);
        data \<leftarrow> seg_create (io_kmalloc io);
        stack \<leftarrow> seg_create (io_kmalloc io);
        pt \<leftarrow> pt_create (io_kmalloc io);
        let p = next_ptr s;
        let a = next_ptr s + 1;
        sw \<leftarrow> swapfile_init io (swap s);
        Some (Some a, s\<lparr>pts := (pts s)(p \<mapsto> pt),
          ases := (ases s)(a \<mapsto> \<lparr>as_pt = p, as_code = code, as_data = data, as_stack = stack\<rparr>),
          next_ptr := next_ptr s + 2, swap := sw\<rparr>) })"

definition as_copy :: "vm_io \<Rightarrow> nat \<Rightarrow> vm_state \<Rightarrow> ((errno + nat) \<times> vm_state) option" where
  "as_copy io old s = do {
     (r, s) \<leftarrow> as_create io s;
     (case r of
        None \<Rightarrow> Some (Inl ENOMEM, s)
      | Some newas \<Rightarrow> do {
          old' \<leftarrow> ases s old;
          n \<leftarrow> ases s newas;
          code \<leftarrow> seg_copy (io_kmalloc io) (as_code old');
          data \<leftarrow> seg_copy (io_kmalloc io) (as_data old');
          stack \<leftarrow> seg_copy (io_kmalloc io) (as_stack old');
          let n = n\<lparr>as_code := code, as_data := data, as_stack := stack, as_pt := as_pt old'\<rparr>;
          Some (Inr newas, s\<lparr>ases := (ases s)(newas \<mapsto> n)\<rparr>) }) }"

section \<open>Destruction\<close>

fun pt_free_pages :: "pt_inner_entry list \<Rightarrow> vm_state \<Rightarrow> vm_state option" where
  "pt_free_pages [] s = Some s"
| "pt_free_pages (e # es) s = do {
     s \<leftarrow> (if in_valid e \<and> swap_offset e \<noteq> 1 then page_free (pfn e) s else Some s);
     pt_free_pages es s }"

definition pt_destroy_inner :: "pt_outer_entry \<Rightarrow> vm_state \<Rightarrow> vm_state option" where
  "pt_destroy_inner out s = do {
     kassert (out_pages out \<noteq> None);
     kassert (out_size out \<noteq> 0);
     kassert (out_valid out);
     ps \<leftarrow> out_pages out;
     pt_free_pages (take (out_size out) ps) s }"

fun pt_destroy_outer :: "pt_outer_entry list \<Rightarrow> vm_state \<Rightarrow> vm_state option" where
  "pt_destroy_outer [] s = Some s"
| "pt_destroy_outer (out # outs) s = do {
     s \<leftarrow> (if out_pages out \<noteq> None \<and> out_valid out then pt_destroy_inner out s else Some s);
     pt_destroy_outer outs s }"

definition pt_destroy :: "nat \<Rightarrow> vm_state \<Rightarrow> vm_state option" where
  "pt_destroy p s = do {
     pt \<leftarrow> pts s p;
     s \<leftarrow> pt_destroy_outer (take (pt_size pt) (pt_pages pt)) s;
     Some (s\<lparr>pts := (pts s)(p := None)\<rparr>) }"

definition as_destroy :: "nat \<Rightarrow> vm_state \<Rightarrow> (nat option \<times> vm_state) option" where
  "as_destroy as s = do {
     A \<leftarrow> ases s as;
     let v = seg_vnode (as_code A);
     s \<leftarrow> pt_destroy (as_pt A) s;
     Some (v, s\<lparr>ases := (ases s)(as := None)\<rparr>) }"

section \<open>Switching\<close>

definition as_activate :: "vm_state \<Rightarrow> vm_state option" where
  "as_activate s =
     (case curas s of
        None \<Rightarrow> Some s
      | Some _ \<Rightarrow> do {
          let s = s\<lparr>tlb := tlb_flush (tlb s)\<rparr>;
          st \<leftarrow> increment_statistics (stat_index TLB_INVALIDATE) (stats s);
          Some (s\<lparr>stats := st\<rparr>) })"

definition as_deactivate :: "vm_state \<Rightarrow> vm_state option" where
  "as_deactivate s =
     (case curas s of
        None \<Rightarrow> Some s
      | Some _ \<Rightarrow> do {
          let s = s\<lparr>tlb := tlb_flush (tlb s)\<rparr>;
          st \<leftarrow> increment_statistics (stat_index TLB_INVALIDATE) (stats s);
          Some (s\<lparr>stats := st\<rparr>) })"

section \<open>Regions\<close>

definition as_define_region ::
    "addrspace \<Rightarrow> u32 \<Rightarrow> u32 \<Rightarrow> vaddr \<Rightarrow> u32 \<Rightarrow> u32 \<Rightarrow> bool \<Rightarrow> bool \<Rightarrow> bool \<Rightarrow> int \<Rightarrow> nat option
      \<Rightarrow> addrspace option" where
  "as_define_region as type offset vaddr memsize filesize readable writeable executable seg_n v = do {
     kassert (seg_n < 2);
     let perm = 0;
     let perm = (if readable then perm OR PF_R else perm);
     let perm = (if writeable then perm OR PF_W else perm);
     let perm = (if executable then perm OR PF_X else perm);
     if seg_n = 0 then do {
       code \<leftarrow> seg_define (as_code as) type offset vaddr filesize memsize perm v;
       Some (as\<lparr>as_code := code\<rparr>) }
     else if seg_n = 1 then do {
       data \<leftarrow> seg_define (as_data as) type offset vaddr filesize memsize perm v;
       Some (as\<lparr>as_data := data\<rparr>) }
     else None }"

definition as_prepare_load :: "addrspace \<Rightarrow> errno option" where
  "as_prepare_load as = None"

definition as_complete_load :: "addrspace \<Rightarrow> errno option" where
  "as_complete_load as = None"

definition as_define_stack :: "addrspace \<Rightarrow> (vaddr \<times> addrspace) option" where
  "as_define_stack as = do {
     stack \<leftarrow> seg_define_stack (as_stack as);
     Some (USERSTACK, as\<lparr>as_stack := stack\<rparr>) }"

section \<open>What destruction frees\<close>

text \<open>Every frame an entry names is released, and nothing else changes in the frame table.\<close>

definition freed :: "coremap_entry" where
  "freed = \<lparr>ce_as = None, status = free, ce_vaddr = 0, alloc_size = 0\<rparr>"

lemma status_freed [simp]: "status freed = free"
  by (simp add: freed_def)

definition free_frames :: "nat set \<Rightarrow> coremap_entry list \<Rightarrow> coremap_entry list" where
  "free_frames F cm = map (\<lambda>i. if i \<in> F then freed else cm ! i) [0..<length cm]"

lemma free_frames_length [simp]: "length (free_frames F cm) = length cm"
  by (simp add: free_frames_def)

lemma free_frames_nth [simp]: "i < length cm \<Longrightarrow> free_frames F cm ! i = (if i \<in> F then freed else cm ! i)"
  by (simp add: free_frames_def)

lemma free_frames_Un: "free_frames G (free_frames F cm) = free_frames (F \<union> G) cm"
  by (rule nth_equalityI) auto

lemma free_frames_empty [simp]: "free_frames {} cm = cm"
  by (rule nth_equalityI) auto

definition releasable :: "coremap_entry list \<Rightarrow> nat \<Rightarrow> bool" where
  "releasable cm f \<longleftrightarrow> f < length cm \<and> status (cm ! f) \<noteq> fixed"

lemma releasable_free_frames [simp]: "releasable (free_frames F cm) f \<longleftrightarrow> f < length cm \<and> (f \<in> F \<or> releasable cm f)"
  by (cases "f \<in> F") (auto simp: releasable_def freed_def)

lemma page_free_eq:
  "page_free pa s = (if releasable (coremap s) (vpn pa)
     then Some (s\<lparr>coremap := free_frames {vpn pa} (coremap s)\<rparr>) else None)"
proof -
  have "(coremap s)[i := freed] = free_frames {i} (coremap s)" for i
    by (rule nth_equalityI) (auto simp: nth_list_update)
  then show ?thesis
    by (simp add: page_free_def cm_get_def cm_set_def Let_def releasable_def vpn_def freed_def kassert_bind_if)
qed

definition entry_frames :: "pt_inner_entry list \<Rightarrow> nat set" where
  "entry_frames es = (\<lambda>e. vpn (pfn e)) ` {e \<in> set es. in_valid e \<and> swap_offset e \<noteq> 1}"

lemma entry_frames_simps [simp]:
  "entry_frames [] = {}"
  "entry_frames (e # es) = (if in_valid e \<and> swap_offset e \<noteq> 1 then {vpn (pfn e)} else {}) \<union> entry_frames es"
  by (auto simp: entry_frames_def)

lemma pt_free_pages_eq:
  assumes "\<forall>f\<in>entry_frames es. releasable (coremap s) f"
  shows "pt_free_pages es s = Some (s\<lparr>coremap := free_frames (entry_frames es) (coremap s)\<rparr>)"
  using assms
proof (induction es arbitrary: s)
  case Nil
  then show ?case by simp
next
  case (Cons e es)
  show ?case
  proof (cases "in_valid e \<and> swap_offset e \<noteq> 1")
    case True
    let ?s = "s\<lparr>coremap := free_frames {vpn (pfn e)} (coremap s)\<rparr>"
    from Cons.prems True have "\<forall>f\<in>entry_frames es. releasable (coremap ?s) f"
      and "releasable (coremap s) (vpn (pfn e))"
      by (auto simp: releasable_def)
    with Cons.IH [of ?s] True show ?thesis by (simp add: page_free_eq free_frames_Un)
  next
    case False
    with Cons show ?thesis by auto
  qed
qed

definition outer_frames :: "pt_outer_entry list \<Rightarrow> nat set" where
  "outer_frames outs = (\<Union>out\<in>set outs. case out_pages out of None \<Rightarrow> {} | Some ps \<Rightarrow> entry_frames ps)"

definition outer_ok :: "pt_outer_entry \<Rightarrow> bool" where
  "outer_ok out \<longleftrightarrow> (if out_valid out then \<exists>ps. out_pages out = Some ps \<and> length ps = out_size out \<and> 0 < out_size out
                     else out_pages out = None)"

lemma pt_destroy_outer_eq:
  assumes "\<forall>out\<in>set outs. outer_ok out" and "\<forall>f\<in>outer_frames outs. releasable (coremap s) f"
  shows "pt_destroy_outer outs s = Some (s\<lparr>coremap := free_frames (outer_frames outs) (coremap s)\<rparr>)"
  using assms
proof (induction outs arbitrary: s)
  case Nil
  then show ?case by (simp add: outer_frames_def)
next
  case (Cons out outs)
  let ?F = "case out_pages out of None \<Rightarrow> {} | Some ps \<Rightarrow> entry_frames ps"
  have split: "outer_frames (out # outs) = ?F \<union> outer_frames outs" by (simp add: outer_frames_def)
  have "(if out_pages out \<noteq> None \<and> out_valid out then pt_destroy_inner out s else Some s)
      = Some (s\<lparr>coremap := free_frames ?F (coremap s)\<rparr>)"
    using Cons.prems split pt_free_pages_eq
    by (auto simp: outer_ok_def pt_destroy_inner_def kassert_bind_if split: if_splits)
  moreover have "pt_destroy_outer outs (s\<lparr>coremap := free_frames ?F (coremap s)\<rparr>)
      = Some (s\<lparr>coremap := free_frames (outer_frames outs) (free_frames ?F (coremap s))\<rparr>)"
    using Cons.prems split by (subst Cons.IH) (auto simp: releasable_def)
  ultimately show ?case by (simp add: split free_frames_Un)
qed


text \<open>For a well-formed table, by page: the frames named are those of its entries, where a page
  in swap names frame 0.\<close>

definition pt_frames :: "pt_directory \<Rightarrow> nat set" where
  "pt_frames pt = {vpn pa | pa p off. pt_entry pt p = Some (pa, off) \<and> off \<noteq> 1}"

lemma pt_frames_outer:
  assumes wf: "pt_wf pt"
  shows "outer_frames (pt_pages pt) = pt_frames pt"
proof (intro set_eqI iffI)
  fix f assume "f \<in> outer_frames (pt_pages pt)"
  then obtain i ps e where i: "i < length (pt_pages pt)" "out_pages (pt_pages pt ! i) = Some ps"
    and e: "e \<in> set ps" "in_valid e" "swap_offset e \<noteq> 1" "f = vpn (pfn e)"
    unfolding outer_frames_def entry_frames_def by (fastforce dest: in_set_conv_nth [THEN iffD1] split: option.splits)
  from e(1) obtain j where j: "j < length ps" "e = ps ! j" by (auto simp: in_set_conv_nth)
  have i': "i < 1024" using i(1) wf by (simp add: pt_wf_def)
  have valid: "out_valid (pt_pages pt ! i)" and j': "j < 1024"
    using pt_wf_outer [OF wf i'] i(2) j(1) by fastforce+
  have "(1024 * i + j) div 1024 = i" "(1024 * i + j) mod 1024 = j" "1024 * i + j < 1048576"
    using i' j' by auto
  then have "pt_entry pt (1024 * i + j) = Some (pfn e, swap_offset e)"
    using valid i(2) e(2) j(2) by (simp add: pt_entry_def Let_def)
  with e show "f \<in> pt_frames pt" by (auto simp: pt_frames_def)
next
  fix f assume "f \<in> pt_frames pt"
  then obtain pa p off where p: "pt_entry pt p = Some (pa, off)" "off \<noteq> 1" "f = vpn pa"
    by (auto simp: pt_frames_def)
  then have lt: "p < 1048576" by (auto simp: pt_entry_def split: if_splits)
  with p(1) obtain ps where ps: "out_valid (pt_pages pt ! (p div 1024))" "out_pages (pt_pages pt ! (p div 1024)) = Some ps"
      "in_valid (ps ! (p mod 1024))" "pa = pfn (ps ! (p mod 1024))" "off = swap_offset (ps ! (p mod 1024))"
    by (auto simp: pt_entry_def Let_def split: if_splits option.splits)
  have i: "p div 1024 < 1024" using lt by linarith
  have "length ps = 1024" using pt_wf_outer [OF wf i] ps(2) by fastforce
  then have "ps ! (p mod 1024) \<in> set ps" by simp
  then have "f \<in> entry_frames ps" using ps p by (auto simp: entry_frames_def)
  moreover have "pt_pages pt ! (p div 1024) \<in> set (pt_pages pt)" using i wf by (simp add: pt_wf_def)
  ultimately show "f \<in> outer_frames (pt_pages pt)" using ps(2) by (force simp: outer_frames_def)
qed

theorem pt_destroy_eq:
  assumes "pts s p = Some pt" and wf: "pt_wf pt" and "\<forall>f\<in>pt_frames pt. releasable (coremap s) f"
  shows "pt_destroy p s = Some (s\<lparr>coremap := free_frames (pt_frames pt) (coremap s), pts := (pts s)(p := None)\<rparr>)"
proof -
  have "\<forall>out\<in>set (pt_pages pt). outer_ok out"
    using wf unfolding pt_wf_def outer_ok_def by fastforce
  from pt_destroy_outer_eq [OF this, of s] show ?thesis
    using assms by (simp add: pt_destroy_def pt_wf_def pt_frames_outer)
qed

lemma pt_frames_swapped: "pt_entry pt p = Some (0, off) \<Longrightarrow> off \<noteq> 1 \<Longrightarrow> 0 \<in> pt_frames pt"
  by (force simp: pt_frames_def vpn_def)

definition fresh_as :: "nat \<Rightarrow> addrspace" where
  "fresh_as p = \<lparr>as_pt = p, as_code = empty_segment, as_data = empty_segment, as_stack = empty_segment\<rparr>"

lemma as_create_SomeD:
  assumes "as_create io s = Some (Some a, s')"
  obtains pt sw where "a = next_ptr s + 1" "pt_create True = Some pt" "swapfile_init io (swap s) = Some sw"
    "s' = s\<lparr>pts := (pts s)(next_ptr s \<mapsto> pt), ases := (ases s)(a \<mapsto> fresh_as (next_ptr s)),
            next_ptr := next_ptr s + 2, swap := sw\<rparr>"
proof -
  from assms have km: "io_kmalloc io" by (auto simp: as_create_def split: if_splits)
  with assms obtain pt sw where pt: "pt_create True = Some pt" "swapfile_init io (swap s) = Some sw"
    by (auto simp: as_create_def seg_create_def bind_eq_Some_conv Let_def)
  with assms km show thesis
    by (intro that [of pt sw]) (auto simp: as_create_def seg_create_def fresh_as_def Let_def)
qed

section \<open>Destruction by another process\<close>

text \<open>\<open>as_destroy\<close> does not look at the current address space.\<close>

lemma page_free_curas:
  "page_free pa (s\<lparr>curas := c\<rparr>) = map_option (\<lambda>s. s\<lparr>curas := c\<rparr>) (page_free pa s)"
  by (auto simp: page_free_def cm_get_def cm_set_def Let_def kassert_bind_if)

lemma pt_free_pages_curas:
  "pt_free_pages es (s\<lparr>curas := c\<rparr>) = map_option (\<lambda>s. s\<lparr>curas := c\<rparr>) (pt_free_pages es s)"
proof (induction es arbitrary: s)
  case (Cons e es)
  show ?case
    by (cases "page_free (pfn e) s") (simp_all add: Cons.IH page_free_curas)
qed simp

lemma pt_destroy_outer_curas:
  "pt_destroy_outer outs (s\<lparr>curas := c\<rparr>) = map_option (\<lambda>s. s\<lparr>curas := c\<rparr>) (pt_destroy_outer outs s)"
proof (induction outs arbitrary: s)
  case (Cons out outs)
  have inner: "pt_destroy_inner out (s\<lparr>curas := c\<rparr>) = map_option (\<lambda>s. s\<lparr>curas := c\<rparr>) (pt_destroy_inner out s)"
    by (cases "out_pages out") (auto simp: pt_destroy_inner_def pt_free_pages_curas kassert_bind_if)
  show ?case
    by (cases "pt_destroy_inner out s") (simp_all add: Cons.IH inner)
qed simp

lemma as_destroy_curas:
  "as_destroy a (s\<lparr>curas := c\<rparr>) = map_option (\<lambda>(v, s). (v, s\<lparr>curas := c\<rparr>)) (as_destroy a s)"
proof (cases "ases s a")
  case (Some A)
  then show ?thesis
    by (cases "pts s (as_pt A)")
      (auto simp: as_destroy_def pt_destroy_def pt_destroy_outer_curas map_option_case split: option.splits)
qed (simp add: as_destroy_def)

end
