(* ===== verification/VmFault.thy ===== *)
theory VmFault
  imports Paging AddrSpace
begin

text \<open>
  \<open>kern/vm/vmc1.c\<close>: the start and shutdown of the virtual memory system and the handler of
  page faults. \<open>vm_fault\<close> is cut where the code has its blocks: a fresh page, a page from swap,
  the load from the executable, the TLB entry. A read-only fault calls \<open>sys__exit\<close>, which does
  not come back: the outcome \<open>Exited\<close>. There is no current address space both when there is no
  current process and when the process has none.
\<close>

section \<open>Start and shutdown\<close>

definition vm_bootstrap :: "vm_io \<Rightarrow> vm_state \<Rightarrow> vm_state option" where
  "vm_bootstrap io s = do {
     s \<leftarrow> coremap_init io s;
     Some (s\<lparr>tlb_victim := 0, stats := init_statistics (stats s)\<rparr>) }"

definition vm_shutdown :: "vm_state \<Rightarrow> stat_warning list \<times> vm_state" where
  "vm_shutdown s =
     (let s = coremap_shutdown s; s = s\<lparr>swap := swap_shutdown (swap s)\<rparr>
      in (print_all_statistics (stats s), s))"

section \<open>Page faults\<close>

abbreviation VM_FAULT_READ :: int where "VM_FAULT_READ \<equiv> 0"
abbreviation VM_FAULT_WRITE :: int where "VM_FAULT_WRITE \<equiv> 1"
abbreviation VM_FAULT_READONLY :: int where "VM_FAULT_READONLY \<equiv> 2"

datatype fault_result = Resolved | Failed errno | Exited int

text \<open>A page that has never been used: a frame, its entry, and zeroes for the stack.\<close>

definition vm_fresh_page :: "vm_io \<Rightarrow> nat \<Rightarrow> u32 \<Rightarrow> vaddr \<Rightarrow> vm_state \<Rightarrow> (paddr \<times> vm_state) option" where
  "vm_fresh_page io ptp perm fault_addr s = do {
     (pa, s) \<leftarrow> page_alloc io (fault_addr AND PAGE_FRAME) s;
     kassert (pa AND PAGE_FRAME = pa);
     pt \<leftarrow> pts s ptp;
     pt \<leftarrow> pt_set_pa (io_kmalloc io) pt fault_addr pa;
     let s = s\<lparr>pts := (pts s)(ptp \<mapsto> pt)\<rparr>;
     if perm = PF_S then do {
       let s = s\<lparr>mem := fill (mem s) (unat pa) PAGE_SIZE 0\<rparr>;
       st \<leftarrow> increment_statistics (stat_index PAGE_FAULT_ZERO) (stats s);
       Some (pa, s\<lparr>stats := st\<rparr>) }
     else Some (pa, s) }"

definition vm_swapped_page :: "vm_io \<Rightarrow> nat \<Rightarrow> vaddr \<Rightarrow> int \<Rightarrow> vm_state \<Rightarrow> (paddr \<times> vm_state) option" where
  "vm_swapped_page io ptp fault_addr swap_off s = do {
     (pa, s) \<leftarrow> page_alloc io (fault_addr AND PAGE_FRAME) s;
     (result_swap_in, m, sw, st) \<leftarrow> swap_in io pa swap_off (mem s) (swap s, stats s);
     let s = s\<lparr>mem := m, swap := sw, stats := st\<rparr>;
     kassert (result_swap_in = 0);
     pt \<leftarrow> pts s ptp;
     pt \<leftarrow> pt_set_offset (io_kmalloc io) pt (fault_addr AND PAGE_FRAME) (-1);
     pt \<leftarrow> pt_set_pa (io_kmalloc io) pt (fault_addr AND PAGE_FRAME) pa;
     Some (pa, s\<lparr>pts := (pts s)(ptp \<mapsto> pt)\<rparr>) }"

definition vm_load_page ::
    "vm_io \<Rightarrow> nat \<Rightarrow> seg_ref \<Rightarrow> vaddr \<Rightarrow> paddr \<Rightarrow> vm_state \<Rightarrow> (errno option \<times> vm_state) option" where
  "vm_load_page io a r fault_addr pa s = do {
     A \<leftarrow> ases s a;
     (result, sg, m, st) \<leftarrow> seg_load_page io (as_seg r A) fault_addr pa (mem s) (stats s);
     Some (result, s\<lparr>ases := (ases s)(a \<mapsto> as_set_seg r sg A), mem := m, stats := st\<rparr>) }"

definition vm_tlb_install :: "u32 \<Rightarrow> vaddr \<Rightarrow> paddr \<Rightarrow> vm_state \<Rightarrow> vm_state option" where
  "vm_tlb_install perm fault_addr pa s = do {
     st \<leftarrow> increment_statistics (stat_index TLB_FAULT) (stats s);
     let (victim, cv) = tlb_get_rr_victim (tlb_victim s);
     let ehi = fault_addr AND PAGE_FRAME;
     let elo = pa OR TLBLO_VALID;
     let elo = (if perm = (PF_R OR PF_W) \<or> perm = PF_S \<or> perm = PF_W then elo OR TLBLO_DIRTY else elo);
     let (victim_ehi, victim_elo) = tlb_read victim (tlb s);
     st \<leftarrow> (if victim_elo AND TLBLO_VALID \<noteq> 0
           then increment_statistics (stat_index TLB_FAULT_REPLACE) st
           else increment_statistics (stat_index TLB_FAULT_FREE) st);
     Some (s\<lparr>tlb := tlb_write ehi elo victim (tlb s), tlb_victim := cv, stats := st\<rparr>) }"

definition vm_fault :: "vm_io \<Rightarrow> int \<Rightarrow> vaddr \<Rightarrow> vm_state \<Rightarrow> (fault_result \<times> vm_state) option" where
  "vm_fault io fault_type fault_addr s =
     (if fault_type = VM_FAULT_READONLY then Some (Exited 1, s)
      else if fault_type \<noteq> VM_FAULT_READ \<and> fault_type \<noteq> VM_FAULT_WRITE then Some (Failed EINVAL, s)
      else case curas s of
        None \<Rightarrow> Some (Failed EFAULT, s)
      | Some a \<Rightarrow> do {
          A \<leftarrow> ases s a;
          case as_get_segment A fault_addr of
            None \<Rightarrow> Some (Failed EFAULT, s)
          | Some r \<Rightarrow> do {
              let perm = p_permission (as_seg r A);
              pt \<leftarrow> pts s (as_pt A);
              pa \<leftarrow> pt_get_pa pt fault_addr;
              st \<leftarrow> (if pa > 0 then increment_statistics (stat_index TLB_RELOAD) (stats s) else Some (stats s));
              let s = s\<lparr>stats := st\<rparr>;
              swap_off \<leftarrow> pt_get_offset pt fault_addr;
              (pa, new_page, s) \<leftarrow>
                (if pa = PFN_NOT_USED \<and> swap_off = -1
                 then do { (pa, s) \<leftarrow> vm_fresh_page io (as_pt A) perm fault_addr s; Some (pa, True, s) }
                 else if swap_off \<ge> 0
                 then do { (pa, s) \<leftarrow> vm_swapped_page io (as_pt A) fault_addr swap_off s; Some (pa, False, s) }
                 else Some (pa, False, s));
              (result, s) \<leftarrow>
                (if new_page \<and> perm \<noteq> PF_S then vm_load_page io a r fault_addr pa s else Some (None, s));
              if result \<noteq> None then Some (Failed EFAULT, s)
              else do { s \<leftarrow> vm_tlb_install perm fault_addr pa s; Some (Resolved, s) } } })"

section \<open>The blocks of the handler\<close>

definition writable :: "u32 \<Rightarrow> bool" where
  "writable perm \<longleftrightarrow> perm = (PF_R OR PF_W) \<or> perm = PF_S \<or> perm = PF_W"

definition zero_page :: bytes where
  "zero_page = (\<lambda>_. 0)"

lemma page_at_zero: "page_at (fill m a PAGE_SIZE 0) a = zero_page"
  by (simp add: pages zero_page_def)

lemma frame_unat: "vm_inv X s \<Longrightarrow> f < nRamFrames s \<Longrightarrow> unat (page_addr f) = f * 4096 \<and> f < 131072"
  by (auto simp: vm_inv_def ram_frames_def unat_page_addr)

lemma page_alloc_SomeD:
  assumes inv: "vm_inv {} s" and cur: "curas s = Some a"
    and pa: "page_alloc io va s = Some (pa, s')"
  obtains f where "pa = page_addr f" "1 \<le> f" "f < nRamFrames s" "vm_inv {f} s'" "quiet_step s s'"
    "coremap s' ! f = \<lparr>ce_as = Some a, status = dirty, ce_vaddr = va, alloc_size = 1\<rparr>"
proof -
  have "getppage_user io va a s = Some (pa, s')"
    using inv cur pa by (auto simp: page_alloc_def isCoremapActive_def vm_inv_def)
  from getppage_user_SomeD [OF inv cur this] that show thesis by blast
qed

text \<open>What a block leaves to the next one: page \<open>p\<close> is resident in a frame, all others hold what
  they held, and the segments, the TLB's victim and the misses of \<open>p\<close> are as before.\<close>

definition page_in :: "nat \<Rightarrow> paddr \<Rightarrow> vm_state \<Rightarrow> vm_state \<Rightarrow> bool" where
  "page_in p pa s s' \<longleftrightarrow> vm_inv {} s' \<and> curas s' = curas s \<and> ases s' = ases s \<and> tlb_victim s' = tlb_victim s \<and>
     (\<exists>f. pa = page_addr f \<and> 1 \<le> f \<and> f < nRamFrames s') \<and> cur_map s' p = Some (pa, -1) \<and>
     (\<forall>q. q \<noteq> p \<longrightarrow> content s' q = content s q) \<and> \<not> tlb_has (tlb s') p"

lemma vm_fresh_page_ok:
  assumes inv: "vm_inv {} s" and cur: "curas s = Some a" "ases s a = Some A"
    and p: "p = vpn fault_addr" "p < 0x80000" "cur_map s p = None" "\<not> tlb_has (tlb s) p"
    and run: "vm_fresh_page io (as_pt A) perm fault_addr s = Some (pa, s')"
  shows "page_in p pa s s'" and "perm = PF_S \<Longrightarrow> content s' p = Some zero_page"
    and "stats_balanced d (stats s) \<Longrightarrow> stats_balanced (if perm = PF_S then d + 1 else d) (stats s')"
proof -
  from run obtain s1 pt pt' where al: "page_alloc io (fault_addr AND PAGE_FRAME) s = Some (pa, s1)"
    and pt: "pts s1 (as_pt A) = Some pt" and set: "pt_set_pa (io_kmalloc io) pt fault_addr pa = Some pt'"
    and s': "s' = (if perm = PF_S
       then s1\<lparr>pts := (pts s1)(as_pt A \<mapsto> pt'), mem := fill (mem s1) (unat pa) PAGE_SIZE 0,
               stats := tick PAGE_FAULT_ZERO (stats s1)\<rparr>
       else s1\<lparr>pts := (pts s1)(as_pt A \<mapsto> pt')\<rparr>)"
    by (auto simp: vm_fresh_page_def bind_eq_Some_conv Let_def split: if_splits)
  from page_alloc_SomeD [OF inv cur(1) al] obtain f where f: "pa = page_addr f" "1 \<le> f" "f < nRamFrames s"
    "vm_inv {f} s1" and q: "quiet_step s s1"
    and cm: "coremap s1 ! f = \<lparr>ce_as = Some a, status = dirty, ce_vaddr = page_addr p, alloc_size = 1\<rparr>"
    by (auto simp: page_frame_mask p(1))
  from q have cur1: "curas s1 = Some a" "ases s1 a = Some A" and f1: "f < nRamFrames s1"
    and p1: "cur_map s1 p = None" "\<not> tlb_has (tlb s1) p" and tv: "tlb_victim s1 = tlb_victim s"
    and st: "stats_balanced d (stats s) \<Longrightarrow> stats_balanced d (stats s1)"
    using cur f p unfolding quiet_step_def by auto
  have P: "cur_map s1 = pt_entry pt" using cur1 pt by (simp add: cur_map_eq)
  have wf: "pt_wf pt" "swap_wf (swap s1)" using f(4) cur1 pt unfolding vm_inv_def by auto
  have none: "pt_entry pt p = None" using p1 P by simp
  with pt_set_pa_SomeD [OF wf(1) set] have pt': "pt_wf pt'" "pt_entry pt' = (pt_entry pt)(p \<mapsto> (page_addr f, -1))"
    by (auto simp: p(1) f(1))
  define m where "m = (if perm = PF_S then fill (mem s1) (unat pa) PAGE_SIZE 0 else mem s1)"
  define sts where "sts = (if perm = PF_S then tick PAGE_FAULT_ZERO (stats s1) else stats s1)"
  have s'': "s' = s1\<lparr>swap := swap s1, stats := sts, mem := m, pts := (pts s1)(as_pt A \<mapsto> pt')\<rparr>"
    by (simp add: s' m_def sts_def)
  have m: "same_outside (unat (page_addr f)) (mem s1) m"
    by (simp add: m_def f(1) same_outside_fill)
  note map = vm_inv_map [OF f(4) cur1 pt f(2) f1 cm p(2) _ p1(2) _ wf(2) pt' m s'']
  have inv': "vm_inv {} s'" and con: "content s' = (content s1)(p \<mapsto> page_at m (unat (page_addr f)))"
    and ma: "cur_map s' = (cur_map s1)(p \<mapsto> (page_addr f, -1))"
    by (rule map; simp add: none)+
  have "nRamFrames s' = nRamFrames s1" "curas s' = curas s1" "ases s' = ases s1" "tlb s' = tlb s1"
    "tlb_victim s' = tlb_victim s1" by (simp_all add: s'')
  then show "page_in p pa s s'"
    using inv' con ma f f1 q p1 unfolding page_in_def quiet_step_def by auto
  show "content s' p = Some zero_page" if "perm = PF_S"
    using that con by (simp add: m_def f(1) page_at_zero)
  show "stats_balanced (if perm = PF_S then d + 1 else d) (stats s')" if "stats_balanced d (stats s)"
    using st [OF that] by (simp add: s'' sts_def stats_balanced_ticks)
qed

lemma vm_swapped_page_ok:
  assumes inv: "vm_inv {} s" and cur: "curas s = Some a" "ases s a = Some A"
    and p: "p = vpn fault_addr" "p < 0x80000" "cur_map s p = Some (0, off)" "off \<ge> 0" "\<not> tlb_has (tlb s) p"
    and run: "vm_swapped_page io (as_pt A) fault_addr off s = Some (pa, s')"
  shows "page_in p pa s s'" and "content s' p = content s p"
    and "stats_balanced d (stats s) \<Longrightarrow> stats_balanced (d + 1) (stats s')"
proof -
  from run obtain s1 res m sw st where al: "page_alloc io (fault_addr AND PAGE_FRAME) s = Some (pa, s1)"
    and swin: "swap_in io pa off (mem s1) (swap s1, stats s1) = Some (res, m, sw, st)"
    by (auto simp: vm_swapped_page_def bind_eq_Some_conv)
  from page_alloc_SomeD [OF inv cur(1) al] obtain f where f: "pa = page_addr f" "1 \<le> f" "f < nRamFrames s"
    "vm_inv {f} s1" and q: "quiet_step s s1"
    and cm: "coremap s1 ! f = \<lparr>ce_as = Some a, status = dirty, ce_vaddr = page_addr p, alloc_size = 1\<rparr>"
    by (auto simp: page_frame_mask p(1))
  from q have cur1: "curas s1 = Some a" "ases s1 a = Some A" and f1: "f < nRamFrames s1"
    and p1: "cur_map s1 p = Some (0, off)" "\<not> tlb_has (tlb s1) p" and tv: "tlb_victim s1 = tlb_victim s"
    and st: "stats_balanced d (stats s) \<Longrightarrow> stats_balanced d (stats s1)"
    using cur f p unfolding quiet_step_def by auto
  from f(4) cur1 obtain pt where pt: "pts s1 (as_pt A) = Some pt"
    and wf: "pt_wf pt" "swap_wf (swap s1)" and ent: "entries_inv {f} (pt_entry pt) (coremap s1) (swap s1)"
    unfolding vm_inv_def by auto
  have P: "cur_map s1 = pt_entry pt" using cur1 pt by (simp add: cur_map_eq)
  from ent p1(1) p(4) obtain k c where k: "off = int (k * PAGE_SIZE)" "swap_slot (swap s1) k = Some (page_addr p, c)"
    unfolding P entries_inv_def resident_def swapped_def by fastforce
  have kb: "k < NUM_PAGES" using k(2) by (auto simp: swap_slot_def split: if_splits)
  have rd: "io_swap_read io (int (k * PAGE_SIZE)) = (None, 0)"
    using swin unfolding k(1)
    by (cases "io_swap_read io (int (k * PAGE_SIZE))") (auto simp: swap_in_def Let_def)
  obtain sw0 where "swap_in io pa (int (k * PAGE_SIZE)) (mem s1) (swap s1, stats s1)
      = Some (0, blit (mem s1) (unat pa) (swap_data (swap s1)) (k * PAGE_SIZE) PAGE_SIZE, sw0,
              tick SWAP_FILE_READ (tick PAGE_FAULT_DISK (stats s1)))"
    "swap_wf sw0" "swap_slot sw0 = (swap_slot (swap s1))(k := None)"
    using swap_in_eq [OF wf(2) kb rd] by blast
  with swin k(1) have sw: "m = blit (mem s1) (unat pa) (swap_data (swap s1)) (k * PAGE_SIZE) PAGE_SIZE" "res = 0"
    "swap_wf sw" "swap_slot sw = (swap_slot (swap s1))(k := None)" "st = tick SWAP_FILE_READ (tick PAGE_FAULT_DISK (stats s1))"
    by auto
  from run al swin obtain t1 pt' where set: "pt_set_offset (io_kmalloc io) pt (fault_addr AND PAGE_FRAME) (-1) = Some t1"
    "pt_set_pa (io_kmalloc io) t1 (fault_addr AND PAGE_FRAME) pa = Some pt'"
    and s': "s' = s1\<lparr>swap := sw, stats := st, mem := m, pts := (pts s1)(as_pt A \<mapsto> pt')\<rparr>"
    by (auto simp: vm_swapped_page_def bind_eq_Some_conv Let_def pt)
  from pt_set_offset_SomeD [OF wf(1) set(1)] have t1: "pt_wf t1" "pt_entry t1 = (pt_entry pt)(p \<mapsto> (0, -1))"
    using p1(1) P by (auto simp: p(1) entry_pa_def)
  from pt_set_pa_SomeD [OF t1(1) set(2)] have pt': "pt_wf pt'" "pt_entry pt' = (pt_entry pt)(p \<mapsto> (page_addr f, -1))"
    by (auto simp: t1 p(1) f(1) entry_offset_def)
  have m: "same_outside (unat (page_addr f)) (mem s1) m" by (simp add: sw f(1) same_outside_blit)
  have slots: "swap_slot sw = (\<lambda>j. if pt_entry pt p = Some (0, int (j * PAGE_SIZE)) then None else swap_slot (swap s1) j)"
    using p1(1) k(1) by (auto simp: P sw(4) fun_eq_iff)
  have nres: "\<nexists>pa. pt_entry pt p = Some (pa, -1)" using p1(1) P p(4) by auto
  note map = vm_inv_map [OF f(4) cur1 pt f(2) f1 cm p(2) nres p1(2) slots sw(3) pt' m s']
  have "nRamFrames s' = nRamFrames s1" "curas s' = curas s1" "ases s' = ases s1" "tlb s' = tlb s1"
    "tlb_victim s' = tlb_victim s1" by (simp_all add: s')
  then show "page_in p pa s s'"
    using map f f1 q p1 unfolding page_in_def quiet_step_def by auto
  have c: "c = page_at (swap_data (swap s1)) (k * PAGE_SIZE)"
    using k(2) by (simp add: swap_slot_def split: if_splits)
  have "nat off div PAGE_SIZE = k" using k(1) by (simp del: of_nat_mult)
  then have "content s1 p = Some c" using p1(1) k(2) p(4) by (simp add: content_def page_view_def)
  moreover have "content s' p = Some c"
    unfolding map(2) by (simp add: sw(1) f(1) pages c)
  ultimately show "content s' p = content s p" using q by (simp add: quiet_step_def)
  show "stats_balanced (d + 1) (stats s')" if "stats_balanced d (stats s)"
    using st [OF that] by (simp add: s' sw(5) stats_balanced_ticks)
qed

lemma elo_bits:
  assumes "f < 1048576" and "w AND PAGE_FRAME = 0" and "w AND TLBLO_VALID \<noteq> 0"
  shows "(page_addr f OR w) AND TLBLO_PPAGE = page_addr f" and "(page_addr f OR w) AND TLBLO_VALID \<noteq> 0"
proof -
  have "(page_addr f OR w) AND PAGE_FRAME = (page_addr f AND PAGE_FRAME) OR (w AND PAGE_FRAME)"
    by (rule bit.conj_disj_distrib2)
  then show "(page_addr f OR w) AND TLBLO_PPAGE = page_addr f"
    using assms(1,2) by (simp add: page_addr_aligned)
  have "(page_addr f OR w) AND TLBLO_VALID = (page_addr f AND TLBLO_VALID) OR (w AND TLBLO_VALID)"
    by (rule bit.conj_disj_distrib2)
  then show "(page_addr f OR w) AND TLBLO_VALID \<noteq> 0"
    using assms(3) by (simp only: or_eq_0_iff) simp
qed

definition elo_of :: "u32 \<Rightarrow> paddr \<Rightarrow> u32" where
  "elo_of perm pa = pa OR (if writable perm then TLBLO_VALID OR TLBLO_DIRTY else TLBLO_VALID)"

lemma page_addr_dirty: "f < 1048576 \<Longrightarrow> page_addr f AND TLBLO_DIRTY = 0"
proof -
  assume "f < 1048576"
  then have "page_addr f AND TLBLO_DIRTY = page_addr f AND (PAGE_FRAME AND TLBLO_DIRTY)"
    by (simp only: and.assoc [symmetric] page_addr_aligned)
  then show ?thesis by simp
qed

lemma elo_of_dirty: "f < 1048576 \<Longrightarrow> elo_of perm (page_addr f) AND TLBLO_DIRTY \<noteq> 0 \<longleftrightarrow> writable perm"
  unfolding elo_of_def by (simp add: bit.conj_disj_distrib2 page_addr_dirty)

definition tlb_event :: "u32 \<Rightarrow> statistics \<Rightarrow> statistics" where
  "tlb_event victim_elo st =
     (if victim_elo AND TLBLO_VALID \<noteq> 0 then tick TLB_FAULT_REPLACE (tick TLB_FAULT st)
      else tick TLB_FAULT_FREE (tick TLB_FAULT st))"

lemma vm_tlb_install_eq:
  "vm_tlb_install perm fault_addr pa s =
     Some (s\<lparr>tlb := (tlb s)[tlb_victim s := (page_addr (vpn fault_addr), elo_of perm pa)],
             tlb_victim := (tlb_victim s + 1) mod NUM_TLB,
             stats := tlb_event (snd (tlb s ! tlb_victim s)) (stats s)\<rparr>)"
proof -
  have lo: "elo_of perm pa = (if writable perm then (pa OR TLBLO_VALID) OR TLBLO_DIRTY else pa OR TLBLO_VALID)"
    by (simp only: elo_of_def or.assoc if_distrib [of "\<lambda>w. pa OR w"])
  show ?thesis
    unfolding lo writable_def tlb_event_def vm_tlb_install_def tlb_get_rr_victim_def tlb_read_def tlb_write_def
      Let_def page_frame_mask increment_statistics_eq split_beta fst_conv snd_conv bind.bind_lunit
    by (simp only: if_distrib [of Some, symmetric] bind.bind_lunit)
qed

lemma vm_tlb_install_ok:
  assumes inv: "vm_inv {} s" and p: "p = vpn fault_addr" "p < 0x80000" "cur_map s p = Some (page_addr f, -1)"
    and f: "f < nRamFrames s" and miss: "\<not> tlb_has (tlb s) p"
    and run: "vm_tlb_install perm fault_addr (page_addr f) s = Some s'"
  shows "vm_inv {} s'" and "content s' = content s" and "cur_map s' = cur_map s"
proof -
  let ?lo = "elo_of perm (page_addr f)" and ?v = "tlb_victim s"
  from inv obtain a A pt nxt where *: "curas s = Some a" "ases s a = Some A" "pts s (as_pt A) = Some pt"
    "pt_wf pt" "ram_frames (ram s) nxt (nRamFrames s)"
    "entries_inv {} (pt_entry pt) (coremap s) (swap s)" "frames_inv {} (pt_entry pt) (coremap s) nxt a"
    "slots_inv (pt_entry pt) (swap s)" "swap_wf (swap s)"
    "coremapActive s" "cm_victim s < nRamFrames s" "2 < nRamFrames s"
    and v: "?v < NUM_TLB" and tlb: "tlb_ok (tlb_maps (pt_entry pt)) (tlb s)"
    unfolding vm_inv_def by blast
  have P: "cur_map s = pt_entry pt" using * by (simp add: cur_map_eq)
  have fn: "f < 1048576" using frame_unat [OF inv f] by simp
  have lo: "?lo AND TLBLO_PPAGE = page_addr f" "?lo AND TLBLO_VALID \<noteq> 0"
    unfolding elo_of_def by (rule elo_bits [OF fn]; simp)+
  have "tlb_entry (tlb_maps (pt_entry pt)) ?v (page_addr p, ?lo)"
    using p(2,3) lo unfolding P tlb_entry_def tlb_maps_def by auto
  then have "tlb_ok (tlb_maps (pt_entry pt)) (tlb_write (page_addr p) ?lo ?v (tlb s))"
  proof (rule tlb_ok_write [OF tlb v])
    have "length (tlb s) = NUM_TLB" using tlb by (simp add: tlb_ok_def)
    then show "vpn (fst (tlb s ! j)) \<noteq> vpn (page_addr p)" if "j < NUM_TLB" for j
      using miss that p(2) by (simp add: tlb_has_nth vpn_page_addr)
  qed
  then have tlb': "tlb_ok (tlb_maps (pt_entry pt)) ((tlb s)[?v := (page_addr p, ?lo)])"
    by (simp only: tlb_write_def)
  note s' = run [unfolded vm_tlb_install_eq p(1) [symmetric] option.inject, symmetric]
  show "vm_inv {} s'"
    unfolding vm_inv_def
    by (intro exI [of _ a] exI [of _ A] exI [of _ pt] exI [of _ nxt]) (use * tlb' in \<open>simp add: s'\<close>)
  show "cur_map s' = cur_map s" by (simp add: s' cur_map_def cur_pt_def)
  then show "content s' = content s" by (simp add: content_def s')
qed

lemma tlb_event_balanced: "stats_balanced (d + 1) st \<Longrightarrow> stats_balanced d (tlb_event lo st)"
  by (simp add: tlb_event_def stats_balanced_ticks)

lemma vm_load_page_inv:
  assumes inv: "vm_inv {} s" and run: "vm_load_page io a r fault_addr pa s = Some (res, s')"
    and cur: "curas s = Some a" "ases s a = Some A"
  shows "vm_inv {} s'" and "cur_map s' = cur_map s" and "curas s' = curas s" and "tlb s' = tlb s"
    and "tlb_victim s' = tlb_victim s" and "nRamFrames s' = nRamFrames s"
    and "\<exists>A'. ases s' a = Some A' \<and> as_pt A' = as_pt A"
proof -
  from run cur obtain sg m st where s': "s' = s\<lparr>ases := (ases s)(a \<mapsto> as_set_seg r sg A), mem := m, stats := st\<rparr>"
    by (auto simp: vm_load_page_def bind_eq_Some_conv)
  show "vm_inv {} s'" using inv cur unfolding vm_inv_def s' by auto
  show "cur_map s' = cur_map s" using cur by (simp add: cur_map_def cur_pt_def s')
qed (use run cur in \<open>auto simp: vm_load_page_def bind_eq_Some_conv\<close>)

lemma as_set_seg_same [simp]: "as_set_seg r (as_seg r A) A = A"
  by (cases r) simp_all

lemma vm_load_page_ok:
  assumes inv: "vm_inv {} s" and cur: "curas s = Some a" "ases s a = Some A"
    and p: "cur_map s p = Some (page_addr f, -1)" "1 \<le> f" "f < nRamFrames s"
    and seg: "seg_aligned (as_seg r A)" "seg_contains (as_seg r A) fault_addr" "seg_vnode (as_seg r A) = Some v"
    and rfile: "io_file io v c" "unat (p_offset (as_seg r A)) + unat (p_filesz (as_seg r A)) \<le> length c"
  obtains m st where "vm_load_page io a r fault_addr (page_addr f) s = Some (None, s\<lparr>mem := m, stats := st\<rparr>)"
    "content (s\<lparr>mem := m, stats := st\<rparr>) = (content s)(p \<mapsto> seg_page_content c (as_seg r A) fault_addr)"
    "\<And>d. stats_balanced d (stats s) \<Longrightarrow> stats_balanced (d + 1) st"
proof -
  have fn: "f < 1048576" using frame_unat [OF inv p(3)] by simp
  then have pos: "0 < page_addr f" using p(2) page_addr_eq_0_iff [of f] by (simp add: word_neq_0_conv [symmetric])
  obtain m where m: "seg_load_page io (as_seg r A) fault_addr (page_addr f) (mem s) (stats s) = Some (None, as_seg r A, m,
       if seg_page_bytes (as_seg r A) fault_addr = 0 then tick PAGE_FAULT_ZERO (stats s)
       else tick PAGE_FAULT_DISK (tick ELF_FILE_READ (stats s)))"
    "page_at m (unat (page_addr f)) = seg_page_content c (as_seg r A) fault_addr"
    "\<And>b. b + PAGE_SIZE \<le> unat (page_addr f) \<or> unat (page_addr f) + PAGE_SIZE \<le> b \<Longrightarrow> page_at m b = page_at (mem s) b"
    using seg_load_page_content [OF seg pos rfile] by metis
  have same: "same_outside (unat (page_addr f)) (mem s) m" using m(3) by (simp add: same_outside_def)
  define st where "st = (if seg_page_bytes (as_seg r A) fault_addr = 0 then tick PAGE_FAULT_ZERO (stats s)
       else tick PAGE_FAULT_DISK (tick ELF_FILE_READ (stats s)))"
  have "vm_load_page io a r fault_addr (page_addr f) s = Some (None, s\<lparr>mem := m, stats := st\<rparr>)"
    using m(1) cur by (simp add: vm_load_page_def st_def fun_upd_idem)
  moreover have "content (s\<lparr>mem := m, stats := st\<rparr>) = content ((s\<lparr>mem := m\<rparr>)\<lparr>stats := st\<rparr>)" by simp
  then have "content (s\<lparr>mem := m, stats := st\<rparr>) = (content s)(p \<mapsto> seg_page_content c (as_seg r A) fault_addr)"
    using content_write [OF inv p(1,3) same] m(2) by (simp only: content_stats)
  ultimately show thesis
    by (rule that) (auto simp: st_def stats_balanced_ticks)
qed

section \<open>The three kinds of fault\<close>

text \<open>The address space, segment and page table of a fault that gets as far as the page table.\<close>

definition fault_at :: "vm_state \<Rightarrow> vaddr \<Rightarrow> nat \<Rightarrow> addrspace \<Rightarrow> seg_ref \<Rightarrow> bool" where
  "fault_at s fault_addr a A r \<longleftrightarrow> vm_inv {} s \<and> curas s = Some a \<and> ases s a = Some A \<and>
     as_get_segment A fault_addr = Some r \<and> fault_addr < USERSTACK \<and> \<not> tlb_has (tlb s) (vpn fault_addr)"

definition fault_load ::
    "vm_io \<Rightarrow> nat \<Rightarrow> seg_ref \<Rightarrow> u32 \<Rightarrow> vaddr \<Rightarrow> paddr \<Rightarrow> vm_state \<Rightarrow> (errno option \<times> vm_state) option" where
  "fault_load io a r perm fault_addr pa s =
     (if perm \<noteq> PF_S then vm_load_page io a r fault_addr pa s else Some (None, s))"

lemma vm_fault_cases:
  assumes at: "fault_at s fault_addr a A r" and ft: "ft = VM_FAULT_READ \<or> ft = VM_FAULT_WRITE"
  defines "p \<equiv> vpn fault_addr" and "perm \<equiv> p_permission (as_seg r A)"
  obtains (Fresh) "cur_map s p = None"
      "vm_fault io ft fault_addr s = do {
         (pa, s) \<leftarrow> vm_fresh_page io (as_pt A) perm fault_addr s;
         (result, s) \<leftarrow> fault_load io a r perm fault_addr pa s;
         if result \<noteq> None then Some (Failed EFAULT, s)
         else do { s \<leftarrow> vm_tlb_install perm fault_addr pa s; Some (Resolved, s) } }"
  | (Reload) f where "cur_map s p = Some (page_addr f, -1)" "1 \<le> f" "f < nRamFrames s"
      "vm_fault io ft fault_addr s = do {
         s \<leftarrow> vm_tlb_install perm fault_addr (page_addr f) (s\<lparr>stats := tick TLB_RELOAD (stats s)\<rparr>);
         Some (Resolved, s) }"
  | (Swapped) off where "cur_map s p = Some (0, off)" "off \<ge> 0"
      "vm_fault io ft fault_addr s = do {
         (pa, s) \<leftarrow> vm_swapped_page io (as_pt A) fault_addr off s;
         s \<leftarrow> vm_tlb_install perm fault_addr pa s;
         Some (Resolved, s) }"
proof -
  from at have cur: "curas s = Some a" "ases s a = Some A" and seg: "as_get_segment A fault_addr = Some r"
    and inv: "vm_inv {} s" by (auto simp: fault_at_def)
  from inv cur obtain pt where pt: "pts s (as_pt A) = Some pt" "pt_wf pt"
    and ent: "entries_inv {} (pt_entry pt) (coremap s) (swap s)" and small: "nRamFrames s \<le> 131072"
    unfolding vm_inv_def by (auto simp: ram_frames_def)
  have P: "cur_map s = pt_entry pt" using cur pt by (simp add: cur_map_eq)
  have ft': "ft \<noteq> VM_FAULT_READONLY" "\<not> (ft \<noteq> VM_FAULT_READ \<and> ft \<noteq> VM_FAULT_WRITE)" using ft by auto
  note run = vm_fault_def [of io ft fault_addr s] ft' cur seg pt pt_get_pa_eq [OF pt(2)] pt_get_offset_eq [OF pt(2)]
  show thesis
  proof (cases "pt_entry pt p")
    case None
    show thesis
      by (rule Fresh) (use None run in \<open>simp_all add: P p_def perm_def Let_def fault_load_def case_prod_unfold cong: if_cong\<close>)
  next
    case (Some e)
    with ent consider f where "resident {} (coremap s) p e f" | k where "swapped (swap s) p e k"
      unfolding entries_inv_def by blast
    then show thesis
    proof cases
      case 1
      then have f: "1 \<le> f" "f < nRamFrames s" "e = (page_addr f, -1)" by (auto simp: resident_def)
      with small have "page_addr f \<noteq> 0" by (simp add: page_addr_eq_0_iff)
      then have "0 < page_addr f" by (simp add: word_neq_0_conv)
      with \<open>page_addr f \<noteq> 0\<close> show thesis
        by (intro Reload [of f]) (use f Some run in \<open>simp_all add: P p_def perm_def Let_def cong: if_cong\<close>)
    next
      case 2
      then obtain k where "e = (0, int (k * PAGE_SIZE))" by (auto simp: swapped_def)
      then show thesis
        by (intro Swapped [of "int (k * PAGE_SIZE)"])
          (use Some run in \<open>simp_all add: P p_def perm_def Let_def case_prod_unfold del: of_nat_mult cong: if_cong\<close>)
    qed
  qed
qed

section \<open>What a fault does\<close>

lemma vm_inv_user_page: "fault_addr < USERSTACK \<Longrightarrow> vpn fault_addr < 0x80000"
  using vpn_user by simp

lemma page_in_stats: "page_in p pa (s\<lparr>stats := st\<rparr>) s' = page_in p pa s s'"
  by (simp add: page_in_def)

text \<open>The invariant survives every outcome of a fault, whatever the segments look like.\<close>

lemma fault_load_inv:
  assumes "page_in p pa s s1" and "fault_load io a r perm fault_addr pa s1 = Some (res, s2)"
    and "curas s = Some a" "ases s a = Some A"
  shows "vm_inv {} s2 \<and> cur_map s2 p = Some (pa, -1) \<and> \<not> tlb_has (tlb s2) p \<and> nRamFrames s2 = nRamFrames s1"
proof (cases "perm = PF_S")
  case True
  with assms show ?thesis by (auto simp: fault_load_def page_in_def)
next
  case False
  have inv1: "vm_inv {} s1" and c1: "curas s1 = Some a" "ases s1 a = Some A"
    using assms by (auto simp: page_in_def)
  have "vm_load_page io a r fault_addr pa s1 = Some (res, s2)"
    using assms(2) False by (simp add: fault_load_def)
  from vm_load_page_inv [OF inv1 this c1] assms(1) show ?thesis by (auto simp: page_in_def)
qed

theorem vm_fault_preserves:
  assumes inv: "vm_inv {} s" and va: "fault_addr < USERSTACK" "\<not> tlb_has (tlb s) (vpn fault_addr)"
    and run: "vm_fault io ft fault_addr s = Some (res, s')"
  shows "vm_inv {} s'"
proof (cases "ft = VM_FAULT_READ \<or> ft = VM_FAULT_WRITE")
  case False
  with run inv show ?thesis by (auto simp: vm_fault_def split: if_splits)
next
  case ft: True
  from inv obtain a A where cur: "curas s = Some a" "ases s a = Some A" unfolding vm_inv_def by blast
  show ?thesis
  proof (cases "as_get_segment A fault_addr")
    case None
    with run ft cur inv show ?thesis by (auto simp: vm_fault_def split: if_splits)
  next
    case (Some r)
    with inv va cur have at: "fault_at s fault_addr a A r" by (simp add: fault_at_def)
    note user = vm_inv_user_page [OF va(1)]
    let ?p = "vpn fault_addr"
    have install: "vm_inv {} s3" if "vm_inv {} s2" "cur_map s2 ?p = Some (pa, -1)" "\<not> tlb_has (tlb s2) ?p"
      "\<exists>f. pa = page_addr f \<and> 1 \<le> f \<and> f < nRamFrames s2"
      "vm_tlb_install (p_permission (as_seg r A)) fault_addr pa s2 = Some s3" for s2 s3 pa
      using that vm_tlb_install_ok(1) [OF that(1) refl user] by blast
    from at ft show ?thesis
    proof (cases rule: vm_fault_cases [where io = io])
      case Fresh
      with run obtain pa s1 r2 s2 where
        fp: "vm_fresh_page io (as_pt A) (p_permission (as_seg r A)) fault_addr s = Some (pa, s1)"
        and ld: "fault_load io a r (p_permission (as_seg r A)) fault_addr pa s1 = Some (r2, s2)"
        and rest: "r2 \<noteq> None \<longrightarrow> s' = s2" "r2 = None \<longrightarrow> vm_tlb_install (p_permission (as_seg r A)) fault_addr pa s2 = Some s'"
        by (auto simp: bind_eq_Some_conv split: if_splits)
      from vm_fresh_page_ok(1) [OF inv cur refl user Fresh(1) va(2) fp] have pin: "page_in ?p pa s s1" .
      from fault_load_inv [OF pin ld cur] have "vm_inv {} s2" "cur_map s2 ?p = Some (pa, -1)"
        "\<not> tlb_has (tlb s2) ?p" "\<exists>f. pa = page_addr f \<and> 1 \<le> f \<and> f < nRamFrames s2"
        using pin by (auto simp: page_in_def)
      with install rest show ?thesis by (cases "r2 = None") auto
    next
      case (Reload f)
      with run inv va install [of "s\<lparr>stats := tick TLB_RELOAD (stats s)\<rparr>"] show ?thesis
        by (auto simp: bind_eq_Some_conv)
    next
      case (Swapped off)
      with run obtain pa s1 where
        sp: "vm_swapped_page io (as_pt A) fault_addr off s = Some (pa, s1)"
        and ins: "vm_tlb_install (p_permission (as_seg r A)) fault_addr pa s1 = Some s'"
        by (auto simp: bind_eq_Some_conv)
      from vm_swapped_page_ok(1) [OF inv cur refl user Swapped(1,2) va(2) sp] have "page_in ?p pa s s1" .
      with install ins show ?thesis by (auto simp: page_in_def)
    qed
  qed
qed

text \<open>The bytes a fresh page starts with.\<close>

definition seg_backed :: "vm_io \<Rightarrow> segment \<Rightarrow> vaddr \<Rightarrow> u8 list \<Rightarrow> bool" where
  "seg_backed io seg fault_addr c \<longleftrightarrow> p_permission seg = PF_S \<or>
     (seg_aligned seg \<and> seg_contains seg fault_addr \<and>
      (\<exists>v. seg_vnode seg = Some v \<and> io_file io v c) \<and>
      unat (p_offset seg) + unat (p_filesz seg) \<le> length c)"

definition fresh_content :: "segment \<Rightarrow> vaddr \<Rightarrow> u8 list \<Rightarrow> bytes" where
  "fresh_content seg fault_addr c =
     (if p_permission seg = PF_S then zero_page else seg_page_content c seg fault_addr)"

lemma fault_load_ok:
  assumes pin: "page_in p pa s0 s" and cur: "curas s = Some a" "ases s a = Some A"
    and seg: "seg_backed io (as_seg r A) fault_addr c"
    and load: "fault_load io a r (p_permission (as_seg r A)) fault_addr pa s = Some (res, s')"
    and zero: "p_permission (as_seg r A) = PF_S \<Longrightarrow> content s p = Some zero_page"
    and st: "stats_balanced (if p_permission (as_seg r A) = PF_S then d + 1 else d) (stats s)"
  shows "res = None" "content s' = (content s)(p \<mapsto> fresh_content (as_seg r A) fault_addr c)"
    "stats_balanced (d + 1) (stats s')" "page_in p pa s0 s'"
proof -
  from pin obtain f where f: "pa = page_addr f" "1 \<le> f" "f < nRamFrames s"
    and inv: "vm_inv {} s" and map: "cur_map s p = Some (pa, -1)" by (auto simp: page_in_def)
  have "res = None \<and> content s' = (content s)(p \<mapsto> fresh_content (as_seg r A) fault_addr c) \<and>
      stats_balanced (d + 1) (stats s') \<and> page_in p pa s0 s'"
  proof (cases "p_permission (as_seg r A) = PF_S")
    case True
    with load have "res = None" "s' = s" by (simp_all add: fault_load_def)
    with True zero st pin show ?thesis by (auto simp: fresh_content_def)
  next
    case False
    with seg obtain v where sg: "seg_aligned (as_seg r A)" "seg_contains (as_seg r A) fault_addr"
      "seg_vnode (as_seg r A) = Some v" "io_file io v c"
      "unat (p_offset (as_seg r A)) + unat (p_filesz (as_seg r A)) \<le> length c" by (auto simp: seg_backed_def)
    from vm_load_page_ok [OF inv cur map [unfolded f(1)] f(2,3) sg] obtain m st' where
      l: "vm_load_page io a r fault_addr (page_addr f) s = Some (None, s\<lparr>mem := m, stats := st'\<rparr>)"
      "content (s\<lparr>mem := m, stats := st'\<rparr>) = (content s)(p \<mapsto> seg_page_content c (as_seg r A) fault_addr)"
      "\<And>d. stats_balanced d (stats s) \<Longrightarrow> stats_balanced (d + 1) st'" by blast
    with load False f(1) have "res = None" "s' = s\<lparr>mem := m, stats := st'\<rparr>" by (auto simp: fault_load_def)
    with l False st pin show ?thesis by (auto simp: fresh_content_def page_in_def)
  qed
  then show "res = None" "content s' = (content s)(p \<mapsto> fresh_content (as_seg r A) fault_addr c)"
    "stats_balanced (d + 1) (stats s')" "page_in p pa s0 s'" by auto
qed

text \<open>The last block: the translation is in, and it reads what the page holds.\<close>

definition fault_done :: "vaddr \<Rightarrow> u32 \<Rightarrow> (nat \<Rightarrow> bytes option) \<Rightarrow> vm_state \<Rightarrow> bool" where
  "fault_done fault_addr perm v s \<longleftrightarrow> vm_inv {} s \<and> content s = v \<and> stats_balanced 0 (stats s) \<and>
     (\<exists>pa. tlb_translate (tlb s) fault_addr = Some (pa, writable perm) \<and>
           v (vpn fault_addr) = Some (page_at (mem s) (unat pa)))"

lemma fault_installed:
  assumes pin: "page_in (vpn fault_addr) pa s0 s" and va: "fault_addr < USERSTACK"
    and st: "stats_balanced 1 (stats s)"
    and run: "vm_tlb_install perm fault_addr pa s = Some s'"
  shows "fault_done fault_addr perm (content s) s'"
proof -
  from pin obtain f where f: "pa = page_addr f" "1 \<le> f" "f < nRamFrames s"
    and inv: "vm_inv {} s" and map: "cur_map s (vpn fault_addr) = Some (page_addr f, -1)"
    and miss: "\<not> tlb_has (tlb s) (vpn fault_addr)" by (auto simp: page_in_def)
  have fn: "f < 1048576" using frame_unat [OF inv f(3)] by simp
  note user = vm_inv_user_page [OF va]
  note ins = vm_tlb_install_ok [OF inv refl user map f(3) miss run [unfolded f(1)]]
  note s' = run [unfolded vm_tlb_install_eq f(1) option.inject, symmetric]
  from inv have v: "tlb_victim s < NUM_TLB" and len: "length (tlb s) = NUM_TLB"
    by (auto simp: vm_inv_def tlb_ok_def)
  from ins(1) obtain pt where ok: "tlb_ok (tlb_maps (pt_entry pt)) (tlb s')" unfolding vm_inv_def by blast
  have entry: "tlb s' ! tlb_victim s = (page_addr (vpn fault_addr), elo_of perm (page_addr f))"
    using v len by (simp add: s')
  have lo: "elo_of perm (page_addr f) AND TLBLO_PPAGE = page_addr f"
    unfolding elo_of_def by (rule elo_bits [OF fn]; simp)
  have "tlb_translate (tlb s') fault_addr = Some (page_addr f, writable perm)"
    using tlb_translate_entry [OF ok v entry refl user] lo elo_of_dirty [OF fn] by simp
  moreover have "content s (vpn fault_addr) = Some (page_at (mem s') (unat (page_addr f)))"
    using map by (simp add: content_def page_view_def s')
  moreover have "stats_balanced 0 (stats s')"
    using tlb_event_balanced [of 0] st by (simp add: s')
  ultimately show ?thesis using ins unfolding fault_done_def by blast
qed

theorem vm_fault_correct:
  assumes at: "fault_at s fault_addr a A r" and ft: "ft = VM_FAULT_READ \<or> ft = VM_FAULT_WRITE"
    and seg: "seg_backed io (as_seg r A) fault_addr c" and st: "stats_balanced 0 (stats s)"
    and run: "vm_fault io ft fault_addr s = Some (res, s')"
  shows "res = Resolved \<and>
    fault_done fault_addr (p_permission (as_seg r A))
      ((content s)(vpn fault_addr \<mapsto>
         (case content s (vpn fault_addr) of None \<Rightarrow> fresh_content (as_seg r A) fault_addr c | Some b \<Rightarrow> b))) s'"
proof -
  let ?p = "vpn fault_addr" and ?perm = "p_permission (as_seg r A)"
  from at have inv: "vm_inv {} s" and cur: "curas s = Some a" "ases s a = Some A"
    and va: "fault_addr < USERSTACK" "\<not> tlb_has (tlb s) ?p" by (auto simp: fault_at_def)
  note user = vm_inv_user_page [OF va(1)]
  from at ft show ?thesis
  proof (cases rule: vm_fault_cases [where io = io])
    case Fresh
    with run obtain pa s1 r2 s2 where fp: "vm_fresh_page io (as_pt A) ?perm fault_addr s = Some (pa, s1)"
      and ld: "fault_load io a r ?perm fault_addr pa s1 = Some (r2, s2)"
      and rest: "r2 = None \<longrightarrow> res = Resolved \<and> vm_tlb_install ?perm fault_addr pa s2 = Some s'"
      by (auto simp: bind_eq_Some_conv split: if_splits)
    note fresh = vm_fresh_page_ok [OF inv cur refl user Fresh(1) va(2) fp]
    have cur1: "curas s1 = Some a" "ases s1 a = Some A" using fresh(1) cur by (simp_all add: page_in_def)
    note load = fault_load_ok [OF fresh(1) cur1 seg ld fresh(2) fresh(3) [OF st]]
    have new: "content s2 = (content s)(?p \<mapsto> fresh_content (as_seg r A) fault_addr c)"
      using load(2) fresh(1) by (auto simp: page_in_def fun_eq_iff)
    have "content s ?p = None" using Fresh(1) by (simp add: content_def page_view_def)
    moreover have "fault_done fault_addr ?perm (content s2) s'"
      using load rest va by (intro fault_installed) auto
    ultimately show ?thesis using rest load(1) new by simp
  next
    case (Reload f)
    let ?s = "s\<lparr>stats := tick TLB_RELOAD (stats s)\<rparr>"
    from run Reload have res: "res = Resolved" "vm_tlb_install ?perm fault_addr (page_addr f) ?s = Some s'"
      by (auto simp: bind_eq_Some_conv)
    have "page_in ?p (page_addr f) s ?s" using inv Reload va by (auto simp: page_in_def)
    moreover have "stats_balanced 1 (stats ?s)" using stats_balanced_ticks(3) [OF st] by simp
    ultimately have "fault_done fault_addr ?perm (content ?s) s'"
      using va res by (intro fault_installed) auto
    moreover have "content s ?p = Some (page_at (mem s) (unat (page_addr f)))"
      using Reload(1) by (simp add: content_def page_view_def)
    ultimately show ?thesis using res by (auto simp: fun_upd_idem)
  next
    case (Swapped off)
    with run obtain pa s1 where sp: "vm_swapped_page io (as_pt A) fault_addr off s = Some (pa, s1)"
      and res: "res = Resolved" and ins: "vm_tlb_install ?perm fault_addr pa s1 = Some s'"
      by (auto simp: bind_eq_Some_conv)
    note sw = vm_swapped_page_ok [OF inv cur refl user Swapped(1,2) va(2) sp]
    have "fault_done fault_addr ?perm (content s1) s'"
      using sw(1) sw(3) [of 0] st va ins by (intro fault_installed) auto
    moreover have "content s1 = content s"
      by (rule ext) (metis sw(1,2) page_in_def)
    moreover obtain b where "content s ?p = Some b"
    proof -
      from sw(1) have "cur_map s1 ?p = Some (pa, -1)" by (simp add: page_in_def)
      then have "content s1 ?p \<noteq> None" by (simp add: content_def page_view_def)
      with \<open>content s1 = content s\<close> that show thesis by auto
    qed
    ultimately show ?thesis using res by (auto simp: fun_upd_idem)
  qed
qed

section \<open>Faults are resolved\<close>

lemma page_alloc_total:
  assumes "vm_inv {} s" and "curas s = Some a" and "vm_room io s"
  shows "\<exists>pa s'. page_alloc io va s = Some (pa, s')"
  using getppage_user_total [OF assms] assms(1,2)
  by (auto simp: page_alloc_def isCoremapActive_def vm_inv_def)

lemma vm_room_stats [simp]: "vm_room io (s\<lparr>stats := st\<rparr>) = vm_room io s"
  by (simp add: vm_room_def)

lemma vm_fresh_page_total:
  assumes inv: "vm_inv {} s" and cur: "curas s = Some a" "ases s a = Some A" and room: "vm_room io s"
  shows "\<exists>pa s'. vm_fresh_page io (as_pt A) perm fault_addr s = Some (pa, s')"
proof -
  from page_alloc_total [OF inv cur(1) room] obtain pa s1 where
    al: "page_alloc io (fault_addr AND PAGE_FRAME) s = Some (pa, s1)" by blast
  from page_alloc_SomeD [OF inv cur(1) al] obtain f where f: "pa = page_addr f" "f < nRamFrames s"
    "vm_inv {f} s1" "quiet_step s s1" by blast
  then have cur1: "curas s1 = Some a" "ases s1 a = Some A" using cur by (simp_all add: quiet_step_def)
  with f(3) obtain pt where pt: "pts s1 (as_pt A) = Some pt" "pt_wf pt" unfolding vm_inv_def by auto
  have "io_kmalloc io" using room by (simp add: vm_room_def io_reliable_def)
  with two_level.set_pa [OF pt(2)] obtain pt' where "pt_set_pa (io_kmalloc io) pt fault_addr pa = Some pt'" by blast
  moreover have "pa AND PAGE_FRAME = pa"
    using f(1) frame_unat [OF inv f(2)] by (simp add: page_addr_aligned)
  ultimately show ?thesis using al pt by (simp add: vm_fresh_page_def Let_def)
qed

lemma vm_swapped_page_total:
  assumes inv: "vm_inv {} s" and cur: "curas s = Some a" "ases s a = Some A" and room: "vm_room io s"
    and p: "cur_map s (vpn fault_addr) = Some (0, off)" "off \<ge> 0"
  shows "\<exists>pa s'. vm_swapped_page io (as_pt A) fault_addr off s = Some (pa, s')"
proof -
  from page_alloc_total [OF inv cur(1) room] obtain pa s1 where
    al: "page_alloc io (fault_addr AND PAGE_FRAME) s = Some (pa, s1)" by blast
  from page_alloc_SomeD [OF inv cur(1) al] obtain f where f: "vm_inv {f} s1" "quiet_step s s1" by blast
  then have cur1: "curas s1 = Some a" "ases s1 a = Some A" and p1: "cur_map s1 (vpn fault_addr) = Some (0, off)"
    using cur p by (auto simp: quiet_step_def)
  with f(1) obtain pt where pt: "pts s1 (as_pt A) = Some pt" "pt_wf pt" and wf: "swap_wf (swap s1)"
    and ent: "entries_inv {f} (pt_entry pt) (coremap s1) (swap s1)" unfolding vm_inv_def by auto
  have P: "cur_map s1 = pt_entry pt" using cur1 pt by (simp add: cur_map_eq)
  from ent p1 p(2) obtain k c where k: "off = int (k * PAGE_SIZE)" "swap_slot (swap s1) k = Some (page_addr (vpn fault_addr), c)"
    unfolding P entries_inv_def resident_def swapped_def by fastforce
  have kb: "k < NUM_PAGES" using k(2) by (auto simp: swap_slot_def split: if_splits)
  have rel: "io_reliable io" using room by (simp add: vm_room_def)
  then have rd: "io_swap_read io (int (k * PAGE_SIZE)) = (None, 0)" by (simp add: io_reliable_def)
  obtain m sw st where swin: "swap_in io pa off (mem s1) (swap s1, stats s1) = Some (0, m, sw, st)"
    using swap_in_eq [OF wf kb rd] k(1) by blast
  have km: "io_kmalloc io \<or> pt_entry pt (vpn (fault_addr AND PAGE_FRAME)) \<noteq> None"
    using rel by (simp add: io_reliable_def)
  obtain t1 t2 where "pt_set_offset (io_kmalloc io) pt (fault_addr AND PAGE_FRAME) (-1) = Some t1"
    "pt_set_pa (io_kmalloc io) t1 (fault_addr AND PAGE_FRAME) pa = Some t2"
    using two_level.set_both [OF pt(2) km refl] by blast
  with al swin pt show ?thesis by (simp add: vm_swapped_page_def Let_def)
qed

theorem vm_fault_resolves:
  assumes at: "fault_at s fault_addr a A r" and ft: "ft = VM_FAULT_READ \<or> ft = VM_FAULT_WRITE"
    and seg: "seg_backed io (as_seg r A) fault_addr c" and st: "stats_balanced 0 (stats s)"
    and room: "vm_room io s"
  shows "\<exists>s'. vm_fault io ft fault_addr s = Some (Resolved, s')"
proof -
  let ?perm = "p_permission (as_seg r A)" and ?p = "vpn fault_addr"
  from at have inv: "vm_inv {} s" and cur: "curas s = Some a" "ases s a = Some A"
    and va: "fault_addr < USERSTACK" "\<not> tlb_has (tlb s) ?p" by (auto simp: fault_at_def)
  from at ft have "\<exists>r. vm_fault io ft fault_addr s = Some r"
  proof (cases rule: vm_fault_cases [where io = io])
    case Fresh
    from vm_fresh_page_total [OF inv cur room] obtain pa s1 where
      fp: "vm_fresh_page io (as_pt A) ?perm fault_addr s = Some (pa, s1)" by blast
    have pin: "page_in ?p pa s s1"
      using vm_fresh_page_ok(1) [OF inv cur refl vm_inv_user_page [OF va(1)] Fresh(1) va(2) fp] .
    then obtain f where f: "pa = page_addr f" "1 \<le> f" "f < nRamFrames s1" "vm_inv {} s1"
      "cur_map s1 ?p = Some (page_addr f, -1)" "curas s1 = Some a" "ases s1 a = Some A"
      using cur by (auto simp: page_in_def)
    have "\<exists>r2 s2. fault_load io a r ?perm fault_addr pa s1 = Some (r2, s2)"
    proof (cases "?perm = PF_S")
      case False
      with seg obtain v where sg: "seg_aligned (as_seg r A)" "seg_contains (as_seg r A) fault_addr"
        "seg_vnode (as_seg r A) = Some v" "io_file io v c"
        "unat (p_offset (as_seg r A)) + unat (p_filesz (as_seg r A)) \<le> length c" by (auto simp: seg_backed_def)
      from vm_load_page_ok [OF f(4,6,7,5,2,3) sg] False f(1) show ?thesis
        unfolding fault_load_def by metis
    qed (simp add: fault_load_def)
    with Fresh fp show ?thesis by (auto simp: vm_tlb_install_eq)
  next
    case (Reload f)
    then show ?thesis by (simp add: vm_tlb_install_eq)
  next
    case (Swapped off)
    with vm_swapped_page_total [OF inv cur room Swapped(1,2)] show ?thesis by (auto simp: vm_tlb_install_eq)
  qed
  then obtain res s' where run: "vm_fault io ft fault_addr s = Some (res, s')" by auto
  with vm_fault_correct [OF at ft seg st run] show ?thesis by auto
qed

end
