(* ===== verification/KernelPages.thy ===== *)
theory KernelPages
  imports Paging
begin

text \<open>
  The kernel's side of \<open>kern/vm/coremap.c\<close>: the search for a run of free frames, and
  \<open>alloc_kpages\<close> and \<open>free_kpages\<close> on top of it. The search finds a run exactly when there is
  one; what an allocation takes, the matching free gives back.
\<close>

section \<open>Runs of free frames\<close>

definition free_run :: "coremap_entry list \<Rightarrow> nat \<Rightarrow> nat \<Rightarrow> bool" where
  "free_run cm start n \<longleftrightarrow> 1 \<le> start \<and> start + n \<le> length cm \<and> (\<forall>j\<in>{start..<start + n}. status (cm ! j) = free)"

text \<open>What the scan knows before it looks at frame \<open>i\<close>: the current run is maximal to the left
  and still too short.\<close>

definition run_inv :: "coremap_entry list \<Rightarrow> nat \<Rightarrow> int \<Rightarrow> nat \<Rightarrow> bool" where
  "run_inv cm n first i \<longleftrightarrow> 1 \<le> i \<and>
     (status (cm ! (i - 1)) = free \<longrightarrow>
        1 \<le> first \<and> first < int i \<and> int i - first < int n \<and> status (cm ! (nat first - 1)) \<noteq> free \<and>
        (\<forall>j\<in>{nat first..<i}. status (cm ! j) = free))"

lemma run_inv_step:
  assumes inv: "run_inv cm n first i" and fr: "status (cm ! i) = free"
  defines "first' \<equiv> (if i = 0 \<or> status (cm ! (i - 1)) \<noteq> free then int i else first)"
  shows "1 \<le> first'" and "first' \<le> int i" and "status (cm ! (nat first' - 1)) \<noteq> free"
    and "j \<in> {nat first'..<i + 1} \<Longrightarrow> status (cm ! j) = free"
    and "int i - first' + 1 \<le> int n \<or> n = 0"
    and "int i - first' + 1 < int n \<Longrightarrow> run_inv cm n first' (i + 1)"
proof -
  have i: "1 \<le> i" using inv by (simp add: run_inv_def)
  have "1 \<le> first' \<and> first' \<le> int i \<and> status (cm ! (nat first' - 1)) \<noteq> free \<and>
      (\<forall>j\<in>{nat first'..<i + 1}. status (cm ! j) = free) \<and> (int i - first' + 1 \<le> int n \<or> n = 0)"
  proof (cases "status (cm ! (i - 1)) = free")
    case True
    with inv i have "first' = first" by (simp add: first'_def)
    with True inv fr show ?thesis by (auto simp: run_inv_def less_Suc_eq)
  next
    case False
    with i fr show ?thesis by (auto simp: first'_def)
  qed
  then show "1 \<le> first'" "first' \<le> int i" "status (cm ! (nat first' - 1)) \<noteq> free"
    "j \<in> {nat first'..<i + 1} \<Longrightarrow> status (cm ! j) = free" "int i - first' + 1 \<le> int n \<or> n = 0"
    "int i - first' + 1 < int n \<Longrightarrow> run_inv cm n first' (i + 1)"
    by (auto simp: run_inv_def)
qed

lemma free_run_scan_correct:
  assumes "run_inv cm n first i" and "1 \<le> n" and "i \<le> length cm"
  defines "r \<equiv> free_run_scan cm n first [i..<length cm]"
  shows "0 \<le> r \<Longrightarrow> free_run cm (nat r) n"
    and "r < 0 \<Longrightarrow> free_run cm start n \<Longrightarrow> start + n \<le> i"
proof -
  have "(0 \<le> r \<longrightarrow> free_run cm (nat r) n) \<and> (r < 0 \<longrightarrow> (\<forall>start. free_run cm start n \<longrightarrow> start + n \<le> i))"
    unfolding r_def using assms(1,3)
  proof (induction "length cm - i" arbitrary: first i)
    case 0
    then show ?case by (auto simp: free_run_def)
  next
    case (Suc k)
    then have lt: "i < length cm" and k: "k = length cm - (i + 1)" by auto
    then have upt: "[i..<length cm] = i # [i + 1..<length cm]" by (simp add: upt_conv_Cons)
    show ?case
    proof (cases "status (cm ! i) = free")
      case False
      then have "run_inv cm n first (i + 1)" by (simp add: run_inv_def)
      from Suc.hyps(1) [OF k this] lt have IH: "0 \<le> free_run_scan cm n first [i + 1..<length cm] \<longrightarrow>
          free_run cm (nat (free_run_scan cm n first [i + 1..<length cm])) n"
        "free_run_scan cm n first [i + 1..<length cm] < 0 \<longrightarrow> (\<forall>start. free_run cm start n \<longrightarrow> start + n \<le> i + 1)"
        by auto
      have "start + n \<noteq> i + 1" if "free_run cm start n" for start
        using that False assms(2) by (auto simp: free_run_def)
      with IH False show ?thesis by (simp add: upt) (metis le_SucE Suc_eq_plus1)
    next
      case True
      define first' where "first' = (if i = 0 \<or> status (cm ! (i - 1)) \<noteq> free then int i else first)"
      note st = run_inv_step [OF Suc.prems(1) True, folded first'_def]
      show ?thesis
      proof (cases "int i - first' + 1 \<ge> int n")
        case long: True
        then have "free_run_scan cm n first [i..<length cm] = first'"
          using True by (simp add: upt first'_def)
        moreover have "nat first' + n = i + 1" using st(1,2,5) long assms(2) by linarith
        then have "free_run cm (nat first') n"
          using st(1,4) lt by (auto simp: free_run_def)
        ultimately show ?thesis using st(1) by auto
      next
        case short: False
        then have eq: "free_run_scan cm n first [i..<length cm] = free_run_scan cm n first' [i + 1..<length cm]"
          using True by (simp add: upt first'_def)
        have "start + n \<noteq> i + 1" if run: "free_run cm start n" for start
        proof
          assume e: "start + n = i + 1"
          have "nat first' \<le> start"
          proof (rule ccontr)
            assume "\<not> nat first' \<le> start"
            with e st(1,2) have "nat first' - 1 \<in> {start..<start + n}" by auto
            with run st(3) show False by (auto simp: free_run_def)
          qed
          with e short st(1) show False by linarith
        qed
        with Suc.hyps(1) [OF k st(6)] short lt show ?thesis
          unfolding eq by simp (metis le_SucE Suc_eq_plus1)
      qed
    qed
  qed
  then show "0 \<le> r \<Longrightarrow> free_run cm (nat r) n"
    and "r < 0 \<Longrightarrow> free_run cm start n \<Longrightarrow> start + n \<le> i" by auto
qed

corollary free_run_scan_start:
  assumes "status (cm ! 0) \<noteq> free" and "1 \<le> n" and "1 \<le> length cm"
  shows "0 \<le> free_run_scan cm n (-1) [1..<length cm] \<Longrightarrow>
      free_run cm (nat (free_run_scan cm n (-1) [1..<length cm])) n"
    and "free_run_scan cm n (-1) [1..<length cm] < 0 \<Longrightarrow> \<not> free_run cm start n"
  using free_run_scan_correct [of cm n "-1" 1] assms
  by (auto simp: run_inv_def) (fastforce simp: free_run_def)

section \<open>Taking and giving back\<close>

definition map_frames :: "(nat \<Rightarrow> coremap_entry \<Rightarrow> coremap_entry) \<Rightarrow> nat \<Rightarrow> nat \<Rightarrow> coremap_entry list \<Rightarrow> coremap_entry list" where
  "map_frames g start n cm = map (\<lambda>i. if start \<le> i \<and> i < start + n then g i (cm ! i) else cm ! i) [0..<length cm]"

lemma map_frames_length [simp]: "length (map_frames g start n cm) = length cm"
  by (simp add: map_frames_def)

lemma map_frames_nth [simp]:
  "i < length cm \<Longrightarrow> map_frames g start n cm ! i = (if start \<le> i \<and> i < start + n then g i (cm ! i) else cm ! i)"
  by (simp add: map_frames_def)

lemma map_frames_0 [simp]: "map_frames g start 0 cm = cm"
  by (rule nth_equalityI) auto

lemma map_frames_Suc:
  "start < length cm \<Longrightarrow> map_frames g (start + 1) n (cm[start := g start (cm ! start)]) = map_frames g start (n + 1) cm"
  by (rule nth_equalityI) (auto simp: nth_list_update)

lemma map_frames_map_frames:
  "map_frames g start n (map_frames h start n cm) = map_frames (\<lambda>i. g i \<circ> h i) start n cm"
  by (rule nth_equalityI) auto

lemma fix_frames_eq:
  "start + n \<le> nRamFrames s \<Longrightarrow> \<forall>j\<in>{start..<start + n}. alloc_size (coremap s ! j) = 0 \<Longrightarrow>
    fix_frames [start..<start + n] s = Some (s\<lparr>coremap := map_frames (\<lambda>_ e. e\<lparr>status := fixed\<rparr>) start n (coremap s)\<rparr>)"
proof (induction n arbitrary: start s)
  case (Suc n)
  let ?s = "s\<lparr>coremap := (coremap s)[start := (coremap s ! start)\<lparr>status := fixed\<rparr>]\<rparr>"
  have "fix_frames [start + 1..<(start + 1) + n] ?s
      = Some (?s\<lparr>coremap := map_frames (\<lambda>_ e. e\<lparr>status := fixed\<rparr>) (start + 1) n (coremap ?s)\<rparr>)"
    using Suc.prems by (intro Suc.IH) (auto simp: nth_list_update)
  moreover have "[start..<start + Suc n] = start # [start + 1..<(start + 1) + n]"
    by (simp add: upt_conv_Cons)
  ultimately show ?case using Suc.prems map_frames_Suc [of start "coremap s" "\<lambda>_ e. e\<lparr>status := fixed\<rparr>" n]
    by (simp add: cm_get_def cm_set_def)
qed simp

lemma set_fixed_eq:
  "start + n \<le> nRamFrames s \<Longrightarrow>
    set_fixed [start..<start + n] s = Some (s\<lparr>coremap := map_frames (\<lambda>_ e. e\<lparr>status := fixed\<rparr>) start n (coremap s)\<rparr>)"
proof (induction n arbitrary: start s)
  case (Suc n)
  let ?s = "s\<lparr>coremap := (coremap s)[start := (coremap s ! start)\<lparr>status := fixed\<rparr>]\<rparr>"
  have "set_fixed [start + 1..<(start + 1) + n] ?s
      = Some (?s\<lparr>coremap := map_frames (\<lambda>_ e. e\<lparr>status := fixed\<rparr>) (start + 1) n (coremap ?s)\<rparr>)"
    using Suc.prems by (intro Suc.IH) auto
  moreover have "[start..<start + Suc n] = start # [start + 1..<(start + 1) + n]"
    by (simp add: upt_conv_Cons)
  ultimately show ?case using Suc.prems map_frames_Suc [of start "coremap s" "\<lambda>_ e. e\<lparr>status := fixed\<rparr>" n]
    by (simp add: cm_get_def cm_set_def)
qed simp

lemma release_frames_eq:
  "start + n \<le> nRamFrames s \<Longrightarrow>
    release_frames [start..<start + n] s =
      Some (s\<lparr>coremap := map_frames (\<lambda>_ e. e\<lparr>status := free, ce_as := None, alloc_size := 0\<rparr>) start n (coremap s)\<rparr>)"
proof (induction n arbitrary: start s)
  case (Suc n)
  let ?g = "\<lambda>e. e\<lparr>status := free, ce_as := None, alloc_size := 0\<rparr>"
  let ?s = "s\<lparr>coremap := (coremap s)[start := ?g (coremap s ! start)]\<rparr>"
  have "release_frames [start + 1..<(start + 1) + n] ?s
      = Some (?s\<lparr>coremap := map_frames (\<lambda>_. ?g) (start + 1) n (coremap ?s)\<rparr>)"
    using Suc.prems by (intro Suc.IH) auto
  moreover have "[start..<start + Suc n] = start # [start + 1..<(start + 1) + n]"
    by (simp add: upt_conv_Cons)
  ultimately show ?case using Suc.prems map_frames_Suc [of start "coremap s" "\<lambda>_. ?g" n]
    by (simp add: cm_get_def cm_set_def)
qed simp

text \<open>Free frames carry no owner and no size, frame 0 is the kernel's: what every operation of the
  frame table leaves behind.\<close>

definition free_clean :: "vm_state \<Rightarrow> bool" where
  "free_clean s \<longleftrightarrow> coremapActive s \<and> 1 \<le> nRamFrames s \<and> nRamFrames s \<le> 131072 \<and> status (coremap s ! 0) \<noteq> free \<and>
     (\<forall>e\<in>set (coremap s). status e = free \<longrightarrow> alloc_size e = 0 \<and> ce_as e = None)"

definition kernel_block :: "nat \<Rightarrow> nat \<Rightarrow> coremap_entry list \<Rightarrow> coremap_entry list" where
  "kernel_block f n = map_frames (\<lambda>i e. e\<lparr>status := fixed, alloc_size := (if i = f then n else alloc_size e)\<rparr>) f n"

lemma free_clean_entry:
  "free_clean s \<Longrightarrow> i < nRamFrames s \<Longrightarrow> status (coremap s ! i) = free \<Longrightarrow>
    alloc_size (coremap s ! i) = 0 \<and> ce_as (coremap s ! i) = None"
  unfolding free_clean_def by (metis nth_mem)

lemma kernel_block_length [simp]: "length (kernel_block f n cm) = length cm"
  by (simp add: kernel_block_def)

lemma getfreeppages_found:
  assumes ok: "free_clean s" and n: "1 \<le> n" and run: "free_run (coremap s) st n"
  obtains f where "free_run (coremap s) f n"
    "getfreeppages n s = Some (page_addr f, s\<lparr>coremap := kernel_block f n (coremap s)\<rparr>)"
proof -
  let ?r = "free_run_scan (coremap s) n (-1) [1..<nRamFrames s]"
  have pre: "status (coremap s ! 0) \<noteq> free" "1 \<le> nRamFrames s" using ok by (simp_all add: free_clean_def)
  have r: "0 \<le> ?r" using free_run_scan_start(2) [OF pre(1) n pre(2)] run by force
  define f where "f = nat ?r"
  have f: "free_run (coremap s) f n"
    using free_run_scan_start(1) [OF pre(1) n pre(2) r] by (simp add: f_def)
  then have b: "f + n \<le> nRamFrames s" "f < nRamFrames s" using n by (auto simp: free_run_def)
  have "\<forall>j\<in>{f..<f + n}. alloc_size (coremap s ! j) = 0"
    using f b free_clean_entry [OF ok] by (auto simp: free_run_def)
  note fixed_run = fix_frames_eq [OF b(1) this]
  have "(map_frames (\<lambda>_ e. e\<lparr>status := fixed\<rparr>) f n (coremap s))[f :=
      (map_frames (\<lambda>_ e. e\<lparr>status := fixed\<rparr>) f n (coremap s) ! f)\<lparr>alloc_size := n\<rparr>] = kernel_block f n (coremap s)"
    by (rule nth_equalityI) (use n in \<open>auto simp: kernel_block_def nth_list_update\<close>)
  then have "getfreeppages n s = Some (page_addr f, s\<lparr>coremap := kernel_block f n (coremap s)\<rparr>)"
  proof -
    have req: "?r = int f" using r by (simp add: f_def)
    have "f < nRamFrames (s\<lparr>coremap := map_frames (\<lambda>_ e. e\<lparr>status := fixed\<rparr>) f n (coremap s)\<rparr>)" using b by simp
    moreover have "isCoremapActive s" using ok by (simp add: isCoremapActive_def free_clean_def)
    ultimately show ?thesis
      using fixed_run \<open>_ = kernel_block f n (coremap s)\<close>
      unfolding getfreeppages_def Let_def req nat_int cm_get_def cm_set_def by simp
  qed
  with f show thesis by (rule that)
qed

lemma getfreeppages_none:
  assumes ok: "free_clean s" and n: "1 \<le> n" and none: "\<And>st. \<not> free_run (coremap s) st n"
  shows "getfreeppages n s = Some (0, s)"
proof -
  have "\<not> 0 \<le> free_run_scan (coremap s) n (-1) [1..<nRamFrames s]"
    using free_run_scan_start(1) [of "coremap s" n] ok n none by (auto simp: free_clean_def)
  with ok show ?thesis by (simp add: getfreeppages_def isCoremapActive_def free_clean_def Let_def)
qed

text \<open>Recording a block that is already the kernel's changes nothing.\<close>

lemma mark_kernel_block:
  assumes "f + n \<le> nRamFrames s" and "1 \<le> n" and "1 \<le> f" and "nRamFrames s \<le> 131072"
    and "coremapActive s"
  shows "mark_kernel (page_addr f) n s = Some (page_addr f, s\<lparr>coremap := kernel_block f n (coremap s)\<rparr>)"
proof -
  have u: "unat (page_addr f) div PAGE_SIZE = f" and nz: "page_addr f \<noteq> 0"
    using assms by (simp_all add: unat_page_addr page_addr_eq_0_iff)
  let ?s = "s\<lparr>coremap := (coremap s)[f := (coremap s ! f)\<lparr>alloc_size := n, status := fixed\<rparr>]\<rparr>"
  have idx: "map (\<lambda>i. f + i) [1..<n] = [f + 1..<(f + 1) + (n - 1)]"
    using assms(2) by (intro nth_equalityI) auto
  have "set_fixed [f + 1..<(f + 1) + (n - 1)] ?s
      = Some (?s\<lparr>coremap := map_frames (\<lambda>_ e. e\<lparr>status := fixed\<rparr>) (f + 1) (n - 1) (coremap ?s)\<rparr>)"
    using assms by (intro set_fixed_eq) auto
  moreover have "map_frames (\<lambda>_ e. e\<lparr>status := fixed\<rparr>) (f + 1) (n - 1) (coremap ?s) = kernel_block f n (coremap s)"
    by (rule nth_equalityI) (use assms in \<open>auto simp: kernel_block_def nth_list_update\<close>)
  ultimately show ?thesis
    using assms nz unfolding mark_kernel_def Let_def u idx by (simp add: isCoremapActive_def cm_get_def cm_set_def)
qed

lemma kernel_block_idem: "kernel_block f n (kernel_block f n cm) = kernel_block f n cm"
  by (rule nth_equalityI) (auto simp: kernel_block_def)

theorem alloc_kpages_run:
  assumes ok: "free_clean s" and n: "1 \<le> n" and run: "free_run (coremap s) st n"
  obtains f where "free_run (coremap s) f n"
    "alloc_kpages io n s = Some (page_addr f + MIPS_KSEG0, s\<lparr>coremap := kernel_block f n (coremap s)\<rparr>)"
proof -
  from getfreeppages_found [OF assms] obtain f where f: "free_run (coremap s) f n"
    and get: "getfreeppages n s = Some (page_addr f, s\<lparr>coremap := kernel_block f n (coremap s)\<rparr>)" .
  have b: "f + n \<le> nRamFrames s" "1 \<le> f" "nRamFrames s \<le> 131072" "coremapActive s"
    using f ok by (auto simp: free_run_def free_clean_def)
  then have nz: "page_addr f \<noteq> 0" using n by (simp add: page_addr_eq_0_iff)
  have "mark_kernel (page_addr f) n (s\<lparr>coremap := kernel_block f n (coremap s)\<rparr>)
      = Some (page_addr f, s\<lparr>coremap := kernel_block f n (coremap s)\<rparr>)"
    using mark_kernel_block [of f n "s\<lparr>coremap := kernel_block f n (coremap s)\<rparr>"] b n by (simp add: kernel_block_idem)
  with get nz have "alloc_kpages io n s = Some (page_addr f + MIPS_KSEG0, s\<lparr>coremap := kernel_block f n (coremap s)\<rparr>)"
    by (simp add: alloc_kpages_def getppages_def)
  with f show thesis by (rule that)
qed

theorem free_kpages_block:
  assumes "coremapActive s" and "1 \<le> n" and "f + n \<le> nRamFrames s" and "nRamFrames s \<le> 131072"
    and "alloc_size (coremap s ! f) = n"
  shows "free_kpages (page_addr f + MIPS_KSEG0) s = Some (s\<lparr>coremap :=
     map_frames (\<lambda>_ e. e\<lparr>status := free, ce_as := None, alloc_size := 0\<rparr>) f n (coremap s)\<rparr>)"
proof -
  have u: "unat (page_addr f) div PAGE_SIZE = f" using assms by (simp add: unat_page_addr)
  show ?thesis
    using assms release_frames_eq [OF assms(3)]
    by (simp add: free_kpages_def freeppages_def isCoremapActive_def cm_get_def u Let_def)
qed

theorem alloc_free_kpages:
  assumes ok: "free_clean s" and n: "1 \<le> n" and run: "free_run (coremap s) st n"
  shows "\<exists>va s'. alloc_kpages io n s = Some (va, s') \<and> va \<noteq> 0 \<and> free_kpages va s' = Some s"
proof -
  from alloc_kpages_run [OF assms] obtain f where f: "free_run (coremap s) f n"
    and al: "alloc_kpages io n s = Some (page_addr f + MIPS_KSEG0, s\<lparr>coremap := kernel_block f n (coremap s)\<rparr>)" .
  let ?s = "s\<lparr>coremap := kernel_block f n (coremap s)\<rparr>"
  have b: "f + n \<le> nRamFrames s" "1 \<le> f" "nRamFrames s \<le> 131072" "coremapActive s" "f < nRamFrames s"
    using f ok n by (auto simp: free_run_def free_clean_def)
  have "alloc_size (kernel_block f n (coremap s) ! f) = n" using b n by (simp add: kernel_block_def)
  with free_kpages_block [of ?s n f] b n have fr: "free_kpages (page_addr f + MIPS_KSEG0) ?s = Some (?s\<lparr>coremap :=
     map_frames (\<lambda>_ e. e\<lparr>status := free, ce_as := None, alloc_size := 0\<rparr>) f n (coremap ?s)\<rparr>)" by simp
  have "(coremap s ! i)\<lparr>status := free, ce_as := None, alloc_size := 0\<rparr> = coremap s ! i"
    if "f \<le> i" "i < f + n" for i
  proof -
    have "status (coremap s ! i) = free" using f that by (simp add: free_run_def)
    with free_clean_entry [OF ok, of i] that b show ?thesis by (cases "coremap s ! i") auto
  qed
  then have "map_frames (\<lambda>_ e. e\<lparr>status := free, ce_as := None, alloc_size := 0\<rparr>) f n (kernel_block f n (coremap s)) = coremap s"
    by (intro nth_equalityI) (auto simp: kernel_block_def)
  with fr have "free_kpages (page_addr f + MIPS_KSEG0) ?s = Some s" by simp
  moreover have "page_addr f + MIPS_KSEG0 \<noteq> 0"
  proof -
    have "unat (page_addr f + MIPS_KSEG0) = f * 4096 + 2147483648"
      using b by (simp add: unat_word_ariths unat_page_addr)
    then show ?thesis by (metis add_is_0 unat_0 zero_neq_numeral)
  qed
  ultimately show ?thesis using al by blast
qed

section \<open>Kernel allocations and user pages\<close>

lemma vm_inv_frames_fixed:
  assumes inv: "vm_inv X s" and len: "length cm = nRamFrames s"
    and cm: "\<And>g. g < nRamFrames s \<Longrightarrow> cm ! g = coremap s ! g \<or>
       (g \<in> X \<or> status (coremap s ! g) = free) \<and> status (cm ! g) = fixed \<and> status (coremap s ! g) \<noteq> clean"
    and X: "\<And>g. g \<in> X \<Longrightarrow> g < nRamFrames s \<Longrightarrow> status (cm ! g) = fixed"
  shows "vm_inv {} (s\<lparr>coremap := cm\<rparr>)"
proof -
  from inv obtain a A pt nxt where *: "curas s = Some a" "ases s a = Some A" "pts s (as_pt A) = Some pt"
    "pt_wf pt" "ram_frames (ram s) nxt (nRamFrames s)"
    and ent: "entries_inv X (pt_entry pt) (coremap s) (swap s)" and frm: "frames_inv X (pt_entry pt) (coremap s) nxt a"
    and rest: "slots_inv (pt_entry pt) (swap s)" "swap_wf (swap s)"
    "coremapActive s" "cm_victim s < nRamFrames s" "2 < nRamFrames s"
    "tlb_victim s < NUM_TLB" "tlb_ok (tlb_maps (pt_entry pt)) (tlb s)"
    unfolding vm_inv_def by blast
  have "resident {} cm p e g" if "resident X (coremap s) p e g" for p e g
    using that cm [of g] len by (auto simp: resident_def)
  then have "entries_inv {} (pt_entry pt) cm (swap s)" using ent unfolding entries_inv_def by blast
  moreover have "frames_inv {} (pt_entry pt) cm nxt a"
    unfolding frames_inv_def
  proof (intro conjI allI impI)
    fix g assume g: "g < length cm" "g \<notin> {}" "status (cm ! g) = dirty"
    then have "cm ! g = coremap s ! g" "g \<notin> X" using cm [of g] X [of g] len by auto
    with g frm len show "ce_as (cm ! g) = Some a"
      "\<exists>p<0x80000. ce_vaddr (cm ! g) = page_addr p \<and> pt_entry pt p = Some (page_addr g, -1)"
      by (auto simp: frames_inv_def)
  next
    fix g assume "g < length cm" "nxt \<le> g"
    with frm cm [of g] len show "status (cm ! g) = clean" by (auto simp: frames_inv_def)
  next
    assume "0 < length cm"
    with frm cm [of 0] len show "status (cm ! 0) \<noteq> free" "status (cm ! 0) \<noteq> dirty"
      by (auto simp: frames_inv_def)
  qed
  ultimately show ?thesis
    unfolding vm_inv_def
    by (intro exI [of _ a] exI [of _ A] exI [of _ pt] exI [of _ nxt]) (use * rest len in simp)
qed

lemma content_coremap [simp]: "content (s\<lparr>coremap := cm\<rparr>) = content s"
  by (simp add: content_def cur_map_def cur_pt_def)

theorem alloc_kpages_run_quiet:
  assumes inv: "vm_inv {} s" and "free_clean s" "1 \<le> n" "free_run (coremap s) st n"
    and al: "alloc_kpages io n s = Some (va, s')"
  shows "vm_inv {} s'" and "content s' = content s"
proof -
  from alloc_kpages_run [OF assms(2-4), of io] al obtain f where f: "free_run (coremap s) f n"
    and s': "s' = s\<lparr>coremap := kernel_block f n (coremap s)\<rparr>" by auto
  show "vm_inv {} s'"
    unfolding s' by (rule vm_inv_frames_fixed [OF inv]) (use f in \<open>auto simp: kernel_block_def free_run_def\<close>)
  show "content s' = content s" by (simp add: s')
qed

end
