(* ===== verification/VmSystem.thy ===== *)
theory VmSystem
  imports VmFault KernelPages
begin

text \<open>
  The virtual memory system as a whole: the state it starts in, the switch of address spaces, its
  end, and the refinement that makes it virtual memory. A run of a program is a sequence of loads
  and stores through the TLB and of the faults and kernel steps between them; seen through
  \<open>content\<close> it is a run of a flat memory of pages, the abstract machine \<open>amem_step\<close>.
\<close>

section \<open>Start\<close>

text \<open>The state \<open>boot\<close> before the VM starts: memory is page aligned, the TLB has its 64 entries.\<close>

theorem first_address_space:
  assumes boot: "ram_frames (ram s0) nxt (nRamFrames s1)" "2 < nRamFrames s1" "cm_victim s0 < nRamFrames s1"
    and small: "16 * nRamFrames s1 < 2048"
    and up: "vm_bootstrap io s0 = Some s1" and new: "as_create io s1 = Some (Some a, s2)"
    and tlb: "length (tlb s0) = NUM_TLB"
    and act: "as_activate (s2\<lparr>curas := Some a\<rparr>) = Some s3"
  shows "vm_inv {} s3 \<and> stats_balanced 0 (stats s3) \<and> content s3 = (\<lambda>_. None)"
proof -
  from up obtain n where s1: "s1 = s0\<lparr>coremap := replicate n \<lparr>ce_as = None, status = clean, ce_vaddr = 0, alloc_size = 0\<rparr>,
      coremapActive := True, tlb_victim := 0, stats := init_statistics (stats s0)\<rparr>" "0 < n"
    using small by (auto simp: vm_bootstrap_def coremap_init_def Let_def split: if_splits)
  from as_create_SomeD [OF new] obtain pt sw where
    s2: "s2 = s1\<lparr>pts := (pts s1)(next_ptr s1 \<mapsto> pt), ases := (ases s1)(a \<mapsto> fresh_as (next_ptr s1)),
      next_ptr := next_ptr s1 + 2, swap := sw\<rparr>" "pt_create True = Some pt" "swapfile_init io (swap s1) = Some sw"
    by metis
  from pt_wf_create [OF s2(2)] have pt: "pt_wf pt" "pt_entry pt = (\<lambda>_. None)" by auto
  from swap_wf_init [OF s2(3)] have sw: "swap_wf sw" "\<And>k. swap_slot sw k = None" by auto
  from act have s3: "s3 = s2\<lparr>curas := Some a, tlb := tlb_flush (tlb s2), stats := tick TLB_INVALIDATE (stats s2)\<rparr>"
    by (auto simp: as_activate_def Let_def)
  have len: "length (tlb s2) = NUM_TLB" using tlb by (simp add: s2 s1)
  have "entries_inv {} (pt_entry pt) (coremap s3) (swap s3)" by (simp add: entries_inv_def pt)
  moreover have "frames_inv {} (pt_entry pt) (coremap s3) nxt a"
    using s1(2) by (auto simp: frames_inv_def s3 s2 s1)
  moreover have "slots_inv (pt_entry pt) (swap s3)" using sw by (simp add: slots_inv_def s3 s2)
  ultimately have "vm_inv {} s3"
    unfolding vm_inv_def
    by (intro exI [of _ a] exI [of _ "fresh_as (next_ptr s1)"]
        exI [of _ pt] exI [of _ nxt])
      (use boot pt sw tlb_ok_flush(1) [OF len] s1(2) in \<open>simp add: s3 s2 s1 fresh_as_def\<close>)
  moreover have "stats_balanced 0 (stats s3)"
    by (simp add: s3 s2 s1 stats_balanced_ticks stats_balanced_init)
  moreover have "content s3 = (\<lambda>_. None)"
    by (rule ext) (simp add: content_def page_view_def cur_map_def cur_pt_def s3 s2 pt fresh_as_def)
  ultimately show ?thesis by blast
qed

section \<open>Switching and ending\<close>

theorem as_activate_quiet:
  assumes inv: "vm_inv {} s" and run: "as_activate s = Some s'"
  shows "vm_inv {} s' \<and> content s' = content s \<and> (\<forall>p<0x80000. \<not> tlb_has (tlb s') p)"
proof -
  from inv obtain a A pt nxt where *: "curas s = Some a" "ases s a = Some A" "pts s (as_pt A) = Some pt"
    "pt_wf pt" "ram_frames (ram s) nxt (nRamFrames s)" "entries_inv {} (pt_entry pt) (coremap s) (swap s)"
    "frames_inv {} (pt_entry pt) (coremap s) nxt a" "slots_inv (pt_entry pt) (swap s)" "swap_wf (swap s)"
    "coremapActive s" "cm_victim s < nRamFrames s" "2 < nRamFrames s" "tlb_victim s < NUM_TLB"
    and len: "length (tlb s) = NUM_TLB"
    unfolding vm_inv_def tlb_ok_def by blast
  from run * have s': "s' = s\<lparr>tlb := tlb_flush (tlb s), stats := tick TLB_INVALIDATE (stats s)\<rparr>"
    by (auto simp: as_activate_def Let_def)
  have "vm_inv {} s'"
    unfolding vm_inv_def by (intro exI [of _ a] exI [of _ A] exI [of _ pt] exI [of _ nxt])
      (use * tlb_ok_flush(1) [OF len] in \<open>simp add: s'\<close>)
  moreover have "content s' = content s" by (simp add: s' content_def cur_map_def cur_pt_def)
  ultimately show ?thesis using tlb_ok_flush(2) [OF len] by (simp add: s')
qed

theorem as_destroy_frees:
  assumes inv: "vm_inv {} s" and cur: "curas s = Some a"
    and zero: "status (coremap s ! 0) = fixed \<Longrightarrow> \<forall>p pa off. cur_map s p = Some (pa, off) \<longrightarrow> off = -1"
  shows "\<exists>v s'. as_destroy a s = Some (v, s') \<and> ases s' a = None \<and>
     (\<forall>f. 1 \<le> f \<and> f < nRamFrames s \<longrightarrow>
        coremap s' ! f = (if status (coremap s ! f) = dirty then freed else coremap s ! f))"
proof -
  from inv cur obtain A pt nxt where A: "ases s a = Some A" "pts s (as_pt A) = Some pt" "pt_wf pt"
    and small: "nRamFrames s \<le> 131072" and ent: "entries_inv {} (pt_entry pt) (coremap s) (swap s)"
    and frm: "frames_inv {} (pt_entry pt) (coremap s) nxt a" and n: "2 < nRamFrames s"
    unfolding vm_inv_def by (auto simp: ram_frames_def)
  have P: "cur_map s = pt_entry pt" using cur A by (simp add: cur_map_eq)
  have in_frames: "f \<in> pt_frames pt \<longleftrightarrow> status (coremap s ! f) = dirty" if "1 \<le> f" "f < nRamFrames s" for f
  proof
    assume "f \<in> pt_frames pt"
    then obtain pa p off where e: "pt_entry pt p = Some (pa, off)" "f = vpn pa" by (auto simp: pt_frames_def)
    with ent consider g where "resident {} (coremap s) p (pa, off) g" | k where "swapped (swap s) p (pa, off) k"
      unfolding entries_inv_def by blast
    then show "status (coremap s ! f) = dirty"
    proof cases
      case 1
      then have "g < nRamFrames s" "pa = page_addr g" "status (coremap s ! g) = dirty" by (auto simp: resident_def)
      with e(2) small show ?thesis by (simp add: vpn_page_addr)
    next
      case 2
      then show ?thesis using that e(2) by (simp add: swapped_def vpn_def)
    qed
  next
    assume "status (coremap s ! f) = dirty"
    with frm that obtain p where "pt_entry pt p = Some (page_addr f, -1)" by (auto simp: frames_inv_def)
    then show "f \<in> pt_frames pt" using that small unfolding pt_frames_def
      by (intro CollectI exI [of _ "page_addr f"] exI [of _ p] exI [of _ "-1"]) (simp add: vpn_page_addr)
  qed
  have "releasable (coremap s) f" if "f \<in> pt_frames pt" for f
  proof (cases "f = 0")
    case True
    have "status (coremap s ! 0) \<noteq> fixed"
    proof
      assume fx: "status (coremap s ! 0) = fixed"
      from that True obtain pa p off where e: "pt_entry pt p = Some (pa, off)" "vpn pa = 0" by (auto simp: pt_frames_def)
      with zero [OF fx] P have "off = -1" by auto
      with ent e(1) obtain g where "resident {} (coremap s) p (pa, -1) g" unfolding entries_inv_def swapped_def by fastforce
      with e(2) small show False by (auto simp: resident_def vpn_page_addr)
    qed
    with n show ?thesis unfolding True releasable_def by (intro conjI) (linarith, assumption)
  next
    case False
    from that obtain pa p off where e: "pt_entry pt p = Some (pa, off)" "f = vpn pa" by (auto simp: pt_frames_def)
    with ent consider g where "resident {} (coremap s) p (pa, off) g" | k where "swapped (swap s) p (pa, off) k"
      unfolding entries_inv_def by blast
    then have "f < nRamFrames s"
    proof cases
      case 1
      with e(2) small show ?thesis by (auto simp: resident_def vpn_page_addr)
    next
      case 2
      with e(2) False show ?thesis by (simp add: swapped_def vpn_def)
    qed
    with False in_frames [of f] that show ?thesis by (simp add: releasable_def)
  qed
  then have "pt_destroy (as_pt A) s = Some (s\<lparr>coremap := free_frames (pt_frames pt) (coremap s), pts := (pts s)(as_pt A := None)\<rparr>)"
    by (intro pt_destroy_eq [OF A(2,3)]) auto
  with A show ?thesis by (simp add: as_destroy_def in_frames)
qed

text \<open>The copy of an address space shares the page table of the original, and its creation has
  emptied the swap table: what the original had in swap is gone.\<close>

theorem as_copy_shares:
  assumes old: "ases s old = Some A" and fresh: "old < next_ptr s" and copy: "as_copy io old s = Some (Inr b, s')"
  shows "b \<noteq> old \<and> ases s' old = Some A \<and>
    (\<exists>B. ases s' b = Some B \<and> as_pt B = as_pt A \<and> as_code B = as_code A \<and> as_data B = as_data A \<and> as_stack B = as_stack A) \<and>
    (\<forall>k. swap_slot (swap s') k = None)"
proof -
  from copy obtain s1 where cr: "as_create io s = Some (Some b, s1)"
    by (auto simp: as_copy_def bind_eq_Some_conv split: option.splits)
  from as_create_SomeD [OF cr] obtain pt sw where b: "b = next_ptr s + 1" and s1: "s1 = s\<lparr>pts := (pts s)(next_ptr s \<mapsto> pt),
      ases := (ases s)(b \<mapsto> fresh_as (next_ptr s)), next_ptr := next_ptr s + 2, swap := sw\<rparr>"
    and sw: "swapfile_init io (swap s) = Some sw" by metis
  have ne: "b \<noteq> old" using b fresh by simp
  have sc: "sg' = sg" if "seg_copy km sg = Some sg'" for km sg sg'
    using that by (auto simp: seg_copy_def seg_create_def seg_define_def bind_eq_Some_conv)
  from copy cr old ne obtain c d st where c: "seg_copy (io_kmalloc io) (as_code A) = Some c"
    "seg_copy (io_kmalloc io) (as_data A) = Some d" "seg_copy (io_kmalloc io) (as_stack A) = Some st"
    and s': "s' = s1\<lparr>ases := (ases s1)(b \<mapsto> \<lparr>as_pt = as_pt A, as_code = c, as_data = d, as_stack = st\<rparr>)\<rparr>"
    by (auto simp: as_copy_def bind_eq_Some_conv s1 Let_def fresh_as_def)
  from swap_wf_init [OF sw] have "\<forall>k. swap_slot (swap s') k = None" by (simp add: s' s1)
  with ne old c [THEN sc] show ?thesis by (simp add: s' s1)
qed

section \<open>Virtual memory as memory\<close>

text \<open>
  The processor's side: a byte is read or written where the TLB says, and a write needs an entry
  marked dirty. Addresses are split into page and offset as everywhere.
\<close>

definition offset_in :: "vaddr \<Rightarrow> nat" where
  "offset_in va = unat va mod PAGE_SIZE"

definition load_byte :: "vaddr \<Rightarrow> vm_state \<Rightarrow> u8 option" where
  "load_byte va s = map_option (\<lambda>(pa, w). mem s (unat pa + offset_in va)) (tlb_translate (tlb s) va)"

definition store_byte :: "vaddr \<Rightarrow> u8 \<Rightarrow> vm_state \<Rightarrow> vm_state option" where
  "store_byte va b s = (case tlb_translate (tlb s) va of
     None \<Rightarrow> None
   | Some (pa, w) \<Rightarrow> if w then Some (s\<lparr>mem := (mem s)(unat pa + offset_in va := b)\<rparr>) else None)"

text \<open>The page \<open>va\<close> lies in starts out as the current address space says: \<open>init\<close> gives every page's
  first content.\<close>

definition backed_at :: "vm_io \<Rightarrow> (nat \<Rightarrow> bytes) \<Rightarrow> vm_state \<Rightarrow> vaddr \<Rightarrow> bool" where
  "backed_at io init s va \<longleftrightarrow>
     (\<exists>a A r c. curas s = Some a \<and> ases s a = Some A \<and> as_get_segment A va = Some r \<and>
        seg_backed io (as_seg r A) va c \<and> fresh_content (as_seg r A) va c = init (vpn va))"

datatype vm_event = Load vaddr u8 | Store vaddr u8 | Fault int vaddr | Switch

inductive vm_step :: "vm_io \<Rightarrow> (nat \<Rightarrow> bytes) \<Rightarrow> vm_event \<Rightarrow> vm_state \<Rightarrow> vm_state \<Rightarrow> bool"
  for io :: vm_io and init :: "nat \<Rightarrow> bytes" where
  step_load: "va < USERSTACK \<Longrightarrow> load_byte va s = Some b \<Longrightarrow> vm_step io init (Load va b) s s"
| step_store: "va < USERSTACK \<Longrightarrow> store_byte va b s = Some s' \<Longrightarrow> vm_step io init (Store va b) s s'"
| step_fault: "va < USERSTACK \<Longrightarrow> \<not> tlb_has (tlb s) (vpn va) \<Longrightarrow> ft = VM_FAULT_READ \<or> ft = VM_FAULT_WRITE \<Longrightarrow>
    backed_at io init s va \<Longrightarrow> vm_fault io ft va s = Some (Resolved, s') \<Longrightarrow> vm_step io init (Fault ft va) s s'"
| step_switch: "as_activate s = Some s' \<Longrightarrow> vm_step io init Switch s s'"

inductive_cases vm_step_loadE: "vm_step io init (Load va b) s s'"
inductive_cases vm_step_storeE: "vm_step io init (Store va b) s s'"
inductive_cases vm_step_faultE: "vm_step io init (Fault ft va) s s'"
inductive_cases vm_step_switchE: "vm_step io init Switch s s'"

lemmas vm_step_elims = vm_step_loadE vm_step_storeE vm_step_faultE vm_step_switchE

inductive vm_run :: "vm_io \<Rightarrow> (nat \<Rightarrow> bytes) \<Rightarrow> vm_event list \<Rightarrow> vm_state \<Rightarrow> vm_state \<Rightarrow> bool"
  for io :: vm_io and init :: "nat \<Rightarrow> bytes" where
  run_nil: "vm_run io init [] s s"
| run_snoc: "vm_run io init es s s' \<Longrightarrow> vm_step io init e s' s'' \<Longrightarrow> vm_run io init (es @ [e]) s s''"

text \<open>The abstract machine: pages that appear with their first content and hold what is stored.\<close>

inductive amem_step :: "(nat \<Rightarrow> bytes) \<Rightarrow> vm_event \<Rightarrow> (nat \<Rightarrow> bytes option) \<Rightarrow> (nat \<Rightarrow> bytes option) \<Rightarrow> bool"
  for init :: "nat \<Rightarrow> bytes" where
  amem_load: "v (vpn va) = Some pg \<Longrightarrow> amem_step init (Load va (pg (offset_in va))) v v"
| amem_store: "v (vpn va) = Some pg \<Longrightarrow> amem_step init (Store va b) v (v(vpn va \<mapsto> pg(offset_in va := b)))"
| amem_fault: "amem_step init (Fault ft va) v
    (v(vpn va \<mapsto> (case v (vpn va) of None \<Rightarrow> init (vpn va) | Some pg \<Rightarrow> pg)))"
| amem_switch: "amem_step init Switch v v"

lemma tlb_sound:
  assumes inv: "vm_inv {} s" and tr: "tlb_translate (tlb s) va = Some (pa, w)" and va: "va < USERSTACK"
  obtains f where "pa = page_addr f" "f < nRamFrames s" "cur_map s (vpn va) = Some (pa, -1)"
    "content s (vpn va) = Some (page_at (mem s) (unat pa))"
proof -
  from inv obtain a A pt where *: "curas s = Some a" "ases s a = Some A" "pts s (as_pt A) = Some pt"
    and ok: "tlb_ok (tlb_maps (pt_entry pt)) (tlb s)"
    and ent: "entries_inv {} (pt_entry pt) (coremap s) (swap s)"
    unfolding vm_inv_def by blast
  have P: "cur_map s = pt_entry pt" using * by (simp add: cur_map_eq)
  from tlb_translate_SomeD [OF ok tr vm_inv_user_page [OF va]] have e: "pt_entry pt (vpn va) = Some (pa, -1)"
    unfolding tlb_maps_def by metis
  with ent obtain f where "resident {} (coremap s) (vpn va) (pa, -1) f"
    unfolding entries_inv_def swapped_def by fastforce
  with e P show thesis
    by (intro that [of f]) (auto simp: resident_def content_def page_view_def)
qed

lemma vm_step_refines:
  assumes step: "vm_step io init e s s'" and inv: "vm_inv {} s" and st: "stats_balanced 0 (stats s)"
  shows "vm_inv {} s' \<and> stats_balanced 0 (stats s') \<and> amem_step init e (content s) (content s')"
  using step
proof cases
  case (step_load va b)
  from step_load(4) obtain pa w where tr: "tlb_translate (tlb s) va = Some (pa, w)" "b = mem s (unat pa + offset_in va)"
    by (auto simp: load_byte_def)
  from tlb_sound [OF inv tr(1) step_load(3)] have c: "content s (vpn va) = Some (page_at (mem s) (unat pa))" by blast
  have "page_at (mem s) (unat pa) (offset_in va) = b" by (simp add: page_at_def offset_in_def tr)
  with amem_load [where v = "content s" and init = init, OF c] step_load inv st show ?thesis by simp
next
  case (step_store va b)
  from step_store(3) obtain pa where tr: "tlb_translate (tlb s) va = Some (pa, True)"
    and s': "s' = s\<lparr>mem := (mem s)(unat pa + offset_in va := b)\<rparr>"
    by (auto simp: store_byte_def split: option.splits if_splits)
  from tlb_sound [OF inv tr step_store(2)] obtain f where f: "pa = page_addr f" "f < nRamFrames s"
    "cur_map s (vpn va) = Some (pa, -1)" "content s (vpn va) = Some (page_at (mem s) (unat pa))" .
  have off: "offset_in va < PAGE_SIZE" by (simp add: offset_in_def)
  have "same_outside (unat (page_addr f)) (mem s) ((mem s)(unat pa + offset_in va := b))"
    using off unfolding same_outside_def page_at_def f(1) by (auto intro!: ext)
  note w = content_write [OF inv f(3) [unfolded f(1)] f(2) this]
  have "page_at ((mem s)(unat pa + offset_in va := b)) (unat pa) = (page_at (mem s) (unat pa))(offset_in va := b)"
    using off by (auto simp: page_at_def)
  with w f(1) have "content s' = (content s)(vpn va \<mapsto> (page_at (mem s) (unat pa))(offset_in va := b))"
    by (simp add: s')
  with amem_store [where v = "content s" and init = init, OF f(4)] step_store inv st show ?thesis by (simp add: s')
next
  case (step_fault va ft)
  from step_fault(5) obtain a A r c where at: "fault_at s va a A r" and sg: "seg_backed io (as_seg r A) va c"
    and fr: "fresh_content (as_seg r A) va c = init (vpn va)"
    using inv step_fault unfolding backed_at_def fault_at_def by blast
  from vm_fault_correct [OF at step_fault(4) sg st step_fault(6)]
  have "vm_inv {} s'" "stats_balanced 0 (stats s')"
    "content s' = (content s)(vpn va \<mapsto> (case content s (vpn va) of None \<Rightarrow> init (vpn va) | Some pg \<Rightarrow> pg))"
    unfolding fault_done_def fr by blast+
  with amem_fault [of init ft va "content s"] step_fault show ?thesis by simp
next
  case step_switch
  with as_activate_quiet [OF inv step_switch(2)] have "vm_inv {} s'" "content s' = content s" by auto
  moreover have "stats_balanced 0 (stats s')"
    using step_switch(2) st by (auto simp: as_activate_def Let_def stats_balanced_ticks split: option.splits)
  ultimately show ?thesis using amem_switch step_switch by simp
qed

text \<open>The byte a program expects at an address: its last store, or the first content of the page.\<close>

fun last_store :: "vaddr \<Rightarrow> vm_event list \<Rightarrow> u8 option" where
  "last_store va [] = None"
| "last_store va (e # es) =
     (case last_store va es of Some b \<Rightarrow> Some b
      | None \<Rightarrow> (case e of Store va' b \<Rightarrow> if va' = va then Some b else None | _ \<Rightarrow> None))"

definition expected_byte :: "(nat \<Rightarrow> bytes) \<Rightarrow> vm_event list \<Rightarrow> vaddr \<Rightarrow> u8" where
  "expected_byte init es va = (case last_store va es of Some b \<Rightarrow> b | None \<Rightarrow> init (vpn va) (offset_in va))"

lemma last_store_snoc:
  "last_store va (es @ [e]) =
     (case e of Store va' b \<Rightarrow> if va' = va then Some b else last_store va es | _ \<Rightarrow> last_store va es)"
  by (induction es) (auto split: vm_event.splits option.splits)

lemma same_address: "vpn va = vpn vb \<Longrightarrow> offset_in va = offset_in vb \<Longrightarrow> va = vb"
  unfolding vpn_def offset_in_def by (metis div_mult_mod_eq word_unat_eq_iff)

lemma vm_run_refines:
  assumes "vm_run io init es s s'" and "vm_inv {} s" and "stats_balanced 0 (stats s)"
    and "content s = (\<lambda>_. None)"
  shows "vm_inv {} s' \<and> stats_balanced 0 (stats s') \<and>
     (\<forall>va. case content s' (vpn va) of None \<Rightarrow> last_store va es = None
           | Some pg \<Rightarrow> pg (offset_in va) = expected_byte init es va)"
  using assms
proof (induction rule: vm_run.induct)
  case (run_nil s)
  then show ?case by simp
next
  case (run_snoc es s s' e s'')
  then have IH: "vm_inv {} s'" "stats_balanced 0 (stats s')"
    "\<And>pg va. content s' (vpn va) = Some pg \<Longrightarrow> pg (offset_in va) = expected_byte init es va"
    "\<And>va. content s' (vpn va) = None \<Longrightarrow> last_store va es = None"
    by (force split: option.splits)+
  from vm_step_refines [OF run_snoc.hyps(2) IH(1,2)] have "vm_inv {} s''" "stats_balanced 0 (stats s'')"
    and step: "amem_step init e (content s') (content s'')" by auto
  moreover have "pg (offset_in va) = expected_byte init (es @ [e]) va" if pg: "content s'' (vpn va) = Some pg" for pg va
    using step
  proof cases
    case (amem_load va' pg')
    with IH(3) pg show ?thesis by (simp add: expected_byte_def last_store_snoc)
  next
    case (amem_store va' pg' b)
    show ?thesis
    proof (cases "vpn va = vpn va'")
      case True
      with amem_store pg have "pg = pg'(offset_in va' := b)" "content s' (vpn va) = Some pg'" by auto
      with IH(3) [of va pg'] same_address [OF True] amem_store(1) show ?thesis
        by (auto simp: expected_byte_def last_store_snoc)
    next
      case False
      with amem_store pg IH(3) [of va pg] show ?thesis
        by (auto simp: expected_byte_def last_store_snoc)
    qed
  next
    case (amem_fault ft va')
    show ?thesis
    proof (cases "content s' (vpn va)")
      case None
      have "vpn va' = vpn va" using amem_fault(2) pg None by (auto split: if_splits)
      with amem_fault pg None have "pg = init (vpn va)" by auto
      moreover have "last_store va es = None" using IH(4) None .
      ultimately show ?thesis using amem_fault(1) by (simp add: expected_byte_def last_store_snoc)
    next
      case (Some pg')
      with amem_fault pg have "pg = pg'" by (auto split: if_splits)
      with Some IH(3) amem_fault(1) show ?thesis by (simp add: expected_byte_def last_store_snoc)
    qed
  next
    case amem_switch
    with IH(3) pg show ?thesis by (simp add: expected_byte_def last_store_snoc)
  qed
  moreover have "last_store va (es @ [e]) = None" if none: "content s'' (vpn va) = None" for va
    using step
  proof cases
    case (amem_store va' pg' b)
    with none have "vpn va \<noteq> vpn va'" "content s' (vpn va) = None" by (auto split: if_splits)
    with IH(4) amem_store(1) show ?thesis by (auto simp: last_store_snoc)
  qed (use none IH(4) in \<open>auto simp: last_store_snoc split: if_splits\<close>)
  ultimately show ?case by (auto split: option.split)
qed

end
