(* ===== verification/ThreadList.thy ===== *)
theory ThreadList
  imports Prelude
begin

text \<open>
  \<open>kern/thread/threadlist.c\<close>: doubly linked lists of threads with two bookend nodes. The heap
  maps every node, the bookends of list \<open>l\<close> and the node inside thread \<open>t\<close>, to its fields; the use
  of a null pointer is \<open>None\<close>. \<open>DEBUGASSERT\<close> is compiled out and does not appear. \<open>is_list\<close> says
  that the nodes of a list spell a sequence of threads, on which the operations are those of a
  double-ended queue, the interface \<open>thread_queue\<close>.
\<close>

section \<open>Nodes and lists\<close>

datatype node = Head nat | Tail nat | Tnode nat

record threadlistnode =
  tln_prev :: "node option"
  tln_next :: "node option"
  tln_self :: "nat option"

record tl_heap =
  nodes :: "node \<Rightarrow> threadlistnode"
  tl_count :: "nat \<Rightarrow> u32"

definition set_node :: "node \<Rightarrow> threadlistnode \<Rightarrow> tl_heap \<Rightarrow> tl_heap" where
  "set_node n x h = h\<lparr>nodes := (nodes h)(n := x)\<rparr>"

definition set_next :: "node \<Rightarrow> node option \<Rightarrow> tl_heap \<Rightarrow> tl_heap" where
  "set_next n v h = set_node n ((nodes h n)\<lparr>tln_next := v\<rparr>) h"

definition set_prev :: "node \<Rightarrow> node option \<Rightarrow> tl_heap \<Rightarrow> tl_heap" where
  "set_prev n v h = set_node n ((nodes h n)\<lparr>tln_prev := v\<rparr>) h"

definition set_count :: "nat \<Rightarrow> u32 \<Rightarrow> tl_heap \<Rightarrow> tl_heap" where
  "set_count l c h = h\<lparr>tl_count := (tl_count h)(l := c)\<rparr>"

definition threadlistnode_init :: "node \<Rightarrow> nat \<Rightarrow> tl_heap \<Rightarrow> tl_heap" where
  "threadlistnode_init n t h = set_node n \<lparr>tln_prev = None, tln_next = None, tln_self = Some t\<rparr> h"

definition threadlistnode_cleanup :: "node \<Rightarrow> tl_heap \<Rightarrow> unit option" where
  "threadlistnode_cleanup n h = do {
     kassert (tln_next (nodes h n) = None);
     kassert (tln_prev (nodes h n) = None);
     kassert (tln_self (nodes h n) \<noteq> None) }"

definition threadlist_init :: "nat \<Rightarrow> tl_heap \<Rightarrow> tl_heap" where
  "threadlist_init l h =
     (let h = set_node (Head l) \<lparr>tln_prev = None, tln_next = Some (Tail l), tln_self = None\<rparr> h;
          h = set_node (Tail l) \<lparr>tln_prev = Some (Head l), tln_next = None, tln_self = None\<rparr> h
      in set_count l 0 h)"

definition threadlist_isempty :: "nat \<Rightarrow> tl_heap \<Rightarrow> bool" where
  "threadlist_isempty l h \<longleftrightarrow> tl_count h l = 0"

definition threadlist_cleanup :: "nat \<Rightarrow> tl_heap \<Rightarrow> unit option" where
  "threadlist_cleanup l h = do {
     kassert (threadlist_isempty l h);
     kassert (tl_count h l = 0) }"

definition threadlist_insertafternode :: "node \<Rightarrow> nat \<Rightarrow> tl_heap \<Rightarrow> tl_heap option" where
  "threadlist_insertafternode onlist t h = do {
     let addee = Tnode t;
     let h = set_prev addee (Some onlist) h;
     let h = set_next addee (tln_next (nodes h onlist)) h;
     p \<leftarrow> tln_prev (nodes h addee);
     let h = set_next p (Some addee) h;
     n \<leftarrow> tln_next (nodes h addee);
     Some (set_prev n (Some addee) h) }"

definition threadlist_insertbeforenode :: "nat \<Rightarrow> node \<Rightarrow> tl_heap \<Rightarrow> tl_heap option" where
  "threadlist_insertbeforenode t onlist h = do {
     let addee = Tnode t;
     let h = set_prev addee (tln_prev (nodes h onlist)) h;
     let h = set_next addee (Some onlist) h;
     p \<leftarrow> tln_prev (nodes h addee);
     let h = set_next p (Some addee) h;
     n \<leftarrow> tln_next (nodes h addee);
     Some (set_prev n (Some addee) h) }"

definition threadlist_removenode :: "node \<Rightarrow> tl_heap \<Rightarrow> tl_heap option" where
  "threadlist_removenode tln h = do {
     p \<leftarrow> tln_prev (nodes h tln);
     let h = set_next p (tln_next (nodes h tln)) h;
     n \<leftarrow> tln_next (nodes h tln);
     let h = set_prev n (tln_prev (nodes h tln)) h;
     let h = set_prev tln None h;
     Some (set_next tln None h) }"

definition threadlist_addhead :: "nat \<Rightarrow> nat \<Rightarrow> tl_heap \<Rightarrow> tl_heap option" where
  "threadlist_addhead l t h = do {
     h \<leftarrow> threadlist_insertafternode (Head l) t h;
     Some (set_count l (tl_count h l + 1) h) }"

definition threadlist_addtail :: "nat \<Rightarrow> nat \<Rightarrow> tl_heap \<Rightarrow> tl_heap option" where
  "threadlist_addtail l t h = do {
     h \<leftarrow> threadlist_insertbeforenode t (Tail l) h;
     Some (set_count l (tl_count h l + 1) h) }"

definition threadlist_remhead :: "nat \<Rightarrow> tl_heap \<Rightarrow> (nat option \<times> tl_heap) option" where
  "threadlist_remhead l h = do {
     tln \<leftarrow> tln_next (nodes h (Head l));
     if tln_next (nodes h tln) = None then Some (None, h)
     else do {
       h \<leftarrow> threadlist_removenode tln h;
       let h = set_count l (tl_count h l - 1) h;
       Some (tln_self (nodes h tln), h) } }"

definition threadlist_remtail :: "nat \<Rightarrow> tl_heap \<Rightarrow> (nat option \<times> tl_heap) option" where
  "threadlist_remtail l h = do {
     tln \<leftarrow> tln_prev (nodes h (Tail l));
     if tln_prev (nodes h tln) = None then Some (None, h)
     else do {
       h \<leftarrow> threadlist_removenode tln h;
       let h = set_count l (tl_count h l - 1) h;
       Some (tln_self (nodes h tln), h) } }"

definition threadlist_insertafter :: "nat \<Rightarrow> nat \<Rightarrow> nat \<Rightarrow> tl_heap \<Rightarrow> tl_heap option" where
  "threadlist_insertafter l onlist addee h = do {
     h \<leftarrow> threadlist_insertafternode (Tnode onlist) addee h;
     Some (set_count l (tl_count h l + 1) h) }"

definition threadlist_insertbefore :: "nat \<Rightarrow> nat \<Rightarrow> nat \<Rightarrow> tl_heap \<Rightarrow> tl_heap option" where
  "threadlist_insertbefore l addee onlist h = do {
     h \<leftarrow> threadlist_insertbeforenode addee (Tnode onlist) h;
     Some (set_count l (tl_count h l + 1) h) }"

definition threadlist_remove :: "nat \<Rightarrow> nat \<Rightarrow> tl_heap \<Rightarrow> tl_heap option" where
  "threadlist_remove l t h = do {
     h \<leftarrow> threadlist_removenode (Tnode t) h;
     Some (set_count l (tl_count h l - 1) h) }"

section \<open>Chains of nodes\<close>

abbreviation nxt :: "tl_heap \<Rightarrow> node \<Rightarrow> node option" where "nxt h n \<equiv> tln_next (nodes h n)"
abbreviation prv :: "tl_heap \<Rightarrow> node \<Rightarrow> node option" where "prv h n \<equiv> tln_prev (nodes h n)"
abbreviation slf :: "tl_heap \<Rightarrow> node \<Rightarrow> nat option" where "slf h n \<equiv> tln_self (nodes h n)"

lemma set_field_sel [simp]:
  "nxt (set_next n v h) m = (if m = n then v else nxt h m)"
  "prv (set_next n v h) m = prv h m"
  "nxt (set_prev n v h) m = nxt h m"
  "prv (set_prev n v h) m = (if m = n then v else prv h m)"
  "slf (set_next n v h) m = slf h m" "slf (set_prev n v h) m = slf h m"
  "tl_count (set_next n v h) = tl_count h" "tl_count (set_prev n v h) = tl_count h"
  "nodes (set_count l c h) = nodes h" "tl_count (set_count l c h) = (tl_count h)(l := c)"
  by (simp_all add: set_next_def set_prev_def set_node_def set_count_def)

fun chain :: "tl_heap \<Rightarrow> node list \<Rightarrow> bool" where
  "chain h (a # b # ns) \<longleftrightarrow> nxt h a = Some b \<and> prv h b = Some a \<and> chain h (b # ns)"
| "chain h _ \<longleftrightarrow> True"

lemma chain_append: "chain h (us @ a # vs) \<longleftrightarrow> chain h (us @ [a]) \<and> chain h (a # vs)"
  by (induction us rule: induct_list012) auto

lemma chain_cong:
  "(\<And>x. x \<in> set (butlast ns) \<Longrightarrow> nxt h' x = nxt h x) \<Longrightarrow> (\<And>x. x \<in> set (tl ns) \<Longrightarrow> prv h' x = prv h x) \<Longrightarrow>
    chain h' ns = chain h ns"
  by (induction ns rule: induct_list012) (auto split: if_splits)

text \<open>The two surgeries: splicing a node in between \<open>a\<close> and \<open>b\<close>, and out again.\<close>

lemma chain_insert:
  assumes "chain h (us @ a # b # vs)" and "distinct (us @ a # b # vs)" and "n \<notin> set (us @ a # b # vs)"
    and "\<And>x. nxt h' x = ((nxt h)(a := Some n, n := Some b)) x" and "\<And>x. prv h' x = ((prv h)(n := Some a, b := Some n)) x"
  shows "chain h' (us @ a # n # b # vs)"
proof -
  have "chain h (us @ [a])" "chain h (b # vs)"
    using assms(1) chain_append [of h us a "b # vs"] by auto
  moreover have "chain h' (us @ [a]) = chain h (us @ [a])"
  proof (rule chain_cong)
    show "nxt h' x = nxt h x" if "x \<in> set (butlast (us @ [a]))" for x
      using that assms(2,3) by (auto simp: assms(4))
    show "prv h' x = prv h x" if "x \<in> set (tl (us @ [a]))" for x
    proof -
      have "x \<in> set (us @ [a])" using that by (cases us) auto
      then show ?thesis using assms(2,3) by (auto simp: assms(5))
    qed
  qed
  moreover have "chain h' (b # vs) = chain h (b # vs)"
  proof (rule chain_cong)
    show "nxt h' x = nxt h x" if "x \<in> set (butlast (b # vs))" for x
    proof -
      have "x \<in> set (b # vs)" using in_set_butlastD [OF that] .
      then show ?thesis using assms(2,3) by (auto simp: assms(4))
    qed
    show "prv h' x = prv h x" if "x \<in> set (tl (b # vs))" for x
      using that assms(2,3) by (auto simp: assms(5))
  qed
  ultimately show ?thesis
    using assms(2,3) chain_append [of h' us a "n # b # vs"] by (auto simp: assms(4,5))
qed

lemma chain_remove:
  assumes "chain h (us @ a # n # b # vs)" and "distinct (us @ a # n # b # vs)"
    and "\<And>x. nxt h' x = ((nxt h)(a := Some b, n := None)) x" and "\<And>x. prv h' x = ((prv h)(b := Some a, n := None)) x"
  shows "chain h' (us @ a # b # vs)"
proof -
  have "chain h (us @ [a])" "chain h (b # vs)"
    using assms(1) chain_append [of h us a "n # b # vs"] by auto
  moreover have "chain h' (us @ [a]) = chain h (us @ [a])"
  proof (rule chain_cong)
    show "nxt h' x = nxt h x" if "x \<in> set (butlast (us @ [a]))" for x
      using that assms(2) by (auto simp: assms(3))
    show "prv h' x = prv h x" if "x \<in> set (tl (us @ [a]))" for x
    proof -
      have "x \<in> set (us @ [a])" using that by (cases us) auto
      then show ?thesis using assms(2) by (auto simp: assms(4))
    qed
  qed
  moreover have "chain h' (b # vs) = chain h (b # vs)"
  proof (rule chain_cong)
    show "nxt h' x = nxt h x" if "x \<in> set (butlast (b # vs))" for x
    proof -
      have "x \<in> set (b # vs)" using in_set_butlastD [OF that] .
      then show ?thesis using assms(2) by (auto simp: assms(3))
    qed
    show "prv h' x = prv h x" if "x \<in> set (tl (b # vs))" for x
      using that assms(2) by (auto simp: assms(4))
  qed
  ultimately show ?thesis
    using assms(2) chain_append [of h' us a "b # vs"] by (auto simp: assms(3,4))
qed

definition list_nodes :: "nat \<Rightarrow> nat list \<Rightarrow> node list" where
  "list_nodes l ts = Head l # map Tnode ts @ [Tail l]"

definition is_list :: "tl_heap \<Rightarrow> nat \<Rightarrow> nat list \<Rightarrow> bool" where
  "is_list h l ts \<longleftrightarrow> distinct ts \<and> chain h (list_nodes l ts) \<and> prv h (Head l) = None \<and> nxt h (Tail l) = None \<and>
     (\<forall>t\<in>set ts. slf h (Tnode t) = Some t) \<and> tl_count h l = of_nat (length ts) \<and> length ts < 2 ^ 32"

lemma list_nodes_distinct: "distinct ts \<Longrightarrow> distinct (list_nodes l ts)"
  by (auto simp: list_nodes_def distinct_map inj_on_def)

lemma list_nodes_split: "list_nodes l (us @ vs) = (Head l # map Tnode us) @ (map Tnode vs @ [Tail l])"
  by (simp add: list_nodes_def)

text \<open>The last node of a non-empty prefix, the first of a non-empty suffix.\<close>

lemma prefix_snoc: "\<exists>us' a. Head l # map Tnode us = us' @ [a] \<and> a = (if us = [] then Head l else Tnode (last us))"
  by (cases us rule: rev_cases) auto

lemma suffix_cons: "\<exists>b vs'. map Tnode vs @ [Tail l] = b # vs' \<and> b = (if vs = [] then Tail l else Tnode (hd vs))"
  by (cases vs) auto

lemma is_list_insert:
  assumes h: "is_list h l (us @ vs)" and t: "t \<notin> set (us @ vs)" and self: "slf h (Tnode t) = Some t"
    and small: "length (us @ vs) + 1 < 2 ^ 32"
  defines "a \<equiv> (if us = [] then Head l else Tnode (last us))" and "b \<equiv> (if vs = [] then Tail l else Tnode (hd vs))"
  shows "nxt h a = Some b" and "prv h b = Some a"
    and "(\<And>x. nxt h' x = ((nxt h)(a := Some (Tnode t), Tnode t := Some b)) x) \<Longrightarrow>
      (\<And>x. prv h' x = ((prv h)(Tnode t := Some a, b := Some (Tnode t))) x) \<Longrightarrow>
      (\<And>x. slf h' x = slf h x) \<Longrightarrow> tl_count h' l = tl_count h l + 1 \<Longrightarrow> is_list h' l (us @ t # vs)"
proof -
  obtain us' where us': "Head l # map Tnode us = us' @ [a]" unfolding a_def using prefix_snoc by metis
  obtain vs' where vs': "map Tnode vs @ [Tail l] = b # vs'" unfolding b_def using suffix_cons by metis
  have ns: "list_nodes l (us @ vs) = us' @ a # b # vs'" by (simp only: list_nodes_split us' vs' append_assoc append_Cons append_Nil)
  have ch: "chain h (us' @ a # b # vs')" and d: "distinct (us' @ a # b # vs')"
    using h list_nodes_distinct [of "us @ vs" l] unfolding ns [symmetric] is_list_def by auto
  from ch chain_append [of h us' a "b # vs'"] show "nxt h a = Some b" "prv h b = Some a" by auto
  assume h': "\<And>x. nxt h' x = ((nxt h)(a := Some (Tnode t), Tnode t := Some b)) x"
    "\<And>x. prv h' x = ((prv h)(Tnode t := Some a, b := Some (Tnode t))) x"
    "\<And>x. slf h' x = slf h x" "tl_count h' l = tl_count h l + 1"
  have "Tnode t \<notin> set (list_nodes l (us @ vs))" using t by (auto simp: list_nodes_def)
  from chain_insert [OF ch d this [unfolded ns] h'(1,2)] have "chain h' (us' @ a # Tnode t # b # vs')" .
  moreover have "list_nodes l (us @ t # vs) = us' @ a # Tnode t # b # vs'"
    using us' vs' by (simp add: list_nodes_def)
  moreover have "prv h' (Head l) = None" "nxt h' (Tail l) = None"
    using h unfolding h'(1) h'(2) by (auto simp: is_list_def a_def b_def)
  ultimately show "is_list h' l (us @ t # vs)"
    using h t self small h'(3,4) by (auto simp: is_list_def)
qed

lemma is_list_remove:
  assumes h: "is_list h l (us @ t # vs)"
  defines "a \<equiv> (if us = [] then Head l else Tnode (last us))" and "b \<equiv> (if vs = [] then Tail l else Tnode (hd vs))"
  shows "nxt h a = Some (Tnode t)" and "prv h b = Some (Tnode t)" and "nxt h (Tnode t) = Some b" and "prv h (Tnode t) = Some a"
    and "(\<And>x. nxt h' x = ((nxt h)(a := Some b, Tnode t := None)) x) \<Longrightarrow>
      (\<And>x. prv h' x = ((prv h)(b := Some a, Tnode t := None)) x) \<Longrightarrow>
      (\<And>x. slf h' x = slf h x) \<Longrightarrow> tl_count h' l = tl_count h l - 1 \<Longrightarrow> is_list h' l (us @ vs)"
proof -
  obtain us' where us': "Head l # map Tnode us = us' @ [a]" unfolding a_def using prefix_snoc by metis
  obtain vs' where vs': "map Tnode vs @ [Tail l] = b # vs'" unfolding b_def using suffix_cons by metis
  have ns: "list_nodes l (us @ t # vs) = us' @ a # Tnode t # b # vs'"
    using us' vs' by (simp add: list_nodes_def)
  have ch: "chain h (us' @ a # Tnode t # b # vs')" and d: "distinct (us' @ a # Tnode t # b # vs')"
    using h list_nodes_distinct [of "us @ t # vs" l] unfolding ns [symmetric] is_list_def by auto
  from ch chain_append [of h us' a "Tnode t # b # vs'"]
  show links: "nxt h a = Some (Tnode t)" "prv h b = Some (Tnode t)" "nxt h (Tnode t) = Some b" "prv h (Tnode t) = Some a" by auto
  assume h': "\<And>x. nxt h' x = ((nxt h)(a := Some b, Tnode t := None)) x"
    "\<And>x. prv h' x = ((prv h)(b := Some a, Tnode t := None)) x"
    "\<And>x. slf h' x = slf h x" "tl_count h' l = tl_count h l - 1"
  from chain_remove [OF ch d h'(1,2)] have "chain h' (us' @ a # b # vs')" .
  moreover have "list_nodes l (us @ vs) = us' @ a # b # vs'" by (simp only: list_nodes_split us' vs' append_assoc append_Cons append_Nil)
  moreover have "prv h' (Head l) = None" "nxt h' (Tail l) = None"
    using h unfolding h'(1) h'(2) by (auto simp: is_list_def a_def b_def)
  ultimately show "is_list h' l (us @ vs)"
    using h h'(3,4) by (auto simp: is_list_def)
qed

section \<open>The operations as those of a sequence\<close>

lemma insertafternode_ok:
  assumes h: "is_list h l (us @ vs)" and t: "t \<notin> set (us @ vs)" and self: "slf h (Tnode t) = Some t"
    and small: "length (us @ vs) + 1 < 2 ^ 32"
    and a: "a = (if us = [] then Head l else Tnode (last us))"
  shows "\<exists>h'. threadlist_insertafternode a t h = Some h' \<and> is_list (set_count l (tl_count h' l + 1) h') l (us @ t # vs)"
proof -
  define b where "b = (if vs = [] then Tail l else Tnode (hd vs))"
  note ins = is_list_insert [OF h t self small, folded a b_def]
  have ne: "a \<noteq> Tnode t" "b \<noteq> Tnode t" using t by (auto simp: a b_def)
  let ?h = "set_prev b (Some (Tnode t)) (set_next a (Some (Tnode t)) (set_next (Tnode t) (Some b) (set_prev (Tnode t) (Some a) h)))"
  have "threadlist_insertafternode a t h = Some ?h"
    using ins(1) ne by (simp add: threadlist_insertafternode_def Let_def)
  moreover have "is_list (set_count l (tl_count ?h l + 1) ?h) l (us @ t # vs)"
    by (rule ins(3)) (use ne in \<open>auto\<close>)
  ultimately show ?thesis by blast
qed

lemma insertbeforenode_ok:
  assumes h: "is_list h l (us @ vs)" and t: "t \<notin> set (us @ vs)" and self: "slf h (Tnode t) = Some t"
    and small: "length (us @ vs) + 1 < 2 ^ 32"
    and b: "b = (if vs = [] then Tail l else Tnode (hd vs))"
  shows "\<exists>h'. threadlist_insertbeforenode t b h = Some h' \<and> is_list (set_count l (tl_count h' l + 1) h') l (us @ t # vs)"
proof -
  define a where "a = (if us = [] then Head l else Tnode (last us))"
  note ins = is_list_insert [OF h t self small, folded a_def b]
  have ne: "a \<noteq> Tnode t" "b \<noteq> Tnode t" using t by (auto simp: a_def b)
  let ?h = "set_prev b (Some (Tnode t)) (set_next a (Some (Tnode t)) (set_next (Tnode t) (Some b) (set_prev (Tnode t) (Some a) h)))"
  have "threadlist_insertbeforenode t b h = Some ?h"
    using ins(2) ne by (simp add: threadlist_insertbeforenode_def Let_def)
  moreover have "is_list (set_count l (tl_count ?h l + 1) ?h) l (us @ t # vs)"
    by (rule ins(3)) (use ne in \<open>auto\<close>)
  ultimately show ?thesis by blast
qed

lemma removenode_ok:
  assumes h: "is_list h l (us @ t # vs)"
  shows "\<exists>h'. threadlist_removenode (Tnode t) h = Some h' \<and> is_list (set_count l (tl_count h' l - 1) h') l (us @ vs) \<and>
    nxt h' (Tnode t) = None \<and> prv h' (Tnode t) = None \<and> slf h' (Tnode t) = Some t"
proof -
  define a where "a = (if us = [] then Head l else Tnode (last us))"
  define b where "b = (if vs = [] then Tail l else Tnode (hd vs))"
  note rem = is_list_remove [OF h, folded a_def b_def]
  have t: "t \<notin> set (us @ vs)" and s: "slf h (Tnode t) = Some t" using h by (auto simp: is_list_def)
  have ne: "a \<noteq> Tnode t" "b \<noteq> Tnode t" using t by (auto simp: a_def b_def)
  let ?h = "set_next (Tnode t) None (set_prev (Tnode t) None (set_prev b (Some a) (set_next a (Some b) h)))"
  have "threadlist_removenode (Tnode t) h = Some ?h"
    using rem(3,4) ne by (simp add: threadlist_removenode_def Let_def)
  moreover have "is_list (set_count l (tl_count ?h l - 1) ?h) l (us @ vs)"
    by (rule rem(5)) (use ne in \<open>auto\<close>)
  ultimately show ?thesis using s ne by auto
qed

lemma threadlist_init_ok: "is_list (threadlist_init l h) l []"
  by (simp add: is_list_def threadlist_init_def list_nodes_def set_node_def set_count_def)

lemma addhead_ok:
  "is_list h l ts \<Longrightarrow> t \<notin> set ts \<Longrightarrow> slf h (Tnode t) = Some t \<Longrightarrow> length ts + 1 < 2 ^ 32 \<Longrightarrow>
    \<exists>h'. threadlist_addhead l t h = Some h' \<and> is_list h' l (t # ts)"
  using insertafternode_ok [of h l "[]" ts t "Head l"] by (auto simp: threadlist_addhead_def)

lemma addtail_ok:
  "is_list h l ts \<Longrightarrow> t \<notin> set ts \<Longrightarrow> slf h (Tnode t) = Some t \<Longrightarrow> length ts + 1 < 2 ^ 32 \<Longrightarrow>
    \<exists>h'. threadlist_addtail l t h = Some h' \<and> is_list h' l (ts @ [t])"
  using insertbeforenode_ok [of h l ts "[]" t "Tail l"] by (auto simp: threadlist_addtail_def)

lemma insertafter_ok:
  "is_list h l (us @ o1 # vs) \<Longrightarrow> t \<notin> set (us @ o1 # vs) \<Longrightarrow> slf h (Tnode t) = Some t \<Longrightarrow>
    length (us @ o1 # vs) + 1 < 2 ^ 32 \<Longrightarrow>
    \<exists>h'. threadlist_insertafter l o1 t h = Some h' \<and> is_list h' l (us @ o1 # t # vs)"
  using insertafternode_ok [of h l "us @ [o1]" vs t "Tnode o1"] by (auto simp: threadlist_insertafter_def)

lemma insertbefore_ok:
  "is_list h l (us @ o1 # vs) \<Longrightarrow> t \<notin> set (us @ o1 # vs) \<Longrightarrow> slf h (Tnode t) = Some t \<Longrightarrow>
    length (us @ o1 # vs) + 1 < 2 ^ 32 \<Longrightarrow>
    \<exists>h'. threadlist_insertbefore l t o1 h = Some h' \<and> is_list h' l (us @ t # o1 # vs)"
  using insertbeforenode_ok [of h l us "o1 # vs" t "Tnode o1"] by (auto simp: threadlist_insertbefore_def)

lemma remove_ok:
  "is_list h l (us @ t # vs) \<Longrightarrow> \<exists>h'. threadlist_remove l t h = Some h' \<and> is_list h' l (us @ vs) \<and> slf h' (Tnode t) = Some t"
  using removenode_ok [of h l us t vs] by (auto simp: threadlist_remove_def)

lemma remhead_ok:
  assumes "is_list h l ts"
  shows "\<exists>h'. threadlist_remhead l h = Some (case ts of [] \<Rightarrow> None | t # _ \<Rightarrow> Some t, h') \<and> is_list h' l (tl ts)"
proof (cases ts)
  case Nil
  with assms have "nxt h (Head l) = Some (Tail l)" "nxt h (Tail l) = None"
    by (simp_all add: is_list_def list_nodes_def)
  with Nil assms show ?thesis by (simp add: threadlist_remhead_def)
next
  case (Cons t vs)
  with assms have h: "is_list h l ([] @ t # vs)" by simp
  from removenode_ok [OF h] is_list_remove(1,3) [OF h] Cons show ?thesis
    by (auto simp: threadlist_remhead_def Let_def)
qed

lemma remtail_ok:
  assumes "is_list h l ts"
  shows "\<exists>h'. threadlist_remtail l h = Some (if ts = [] then None else Some (last ts), h') \<and> is_list h' l (butlast ts)"
proof (cases ts rule: rev_cases)
  case Nil
  with assms have "prv h (Tail l) = Some (Head l)" "prv h (Head l) = None"
    by (simp_all add: is_list_def list_nodes_def)
  with Nil assms show ?thesis by (simp add: threadlist_remtail_def)
next
  case (snoc us t)
  with assms have h: "is_list h l (us @ t # [])" by simp
  from removenode_ok [OF h] is_list_remove(2,4) [OF h] snoc show ?thesis
    by (auto simp: threadlist_remtail_def Let_def)
qed

lemma isempty_ok: "is_list h l ts \<Longrightarrow> threadlist_isempty l h \<longleftrightarrow> ts = []"
proof -
  assume "is_list h l ts"
  then have "tl_count h l = of_nat (length ts)" "length ts < 2 ^ 32" by (auto simp: is_list_def)
  then have "unat (tl_count h l) = length ts" by (simp add: unat_word_of_nat_32)
  then have "tl_count h l = 0 \<longleftrightarrow> length ts = 0" by (metis unat_eq_zero)
  then show ?thesis by (simp add: threadlist_isempty_def)
qed

lemma add_self:
  "threadlist_addtail l t h = Some h' \<Longrightarrow> slf h' n = slf h n"
  "threadlist_addhead l t h = Some h' \<Longrightarrow> slf h' n = slf h n"
  by (auto simp: threadlist_addtail_def threadlist_addhead_def threadlist_insertbeforenode_def
      threadlist_insertafternode_def Let_def bind_eq_Some_conv)

lemma remhead_self: "threadlist_remhead l h = Some (r, h') \<Longrightarrow> slf h' n = slf h n"
  by (auto simp: threadlist_remhead_def threadlist_removenode_def Let_def bind_eq_Some_conv split: if_splits)

section \<open>The interface\<close>

fun add_all :: "(nat \<Rightarrow> 'h \<Rightarrow> 'h option) \<Rightarrow> nat list \<Rightarrow> 'h \<Rightarrow> 'h option" where
  "add_all add [] h = Some h"
| "add_all add (t # ts) h = do { h \<leftarrow> add t h; add_all add ts h }"

fun drain :: "('h \<Rightarrow> (nat option \<times> 'h) option) \<Rightarrow> nat \<Rightarrow> 'h \<Rightarrow> (nat option list \<times> 'h) option" where
  "drain rem 0 h = Some ([], h)"
| "drain rem (Suc n) h = do { (t, h) \<leftarrow> rem h; (ts, h) \<leftarrow> drain rem n h; Some (t # ts, h) }"

locale thread_queue =
  fixes rep :: "'h \<Rightarrow> nat list \<Rightarrow> bool"
    and ready :: "'h \<Rightarrow> nat \<Rightarrow> bool"
    and add :: "nat \<Rightarrow> 'h \<Rightarrow> 'h option"
    and rem :: "'h \<Rightarrow> (nat option \<times> 'h) option"
  assumes add_last: "rep h ts \<Longrightarrow> t \<notin> set ts \<Longrightarrow> ready h t \<Longrightarrow> length ts + 1 < 2 ^ 32 \<Longrightarrow>
      \<exists>h'. add t h = Some h' \<and> rep h' (ts @ [t])"
    and add_ready: "add t h = Some h' \<Longrightarrow> ready h' u = ready h u"
    and rem_first: "rep h ts \<Longrightarrow>
      \<exists>h'. rem h = Some (case ts of [] \<Rightarrow> None | t # _ \<Rightarrow> Some t, h') \<and> rep h' (tl ts)"
begin

lemma add_all_ok:
  "rep h us \<Longrightarrow> distinct (us @ ts) \<Longrightarrow> \<forall>t\<in>set ts. ready h t \<Longrightarrow> length us + length ts < 2 ^ 32 \<Longrightarrow>
    \<exists>h'. add_all add ts h = Some h' \<and> rep h' (us @ ts)"
proof (induction ts arbitrary: us h)
  case (Cons t ts)
  from Cons.prems add_last [of h us t] obtain h1 where h1: "add t h = Some h1" "rep h1 (us @ [t])" by auto
  with Cons.prems add_ready [OF h1(1)] Cons.IH [of h1 "us @ [t]"] show ?case by auto
qed simp

lemma drain_ok:
  "rep h ts \<Longrightarrow> \<exists>h'. drain rem (length ts) h = Some (map Some ts, h') \<and> rep h' []"
proof (induction ts arbitrary: h)
  case (Cons t ts)
  from rem_first [OF Cons.prems] obtain h1 where "rem h = Some (Some t, h1)" "rep h1 ts" by auto
  with Cons.IH [of h1] show ?case by auto
qed simp

lemma fifo:
  assumes "rep h []" and "distinct ts" and "\<forall>t\<in>set ts. ready h t" and "length ts < 2 ^ 32"
  shows "\<exists>h1 h2. add_all add ts h = Some h1 \<and> drain rem (length ts) h1 = Some (map Some ts, h2) \<and> rep h2 []"
proof -
  from add_all_ok [OF assms(1)] assms obtain h1 where "add_all add ts h = Some h1" "rep h1 ts" by auto
  with drain_ok show ?thesis by blast
qed

end

interpretation fifo_list: thread_queue "\<lambda>h. is_list h l" "\<lambda>h t. slf h (Tnode t) = Some t"
    "threadlist_addtail l" "threadlist_remhead l" for l
proof unfold_locales
  show "is_list h l ts \<Longrightarrow> t \<notin> set ts \<Longrightarrow> slf h (Tnode t) = Some t \<Longrightarrow> length ts + 1 < 2 ^ 32 \<Longrightarrow>
    \<exists>h'. threadlist_addtail l t h = Some h' \<and> is_list h' l (ts @ [t])" for h ts t by (rule addtail_ok)
  show "threadlist_addtail l t h = Some h' \<Longrightarrow> (slf h' (Tnode u) = Some u) = (slf h (Tnode u) = Some u)" for t h h' u
    by (simp add: add_self(1))
  show "is_list h l ts \<Longrightarrow> \<exists>h'. threadlist_remhead l h = Some (case ts of [] \<Rightarrow> None | t # _ \<Rightarrow> Some t, h') \<and>
    is_list h' l (tl ts)" for h ts by (rule remhead_ok)
qed

section \<open>The list as a queue and as a sequence\<close>



text \<open>Removal and insertion next to a member keep the order of the others: from the middle of a
  list \<open>threadlist_remove\<close> takes exactly the given thread, and \<open>threadlist_insertafter\<close> and
  \<open>threadlist_insertbefore\<close> put a thread that is not in the list exactly beside its neighbour.\<close>

theorem threadlist_middle:
  assumes "is_list h l (us @ o1 # vs)" and "t \<notin> set (us @ o1 # vs)" and "slf h (Tnode t) = Some t"
    and "length (us @ o1 # vs) + 1 < 2 ^ 32"
  shows "(\<exists>h'. threadlist_remove l o1 h = Some h' \<and> is_list h' l (us @ vs)) \<and>
    (\<exists>h'. threadlist_insertafter l o1 t h = Some h' \<and> is_list h' l (us @ o1 # t # vs)) \<and>
    (\<exists>h'. threadlist_insertbefore l t o1 h = Some h' \<and> is_list h' l (us @ t # o1 # vs))"
  using remove_ok [OF assms(1)] insertafter_ok [OF assms] insertbefore_ok [OF assms] by blast

theorem threadlist_middle_witness:
  "\<exists>h h'. is_list h 0 [5] \<and> threadlist_insertbefore 0 3 5 h = Some h' \<and> is_list h' 0 [3, 5]"
proof -
  define h where "h = threadlist_init 0 (threadlistnode_init (Tnode 3) 3
    (threadlistnode_init (Tnode 5) 5 \<lparr>nodes = (\<lambda>_. \<lparr>tln_prev = None, tln_next = None, tln_self = None\<rparr>), tl_count = (\<lambda>_. 0)\<rparr>))"
  have h: "is_list h 0 []" unfolding h_def by (rule threadlist_init_ok)
  have self: "slf h (Tnode 3) = Some 3" "slf h (Tnode 5) = Some 5"
    by (simp_all add: h_def threadlist_init_def threadlistnode_init_def set_node_def set_count_def)
  from addhead_ok [OF h _ self(2)] obtain h1 where h1: "threadlist_addhead 0 5 h = Some h1" "is_list h1 0 [5]" by auto
  with self add_self(2) have "slf h1 (Tnode 3) = Some 3" by metis
  from threadlist_middle [of h1 0 "[]" 5 "[]" 3] this h1(2) show ?thesis by auto
qed

end
