(* ===== verification/Synch.thy ===== *)
theory Synch
  imports ThreadList
begin

text \<open>
  \<open>kern/thread/synch.c\<close> (with \<open>OPT_SYNCH\<close> and \<open>USE_SEMAPHORE_FOR_LOCK\<close> 0) over the wait channels
  of \<open>kern/thread/thread.c\<close>. A wait channel is the sequence of its sleepers, which
  \<open>fifo_list\<close> justifies. A blocking call is cut at its \<open>wchan_sleep\<close>: one definition is what
  a thread does from acquiring the spinlock to releasing it or falling asleep, one atomic step of
  a transition system whose other steps are those of the other threads. The spinlock assertions
  of the wait channels and the interrupt flag are not modelled.
\<close>

section \<open>Wait channels\<close>

type_synonym wchan = "nat list"

definition wchan_create :: "bool \<Rightarrow> wchan option" where
  "wchan_create km = (if km then Some [] else None)"

definition wchan_destroy :: "wchan \<Rightarrow> unit option" where
  "wchan_destroy w = kassert (w = [])"

definition wchan_isempty :: "wchan \<Rightarrow> bool" where
  "wchan_isempty w \<longleftrightarrow> w = []"

text \<open>The part of \<open>wchan_sleep\<close> before the switch.\<close>

definition wchan_sleep :: "nat \<Rightarrow> wchan \<Rightarrow> wchan" where
  "wchan_sleep t w = w @ [t]"

text \<open>The threads made runnable, in order, and the channel after.\<close>

definition wchan_wakeone :: "wchan \<Rightarrow> nat list \<times> wchan" where
  "wchan_wakeone w = (case w of [] \<Rightarrow> ([], []) | t # ts \<Rightarrow> ([t], ts))"

fun wchan_grab_all :: "wchan \<Rightarrow> wchan \<Rightarrow> wchan \<times> wchan" where
  "wchan_grab_all [] list = ([], list)"
| "wchan_grab_all (t # w) list = wchan_grab_all w (list @ [t])"

definition wchan_wakeall :: "wchan \<Rightarrow> nat list \<times> wchan" where
  "wchan_wakeall w = (let (w', list) = wchan_grab_all w [] in (list, w'))"

lemma wchan_grab_all_eq: "wchan_grab_all w list = ([], list @ w)"
  by (induction w arbitrary: list) auto

lemma wchan_wakeall_eq [simp]: "wchan_wakeall w = (w, [])"
  by (simp add: wchan_wakeall_def wchan_grab_all_eq)

section \<open>Semaphores\<close>

record semaphore =
  sem_count :: u32
  sem_wchan :: wchan

text \<open>The three \<open>kmalloc\<close>s: the structure, the name, the wait channel.\<close>

definition sem_create :: "bool \<Rightarrow> bool \<Rightarrow> bool \<Rightarrow> u32 \<Rightarrow> semaphore option" where
  "sem_create km1 km2 km3 initial_count =
     (if \<not> km1 then None
      else if \<not> km2 then None
      else case wchan_create km3 of
             None \<Rightarrow> None
           | Some w \<Rightarrow> Some \<lparr>sem_count = initial_count, sem_wchan = w\<rparr>)"

definition sem_destroy :: "semaphore \<Rightarrow> unit option" where
  "sem_destroy s = wchan_destroy (sem_wchan s)"

text \<open>One pass of \<open>P\<close> through its loop: \<open>True\<close> when it got the semaphore, else asleep.\<close>

definition P_pass :: "nat \<Rightarrow> semaphore \<Rightarrow> (bool \<times> semaphore) option" where
  "P_pass t s =
     (if sem_count s = 0 then Some (False, s\<lparr>sem_wchan := wchan_sleep t (sem_wchan s)\<rparr>)
      else do {
        kassert (sem_count s > 0);
        Some (True, s\<lparr>sem_count := sem_count s - 1\<rparr>) })"

definition V :: "semaphore \<Rightarrow> (nat list \<times> semaphore) option" where
  "V s = do {
     let s = s\<lparr>sem_count := sem_count s + 1\<rparr>;
     kassert (sem_count s > 0);
     let (woken, w) = wchan_wakeone (sem_wchan s);
     Some (woken, s\<lparr>sem_wchan := w\<rparr>) }"

text \<open>The system: the semaphore, the threads woken that have not looked again, and how many calls
  of \<open>P\<close> and \<open>V\<close> have completed.\<close>

record sem_system =
  the_sem :: semaphore
  trying :: "nat list"
  done_P :: nat
  done_V :: nat

inductive sem_step :: "sem_system \<Rightarrow> sem_system \<Rightarrow> bool" where
  P_gets: "t \<notin> set (trying \<sigma>) \<Longrightarrow> t \<notin> set (sem_wchan (the_sem \<sigma>)) \<Longrightarrow> P_pass t (the_sem \<sigma>) = Some (True, s) \<Longrightarrow>
    sem_step \<sigma> (\<sigma>\<lparr>the_sem := s, done_P := done_P \<sigma> + 1\<rparr>)"
| P_sleeps: "t \<notin> set (trying \<sigma>) \<Longrightarrow> t \<notin> set (sem_wchan (the_sem \<sigma>)) \<Longrightarrow> P_pass t (the_sem \<sigma>) = Some (False, s) \<Longrightarrow>
    sem_step \<sigma> (\<sigma>\<lparr>the_sem := s\<rparr>)"
| P_retry_gets: "t \<in> set (trying \<sigma>) \<Longrightarrow> P_pass t (the_sem \<sigma>) = Some (True, s) \<Longrightarrow>
    sem_step \<sigma> (\<sigma>\<lparr>the_sem := s, trying := remove1 t (trying \<sigma>), done_P := done_P \<sigma> + 1\<rparr>)"
| P_retry_sleeps: "t \<in> set (trying \<sigma>) \<Longrightarrow> P_pass t (the_sem \<sigma>) = Some (False, s) \<Longrightarrow>
    sem_step \<sigma> (\<sigma>\<lparr>the_sem := s, trying := remove1 t (trying \<sigma>)\<rparr>)"
| V_step: "V (the_sem \<sigma>) = Some (woken, s) \<Longrightarrow>
    sem_step \<sigma> (\<sigma>\<lparr>the_sem := s, trying := trying \<sigma> @ woken, done_V := done_V \<sigma> + 1\<rparr>)"

inductive_cases sem_stepE: "sem_step \<sigma> \<sigma>'"

definition sem_initial :: "u32 \<Rightarrow> sem_system" where
  "sem_initial n = \<lparr>the_sem = \<lparr>sem_count = n, sem_wchan = []\<rparr>, trying = [], done_P = 0, done_V = 0\<rparr>"

text \<open>Units are conserved; nobody sleeps while there is a unit nobody has been woken for.\<close>

definition sem_inv :: "u32 \<Rightarrow> sem_system \<Rightarrow> bool" where
  "sem_inv n \<sigma> \<longleftrightarrow>
     unat (sem_count (the_sem \<sigma>)) + done_P \<sigma> = unat n + done_V \<sigma> \<and>
     distinct (trying \<sigma> @ sem_wchan (the_sem \<sigma>)) \<and>
     (sem_wchan (the_sem \<sigma>) \<noteq> [] \<longrightarrow> unat (sem_count (the_sem \<sigma>)) \<le> length (trying \<sigma>))"

lemma P_pass_cases:
  assumes "P_pass t s = Some (b, s')"
  obtains (asleep) "\<not> b" "sem_count s = 0" "s' = s\<lparr>sem_wchan := sem_wchan s @ [t]\<rparr>"
  | (got) "b" "unat (sem_count s) = Suc (unat (sem_count s'))" "sem_wchan s' = sem_wchan s"
proof (cases "sem_count s = 0")
  case True
  with assms show thesis by (intro asleep) (auto simp: P_pass_def wchan_sleep_def)
next
  case False
  then have "0 < unat (sem_count s)" by (metis unat_eq_zero neq0_conv)
  then have "unat (sem_count s - 1) = unat (sem_count s) - 1" by (simp add: unat_sub_if')
  with False assms \<open>0 < unat (sem_count s)\<close> show thesis by (intro got) (auto simp: P_pass_def)
qed

lemma V_cases:
  assumes "V s = Some (woken, s')"
  shows "unat (sem_count s') = Suc (unat (sem_count s))" and "sem_wchan s = woken @ sem_wchan s'"
    and "length woken = (if sem_wchan s = [] then 0 else 1)"
proof -
  from assms have "sem_count s + 1 \<noteq> 0" "sem_count s' = sem_count s + 1"
    by (auto simp: V_def Let_def wchan_wakeone_def split: list.splits)
  moreover have sum: "unat (sem_count s + 1) = (unat (sem_count s) + 1) mod 4294967296"
    by (simp add: unat_word_ariths)
  ultimately have "unat (sem_count s) + 1 \<noteq> 4294967296" by (metis mod_self unat_eq_zero)
  then have "unat (sem_count s) + 1 < 4294967296" using unat_lt_32 [of "sem_count s"] by linarith
  with sum \<open>sem_count s' = _\<close> show "unat (sem_count s') = Suc (unat (sem_count s))" by simp
  show "sem_wchan s = woken @ sem_wchan s'" "length woken = (if sem_wchan s = [] then 0 else 1)"
    using assms by (auto simp: V_def Let_def wchan_wakeone_def split: list.splits)
qed

lemma sem_inv_initial: "sem_inv n (sem_initial n)"
  by (simp add: sem_inv_def sem_initial_def)

lemma sem_inv_step:
  assumes "sem_step \<sigma> \<sigma>'" and "sem_inv n \<sigma>"
  shows "sem_inv n \<sigma>'"
  using assms(1)
proof cases
  case (P_gets t s)
  from P_gets(4) assms(2) show ?thesis
    by (cases rule: P_pass_cases) (auto simp: sem_inv_def P_gets(1))
next
  case (P_sleeps t s)
  from P_sleeps(4) assms(2) P_sleeps(2,3) show ?thesis
    by (cases rule: P_pass_cases) (auto simp: sem_inv_def P_sleeps(1))
next
  case (P_retry_gets t s)
  from P_retry_gets(3) assms(2) P_retry_gets(2) show ?thesis
    by (cases rule: P_pass_cases)
      (auto simp: sem_inv_def P_retry_gets(1) length_remove1 dest: notin_set_remove1)
next
  case (P_retry_sleeps t s)
  from P_retry_sleeps(3) assms(2) P_retry_sleeps(2) show ?thesis
    by (cases rule: P_pass_cases)
      (auto simp: sem_inv_def P_retry_sleeps(1) length_remove1 dest: notin_set_remove1)
next
  case (V_step woken s)
  from V_cases [OF V_step(2)] assms(2) show ?thesis
    by (auto simp: sem_inv_def V_step(1) split: if_splits)
qed

lemma sem_inv_reachable: "sem_step\<^sup>*\<^sup>* (sem_initial n) \<sigma> \<Longrightarrow> sem_inv n \<sigma>"
  by (induction rule: rtranclp_induct) (auto intro: sem_inv_initial sem_inv_step)

section \<open>Locks and condition variables\<close>

record lock =
  lk_owner :: "nat option"
  lk_wchan :: wchan

record cv =
  cv_wchan :: wchan

definition lock_create :: "bool \<Rightarrow> bool \<Rightarrow> bool \<Rightarrow> lock option" where
  "lock_create km1 km2 km3 =
     (if \<not> km1 then None
      else if \<not> km2 then None
      else case wchan_create km3 of
             None \<Rightarrow> None
           | Some w \<Rightarrow> Some \<lparr>lk_owner = None, lk_wchan = w\<rparr>)"

definition lock_destroy :: "lock \<Rightarrow> unit option" where
  "lock_destroy l = wchan_destroy (lk_wchan l)"

definition lock_do_i_hold :: "nat \<Rightarrow> lock \<Rightarrow> bool" where
  "lock_do_i_hold t l \<longleftrightarrow> lk_owner l = Some t"

text \<open>\<open>lock_acquire\<close>: the assertion on entry, and one pass through the loop.\<close>

definition lock_acquire_pass :: "nat \<Rightarrow> lock \<Rightarrow> (bool \<times> lock) option" where
  "lock_acquire_pass t l =
     (if lk_owner l \<noteq> None then Some (False, l\<lparr>lk_wchan := wchan_sleep t (lk_wchan l)\<rparr>)
      else do {
        kassert (lk_owner l = None);
        Some (True, l\<lparr>lk_owner := Some t\<rparr>) })"

definition lock_acquire_enter :: "nat \<Rightarrow> lock \<Rightarrow> (bool \<times> lock) option" where
  "lock_acquire_enter t l = do {
     kassert (\<not> lock_do_i_hold t l);
     lock_acquire_pass t l }"

definition lock_release :: "nat \<Rightarrow> lock \<Rightarrow> (nat list \<times> lock) option" where
  "lock_release t l = do {
     kassert (lock_do_i_hold t l);
     let (woken, w) = wchan_wakeone (lk_wchan l);
     Some (woken, l\<lparr>lk_owner := None, lk_wchan := w\<rparr>) }"

definition cv_create :: "bool \<Rightarrow> bool \<Rightarrow> bool \<Rightarrow> cv option" where
  "cv_create km1 km2 km3 =
     (if \<not> km1 then None
      else if \<not> km2 then None
      else case wchan_create km3 of None \<Rightarrow> None | Some w \<Rightarrow> Some \<lparr>cv_wchan = w\<rparr>)"

definition cv_destroy :: "cv \<Rightarrow> unit option" where
  "cv_destroy c = wchan_destroy (cv_wchan c)"

text \<open>\<open>cv_wait\<close> up to its sleep: release of the lock and sleep on the channel are one step for
  whoever takes the condition variable's spinlock.\<close>

definition cv_wait_enter :: "nat \<Rightarrow> cv \<Rightarrow> lock \<Rightarrow> (nat list \<times> cv \<times> lock) option" where
  "cv_wait_enter t c l = do {
     kassert (lock_do_i_hold t l);
     (woken, l) \<leftarrow> lock_release t l;
     Some (woken, c\<lparr>cv_wchan := wchan_sleep t (cv_wchan c)\<rparr>, l) }"

definition cv_signal :: "nat \<Rightarrow> cv \<Rightarrow> lock \<Rightarrow> (nat list \<times> cv) option" where
  "cv_signal t c l = do {
     kassert (lock_do_i_hold t l);
     let (woken, w) = wchan_wakeone (cv_wchan c);
     Some (woken, c\<lparr>cv_wchan := w\<rparr>) }"

definition cv_broadcast :: "nat \<Rightarrow> cv \<Rightarrow> lock \<Rightarrow> (nat list \<times> cv) option" where
  "cv_broadcast t c l = do {
     kassert (lock_do_i_hold t l);
     let (woken, w) = wchan_wakeall (cv_wchan c);
     Some (woken, c\<lparr>cv_wchan := w\<rparr>) }"

section \<open>A monitor\<close>

text \<open>
  One lock, one condition variable, and where each thread is: outside, inside with the lock, or
  on its way to the lock (asleep on it, or woken and about to look again), the latter also from
  within \<open>cv_wait\<close>, or asleep on the condition variable.
\<close>

datatype place = Outside | Inside | Wants | Asleep | Waits

record monitor =
  m_lock :: lock
  m_cv :: cv
  place_of :: "nat \<Rightarrow> place"

definition place_all :: "nat list \<Rightarrow> place \<Rightarrow> (nat \<Rightarrow> place) \<Rightarrow> nat \<Rightarrow> place" where
  "place_all ts p f = (\<lambda>t. if t \<in> set ts then p else f t)"

inductive mon_step :: "monitor \<Rightarrow> monitor \<Rightarrow> bool" where
  acquire: "place_of m t = Outside \<Longrightarrow> lock_acquire_enter t (m_lock m) = Some (got, l) \<Longrightarrow>
    mon_step m (m\<lparr>m_lock := l, place_of := (place_of m)(t := if got then Inside else Asleep)\<rparr>)"
| retry: "place_of m t = Wants \<Longrightarrow> lock_acquire_pass t (m_lock m) = Some (got, l) \<Longrightarrow>
    mon_step m (m\<lparr>m_lock := l, place_of := (place_of m)(t := if got then Inside else Asleep)\<rparr>)"
| release: "place_of m t = Inside \<Longrightarrow> lock_release t (m_lock m) = Some (woken, l) \<Longrightarrow>
    mon_step m (m\<lparr>m_lock := l, place_of := (place_all woken Wants (place_of m))(t := Outside)\<rparr>)"
| wait: "place_of m t = Inside \<Longrightarrow> cv_wait_enter t (m_cv m) (m_lock m) = Some (woken, c, l) \<Longrightarrow>
    mon_step m (m\<lparr>m_lock := l, m_cv := c, place_of := (place_all woken Wants (place_of m))(t := Waits)\<rparr>)"
| signal: "place_of m t = Inside \<Longrightarrow> cv_signal t (m_cv m) (m_lock m) = Some (woken, c) \<Longrightarrow>
    mon_step m (m\<lparr>m_cv := c, place_of := place_all woken Wants (place_of m)\<rparr>)"
| broadcast: "place_of m t = Inside \<Longrightarrow> cv_broadcast t (m_cv m) (m_lock m) = Some (woken, c) \<Longrightarrow>
    mon_step m (m\<lparr>m_cv := c, place_of := place_all woken Wants (place_of m)\<rparr>)"

inductive_cases mon_stepE: "mon_step m m'"

definition mon_initial :: monitor where
  "mon_initial = \<lparr>m_lock = \<lparr>lk_owner = None, lk_wchan = []\<rparr>, m_cv = \<lparr>cv_wchan = []\<rparr>, place_of = (\<lambda>_. Outside)\<rparr>"

text \<open>The lock's owner is the thread inside; the channels hold the threads that sleep on them; when
  the lock is free, no thread sleeps on it unless another has been woken to take it.\<close>

definition mon_inv :: "monitor \<Rightarrow> bool" where
  "mon_inv m \<longleftrightarrow>
     (\<forall>t. place_of m t = Inside \<longleftrightarrow> lk_owner (m_lock m) = Some t) \<and>
     (\<forall>t. t \<in> set (lk_wchan (m_lock m)) \<longleftrightarrow> place_of m t = Asleep) \<and>
     (\<forall>t. t \<in> set (cv_wchan (m_cv m)) \<longleftrightarrow> place_of m t = Waits) \<and>
     distinct (lk_wchan (m_lock m)) \<and> distinct (cv_wchan (m_cv m)) \<and>
     (lk_owner (m_lock m) = None \<longrightarrow> lk_wchan (m_lock m) \<noteq> [] \<longrightarrow> (\<exists>t. place_of m t = Wants))"

lemma wakeone_cases:
  assumes "wchan_wakeone w = (woken, w')"
  shows "w = woken @ w'" and "w \<noteq> [] \<Longrightarrow> \<exists>t. woken = [t]"
  using assms by (auto simp: wchan_wakeone_def split: list.splits)

lemma mon_inv_initial: "mon_inv mon_initial"
  by (simp add: mon_inv_def mon_initial_def)

lemma mon_inv_acquire_pass:
  assumes inv: "mon_inv m" and t: "place_of m t = Outside \<or> place_of m t = Wants"
    and run: "lock_acquire_pass t (m_lock m) = Some (got, l)"
  shows "mon_inv (m\<lparr>m_lock := l, place_of := (place_of m)(t := if got then Inside else Asleep)\<rparr>)"
proof (cases "lk_owner (m_lock m)")
  case None
  with run have "got" "l = (m_lock m)\<lparr>lk_owner := Some t\<rparr>" by (auto simp: lock_acquire_pass_def)
  with inv t None show ?thesis by (auto simp: mon_inv_def)
next
  case (Some u)
  with run have "\<not> got" "l = (m_lock m)\<lparr>lk_wchan := lk_wchan (m_lock m) @ [t]\<rparr>"
    by (auto simp: lock_acquire_pass_def wchan_sleep_def)
  moreover have "u \<noteq> t" using inv t Some unfolding mon_inv_def by (metis place.distinct)
  ultimately show ?thesis using inv t Some by (auto simp: mon_inv_def)
qed

lemma mon_inv_release:
  assumes inv: "mon_inv m" and run: "lock_release t (m_lock m) = Some (woken, l)"
  shows "lk_owner l = None" and "lk_wchan (m_lock m) = woken @ lk_wchan l" and "place_of m t = Inside"
    and "t \<notin> set woken" and "lk_wchan l \<noteq> [] \<Longrightarrow> woken \<noteq> []"
proof -
  from run obtain w where w: "wchan_wakeone (lk_wchan (m_lock m)) = (woken, w)"
    and l: "l = (m_lock m)\<lparr>lk_owner := None, lk_wchan := w\<rparr>" "lk_owner (m_lock m) = Some t"
    by (auto simp: lock_release_def lock_do_i_hold_def split: prod.splits)
  from wakeone_cases [OF w] show "lk_wchan (m_lock m) = woken @ lk_wchan l" "lk_wchan l \<noteq> [] \<Longrightarrow> woken \<noteq> []"
    by (auto simp: l)
  show "lk_owner l = None" by (simp add: l)
  show "place_of m t = Inside" using inv l by (simp add: mon_inv_def)
  with inv \<open>lk_wchan (m_lock m) = woken @ lk_wchan l\<close> show "t \<notin> set woken"
    by (auto simp: mon_inv_def) (metis Un_iff place.distinct(11))
qed

lemma mon_inv_wake_cv:
  assumes inv: "mon_inv m" and w: "cv_wchan (m_cv m) = woken @ w"
  shows "mon_inv (m\<lparr>m_cv := (m_cv m)\<lparr>cv_wchan := w\<rparr>, place_of := place_all woken Wants (place_of m)\<rparr>)"
  using assms unfolding mon_inv_def place_all_def by (auto) (metis place.distinct)+

lemma mon_inv_step:
  assumes step: "mon_step m m'" and inv: "mon_inv m"
  shows "mon_inv m'"
  using step
proof cases
  case (acquire t got l)
  from acquire(3) have "lock_acquire_pass t (m_lock m) = Some (got, l)"
    by (simp add: lock_acquire_enter_def)
  with mon_inv_acquire_pass [OF inv] acquire show ?thesis by simp
next
  case (retry t got l)
  with mon_inv_acquire_pass [OF inv] show ?thesis by simp
next
  case (release t woken l)
  from mon_inv_release [OF inv release(3)] have l: "lk_owner l = None" "lk_wchan (m_lock m) = woken @ lk_wchan l"
    "t \<notin> set woken" "lk_wchan l \<noteq> [] \<longrightarrow> woken \<noteq> []" by auto
  have "lk_wchan l \<noteq> [] \<longrightarrow> (\<exists>u. u \<in> set woken)" using l(4) by (cases woken) auto
  with inv l release(2) show ?thesis
    unfolding release(1) mon_inv_def place_all_def by (auto simp del: not_None_eq) (metis place.distinct Un_iff set_append)+
next
  case (wait t woken c l)
  then have c: "c = (m_cv m)\<lparr>cv_wchan := cv_wchan (m_cv m) @ [t]\<rparr>" and rel: "lock_release t (m_lock m) = Some (woken, l)"
    by (auto simp: cv_wait_enter_def wchan_sleep_def bind_eq_Some_conv)
  from mon_inv_release [OF inv rel] have l: "lk_owner l = None" "lk_wchan (m_lock m) = woken @ lk_wchan l"
    "t \<notin> set woken" "lk_wchan l \<noteq> [] \<longrightarrow> woken \<noteq> []" by auto
  have "lk_wchan l \<noteq> [] \<longrightarrow> (\<exists>u. u \<in> set woken)" using l(4) by (cases woken) auto
  with inv l wait(2) show ?thesis
    unfolding wait(1) c mon_inv_def place_all_def by (auto simp del: not_None_eq) (metis place.distinct Un_iff set_append)+
next
  case (signal t woken c)
  then obtain w where c: "c = (m_cv m)\<lparr>cv_wchan := w\<rparr>" and "wchan_wakeone (cv_wchan (m_cv m)) = (woken, w)"
    by (auto simp: cv_signal_def split: prod.splits)
  with mon_inv_wake_cv [OF inv] wakeone_cases(1) signal(1) show ?thesis by simp
next
  case (broadcast t woken c)
  then have "c = (m_cv m)\<lparr>cv_wchan := []\<rparr>" "woken = cv_wchan (m_cv m)"
    by (auto simp: cv_broadcast_def)
  with mon_inv_wake_cv [OF inv, of woken "[]"] broadcast(1) show ?thesis by simp
qed

lemma mon_inv_reachable: "mon_step\<^sup>*\<^sup>* mon_initial m \<Longrightarrow> mon_inv m"
  by (induction rule: rtranclp_induct) (auto intro: mon_inv_initial mon_inv_step)

text \<open>What the calls of a thread that holds the lock return: they never fail an assertion.\<close>

lemma inside_calls:
  assumes inv: "mon_inv m" and t: "place_of m t = Inside"
  shows "\<exists>r. lock_release t (m_lock m) = Some r" and "\<exists>r. cv_wait_enter t (m_cv m) (m_lock m) = Some r"
    and "\<exists>r. cv_signal t (m_cv m) (m_lock m) = Some r" and "\<exists>r. cv_broadcast t (m_cv m) (m_lock m) = Some r"
proof -
  from assms have "lk_owner (m_lock m) = Some t" by (simp add: mon_inv_def)
  then show "\<exists>r. lock_release t (m_lock m) = Some r" "\<exists>r. cv_wait_enter t (m_cv m) (m_lock m) = Some r"
    "\<exists>r. cv_signal t (m_cv m) (m_lock m) = Some r" "\<exists>r. cv_broadcast t (m_cv m) (m_lock m) = Some r"
    by (auto simp: lock_release_def cv_wait_enter_def cv_signal_def cv_broadcast_def lock_do_i_hold_def
        split: prod.splits)
qed

text \<open>One pass gets the lock exactly when it is free.\<close>

lemma acquire_pass_result: "\<exists>l'. lock_acquire_pass t l = Some (lk_owner l = None, l')"
  by (simp add: lock_acquire_pass_def)

section \<open>What the callers rely on\<close>

text \<open>C6: A semaphore conserves its units under any interleaving of \<open>P\<close> and \<open>V\<close> by any threads:
  the count plus the completed \<open>P\<close>s is the initial count plus the completed \<open>V\<close>s, so no more \<open>P\<close>s
  complete than units were made available; and while a thread sleeps, the units left are at most
  the threads already woken for them, so no wakeup is lost.\<close>

theorem semaphore_conserves_units:
  assumes "sem_step\<^sup>*\<^sup>* (sem_initial n) \<sigma>"
  shows "unat (sem_count (the_sem \<sigma>)) + done_P \<sigma> = unat n + done_V \<sigma> \<and> done_P \<sigma> \<le> unat n + done_V \<sigma> \<and>
    (sem_wchan (the_sem \<sigma>) \<noteq> [] \<longrightarrow> unat (sem_count (the_sem \<sigma>)) \<le> length (trying \<sigma>))"
  using sem_inv_reachable [OF assms] by (auto simp: sem_inv_def)

theorem semaphore_conserves_units_witness:
  "\<exists>\<sigma>. sem_step\<^sup>*\<^sup>* (sem_initial 0) \<sigma> \<and> sem_wchan (the_sem \<sigma>) = [4] \<and> done_P \<sigma> \<le> done_V \<sigma>"
proof -
  define \<sigma> where "\<sigma> = (sem_initial 0)\<lparr>the_sem := \<lparr>sem_count = 0, sem_wchan = [4]\<rparr>\<rparr>"
  have "sem_step (sem_initial 0) \<sigma>"
    unfolding \<sigma>_def by (rule P_sleeps [where t = 4]) (simp_all add: sem_initial_def P_pass_def wchan_sleep_def)
  then have run: "sem_step\<^sup>*\<^sup>* (sem_initial 0) \<sigma>" by blast
  from semaphore_conserves_units [OF this] run show ?thesis by (auto simp: \<sigma>_def)
qed

text \<open>C7: Locks exclude and monitors work: in any interleaving of \<open>lock_acquire\<close>, \<open>lock_release\<close>,
  \<open>cv_wait\<close>, \<open>cv_signal\<close> and \<open>cv_broadcast\<close> by any threads, at most one thread is inside, it is the
  recorded owner, and every call it may make from there passes its assertions; a thread that asks
  for the lock, or was woken to take it, gets it exactly when nobody is inside and sleeps
  otherwise; and while threads sleep on a free lock, one has been woken to take it.\<close>

theorem monitor_excludes:
  assumes "mon_step\<^sup>*\<^sup>* mon_initial m"
  shows "(\<forall>t. place_of m t = Inside \<longrightarrow> lk_owner (m_lock m) = Some t \<and> (\<forall>u. place_of m u = Inside \<longrightarrow> u = t) \<and>
      (\<exists>r. lock_release t (m_lock m) = Some r) \<and> (\<exists>r. cv_wait_enter t (m_cv m) (m_lock m) = Some r) \<and>
      (\<exists>r. cv_signal t (m_cv m) (m_lock m) = Some r) \<and> (\<exists>r. cv_broadcast t (m_cv m) (m_lock m) = Some r)) \<and>
    (\<forall>t. place_of m t = Outside \<longrightarrow> (\<exists>l. lock_acquire_enter t (m_lock m) = Some (\<forall>u. place_of m u \<noteq> Inside, l))) \<and>
    (\<forall>t. place_of m t = Wants \<longrightarrow> (\<exists>l. lock_acquire_pass t (m_lock m) = Some (\<forall>u. place_of m u \<noteq> Inside, l))) \<and>
    ((\<forall>u. place_of m u \<noteq> Inside) \<longrightarrow> lk_wchan (m_lock m) \<noteq> [] \<longrightarrow> (\<exists>t. place_of m t = Wants))"
proof (intro conjI allI impI)
  note inv = mon_inv_reachable [OF assms]
  have inside: "place_of m u = Inside \<longleftrightarrow> lk_owner (m_lock m) = Some u" for u
    using inv [unfolded mon_inv_def, THEN conjunct1] by blast
  have nobody: "(\<forall>u. place_of m u \<noteq> Inside) \<longleftrightarrow> lk_owner (m_lock m) = None"
    unfolding inside by (cases "lk_owner (m_lock m)") auto
  show "lk_owner (m_lock m) = Some t" if "place_of m t = Inside" for t using that inside by blast
  show "u = t" if "place_of m t = Inside" "place_of m u = Inside" for t u using that inside by simp
  fix t
  show "\<exists>l. lock_acquire_pass t (m_lock m) = Some (\<forall>u. place_of m u \<noteq> Inside, l)"
    unfolding nobody by (rule acquire_pass_result)
  show "\<exists>l. lock_acquire_enter t (m_lock m) = Some (\<forall>u. place_of m u \<noteq> Inside, l)" if "place_of m t = Outside"
    using that inside [of t] acquire_pass_result [of t "m_lock m"] unfolding nobody
    by (simp add: lock_acquire_enter_def lock_do_i_hold_def)
  show "\<exists>t. place_of m t = Wants" if "\<forall>u. place_of m u \<noteq> Inside" "lk_wchan (m_lock m) \<noteq> []"
    using that inv nobody unfolding mon_inv_def by blast
qed (use inside_calls [OF mon_inv_reachable [OF assms]] in blast)+

theorem monitor_excludes_witness:
  "\<exists>m. mon_step\<^sup>*\<^sup>* mon_initial m \<and> place_of m 6 = Inside \<and> (\<forall>u. place_of m u = Inside \<longrightarrow> u = 6)"
proof -
  define m where "m = mon_initial\<lparr>m_lock := \<lparr>lk_owner = Some 6, lk_wchan = []\<rparr>,
    place_of := (place_of mon_initial)(6 := if True then Inside else Asleep)\<rparr>"
  have "mon_step mon_initial m"
    unfolding m_def by (rule acquire [where t = 6])
      (simp_all add: mon_initial_def lock_acquire_enter_def lock_acquire_pass_def lock_do_i_hold_def)
  then have run: "mon_step\<^sup>*\<^sup>* mon_initial m" by blast
  have "place_of m 6 = Inside" by (simp add: m_def)
  with monitor_excludes [OF run] run show ?thesis by blast
qed

end
