(* ===== verification/Vnode.thy ===== *)
theory Vnode
  imports Prelude "HOL-Library.Multiset"
begin

text \<open>
  The reference counts of \<open>kern/vfs/vnode.c\<close>: an abstract vnode is its count, its file system (none
  for a device) and whether its operations table is set. A vnode lives in a map from pointers. \<open>VOP_RECLAIM\<close> belongs to the
  file system the vnode is on: it is a parameter, from the vnode pointer and the map to the map
  after the call, used when the last reference goes.
\<close>

section \<open>Operations\<close>

record vnode =
  vn_refcount :: int
  vn_fs :: "nat option"
  vn_ops :: bool

type_synonym vnodes = "nat \<rightharpoonup> vnode"

definition vnode_init :: "nat \<Rightarrow> bool \<Rightarrow> nat option \<Rightarrow> vnodes \<Rightarrow> vnodes option" where
  "vnode_init vn ops fs vs = do {
     kassert ops;
     Some (vs(vn \<mapsto> \<lparr>vn_refcount = 1, vn_fs = fs, vn_ops = ops\<rparr>)) }"

definition vnode_cleanup :: "nat \<Rightarrow> vnodes \<Rightarrow> vnodes option" where
  "vnode_cleanup vn vs = do {
     v \<leftarrow> vs vn;
     kassert (vn_refcount v = 1);
     Some (vs(vn \<mapsto> v\<lparr>vn_refcount := 0, vn_fs := None, vn_ops := False\<rparr>)) }"

definition vnode_incref :: "nat \<Rightarrow> vnodes \<Rightarrow> vnodes option" where
  "vnode_incref vn vs = do {
     v \<leftarrow> vs vn;
     Some (vs(vn \<mapsto> v\<lparr>vn_refcount := vn_refcount v + 1\<rparr>)) }"

text \<open>The counting of \<open>vnode_decref\<close>: the last reference is not dropped, it is passed to \<open>VOP_RECLAIM\<close>.\<close>

definition vnode_decref_count :: "nat \<Rightarrow> vnodes \<Rightarrow> (bool \<times> vnodes) option" where
  "vnode_decref_count vn vs = do {
     v \<leftarrow> vs vn;
     kassert (vn_refcount v > 0);
     Some (if vn_refcount v > 1 then (False, vs(vn \<mapsto> v\<lparr>vn_refcount := vn_refcount v - 1\<rparr>))
           else (True, vs)) }"

definition vnode_decref :: "(nat \<Rightarrow> vnodes \<Rightarrow> vnodes) \<Rightarrow> nat \<Rightarrow> vnodes \<Rightarrow> vnodes option" where
  "vnode_decref vop_reclaim vn vs = do {
     (destroy, vs) \<leftarrow> vnode_decref_count vn vs;
     Some (if destroy then vop_reclaim vn vs else vs) }"

text \<open>The panics of \<open>vnode_check\<close>, made before every \<open>VOP\<close> call.\<close>

definition vnode_check :: "nat \<Rightarrow> vnodes \<Rightarrow> unit option" where
  "vnode_check vn vs = do {
     v \<leftarrow> vs vn;
     kassert (vn_ops v);
     kassert (\<not> vn_refcount v < 0);
     kassert (vn_refcount v \<noteq> 0) }"

definition vfs_close :: "(nat \<Rightarrow> vnodes \<Rightarrow> vnodes) \<Rightarrow> nat option \<Rightarrow> vnodes \<Rightarrow> vnodes option" where
  "vfs_close vop_reclaim vn vs = do { vn \<leftarrow> vn; vnode_decref vop_reclaim vn vs }"

section \<open>References\<close>

text \<open>The references held on a vnode, 0 for a pointer that is no vnode.\<close>

definition vn_refs :: "vnodes \<Rightarrow> nat \<Rightarrow> int" where
  "vn_refs vs vn = (case vs vn of None \<Rightarrow> 0 | Some v \<Rightarrow> vn_refcount v)"

definition vnodes_ok :: "vnodes \<Rightarrow> bool" where
  "vnodes_ok vs \<longleftrightarrow> (\<forall>vn v. vs vn = Some v \<longrightarrow> 0 < vn_refcount v \<and> vn_ops v)"

text \<open>A file system that reclaims the vnode it is asked to and no other.\<close>

definition reclaims :: "(nat \<Rightarrow> vnodes \<Rightarrow> vnodes) \<Rightarrow> bool" where
  "reclaims rc \<longleftrightarrow> (\<forall>vn vs. rc vn vs = vs(vn := None))"

lemma vnodes_ok_check: "vnodes_ok vs \<Longrightarrow> vs vn \<noteq> None \<Longrightarrow> vnode_check vn vs = Some ()"
  by (fastforce simp: vnode_check_def vnodes_ok_def)

lemma vnode_incref_eq:
  assumes "vnodes_ok vs" and "vs vn \<noteq> None"
  shows "\<exists>vs'. vnode_incref vn vs = Some vs' \<and> vnodes_ok vs' \<and> vn_refs vs' = (vn_refs vs)(vn := vn_refs vs vn + 1)"
  using assms by (fastforce simp: vnode_incref_def vnodes_ok_def vn_refs_def)

lemma vnode_decref_eq:
  assumes "vnodes_ok vs" and "vs vn \<noteq> None" and "reclaims rc"
  shows "\<exists>vs'. vnode_decref rc vn vs = Some vs' \<and> vnodes_ok vs' \<and> vn_refs vs' = (vn_refs vs)(vn := vn_refs vs vn - 1)"
proof -
  from assms obtain v where v: "vs vn = Some v" "0 < vn_refcount v" "vn_ops v" by (auto simp: vnodes_ok_def)
  show ?thesis
  proof (cases "vn_refcount v > 1")
    case True
    with v assms(1) show ?thesis
      by (fastforce simp: vnode_decref_def vnode_decref_count_def vnodes_ok_def vn_refs_def)
  next
    case False
    with v have "vn_refcount v = 1" by simp
    with v assms(1,3) show ?thesis
      by (intro exI [of _ "vs(vn := None)"])
        (auto simp: vnode_decref_def vnode_decref_count_def vnodes_ok_def vn_refs_def reclaims_def fun_eq_iff)
  qed
qed

lemma vnode_init_ok:
  assumes "vnodes_ok vs" and "vs vn = None"
  shows "\<exists>vs'. vnode_init vn True fs vs = Some vs' \<and> vnodes_ok vs' \<and> vn_refs vs' = (vn_refs vs)(vn := 1)"
  using assms by (intro exI [of _ "vs(vn \<mapsto> \<lparr>vn_refcount = 1, vn_fs = fs, vn_ops = True\<rparr>)"])
    (auto simp: vnode_init_def vnodes_ok_def vn_refs_def fun_eq_iff)

text \<open>\<open>counted R vs\<close>: \<open>R\<close> is the multiset of all references held, and every count says how often its
  vnode occurs in it.\<close>

definition counted :: "nat multiset \<Rightarrow> vnodes \<Rightarrow> bool" where
  "counted R vs \<longleftrightarrow> vnodes_ok vs \<and> (\<forall>v. vn_refs vs v = int (count R v))"

lemma counted_ok: "counted R vs \<Longrightarrow> vnodes_ok vs"
  by (simp add: counted_def)

lemma vn_refs_upd [simp]:
  "vn_refs (vs(a \<mapsto> x)) v = (if v = a then vn_refcount x else vn_refs vs v)"
  "vn_refs (vs(a := None)) v = (if v = a then 0 else vn_refs vs v)"
  by (simp_all add: vn_refs_def)

lemma counted_refcount: "counted R vs \<Longrightarrow> vs v = Some x \<Longrightarrow> vn_refcount x = int (count R v)"
  unfolding counted_def by (auto simp: vn_refs_def [of vs] elim!: allE [of _ v])

lemma counted_live: "counted R vs \<Longrightarrow> vs v \<noteq> None \<longleftrightarrow> v \<in># R"
  by (force simp: counted_def vn_refs_def vnodes_ok_def count_greater_zero_iff [symmetric] simp del: count_greater_zero_iff
      split: option.splits)

lemma counted_liveE: "counted R vs \<Longrightarrow> v \<in># R \<Longrightarrow> (\<And>x. vs v = Some x \<Longrightarrow> P) \<Longrightarrow> P"
  using counted_live by blast

lemma counted_check: "counted R vs \<Longrightarrow> v \<in># R \<Longrightarrow> vnode_check v vs = Some ()"
  using vnodes_ok_check counted_ok counted_live by blast

lemma counted_incref:
  assumes cnt: "counted R vs" and a: "a \<in># R" "vs a = Some x"
  shows "vnode_incref a vs = Some (vs(a \<mapsto> x\<lparr>vn_refcount := vn_refcount x + 1\<rparr>))"
    and "counted (add_mset a R) (vs(a \<mapsto> x\<lparr>vn_refcount := vn_refcount x + 1\<rparr>))"
  using cnt a counted_refcount [OF cnt a(2)] by (auto simp: vnode_incref_def counted_def vnodes_ok_def)

text \<open>Giving a reference back: the count goes down, or, for the last one, the vnode is reclaimed.\<close>

lemma counted_decref:
  assumes cnt: "counted (add_mset a R) vs"
  obtains (down) x where "vs a = Some x" "a \<in># R" "vnode_decref_count a vs = Some (False, vs(a \<mapsto> x\<lparr>vn_refcount := vn_refcount x - 1\<rparr>))"
      "counted R (vs(a \<mapsto> x\<lparr>vn_refcount := vn_refcount x - 1\<rparr>))"
  | (reclaim) x where "vs a = Some x" "a \<notin># R" "vnode_decref_count a vs = Some (True, vs)" "vn_refcount x = 1"
      "counted R (vs(a := None))"
proof -
  from counted_liveE [OF cnt] obtain x where x: "vs a = Some x" by auto
  have n: "vn_refcount x = int (count R a) + 1" using counted_refcount [OF cnt x] by simp
  show thesis
  proof (cases "a \<in># R")
    case True
    then have "0 < count R a" by simp
    with n have "1 < vn_refcount x" by linarith
    with cnt x n True show ?thesis
      by (intro down) (auto simp: vnode_decref_count_def counted_def vnodes_ok_def)
  next
    case False
    then have "count R a = 0" by (simp add: count_eq_zero_iff)
    with cnt x n False show ?thesis
      by (intro reclaim) (auto simp: vnode_decref_count_def counted_def vnodes_ok_def)
  qed
qed

end
