(* ===== verification/Procs.thy ===== *)
theory Procs
  imports VmSystem Synch Vnode
begin

text \<open>
  Processes: \<open>kern/proc/proc.c\<close> and \<open>kern/syscall/proc_syscalls.c\<close> as the C1_PAG configuration
  builds them (waitpid with a semaphore, fork, files). The kernel state joins the virtual memory
  system, the vnodes and the heap of process structures. Threads are numbers; \<open>curthread\<close> is the
  running one and \<open>curproc\<close> the process it belongs to. \<open>proc_getas\<close> is what the VM modules call
  the current address space, so every change of \<open>curproc\<close> or of its address space refreshes the
  field \<open>curas\<close> of the VM state (\<open>sync_as\<close>).

  \<open>al i\<close> says whether the \<open>i\<close>-th \<open>kmalloc\<close> of a call succeeds. Names and spinlocks are left out.
  A blocking call is cut at its sleep, as in theory Synch.
\<close>

section \<open>State\<close>

abbreviation MAX_PROC :: nat where "MAX_PROC \<equiv> 100"
abbreviation OPEN_MAX :: nat where "OPEN_MAX \<equiv> 128"
abbreviation SYSTEM_OPEN_MAX :: nat where "SYSTEM_OPEN_MAX \<equiv> 10 * OPEN_MAX"

record openfile =
  of_vn :: "nat option"
  of_offset :: int
  countRef :: u32

record proc =
  p_numthreads :: u32
  p_addrspace :: "nat option"
  p_cwd :: "nat option"
  p_status :: u32
  p_pid :: nat
  p_sem :: "semaphore option"
  fileTable :: "nat option list"

record kstate =
  vm :: vm_state
  vnodes :: vnodes
  procs :: "nat \<rightharpoonup> proc"
  next_proc :: nat
  processTable :: "nat option list"
  table_active :: bool
  last_i :: nat
  kproc :: "nat option"
  t_proc :: "nat \<Rightarrow> nat option"
  curthread :: nat
  systemFileTable :: "openfile list"

definition curproc :: "kstate \<Rightarrow> nat option" where
  "curproc k = t_proc k (curthread k)"

definition upd_proc :: "nat \<Rightarrow> (proc \<Rightarrow> proc) \<Rightarrow> kstate \<Rightarrow> kstate option" where
  "upd_proc p f k = do { P \<leftarrow> procs k p; Some (k\<lparr>procs := (procs k)(p \<mapsto> f P)\<rparr>) }"

definition proc_getas :: "kstate \<Rightarrow> nat option" where
  "proc_getas k = (case curproc k of None \<Rightarrow> None | Some p \<Rightarrow> (case procs k p of None \<Rightarrow> None | Some P \<Rightarrow> p_addrspace P))"

definition sync_as :: "kstate \<Rightarrow> kstate" where
  "sync_as k = k\<lparr>vm := (vm k)\<lparr>curas := proc_getas k\<rparr>\<rparr>"

definition proc_setas :: "nat option \<Rightarrow> kstate \<Rightarrow> (nat option \<times> kstate) option" where
  "proc_setas newas k = do {
     p \<leftarrow> curproc k;
     P \<leftarrow> procs k p;
     let oldas = p_addrspace P;
     k \<leftarrow> upd_proc p (\<lambda>P. P\<lparr>p_addrspace := newas\<rparr>) k;
     Some (oldas, sync_as k) }"

section \<open>The process table\<close>

definition proc_search_pid :: "int \<Rightarrow> kstate \<Rightarrow> nat option" where
  "proc_search_pid pid k = do {
     kassert (pid \<ge> 0 \<and> pid < int MAX_PROC);
     kassert (nat pid < length (processTable k));
     p \<leftarrow> processTable k ! nat pid;
     P \<leftarrow> procs k p;
     kassert (int (p_pid P) = pid);
     Some p }"

text \<open>The circular search of \<open>proc_init_waitpid\<close>, which leaves the loop without a slot when it comes
  back to the slot of the last process created.\<close>

definition next_slot :: "nat \<Rightarrow> nat" where
  "next_slot i = (if i + 1 > MAX_PROC then 1 else i + 1)"

partial_function (option) slot_search :: "nat option list \<Rightarrow> nat \<Rightarrow> nat \<Rightarrow> nat option option" where
  "slot_search tab last_used i =
     (if i \<noteq> last_used then
        if i \<ge> length tab then None
        else if tab ! i = None then Some (Some i)
        else slot_search tab last_used (next_slot i)
      else Some None)"

definition proc_init_waitpid :: "bool \<Rightarrow> bool \<Rightarrow> bool \<Rightarrow> nat \<Rightarrow> kstate \<Rightarrow> kstate option" where
  "proc_init_waitpid km1 km2 km3 p k = do {
     k \<leftarrow> upd_proc p (\<lambda>P. P\<lparr>p_pid := 0\<rparr>) k;
     found \<leftarrow> slot_search (processTable k) (last_i k) (next_slot (last_i k));
     i \<leftarrow> found;
     let k = k\<lparr>processTable := (processTable k)[i := Some p], last_i := i\<rparr>;
     k \<leftarrow> upd_proc p (\<lambda>P. P\<lparr>p_pid := i\<rparr>) k;
     k \<leftarrow> upd_proc p (\<lambda>P. P\<lparr>p_status := 0\<rparr>) k;
     upd_proc p (\<lambda>P. P\<lparr>p_sem := sem_create km1 km2 km3 0\<rparr>) k }"

definition proc_end_waitpid :: "nat \<Rightarrow> kstate \<Rightarrow> kstate option" where
  "proc_end_waitpid p k = do {
     P \<leftarrow> procs k p;
     let i = p_pid P;
     kassert (i > 0 \<and> i \<le> MAX_PROC);
     let k = k\<lparr>processTable := (processTable k)[i := None]\<rparr>;
     s \<leftarrow> p_sem P;
     sem_destroy s;
     Some k }"

section \<open>Processes\<close>

definition proc_create :: "(nat \<Rightarrow> bool) \<Rightarrow> kstate \<Rightarrow> (nat option \<times> kstate) option" where
  "proc_create al k =
     (if \<not> al 0 then Some (None, k)
      else if \<not> al 1 then Some (None, k)
      else do {
        let p = next_proc k;
        let P = \<lparr>p_numthreads = 0, p_addrspace = None, p_cwd = None, p_status = 0, p_pid = 0, p_sem = None,
                 fileTable = []\<rparr>;
        let k = k\<lparr>procs := (procs k)(p \<mapsto> P), next_proc := p + 1\<rparr>;
        k \<leftarrow> proc_init_waitpid (al 2) (al 3) (al 4) p k;
        k \<leftarrow> upd_proc p (\<lambda>P. P\<lparr>fileTable := replicate OPEN_MAX None\<rparr>) k;
        Some (Some p, k) })"

text \<open>\<open>as_destroy\<close> with its last step, the close of the executable.\<close>

definition as_destroy_close :: "(nat \<Rightarrow> vnodes \<Rightarrow> vnodes) \<Rightarrow> nat \<Rightarrow> kstate \<Rightarrow> kstate option" where
  "as_destroy_close rc a k = do {
     (v, m) \<leftarrow> as_destroy a (vm k);
     vs \<leftarrow> vfs_close rc v (vnodes k);
     Some (k\<lparr>vm := m, vnodes := vs\<rparr>) }"

definition proc_destroy :: "(nat \<Rightarrow> vnodes \<Rightarrow> vnodes) \<Rightarrow> nat \<Rightarrow> kstate \<Rightarrow> kstate option" where
  "proc_destroy rc p k = do {
     kassert (kproc k \<noteq> Some p);
     P \<leftarrow> procs k p;
     k \<leftarrow> (case p_cwd P of
            None \<Rightarrow> Some k
          | Some cwd \<Rightarrow> do {
              vs \<leftarrow> vnode_decref rc cwd (vnodes k);
              upd_proc p (\<lambda>P. P\<lparr>p_cwd := None\<rparr>) (k\<lparr>vnodes := vs\<rparr>) });
     k \<leftarrow> (case p_addrspace P of
            None \<Rightarrow> Some k
          | Some a \<Rightarrow>
              if curproc k = Some p then do {
                (oldas, k) \<leftarrow> proc_setas None k;
                m \<leftarrow> as_deactivate (vm k);
                a \<leftarrow> oldas;
                as_destroy_close rc a (k\<lparr>vm := m\<rparr>) }
              else do {
                k \<leftarrow> upd_proc p (\<lambda>P. P\<lparr>p_addrspace := None\<rparr>) k;
                as_destroy_close rc a k });
     P \<leftarrow> procs k p;
     kassert (p_numthreads P = 0);
     k \<leftarrow> proc_end_waitpid p k;
     Some (k\<lparr>procs := (procs k)(p := None)\<rparr>) }"

definition proc_bootstrap :: "(nat \<Rightarrow> bool) \<Rightarrow> kstate \<Rightarrow> kstate option" where
  "proc_bootstrap al k = do {
     (p, k) \<leftarrow> proc_create al k;
     p \<leftarrow> p;
     Some (k\<lparr>kproc := Some p, table_active := True\<rparr>) }"

definition proc_create_runprogram :: "(nat \<Rightarrow> bool) \<Rightarrow> kstate \<Rightarrow> (nat option \<times> kstate) option" where
  "proc_create_runprogram al k = do {
     (newproc, k) \<leftarrow> proc_create al k;
     case newproc of
       None \<Rightarrow> Some (None, k)
     | Some newp \<Rightarrow> do {
         k \<leftarrow> upd_proc newp (\<lambda>P. P\<lparr>p_addrspace := None\<rparr>) k;
         cur \<leftarrow> curproc k;
         C \<leftarrow> procs k cur;
         (case p_cwd C of
            None \<Rightarrow> Some (Some newp, k)
          | Some cwd \<Rightarrow> do {
              vs \<leftarrow> vnode_incref cwd (vnodes k);
              k \<leftarrow> upd_proc newp (\<lambda>P. P\<lparr>p_cwd := Some cwd\<rparr>) (k\<lparr>vnodes := vs\<rparr>);
              Some (Some newp, k) }) } }"

definition proc_addthread :: "nat \<Rightarrow> nat \<Rightarrow> kstate \<Rightarrow> kstate option" where
  "proc_addthread p t k = do {
     kassert (t_proc k t = None);
     k \<leftarrow> upd_proc p (\<lambda>P. P\<lparr>p_numthreads := p_numthreads P + 1\<rparr>) k;
     Some (sync_as (k\<lparr>t_proc := (t_proc k)(t := Some p)\<rparr>)) }"

definition proc_remthread :: "nat \<Rightarrow> kstate \<Rightarrow> kstate option" where
  "proc_remthread t k = do {
     p \<leftarrow> t_proc k t;
     P \<leftarrow> procs k p;
     kassert (p_numthreads P > 0);
     k \<leftarrow> upd_proc p (\<lambda>P. P\<lparr>p_numthreads := p_numthreads P - 1\<rparr>) k;
     Some (sync_as (k\<lparr>t_proc := (t_proc k)(t := None)\<rparr>)) }"

text \<open>One pass of \<open>proc_wait\<close>: asleep on the semaphore (\<open>None\<close>), or the status, the process gone.\<close>

definition proc_wait_pass :: "(nat \<Rightarrow> vnodes \<Rightarrow> vnodes) \<Rightarrow> nat \<Rightarrow> kstate \<Rightarrow> (u32 option \<times> kstate) option" where
  "proc_wait_pass rc p k = do {
     kassert (kproc k \<noteq> Some p);
     P \<leftarrow> procs k p;
     s \<leftarrow> p_sem P;
     (got, s) \<leftarrow> P_pass (curthread k) s;
     k \<leftarrow> upd_proc p (\<lambda>P. P\<lparr>p_sem := Some s\<rparr>) k;
     if got then do {
       P \<leftarrow> procs k p;
       let return_status = p_status P;
       k \<leftarrow> proc_destroy rc p k;
       Some (Some return_status, k) }
     else Some (None, k) }"

definition proc_signal_end :: "nat \<Rightarrow> kstate \<Rightarrow> (nat list \<times> kstate) option" where
  "proc_signal_end p k = do {
     P \<leftarrow> procs k p;
     s \<leftarrow> p_sem P;
     (woken, s) \<leftarrow> V s;
     k \<leftarrow> upd_proc p (\<lambda>P. P\<lparr>p_sem := Some s\<rparr>) k;
     Some (woken, k) }"

section \<open>The files of a process\<close>

definition openfileIncrRefCount :: "nat option \<Rightarrow> kstate \<Rightarrow> kstate option" where
  "openfileIncrRefCount f k =
     (case f of
        None \<Rightarrow> Some k
      | Some i \<Rightarrow> do {
          kassert (i < length (systemFileTable k));
          let x = systemFileTable k ! i;
          Some (k\<lparr>systemFileTable := (systemFileTable k)[i := x\<lparr>countRef := countRef x + 1\<rparr>]\<rparr>) })"

fun copy_fds :: "nat \<Rightarrow> nat \<Rightarrow> nat list \<Rightarrow> kstate \<Rightarrow> kstate option" where
  "copy_fds psrc pdest [] k = Some k"
| "copy_fds psrc pdest (fd # fds) k = do {
     S \<leftarrow> procs k psrc;
     kassert (fd < length (fileTable S));
     let f = fileTable S ! fd;
     k \<leftarrow> upd_proc pdest (\<lambda>P. P\<lparr>fileTable := (fileTable P)[fd := f]\<rparr>) k;
     k \<leftarrow> openfileIncrRefCount f k;
     copy_fds psrc pdest fds k }"

definition proc_file_table_copy :: "nat \<Rightarrow> nat \<Rightarrow> kstate \<Rightarrow> kstate option" where
  "proc_file_table_copy psrc pdest k = copy_fds psrc pdest [0..<OPEN_MAX] k"

section \<open>The circular search\<close>

text \<open>The slots in the order they are looked at: all but the one used last.\<close>

definition slot_order :: "nat \<Rightarrow> nat list" where
  "slot_order lst = [lst + 1..<MAX_PROC + 1] @ [1..<lst]"

lemma slot_search_stop: "slot_search tab i i = Some None"
  by (simp add: slot_search.simps)

lemma slot_search_found: "i \<noteq> lst \<Longrightarrow> i < length tab \<Longrightarrow> tab ! i = None \<Longrightarrow> slot_search tab lst i = Some (Some i)"
  by (simp add: slot_search.simps)

lemma slot_search_next:
  "i \<noteq> lst \<Longrightarrow> i < length tab \<Longrightarrow> tab ! i = Some q \<Longrightarrow> slot_search tab lst i = slot_search tab lst (next_slot i)"
  by (subst slot_search.simps) simp

lemmas slot_search_steps = slot_search_stop slot_search_found slot_search_next

lemma slot_search_up:
  assumes "length tab = MAX_PROC + 1" and "1 \<le> i" and "i \<le> lst" and "lst \<le> MAX_PROC"
  shows "slot_search tab lst i = Some (find (\<lambda>j. tab ! j = None) [i..<lst])"
  using assms(2-4)
proof (induction "lst - i" arbitrary: i)
  case 0
  then show ?case by (simp add: slot_search_steps)
next
  case (Suc n)
  then have lt: "i < lst" by simp
  then have "next_slot i = i + 1" using Suc.prems by (simp add: next_slot_def)
  moreover have "slot_search tab lst (i + 1) = Some (find (\<lambda>j. tab ! j = None) [i + 1..<lst])"
    using Suc lt by simp
  ultimately show ?case using lt Suc.prems assms(1)
    by (cases "tab ! i") (simp_all add: slot_search_steps upt_conv_Cons)
qed

lemma slot_search_wrap:
  assumes "length tab = MAX_PROC + 1" and "lst < i" and "i \<le> MAX_PROC"
    and "1 \<le> lst \<or> (\<exists>j. i \<le> j \<and> j \<le> MAX_PROC \<and> tab ! j = None)"
  shows "slot_search tab lst i = Some (find (\<lambda>j. tab ! j = None) ([i..<MAX_PROC + 1] @ [1..<lst]))"
  using assms(2-4)
proof (induction "MAX_PROC - i" arbitrary: i)
  case 0
  then have i: "i = MAX_PROC" by simp
  show ?case
  proof (cases "tab ! i = None")
    case True
    with 0 i assms(1) show ?thesis by (simp add: slot_search_steps)
  next
    case False
    with 0 i have "1 \<le> lst" by auto
    then have "slot_search tab lst 1 = Some (find (\<lambda>j. tab ! j = None) [1..<lst])"
      using slot_search_up [OF assms(1), of 1 lst] 0 by simp
    moreover from False obtain q where "tab ! i = Some q" by blast
    ultimately show ?thesis using 0 i assms(1)
      by (simp add: slot_search_steps next_slot_def)
  qed
next
  case (Suc n)
  then have lt: "i < MAX_PROC" by simp
  then have step: "[i..<MAX_PROC + 1] = i # [i + 1..<MAX_PROC + 1]" by (simp add: upt_conv_Cons)
  show ?case
  proof (cases "tab ! i = None")
    case True
    with Suc.prems step assms(1) show ?thesis by (simp add: slot_search_steps)
  next
    case False
    have "1 \<le> lst \<or> (\<exists>j. i + 1 \<le> j \<and> j \<le> MAX_PROC \<and> tab ! j = None)"
      using Suc.prems(3) False by (metis le_eq_less_or_eq less_eq_Suc_le Suc_eq_plus1)
    then have "slot_search tab lst (i + 1) = Some (find (\<lambda>j. tab ! j = None) ([i + 1..<MAX_PROC + 1] @ [1..<lst]))"
      using Suc lt by simp
    moreover from False obtain q where "tab ! i = Some q" by blast
    ultimately show ?thesis using Suc.prems lt step assms(1)
      by (simp add: slot_search_steps next_slot_def)
  qed
qed

lemma slot_search_eq:
  assumes "length tab = MAX_PROC + 1" and "lst \<le> MAX_PROC"
    and "1 \<le> lst \<or> (\<exists>j. 1 \<le> j \<and> j \<le> MAX_PROC \<and> tab ! j = None)"
  shows "slot_search tab lst (next_slot lst) = Some (find (\<lambda>j. tab ! j = None) (slot_order lst))"
proof (cases "lst = MAX_PROC")
  case True
  with slot_search_up [OF assms(1), of 1 lst] show ?thesis by (simp add: slot_order_def next_slot_def)
next
  case False
  with assms(2) have "next_slot lst = lst + 1" "lst + 1 \<le> MAX_PROC" by (simp_all add: next_slot_def)
  moreover have "1 \<le> lst \<or> (\<exists>j. lst + 1 \<le> j \<and> j \<le> MAX_PROC \<and> tab ! j = None)"
    using assms(3) by (cases "lst = 0") (auto simp: Suc_le_eq)
  ultimately show ?thesis
    using slot_search_wrap [OF assms(1), of lst "lst + 1"] by (simp add: slot_order_def)
qed

lemma set_slot_order: "lst \<le> MAX_PROC \<Longrightarrow> set (slot_order lst) = {1..MAX_PROC} - {lst}"
  by (auto simp: slot_order_def)

lemma slot_search_SomeD:
  assumes "slot_search tab lst i = Some (Some j)" and "1 \<le> i" and "i \<le> MAX_PROC"
  shows "1 \<le> j \<and> j \<le> MAX_PROC \<and> j \<noteq> lst \<and> tab ! j = None"
proof -
  let ?P = "\<lambda>tab lst i r. 1 \<le> i \<and> i \<le> MAX_PROC \<longrightarrow>
      (\<forall>j. r = Some j \<longrightarrow> 1 \<le> j \<and> j \<le> MAX_PROC \<and> j \<noteq> lst \<and> tab ! j = None)"
  have "?P tab lst i (Some j)"
  proof (rule slot_search.raw_induct [where P = ?P, OF _ assms(1)])
    fix f tab lst i and r :: "nat option"
    assume IH: "\<And>tab lst i r. f tab lst i = Some r \<Longrightarrow> ?P tab lst i r"
      and eq: "(if i \<noteq> lst then if length tab \<le> i then None else if tab ! i = None then Some (Some i)
        else f tab lst (next_slot i) else Some None) = Some r"
    have nx: "1 \<le> next_slot i" "i \<le> MAX_PROC \<Longrightarrow> next_slot i \<le> MAX_PROC" by (simp_all add: next_slot_def)
    consider "r = None" | "r = Some i" "i \<noteq> lst" "tab ! i = None" | "f tab lst (next_slot i) = Some r"
      using eq by (metis option.distinct(1) option.inject)
    then show "?P tab lst i r"
    proof cases
      case 3
      from IH [OF this] nx show ?thesis by blast
    qed simp_all
  qed
  with assms(2,3) show ?thesis by blast
qed

section \<open>The process table is consistent\<close>

text \<open>The table and the processes name each other: slot \<open>i\<close> holds the process with pid \<open>i\<close>.\<close>

definition procs_inv :: "kstate \<Rightarrow> bool" where
  "procs_inv k \<longleftrightarrow> length (processTable k) = MAX_PROC + 1 \<and> processTable k ! 0 = None \<and> last_i k \<le> MAX_PROC \<and>
     (\<forall>i p. i \<le> MAX_PROC \<longrightarrow> processTable k ! i = Some p \<longrightarrow> (\<exists>P. procs k p = Some P \<and> p_pid P = i)) \<and>
     (\<forall>p P. procs k p = Some P \<longrightarrow> p < next_proc k \<and> p_pid P \<le> MAX_PROC \<and> processTable k ! p_pid P = Some p)"

text \<open>A step that changes one process structure, not its pid, and neither the table nor the others.\<close>

definition touches :: "nat \<Rightarrow> kstate \<Rightarrow> kstate \<Rightarrow> bool" where
  "touches p k k' \<longleftrightarrow> processTable k' = processTable k \<and> last_i k' = last_i k \<and> next_proc k' = next_proc k \<and>
     kproc k' = kproc k \<and> curthread k' = curthread k \<and> (\<forall>q. q \<noteq> p \<longrightarrow> procs k' q = procs k q) \<and>
     map_option p_pid (procs k' p) = map_option p_pid (procs k p)"

lemma touches_refl [simp]: "touches p k k"
  by (simp add: touches_def)

lemma touches_trans: "touches p k1 k2 \<Longrightarrow> touches p k2 k3 \<Longrightarrow> touches p k1 k3"
  by (simp add: touches_def)

lemma touches_fields [simp]:
  "touches p k (k'\<lparr>vm := m\<rparr>) = touches p k k'" "touches p k (k'\<lparr>vnodes := vs\<rparr>) = touches p k k'"
  "touches p k (k'\<lparr>vm := m, vnodes := vs\<rparr>) = touches p k k'"
  "touches p k (k'\<lparr>t_proc := tp\<rparr>) = touches p k k'" "touches p k (sync_as k') = touches p k k'"
  "touches p k (k'\<lparr>systemFileTable := ft\<rparr>) = touches p k k'"
  by (simp_all add: touches_def sync_as_def)

lemma touches_upd:
  "upd_proc p f k = Some k' \<Longrightarrow> (\<And>P. p_pid (f P) = p_pid P) \<Longrightarrow> touches p k k'"
  by (auto simp: upd_proc_def touches_def bind_eq_Some_conv)

lemma map_option_pid_eq: "map_option p_pid x = map_option p_pid y \<Longrightarrow> y = Some P \<Longrightarrow> \<exists>P'. x = Some P' \<and> p_pid P' = p_pid P"
  by (cases x) auto

lemma procs_inv_touches:
  assumes inv: "procs_inv k" and t: "touches p k k'"
  shows "procs_inv k'"
proof -
  have same: "map_option p_pid (procs k' q) = map_option p_pid (procs k q)" for q
    using t by (cases "q = p") (simp_all add: touches_def)
  have tab: "processTable k' = processTable k" "last_i k' = last_i k" "next_proc k' = next_proc k"
    using t by (simp_all add: touches_def)
  have "\<exists>P. procs k' q = Some P \<and> p_pid P = i" if "i \<le> MAX_PROC" "processTable k ! i = Some q" for i q
    using inv that map_option_pid_eq [OF same] unfolding procs_inv_def by metis
  moreover have "q < next_proc k \<and> p_pid P \<le> MAX_PROC \<and> processTable k ! p_pid P = Some q" if "procs k' q = Some P" for q P
    using inv map_option_pid_eq [OF same [symmetric] that] unfolding procs_inv_def by metis
  ultimately show ?thesis using inv unfolding procs_inv_def tab by blast
qed

lemma procs_inv_fields [simp]:
  "procs_inv (k\<lparr>vm := m\<rparr>) = procs_inv k" "procs_inv (k\<lparr>vnodes := vs\<rparr>) = procs_inv k"
  "procs_inv (k\<lparr>t_proc := tp\<rparr>) = procs_inv k" "procs_inv (k\<lparr>curthread := c\<rparr>) = procs_inv k"
  "procs_inv (k\<lparr>kproc := kp, table_active := ac\<rparr>) = procs_inv k" "procs_inv (sync_as k) = procs_inv k"
  "procs_inv (k\<lparr>systemFileTable := ft\<rparr>) = procs_inv k"
  by (simp_all add: procs_inv_def sync_as_def)

definition fresh_proc :: "nat \<Rightarrow> semaphore option \<Rightarrow> proc" where
  "fresh_proc i s = \<lparr>p_numthreads = 0, p_addrspace = None, p_cwd = None, p_status = 0, p_pid = i, p_sem = s,
     fileTable = replicate OPEN_MAX None\<rparr>"

text \<open>The state after a process got slot \<open>i\<close>.\<close>

definition entered :: "nat \<Rightarrow> proc \<Rightarrow> kstate \<Rightarrow> kstate" where
  "entered i P k = k\<lparr>procs := (procs k)(next_proc k \<mapsto> P), next_proc := next_proc k + 1,
    processTable := (processTable k)[i := Some (next_proc k)], last_i := i\<rparr>"

lemma procs_inv_fresh: "procs_inv k \<Longrightarrow> procs k (next_proc k) = None"
  by (metis less_irrefl not_Some_eq procs_inv_def)

lemma procs_inv_enter:
  assumes inv: "procs_inv k" and i: "1 \<le> i" "i \<le> MAX_PROC" "processTable k ! i = None" and P: "p_pid P = i"
  shows "procs_inv (entered i P k)"
proof -
  have len: "length (processTable k) = 101" using inv by (simp add: procs_inv_def)
  with inv i P procs_inv_fresh [OF inv] show ?thesis unfolding procs_inv_def entered_def
    by (fastforce simp: nth_list_update split: if_splits)
qed

lemma proc_create_SomeD:
  assumes inv: "procs_inv k" and run: "proc_create al k = Some (r, k')"
  obtains (no_memory) "r = None" "k' = k"
  | (created) i where "r = Some (next_proc k)" "1 \<le> i" "i \<le> MAX_PROC" "i \<noteq> last_i k" "processTable k ! i = None"
      "k' = entered i (fresh_proc i (sem_create (al 2) (al 3) (al 4) 0)) k" "procs_inv k'"
proof (cases "al 0 \<and> al 1")
  case False
  with run inv show ?thesis by (intro no_memory) (auto simp: proc_create_def split: if_splits)
next
  case True
  let ?p = "next_proc k"
  from run True obtain i where s: "slot_search (processTable k) (last_i k) (next_slot (last_i k)) = Some (Some i)"
    and r: "r = Some ?p" and "k' = k\<lparr>next_proc := Suc ?p, processTable := (processTable k)[i := Some ?p], last_i := i,
      procs := (procs k)(?p \<mapsto> fresh_proc i (sem_create (al 2) (al 3) (al 4) 0))\<rparr>"
    by (auto simp: proc_create_def proc_init_waitpid_def upd_proc_def Let_def bind_eq_Some_conv fresh_proc_def)
  then have k': "k' = entered i (fresh_proc i (sem_create (al 2) (al 3) (al 4) 0)) k"
    by (intro kstate.equality) (simp_all add: entered_def)
  have "1 \<le> next_slot (last_i k)" "next_slot (last_i k) \<le> MAX_PROC"
    using inv by (simp_all add: next_slot_def procs_inv_def)
  from slot_search_SomeD [OF s this] have i: "1 \<le> i" "i \<le> MAX_PROC" "i \<noteq> last_i k" "processTable k ! i = None" by auto
  have "procs_inv k'" unfolding k' by (rule procs_inv_enter [OF inv i(1,2,4)]) (simp add: fresh_proc_def)
  from created [OF r i k' this] show ?thesis .
qed

text \<open>With memory and a free slot besides the last one used, creation succeeds.\<close>

lemma proc_create_total:
  assumes inv: "procs_inv k" and al: "al 0" "al 1"
    and slot: "1 \<le> i" "i \<le> MAX_PROC" "i \<noteq> last_i k" "processTable k ! i = None"
  shows "\<exists>k'. proc_create al k = Some (Some (next_proc k), k')"
proof -
  have len: "length (processTable k) = MAX_PROC + 1" and lst: "last_i k \<le> MAX_PROC"
    using inv by (auto simp: procs_inv_def)
  have "i \<in> set (slot_order (last_i k))" using slot set_slot_order [OF lst] by simp
  with slot(4) obtain j where "find (\<lambda>j. processTable k ! j = None) (slot_order (last_i k)) = Some j"
    by (metis (mono_tags) find_None_iff not_Some_eq)
  with slot_search_eq [OF len lst] slot have "slot_search (processTable k) (last_i k) (next_slot (last_i k)) = Some (Some j)"
    by auto
  with al show ?thesis by (simp add: proc_create_def proc_init_waitpid_def upd_proc_def Let_def)
qed

text \<open>When every slot but the last one used is taken, creation panics, a free last slot or not.\<close>

lemma proc_create_panics:
  assumes inv: "procs_inv k" and al: "al 0" "al 1" and lst: "1 \<le> last_i k"
    and full: "\<forall>i. 1 \<le> i \<and> i \<le> MAX_PROC \<and> i \<noteq> last_i k \<longrightarrow> processTable k ! i \<noteq> None"
  shows "proc_create al k = None"
proof -
  have len: "length (processTable k) = MAX_PROC + 1" and le: "last_i k \<le> MAX_PROC"
    using inv by (auto simp: procs_inv_def)
  have "find (\<lambda>j. processTable k ! j = None) (slot_order (last_i k)) = None"
    using full set_slot_order [OF le] by (auto simp: find_None_iff)
  with slot_search_eq [OF len le] lst have "slot_search (processTable k) (last_i k) (next_slot (last_i k)) = Some None"
    by auto
  with al show ?thesis by (simp add: proc_create_def proc_init_waitpid_def upd_proc_def Let_def)
qed

lemma proc_setas_touches:
  "proc_setas newas k = Some (oldas, k') \<Longrightarrow> curproc k = Some p \<Longrightarrow> touches p k k'"
  by (auto simp: proc_setas_def bind_eq_Some_conv) (rule touches_upd, assumption, simp)

lemma as_destroy_close_touches: "as_destroy_close rc a k = Some k' \<Longrightarrow> touches p k k'"
  by (auto simp: as_destroy_close_def bind_eq_Some_conv touches_def)

text \<open>What is left once a process is destroyed.\<close>

definition removed :: "nat \<Rightarrow> nat \<Rightarrow> kstate \<Rightarrow> kstate \<Rightarrow> bool" where
  "removed p i k k' \<longleftrightarrow> procs k' p = None \<and> processTable k' = (processTable k)[i := None] \<and> last_i k' = last_i k \<and>
     next_proc k' = next_proc k \<and> kproc k' = kproc k \<and> curthread k' = curthread k \<and>
     (\<forall>q. q \<noteq> p \<longrightarrow> procs k' q = procs k q)"

lemma removed_touches: "touches p k k1 \<Longrightarrow> removed p i k1 k' \<Longrightarrow> removed p i k k'"
  by (simp add: touches_def removed_def)

lemma procs_inv_removed:
  assumes inv: "procs_inv k" and P: "procs k p = Some P" and rm: "removed p (p_pid P) k k'"
  shows "procs_inv k'"
proof -
  have i: "p_pid P \<le> MAX_PROC" "processTable k ! p_pid P = Some p" and len: "length (processTable k) = 101"
    using inv P by (auto simp: procs_inv_def)
  have tab: "processTable k' ! j = (if j = p_pid P then None else processTable k ! j)" if "j \<le> MAX_PROC" for j
    using rm i len that by (simp add: removed_def nth_list_update)
  have oth: "procs k' q = procs k q" if "q \<noteq> p" for q using rm that by (simp add: removed_def)
  have gone: "procs k' p = None" using rm by (simp add: removed_def)
  have "\<exists>Q. procs k' q = Some Q \<and> p_pid Q = j" if j: "j \<le> MAX_PROC" "processTable k' ! j = Some q" for j q
  proof -
    from j tab have ne: "j \<noteq> p_pid P" and "processTable k ! j = Some q" by (auto split: if_splits)
    with inv j obtain Q where Q: "procs k q = Some Q" "p_pid Q = j" unfolding procs_inv_def by blast
    with ne P have "q \<noteq> p" by auto
    with Q oth show ?thesis by simp
  qed
  moreover have "q < next_proc k \<and> p_pid Q \<le> MAX_PROC \<and> processTable k' ! p_pid Q = Some q" if Q: "procs k' q = Some Q" for q Q
  proof -
    from Q gone have ne: "q \<noteq> p" by auto
    with Q oth have "procs k q = Some Q" by simp
    with inv have *: "q < next_proc k" "p_pid Q \<le> MAX_PROC" "processTable k ! p_pid Q = Some q"
      unfolding procs_inv_def by blast+
    with ne i(2) have "p_pid Q \<noteq> p_pid P" by auto
    with * tab show ?thesis by simp
  qed
  ultimately show ?thesis using inv rm tab [of 0] len unfolding procs_inv_def removed_def by simp
qed

lemma proc_destroy_SomeD:
  assumes run: "proc_destroy rc p k = Some k'"
  obtains P where "procs k p = Some P" "removed p (p_pid P) k k'"
proof -
  from run obtain P k1 k2 P2 k3 where P: "procs k p = Some P"
    and k1: "(case p_cwd P of None \<Rightarrow> Some k | Some cwd \<Rightarrow> do {
        vs \<leftarrow> vnode_decref rc cwd (vnodes k); upd_proc p (\<lambda>P. P\<lparr>p_cwd := None\<rparr>) (k\<lparr>vnodes := vs\<rparr>) }) = Some k1"
    and k2: "(case p_addrspace P of None \<Rightarrow> Some k1 | Some a \<Rightarrow>
        if curproc k1 = Some p then do {
          (oldas, k) \<leftarrow> proc_setas None k1; m \<leftarrow> as_deactivate (vm k); a \<leftarrow> oldas;
          as_destroy_close rc a (k\<lparr>vm := m\<rparr>) }
        else do { k \<leftarrow> upd_proc p (\<lambda>P. P\<lparr>p_addrspace := None\<rparr>) k1; as_destroy_close rc a k }) = Some k2"
    and P2: "procs k2 p = Some P2" and k3: "proc_end_waitpid p k2 = Some k3" and k': "k' = k3\<lparr>procs := (procs k3)(p := None)\<rparr>"
    unfolding proc_destroy_def by (auto simp: bind_eq_Some_conv)
  have "touches p k k1"
    using k1 touches_upd [of p "\<lambda>P. P\<lparr>p_cwd := None\<rparr>" "k\<lparr>vnodes := _\<rparr>" k1]
    by (fastforce simp: bind_eq_Some_conv touches_def split: option.splits)
  moreover have "touches p k1 k2"
  proof (cases "p_addrspace P")
    case None
    with k2 show ?thesis by simp
  next
    case (Some a)
    show ?thesis
    proof (cases "curproc k1 = Some p")
      case True
      with k2 Some obtain oldas ka m b where "proc_setas None k1 = Some (oldas, ka)"
        "as_destroy_close rc b (ka\<lparr>vm := m\<rparr>) = Some k2" by (auto simp: bind_eq_Some_conv)
      with proc_setas_touches [OF this(1) True] as_destroy_close_touches [OF this(2), of p] show ?thesis
        using touches_trans [of p k1 "ka\<lparr>vm := m\<rparr>" k2] by simp
    next
      case False
      with k2 Some obtain ka where "upd_proc p (\<lambda>P. P\<lparr>p_addrspace := None\<rparr>) k1 = Some ka"
        "as_destroy_close rc a ka = Some k2" by (auto simp: bind_eq_Some_conv)
      with touches_upd [OF this(1)] as_destroy_close_touches [OF this(2), of p] show ?thesis
        using touches_trans by simp
    qed
  qed
  ultimately have t: "touches p k k2" by (rule touches_trans)
  with P P2 have "p_pid P2 = p_pid P" by (simp add: touches_def)
  with k3 P2 have "removed p (p_pid P) k2 k'"
    by (auto simp: k' proc_end_waitpid_def bind_eq_Some_conv removed_def Let_def)
  from that [OF P removed_touches [OF t this]] show thesis .
qed

lemma proc_addthread_touches: "proc_addthread p t k = Some k' \<Longrightarrow> touches p k k'"
  by (auto simp: proc_addthread_def bind_eq_Some_conv dest!: touches_upd)

lemma proc_remthread_touches: "proc_remthread t k = Some k' \<Longrightarrow> t_proc k t = Some p \<Longrightarrow> touches p k k'"
  by (auto simp: proc_remthread_def bind_eq_Some_conv dest!: touches_upd)

lemma proc_signal_end_touches: "proc_signal_end p k = Some (w, k') \<Longrightarrow> touches p k k'"
  by (auto simp: proc_signal_end_def bind_eq_Some_conv) (rule touches_upd, assumption, simp)

lemma openfileIncrRefCount_touches: "openfileIncrRefCount f k = Some k' \<Longrightarrow> touches p k k'"
  by (auto simp: openfileIncrRefCount_def Let_def split: option.splits)

lemma copy_fds_touches: "copy_fds psrc pdest fds k = Some k' \<Longrightarrow> touches pdest k k'"
proof (induction fds arbitrary: k)
  case (Cons fd fds)
  from Cons.prems obtain S :: proc where "upd_proc pdest (\<lambda>P. P\<lparr>fileTable := (fileTable P)[fd := fileTable S ! fd]\<rparr>) k \<bind>
      (\<lambda>k. openfileIncrRefCount (fileTable S ! fd) k \<bind> copy_fds psrc pdest fds) = Some k'"
    by (auto simp: bind_eq_Some_conv Let_def)
  then obtain k1 k2 where "upd_proc pdest (\<lambda>P. P\<lparr>fileTable := (fileTable P)[fd := fileTable S ! fd]\<rparr>) k = Some k1"
    "openfileIncrRefCount (fileTable S ! fd) k1 = Some k2" "copy_fds psrc pdest fds k2 = Some k'"
    by (auto simp: bind_eq_Some_conv)
  with touches_upd [OF this(1)] openfileIncrRefCount_touches [OF this(2)] Cons.IH [OF this(3)] show ?case
    using touches_trans by simp metis
qed simp

lemma proc_wait_pass_SomeD:
  assumes "proc_wait_pass rc p k = Some (r, k')"
  obtains (asleep) "r = None" "touches p k k'"
  | (waited) P where "procs k p = Some P" "r = Some (p_status P)" "removed p (p_pid P) k k'"
proof -
  from assms obtain P s got s' k1 where P: "procs k p = Some P" and k1: "upd_proc p (\<lambda>P. P\<lparr>p_sem := Some s'\<rparr>) k = Some k1"
    and rest: "(if got then do { P \<leftarrow> procs k1 p; let return_status = p_status P;
        k \<leftarrow> proc_destroy rc p k1; Some (Some return_status, k) } else Some (None, k1)) = Some (r, k')"
    by (auto simp: proc_wait_pass_def bind_eq_Some_conv)
  from touches_upd [OF k1] have t: "touches p k k1" by simp
  show thesis
  proof (cases got)
    case False
    with rest t asleep show ?thesis by simp
  next
    case True
    from k1 P have P1: "procs k1 p = Some (P\<lparr>p_sem := Some s'\<rparr>)" by (auto simp: upd_proc_def)
    with rest True have r: "r = Some (p_status P)" and d: "proc_destroy rc p k1 = Some k'"
      by (auto simp: bind_eq_Some_conv Let_def)
    from proc_destroy_SomeD [OF d] P1 have "removed p (p_pid P) k1 k'" by auto
    from waited [OF P r removed_touches [OF t this]] show ?thesis .
  qed
qed

lemma proc_create_runprogram_SomeD:
  assumes inv: "procs_inv k" and run: "proc_create_runprogram al k = Some (r, k')"
  obtains (no_memory) "r = None" "k' = k"
  | (created) i k1 where "r = Some (next_proc k)" "1 \<le> i" "i \<le> MAX_PROC" "processTable k ! i = None"
      "k1 = entered i (fresh_proc i (sem_create (al 2) (al 3) (al 4) 0)) k" "procs_inv k1" "touches (next_proc k) k1 k'"
proof -
  from run obtain r1 k1 where c: "proc_create al k = Some (r1, k1)" by (auto simp: proc_create_runprogram_def bind_eq_Some_conv)
  from inv c show thesis
  proof (cases rule: proc_create_SomeD)
    case no_memory
    with run c show ?thesis by (intro that(1)) (auto simp: proc_create_runprogram_def)
  next
    case (created i)
    from run c created(1) obtain ka where ka: "upd_proc (next_proc k) (\<lambda>P. P\<lparr>p_addrspace := None\<rparr>) k1 = Some ka"
      and rest: "do { cur \<leftarrow> curproc ka; C \<leftarrow> procs ka cur; (case p_cwd C of None \<Rightarrow> Some (Some (next_proc k), ka)
          | Some cwd \<Rightarrow> do { vs \<leftarrow> vnode_incref cwd (vnodes ka);
              k' \<leftarrow> upd_proc (next_proc k) (\<lambda>P. P\<lparr>p_cwd := Some cwd\<rparr>) (ka\<lparr>vnodes := vs\<rparr>);
              Some (Some (next_proc k), k') }) } = Some (r, k')"
      by (auto simp: proc_create_runprogram_def bind_eq_Some_conv)
    then obtain C :: proc where rest: "(case p_cwd C of None \<Rightarrow> Some (Some (next_proc k), ka)
          | Some cwd \<Rightarrow> do { vs \<leftarrow> vnode_incref cwd (vnodes ka);
              k' \<leftarrow> upd_proc (next_proc k) (\<lambda>P. P\<lparr>p_cwd := Some cwd\<rparr>) (ka\<lparr>vnodes := vs\<rparr>);
              Some (Some (next_proc k), k') }) = Some (r, k')"
      by (auto simp: bind_eq_Some_conv)
    from touches_upd [OF ka] have t1: "touches (next_proc k) k1 ka" by simp
    have "r = Some (next_proc k) \<and> touches (next_proc k) k1 k'"
    proof (cases "p_cwd C")
      case None
      with rest t1 show ?thesis by simp
    next
      case (Some cwd)
      with rest obtain vs where u: "upd_proc (next_proc k) (\<lambda>P. P\<lparr>p_cwd := Some cwd\<rparr>) (ka\<lparr>vnodes := vs\<rparr>) = Some k'"
        and "r = Some (next_proc k)" by (auto simp: bind_eq_Some_conv)
      with t1 touches_upd [OF u] touches_trans [of "next_proc k" k1 "ka\<lparr>vnodes := vs\<rparr>" k'] show ?thesis by simp
    qed
    with that(2) created show ?thesis by blast
  qed
qed

end
