(* ===== verification/ProcSyscalls.thy ===== *)
theory ProcSyscalls
  imports Procs
begin

text \<open>
  \<open>kern/syscall/proc_syscalls.c\<close>: exit, waitpid, getpid, fork, and the processes as a transition
  system of their calls. \<open>sys__exit\<close> is modelled up to \<open>thread_exit\<close>, which finds the thread
  already detached and switches away for good; its result is the threads woken. \<open>sys_waitpid\<close>
  returns, besides the pid, the store through the user's pointer, which the code makes without
  \<open>copyout\<close>. \<open>sys_fork\<close> is given the number of the new thread; the trap frame is not modelled.
\<close>

section \<open>Operations\<close>

definition sys__exit :: "u32 \<Rightarrow> kstate \<Rightarrow> (nat list \<times> kstate) option" where
  "sys__exit code k = do {
     p \<leftarrow> curproc k;
     k \<leftarrow> upd_proc p (\<lambda>P. P\<lparr>p_status := code AND 0xff\<rparr>) k;
     k \<leftarrow> proc_remthread (curthread k) k;
     proc_signal_end p k }"

definition sys_waitpid ::
    "(nat \<Rightarrow> vnodes \<Rightarrow> vnodes) \<Rightarrow> int \<Rightarrow> u32 \<Rightarrow> kstate \<Rightarrow> ((int \<times> (u32 \<times> u32) option) option \<times> kstate) option" where
  "sys_waitpid rc pid statusp k = do {
     p \<leftarrow> proc_search_pid pid k;
     (s, k) \<leftarrow> proc_wait_pass rc p k;
     (case s of
        None \<Rightarrow> Some (None, k)
      | Some s \<Rightarrow> Some (Some (pid, if statusp \<noteq> 0 then Some (statusp, s) else None), k)) }"

definition sys_getpid :: "kstate \<Rightarrow> nat option" where
  "sys_getpid k = do { p \<leftarrow> curproc k; P \<leftarrow> procs k p; Some (p_pid P) }"

text \<open>\<open>as_copy\<close> into the new process, whose error code the call ignores.\<close>

definition fork_space :: "vm_io \<Rightarrow> nat \<Rightarrow> nat \<Rightarrow> kstate \<Rightarrow> kstate option" where
  "fork_space io old newp k = do {
     (r, m) \<leftarrow> as_copy io old (vm k);
     let k = k\<lparr>vm := m\<rparr>;
     (case r of
        Inl e \<Rightarrow> Some k
      | Inr b \<Rightarrow> upd_proc newp (\<lambda>P. P\<lparr>p_addrspace := Some b\<rparr>) k) }"

text \<open>The \<open>kmalloc\<close>s are those of the process (0 to 4), the trap frame (5), the thread, its name
  and its stack (6 to 8).\<close>

definition sys_fork ::
    "(nat \<Rightarrow> vnodes \<Rightarrow> vnodes) \<Rightarrow> vm_io \<Rightarrow> (nat \<Rightarrow> bool) \<Rightarrow> nat \<Rightarrow> kstate \<Rightarrow> ((errno + nat) \<times> kstate) option" where
  "sys_fork rc io al newthread k = do {
     cur \<leftarrow> curproc k;
     (r, k) \<leftarrow> proc_create_runprogram al k;
     case r of
       None \<Rightarrow> Some (Inl ENOMEM, k)
     | Some newp \<Rightarrow> do {
         C \<leftarrow> procs k cur;
         old \<leftarrow> p_addrspace C;
         k \<leftarrow> fork_space io old newp k;
         N \<leftarrow> procs k newp;
         if p_addrspace N = None then do {
           k \<leftarrow> proc_destroy rc newp k;
           Some (Inl ENOMEM, k) }
         else do {
           k \<leftarrow> proc_file_table_copy newp cur k;
           if \<not> al 5 then do {
             k \<leftarrow> proc_destroy rc newp k;
             Some (Inl ENOMEM, k) }
           else if \<not> al 6 \<or> \<not> al 7 \<or> \<not> al 8 then do {
             k \<leftarrow> proc_destroy rc newp k;
             Some (Inl ENOMEM, k) }
           else do {
             k \<leftarrow> proc_addthread newp newthread k;
             N \<leftarrow> procs k newp;
             Some (Inr (p_pid N), k) } } } }"

section \<open>The system of processes\<close>

text \<open>A step is a call by the running thread, another pass of a wait, or the choice of another
  thread to run.\<close>

inductive proc_step :: "(nat \<Rightarrow> vnodes \<Rightarrow> vnodes) \<Rightarrow> kstate \<Rightarrow> kstate \<Rightarrow> bool" for rc where
  step_fork: "sys_fork rc io al t k = Some (r, k') \<Longrightarrow> proc_step rc k k'"
| step_runprogram: "proc_create_runprogram al k = Some (r, k') \<Longrightarrow> proc_step rc k k'"
| step_start: "proc_addthread p t k = Some k' \<Longrightarrow> proc_step rc k k'"
| step_exit: "sys__exit code k = Some (woken, k') \<Longrightarrow> proc_step rc k k'"
| step_waitpid: "sys_waitpid rc pid statusp k = Some (r, k') \<Longrightarrow> proc_step rc k k'"
| step_wait_again: "proc_wait_pass rc p k = Some (r, k') \<Longrightarrow> proc_step rc k k'"
| step_switch: "proc_step rc k (sync_as (k\<lparr>curthread := t\<rparr>))"

inductive_cases proc_stepE: "proc_step rc k k'"

definition procs_start :: "kstate \<Rightarrow> bool" where
  "procs_start k \<longleftrightarrow> processTable k = replicate (MAX_PROC + 1) None \<and> last_i k = 0 \<and> procs k = Map.empty"

lemma procs_inv_start: "procs_start k \<Longrightarrow> procs_inv k"
  by (simp add: procs_start_def procs_inv_def)

lemma procs_inv_bootstrap:
  assumes "procs_inv k" and "proc_bootstrap al k = Some k'"
  shows "procs_inv k'"
proof -
  from assms(2) obtain p k1 where c: "proc_create al k = Some (Some p, k1)" and k': "k' = k1\<lparr>kproc := Some p, table_active := True\<rparr>"
    by (auto simp: proc_bootstrap_def bind_eq_Some_conv)
  from assms(1) c show ?thesis by (cases rule: proc_create_SomeD) (simp_all add: k')
qed

lemma sys__exit_touches: "sys__exit code k = Some (w, k') \<Longrightarrow> curproc k = Some p \<Longrightarrow> touches p k k'"
proof -
  assume "sys__exit code k = Some (w, k')" and cur: "curproc k = Some p"
  then obtain k1 k2 where u: "upd_proc p (\<lambda>P. P\<lparr>p_status := code AND 0xff\<rparr>) k = Some k1"
    and r: "proc_remthread (curthread k1) k1 = Some k2" and s: "proc_signal_end p k2 = Some (w, k')"
    by (auto simp: sys__exit_def bind_eq_Some_conv)
  from u cur have "t_proc k1 (curthread k1) = Some p" by (auto simp: upd_proc_def bind_eq_Some_conv curproc_def)
  with touches_upd [OF u] proc_remthread_touches [OF r] proc_signal_end_touches [OF s] show ?thesis
    by simp (metis touches_trans)
qed

lemma proc_wait_pass_inv:
  assumes inv: "procs_inv k" and run: "proc_wait_pass rc p k = Some (r, k')"
  shows "procs_inv k'"
  using run
proof (cases rule: proc_wait_pass_SomeD)
  case asleep
  with inv procs_inv_touches show ?thesis by blast
next
  case (waited P)
  with inv procs_inv_removed show ?thesis by blast
qed

lemma proc_destroy_inv: "procs_inv k \<Longrightarrow> proc_destroy rc p k = Some k' \<Longrightarrow> procs_inv k'"
  by (metis proc_destroy_SomeD procs_inv_removed)

lemma fork_space_touches: "fork_space io old newp k = Some k' \<Longrightarrow> touches newp k k'"
proof -
  assume run: "fork_space io old newp k = Some k'"
  then obtain r m where "as_copy io old (vm k) = Some (r, m)" by (auto simp: fork_space_def bind_eq_Some_conv)
  with run touches_upd [of newp "\<lambda>P. P\<lparr>p_addrspace := Some (projr r)\<rparr>" "k\<lparr>vm := m\<rparr>" k'] show ?thesis
    by (cases r) (auto simp: fork_space_def touches_def)
qed

lemma sys_fork_inv:
  assumes inv: "procs_inv k" and run: "sys_fork rc io al t k = Some (r, k')"
  shows "procs_inv k'"
proof -
  from run obtain cur rp k1 where c: "proc_create_runprogram al k = Some (rp, k1)"
    and rest: "(case rp of None \<Rightarrow> Some (Inl ENOMEM, k1) | Some newp \<Rightarrow> do {
         C \<leftarrow> procs k1 cur; old \<leftarrow> p_addrspace C; k \<leftarrow> fork_space io old newp k1; N \<leftarrow> procs k newp;
         if p_addrspace N = None then do { k \<leftarrow> proc_destroy rc newp k; Some (Inl ENOMEM, k) }
         else do {
           k \<leftarrow> proc_file_table_copy newp cur k;
           if \<not> al 5 then do { k \<leftarrow> proc_destroy rc newp k; Some (Inl ENOMEM, k) }
           else if \<not> al 6 \<or> \<not> al 7 \<or> \<not> al 8 then do { k \<leftarrow> proc_destroy rc newp k; Some (Inl ENOMEM, k) }
           else do { k \<leftarrow> proc_addthread newp t k; N \<leftarrow> procs k newp; Some (Inr (p_pid N), k) } } }) = Some (r, k')"
    by (auto simp: sys_fork_def bind_eq_Some_conv)
  from inv c have inv1: "procs_inv k1"
    by (cases rule: proc_create_runprogram_SomeD) (auto dest: procs_inv_touches simp: inv)
  show ?thesis
  proof (cases rp)
    case None
    with rest inv1 show ?thesis by simp
  next
    case (Some newp)
    with rest obtain old k2 N where k2: "fork_space io old newp k1 = Some k2"
      and rest2: "(if p_addrspace (N :: proc) = None then do { k \<leftarrow> proc_destroy rc newp k2; Some (Inl ENOMEM, k) }
         else do {
           k \<leftarrow> proc_file_table_copy newp cur k2;
           if \<not> al 5 then do { k \<leftarrow> proc_destroy rc newp k; Some (Inl ENOMEM, k) }
           else if \<not> al 6 \<or> \<not> al 7 \<or> \<not> al 8 then do { k \<leftarrow> proc_destroy rc newp k; Some (Inl ENOMEM, k) }
           else do { k \<leftarrow> proc_addthread newp t k; N \<leftarrow> procs k newp; Some (Inr (p_pid N), k) } }) = Some (r, k')"
      by (auto simp: bind_eq_Some_conv)
    have inv2: "procs_inv k2" using fork_space_touches [OF k2] inv1 procs_inv_touches by blast
    show ?thesis
    proof (cases "p_addrspace N = None")
      case True
      with rest2 inv2 proc_destroy_inv show ?thesis by (auto simp: bind_eq_Some_conv)
    next
      case False
      with rest2 obtain k3 where k3: "proc_file_table_copy newp cur k2 = Some k3"
        and rest3: "(if \<not> al 5 then do { k \<leftarrow> proc_destroy rc newp k3; Some (Inl ENOMEM, k) }
           else if \<not> al 6 \<or> \<not> al 7 \<or> \<not> al 8 then do { k \<leftarrow> proc_destroy rc newp k3; Some (Inl ENOMEM, k) }
           else do { k \<leftarrow> proc_addthread newp t k3; N \<leftarrow> procs k newp; Some (Inr (p_pid N), k) }) = Some (r, k')"
        by (auto simp: bind_eq_Some_conv)
      have inv3: "procs_inv k3"
        using copy_fds_touches k3 inv2 procs_inv_touches unfolding proc_file_table_copy_def by blast
      show ?thesis
      proof (cases "al 5 \<and> al 6 \<and> al 7 \<and> al 8")
        case True
        with rest3 have "proc_addthread newp t k3 = Some k'" by (auto simp: bind_eq_Some_conv)
        with proc_addthread_touches inv3 procs_inv_touches show ?thesis by blast
      next
        case False
        with rest3 have "proc_destroy rc newp k3 = Some k'" by (auto simp: bind_eq_Some_conv split: if_splits)
        with proc_destroy_inv inv3 show ?thesis by blast
      qed
    qed
  qed
qed

lemma proc_step_inv:
  assumes "proc_step rc k k'" and inv: "procs_inv k"
  shows "procs_inv k'"
  using assms(1)
proof cases
  case (step_fork io al t r)
  with sys_fork_inv [OF inv] show ?thesis by blast
next
  case (step_runprogram al r)
  from inv this show ?thesis by (cases rule: proc_create_runprogram_SomeD) (auto dest: procs_inv_touches simp: inv)
next
  case (step_start p t)
  with proc_addthread_touches procs_inv_touches inv show ?thesis by blast
next
  case (step_exit code woken)
  then obtain p where "curproc k = Some p" by (auto simp: sys__exit_def bind_eq_Some_conv)
  with step_exit sys__exit_touches procs_inv_touches inv show ?thesis by blast
next
  case (step_waitpid pid statusp r)
  then obtain p s where "proc_wait_pass rc p k = Some (s, k')"
    by (auto simp: sys_waitpid_def bind_eq_Some_conv split: option.splits)
  with proc_wait_pass_inv [OF inv] show ?thesis by blast
next
  case (step_wait_again p r)
  with proc_wait_pass_inv [OF inv] show ?thesis by blast
next
  case (step_switch t)
  with inv show ?thesis by simp
qed

lemma procs_inv_reachable: "(proc_step rc)\<^sup>*\<^sup>* k k' \<Longrightarrow> procs_inv k \<Longrightarrow> procs_inv k'"
  by (induction rule: rtranclp_induct) (auto intro: proc_step_inv)

section \<open>Exit and wait\<close>

text \<open>What destroying a process that is not the running one takes to succeed: its pid, no thread,
  a semaphore nobody sleeps on, and references to its directory and executable that are live.\<close>

definition reapable :: "nat \<Rightarrow> kstate \<Rightarrow> proc \<Rightarrow> bool" where
  "reapable p k P \<longleftrightarrow> 1 \<le> p_pid P \<and> p_pid P \<le> MAX_PROC \<and>
     vnodes_ok (vnodes k) \<and> (\<forall>c. p_cwd P = Some c \<longrightarrow> vnodes k c \<noteq> None) \<and>
     (\<forall>a. p_addrspace P = Some a \<longrightarrow>
        (\<exists>v m. as_destroy a (vm k) = Some (Some v, m) \<and> vnodes k v \<noteq> None \<and> p_cwd P \<noteq> Some v))"

lemma vn_refs_live: "vnodes_ok vs \<Longrightarrow> vs v \<noteq> None \<longleftrightarrow> 0 < vn_refs vs v"
  by (auto simp: vnodes_ok_def vn_refs_def split: option.splits)

lemma proc_destroy_total:
  assumes P: "procs k p = Some P" and ok: "reapable p k P" and rc: "reclaims rc" and kp: "kproc k \<noteq> Some p"
    and cur: "curproc k \<noteq> Some p" and thr: "p_numthreads P = 0" and sem: "p_sem P = Some s" "sem_wchan s = []"
  shows "\<exists>k'. proc_destroy rc p k = Some k'"
proof -
  have "\<exists>vs1. (case p_cwd P of None \<Rightarrow> Some k | Some cwd \<Rightarrow> do {
          vs \<leftarrow> vnode_decref rc cwd (vnodes k); upd_proc p (\<lambda>P. P\<lparr>p_cwd := None\<rparr>) (k\<lparr>vnodes := vs\<rparr>) })
        = Some (k\<lparr>vnodes := vs1, procs := (procs k)(p \<mapsto> P\<lparr>p_cwd := None\<rparr>)\<rparr>) \<and> vnodes_ok vs1 \<and>
        (\<forall>v. p_cwd P \<noteq> Some v \<longrightarrow> vn_refs vs1 v = vn_refs (vnodes k) v)"
  proof (cases "p_cwd P")
    case None
    then have "P\<lparr>p_cwd := None\<rparr> = P" by simp
    with None ok P show ?thesis by (intro exI [of _ "vnodes k"]) (auto simp: reapable_def fun_upd_idem)
  next
    case (Some c)
    with ok vnode_decref_eq [of "vnodes k" c rc] rc obtain vs1 where "vnode_decref rc c (vnodes k) = Some vs1"
      "vnodes_ok vs1" "vn_refs vs1 = (vn_refs (vnodes k))(c := vn_refs (vnodes k) c - 1)"
      by (auto simp: reapable_def)
    with Some P show ?thesis by (auto simp: upd_proc_def)
  qed
  then obtain vs1 where cwd: "(case p_cwd P of None \<Rightarrow> Some k | Some cwd \<Rightarrow> do {
          vs \<leftarrow> vnode_decref rc cwd (vnodes k); upd_proc p (\<lambda>P. P\<lparr>p_cwd := None\<rparr>) (k\<lparr>vnodes := vs\<rparr>) })
        = Some (k\<lparr>vnodes := vs1, procs := (procs k)(p \<mapsto> P\<lparr>p_cwd := None\<rparr>)\<rparr>)"
    and vs1: "vnodes_ok vs1" "\<And>v. p_cwd P \<noteq> Some v \<Longrightarrow> vn_refs vs1 v = vn_refs (vnodes k) v" by blast
  define k1 where "k1 = k\<lparr>vnodes := vs1, procs := (procs k)(p \<mapsto> P\<lparr>p_cwd := None\<rparr>)\<rparr>"
  have "\<exists>k2. (case p_addrspace P of None \<Rightarrow> Some k1 | Some a \<Rightarrow>
        if curproc k1 = Some p then do {
          (oldas, k) \<leftarrow> proc_setas None k1; m \<leftarrow> as_deactivate (vm k); a \<leftarrow> oldas;
          as_destroy_close rc a (k\<lparr>vm := m\<rparr>) }
        else do { k \<leftarrow> upd_proc p (\<lambda>P. P\<lparr>p_addrspace := None\<rparr>) k1; as_destroy_close rc a k }) = Some k2 \<and>
      procs k2 p = Some (P\<lparr>p_cwd := None, p_addrspace := None\<rparr>)"
  proof (cases "p_addrspace P")
    case None
    then have "P\<lparr>p_cwd := None, p_addrspace := None\<rparr> = P\<lparr>p_cwd := None\<rparr>" by simp
    with None show ?thesis by (simp add: k1_def)
  next
    case (Some a)
    with ok obtain v m where d: "as_destroy a (vm k) = Some (Some v, m)" "vnodes k v \<noteq> None" "p_cwd P \<noteq> Some v"
      by (auto simp: reapable_def)
    with ok vs1 have "vs1 v \<noteq> None" using vn_refs_live by (auto simp: reapable_def)
    with vnode_decref_eq [OF vs1(1) _ rc] obtain vs2 where "vnode_decref rc v vs1 = Some vs2" by blast
    moreover have "curproc k1 \<noteq> Some p" using cur by (simp add: curproc_def k1_def)
    ultimately show ?thesis using Some d P
      by (simp add: upd_proc_def as_destroy_close_def vfs_close_def k1_def)
  qed
  then obtain k2 where as: "(case p_addrspace P of None \<Rightarrow> Some k1 | Some a \<Rightarrow>
        if curproc k1 = Some p then do {
          (oldas, k) \<leftarrow> proc_setas None k1; m \<leftarrow> as_deactivate (vm k); a \<leftarrow> oldas;
          as_destroy_close rc a (k\<lparr>vm := m\<rparr>) }
        else do { k \<leftarrow> upd_proc p (\<lambda>P. P\<lparr>p_addrspace := None\<rparr>) k1; as_destroy_close rc a k }) = Some k2"
      "procs k2 p = Some (P\<lparr>p_cwd := None, p_addrspace := None\<rparr>)" by blast
  show ?thesis
    using P kp cwd as ok thr sem unfolding proc_destroy_def k1_def [symmetric]
    by (simp add: proc_end_waitpid_def sem_destroy_def wchan_destroy_def reapable_def Let_def)
qed

text \<open>A process whose semaphore has a unit, and whose last thread is gone, can be waited for.\<close>

lemma proc_wait_pass_total:
  assumes P: "procs k p = Some P" and ok: "reapable p k P" and rc: "reclaims rc" and kp: "kproc k \<noteq> Some p"
    and cur: "curproc k \<noteq> Some p" and thr: "p_numthreads P = 0" and sem: "p_sem P = Some \<lparr>sem_count = 1, sem_wchan = []\<rparr>"
  shows "\<exists>k'. proc_wait_pass rc p k = Some (Some (p_status P), k') \<and> removed p (p_pid P) k k'"
proof -
  define s where "s = \<lparr>sem_count = (0 :: u32), sem_wchan = []\<rparr>"
  define k1 where "k1 = k\<lparr>procs := (procs k)(p \<mapsto> P\<lparr>p_sem := Some s\<rparr>)\<rparr>"
  have "reapable p k1 (P\<lparr>p_sem := Some s\<rparr>)" using ok by (simp add: reapable_def k1_def)
  moreover have "curproc k1 \<noteq> Some p" using cur by (simp add: curproc_def k1_def)
  ultimately obtain k2 where d: "proc_destroy rc p k1 = Some k2"
    using proc_destroy_total [of k1 p "P\<lparr>p_sem := Some s\<rparr>" rc s] rc kp thr by (auto simp: k1_def s_def)
  have pass: "P_pass (curthread k) \<lparr>sem_count = 1, sem_wchan = []\<rparr> = Some (True, s)"
    by (simp add: P_pass_def s_def)
  have u: "upd_proc p (\<lambda>P. P\<lparr>p_sem := Some s\<rparr>) k = Some k1" using P by (simp add: upd_proc_def k1_def)
  have run: "proc_wait_pass rc p k = Some (Some (p_status P), k2)"
    using P kp sem pass u d by (simp add: proc_wait_pass_def k1_def Let_def)
  from proc_wait_pass_SomeD [OF run] P have "removed p (p_pid P) k k2" by auto
  with run show ?thesis by blast
qed

text \<open>The state after \<open>sys__exit\<close>.\<close>

definition exited :: "nat \<Rightarrow> proc \<Rightarrow> u32 \<Rightarrow> semaphore \<Rightarrow> kstate \<Rightarrow> kstate" where
  "exited p P code s k = k\<lparr>procs := (procs k)(p \<mapsto> P\<lparr>p_status := code AND 0xff, p_numthreads := p_numthreads P - 1,
     p_sem := Some s\<rparr>), t_proc := (t_proc k)(curthread k := None), vm := (vm k)\<lparr>curas := None\<rparr>\<rparr>"

lemma sys__exit_eq:
  assumes cur: "curproc k = Some p" and P: "procs k p = Some P" and "p_numthreads P > 0"
    and sem: "p_sem P = Some s" "V s = Some (woken, s')"
  shows "sys__exit code k = Some (woken, exited p P code s' k)"
proof -
  define k1 where "k1 = k\<lparr>procs := (procs k)(p \<mapsto> P\<lparr>p_status := code AND 0xff\<rparr>)\<rparr>"
  define k2 where "k2 = k1\<lparr>procs := (procs k)(p \<mapsto> P\<lparr>p_status := code AND 0xff, p_numthreads := p_numthreads P - 1\<rparr>),
    t_proc := (t_proc k)(curthread k := None)\<rparr>"
  have "t_proc k1 (curthread k) = Some p" "procs k1 p = Some (P\<lparr>p_status := code AND 0xff\<rparr>)"
    using cur by (simp_all add: k1_def curproc_def)
  then have rem: "proc_remthread (curthread k1) k1 = Some (sync_as k2)"
    using assms(3) by (simp add: proc_remthread_def upd_proc_def k1_def k2_def)
  have "curproc k2 = None" by (simp add: curproc_def k2_def k1_def)
  then have "sync_as k2 = k2\<lparr>vm := (vm k)\<lparr>curas := None\<rparr>\<rparr>"
    by (simp add: sync_as_def proc_getas_def) (simp add: k2_def k1_def)
  with rem have "proc_remthread (curthread k1) k1 = Some (k2\<lparr>vm := (vm k)\<lparr>curas := None\<rparr>\<rparr>)" by simp
  moreover have "proc_signal_end p (k2\<lparr>vm := (vm k)\<lparr>curas := None\<rparr>\<rparr>) = Some (woken, exited p P code s' k)"
    using sem by (simp add: proc_signal_end_def upd_proc_def exited_def k1_def k2_def)
  moreover have "upd_proc p (\<lambda>P. P\<lparr>p_status := code AND 0xff\<rparr>) k = Some k1"
    using P by (simp add: upd_proc_def k1_def)
  ultimately show ?thesis using cur by (simp add: sys__exit_def)
qed

lemma proc_search_pid_eq:
  "procs_inv k \<Longrightarrow> procs k p = Some P \<Longrightarrow> p_pid P < MAX_PROC \<Longrightarrow> proc_search_pid (int (p_pid P)) k = Some p"
  by (auto simp: proc_search_pid_def procs_inv_def)

lemma reapable_exited:
  fixes s :: semaphore and code :: u32
  assumes "reapable p k P" and "t_proc k u = Some q" and "q \<noteq> p" and "curproc k = Some p"
  defines "k1 \<equiv> sync_as ((exited p P code s k)\<lparr>curthread := u\<rparr>)"
  shows "reapable p k1 (P\<lparr>p_status := code AND 0xff, p_numthreads := p_numthreads P - 1, p_sem := Some s\<rparr>)"
    and "curproc k1 = Some q"
proof -
  show "curproc k1 = Some q" using assms by (auto simp: k1_def curproc_def exited_def sync_as_def)
  have "vm k1 = (vm k)\<lparr>curas := proc_getas ((exited p P code s k)\<lparr>curthread := u\<rparr>)\<rparr>" "vnodes k1 = vnodes k"
    by (simp_all add: k1_def sync_as_def exited_def)
  with assms(1) show "reapable p k1 (P\<lparr>p_status := code AND 0xff, p_numthreads := p_numthreads P - 1, p_sem := Some s\<rparr>)"
    by (fastforce simp: reapable_def as_destroy_curas)
qed

section \<open>Fork\<close>

lemma entered_sel:
  "procs (entered i P k) = (procs k)(next_proc k \<mapsto> P)" "vm (entered i P k) = vm k" "vnodes (entered i P k) = vnodes k"
  "curproc (entered i P k) = curproc k" "t_proc (entered i P k) = t_proc k" "curthread (entered i P k) = curthread k"
  "systemFileTable (entered i P k) = systemFileTable k" "next_proc (entered i P k) = next_proc k + 1"
  by (simp_all add: entered_def curproc_def)

lemma proc_create_runprogram_total:
  assumes inv: "procs_inv k" and al: "al 0" "al 1"
    and slot: "1 \<le> j" "j \<le> MAX_PROC" "j \<noteq> last_i k" "processTable k ! j = None"
    and cur: "curproc k = Some cur" "procs k cur = Some C"
    and cwd: "\<And>c. p_cwd C = Some c \<Longrightarrow> vnodes k c \<noteq> None"
  shows "\<exists>i vs. proc_create_runprogram al k = Some (Some (next_proc k),
      (entered i ((fresh_proc i (sem_create (al 2) (al 3) (al 4) 0))\<lparr>p_cwd := p_cwd C\<rparr>) k)\<lparr>vnodes := vs\<rparr>) \<and>
    1 \<le> i \<and> i \<le> MAX_PROC \<and> processTable k ! i = None"
proof -
  let ?p = "next_proc k"
  from proc_create_total [OF inv al slot] obtain k1 where c: "proc_create al k = Some (Some ?p, k1)" by blast
  from inv c obtain i where i: "1 \<le> i" "i \<le> MAX_PROC" "processTable k ! i = None"
    and k1: "k1 = entered i (fresh_proc i (sem_create (al 2) (al 3) (al 4) 0)) k"
    by (cases rule: proc_create_SomeD) auto
  let ?P = "fresh_proc i (sem_create (al 2) (al 3) (al 4) 0)"
  have same: "?P\<lparr>p_addrspace := None\<rparr> = ?P" by (simp add: fresh_proc_def)
  have upd: "upd_proc ?p (\<lambda>P. P\<lparr>p_addrspace := None\<rparr>) k1 = Some k1"
    by (simp add: upd_proc_def k1 entered_sel same)
  from cur(2) procs_inv_fresh [OF inv] have ne: "cur \<noteq> ?p" by auto
  have k1c: "curproc k1 = Some cur" "procs k1 cur = Some C" "vnodes k1 = vnodes k" "procs k1 ?p = Some ?P"
    using cur ne by (simp_all add: k1 entered_sel)
  show ?thesis
  proof (cases "p_cwd C")
    case None
    have "proc_create_runprogram al k = Some (Some ?p, k1)"
      using None c upd k1c by (simp add: proc_create_runprogram_def)
    moreover have "?P\<lparr>p_cwd := p_cwd C\<rparr> = ?P" by (simp add: None fresh_proc_def)
    then have "k1 = (entered i (?P\<lparr>p_cwd := p_cwd C\<rparr>) k)\<lparr>vnodes := vnodes k\<rparr>"
      by (simp add: k1) (simp add: entered_def)
    ultimately show ?thesis using i by blast
  next
    case (Some d)
    with cwd obtain v where v: "vnodes k d = Some v" by auto
    let ?vs = "(vnodes k)(d \<mapsto> v\<lparr>vn_refcount := vn_refcount v + 1\<rparr>)"
    have "proc_create_runprogram al k = Some (Some ?p, k1\<lparr>vnodes := ?vs, procs := (procs k1)(?p \<mapsto> ?P\<lparr>p_cwd := Some d\<rparr>)\<rparr>)"
    proof -
      have "upd_proc ?p (\<lambda>P. P\<lparr>p_cwd := Some d\<rparr>) (k1\<lparr>vnodes := ?vs\<rparr>) =
          Some (k1\<lparr>vnodes := ?vs, procs := (procs k1)(?p \<mapsto> ?P\<lparr>p_cwd := Some d\<rparr>)\<rparr>)"
        using k1c by (simp add: upd_proc_def)
      with Some c upd k1c v show ?thesis by (simp add: proc_create_runprogram_def vnode_incref_def)
    qed
    moreover have "k1\<lparr>vnodes := ?vs, procs := (procs k1)(?p \<mapsto> ?P\<lparr>p_cwd := Some d\<rparr>)\<rparr> =
        (entered i (?P\<lparr>p_cwd := p_cwd C\<rparr>) k)\<lparr>vnodes := ?vs\<rparr>"
      by (rule kstate.equality) (simp_all add: k1 entered_def Some)
    ultimately show ?thesis using i by metis
  qed
qed

text \<open>Copying an empty table empties the destination.\<close>

lemma copy_fds_empty:
  assumes "procs k psrc = Some S" and "fileTable S = replicate OPEN_MAX None" and "psrc \<noteq> pdest" and "procs k pdest = Some D"
    and "\<forall>fd\<in>set fds. fd < OPEN_MAX"
  shows "copy_fds psrc pdest fds k =
    Some (k\<lparr>procs := (procs k)(pdest \<mapsto> D\<lparr>fileTable := fold (\<lambda>fd t. t[fd := None]) fds (fileTable D)\<rparr>)\<rparr>)"
  using assms
proof (induction fds arbitrary: k D)
  case Nil
  then show ?case by (simp add: fun_upd_idem)
next
  case (Cons fd fds)
  let ?D = "D\<lparr>fileTable := (fileTable D)[fd := None]\<rparr>"
  have "copy_fds psrc pdest (fd # fds) k = copy_fds psrc pdest fds (k\<lparr>procs := (procs k)(pdest \<mapsto> ?D)\<rparr>)"
    using Cons.prems by (simp add: upd_proc_def openfileIncrRefCount_def Let_def)
  also have "\<dots> = Some (k\<lparr>procs := (procs k)(pdest \<mapsto> ?D)\<rparr>\<lparr>procs := (procs (k\<lparr>procs := (procs k)(pdest \<mapsto> ?D)\<rparr>))
      (pdest \<mapsto> ?D\<lparr>fileTable := fold (\<lambda>fd t. t[fd := None]) fds (fileTable ?D)\<rparr>)\<rparr>)"
    by (rule Cons.IH) (use Cons.prems in auto)
  finally show ?case by (simp add: fun_upd_def cong: if_cong)
qed

lemma fold_clear:
  "fold (\<lambda>fd t. t[fd := None]) [0..<n] t = (if n \<le> length t then replicate n None @ drop n t else replicate (length t) None)"
proof (induction n)
  case (Suc n)
  then show ?case
    by (auto simp: list_update_append replicate_append_same [symmetric] Cons_nth_drop_Suc [symmetric] not_less_eq_eq
        intro!: nth_equalityI)
qed simp

lemma sys_fork_total:
  assumes inv: "procs_inv k" and al: "\<And>i. i \<le> 8 \<Longrightarrow> al i"
    and slot: "1 \<le> j" "j \<le> MAX_PROC" "j \<noteq> last_i k" "processTable k ! j = None"
    and cur: "curproc k = Some cur" "procs k cur = Some C" "length (fileTable C) = OPEN_MAX"
    and cwd: "\<And>c. p_cwd C = Some c \<Longrightarrow> vnodes k c \<noteq> None"
    and old: "p_addrspace C = Some old" and cp: "as_copy io old (vm k) = Some (Inr b, m)" and t: "t_proc k t = None"
  shows "\<exists>k' Q. sys_fork rc io al t k = Some (Inr (p_pid Q), k') \<and> processTable k ! p_pid Q = None \<and> 1 \<le> p_pid Q \<and> p_pid Q \<le> MAX_PROC \<and>
    procs k' = (procs k)(next_proc k \<mapsto> Q, cur \<mapsto> C\<lparr>fileTable := replicate OPEN_MAX None\<rparr>) \<and>
    p_numthreads Q = 1 \<and> p_addrspace Q = Some b \<and> p_cwd Q = p_cwd C \<and> fileTable Q = replicate OPEN_MAX None \<and>
    t_proc k' = (t_proc k)(t \<mapsto> next_proc k)"
proof -
  let ?p = "next_proc k"
  have al': "al 0" "al 1" "al 5" "al 6" "al 7" "al 8" by (simp_all add: al)
  from proc_create_runprogram_total [OF inv al'(1,2) slot cur(1,2) cwd] obtain i vs
    where c: "proc_create_runprogram al k = Some (Some ?p,
        (entered i ((fresh_proc i (sem_create (al 2) (al 3) (al 4) 0))\<lparr>p_cwd := p_cwd C\<rparr>) k)\<lparr>vnodes := vs\<rparr>)"
      and i: "1 \<le> i" "i \<le> MAX_PROC" "processTable k ! i = None" by blast
  define P where "P = (fresh_proc i (sem_create (al 2) (al 3) (al 4) 0))\<lparr>p_cwd := p_cwd C\<rparr>"
  define k1 where "k1 = (entered i P k)\<lparr>vnodes := vs\<rparr>"
  define P2 where "P2 = P\<lparr>p_addrspace := Some b\<rparr>"
  define k2 where "k2 = k1\<lparr>vm := m, procs := (procs k1)(?p \<mapsto> P2)\<rparr>"
  define k3 where "k3 = k2\<lparr>procs := (procs k2)(cur \<mapsto> C\<lparr>fileTable := replicate OPEN_MAX None\<rparr>)\<rparr>"
  define Q where "Q = P2\<lparr>p_numthreads := p_numthreads P2 + 1\<rparr>"
  from cur(2) procs_inv_fresh [OF inv] have ne: "cur \<noteq> ?p" by auto
  have k1: "procs k1 cur = Some C" "vm k1 = vm k" "procs k1 ?p = Some P"
    using cur ne by (simp_all add: k1_def entered_sel)
  have sp: "fork_space io old ?p k1 = Some k2"
    using cp k1 by (simp add: fork_space_def upd_proc_def k2_def P2_def)
  have k2: "procs k2 ?p = Some P2" "procs k2 cur = Some C" using k1 ne by (simp_all add: k2_def)
  have P2: "p_addrspace P2 = Some b" "fileTable P2 = replicate OPEN_MAX None" "p_pid P2 = i" "p_numthreads P2 = 0" "p_cwd P2 = p_cwd C"
    by (simp_all add: P2_def P_def fresh_proc_def)
  have cpy: "proc_file_table_copy ?p cur k2 = Some k3"
    using copy_fds_empty [OF k2(1) P2(2) ne [symmetric] k2(2), of "[0..<OPEN_MAX]"] cur(3)
    by (simp add: proc_file_table_copy_def fold_clear k3_def del: upt_Suc fold_simps(2))
  have k3: "procs k3 ?p = Some P2" "t_proc k3 t = None" using k2 ne t by (simp_all add: k3_def k2_def k1_def entered_sel)
  have add: "proc_addthread ?p t k3 = Some (sync_as (k3\<lparr>procs := (procs k3)(?p \<mapsto> Q), t_proc := (t_proc k3)(t := Some ?p)\<rparr>))"
    using k3 by (simp add: proc_addthread_def upd_proc_def Q_def)
  define k4 where "k4 = sync_as (k3\<lparr>procs := (procs k3)(?p \<mapsto> Q), t_proc := (t_proc k3)(t := Some ?p)\<rparr>)"
  have k4: "procs k4 ?p = Some Q" by (simp add: k4_def sync_as_def)
  have "sys_fork rc io al t k = Some (Inr (p_pid Q), k4)"
    using cur(1) c k1 old sp k2 P2 al' cpy add k4
    by (simp add: sys_fork_def P_def [symmetric] k1_def [symmetric] k4_def [symmetric])
  moreover have "procs k4 = (procs k)(?p \<mapsto> Q, cur \<mapsto> C\<lparr>fileTable := replicate OPEN_MAX None\<rparr>)"
    using ne by (auto simp: k4_def sync_as_def k3_def k2_def k1_def entered_sel fun_eq_iff)
  moreover have "t_proc k4 = (t_proc k)(t \<mapsto> ?p)" by (simp add: k4_def sync_as_def k3_def k2_def k1_def entered_sel)
  moreover have "p_pid Q = i" "p_numthreads Q = 1" "p_addrspace Q = Some b" "fileTable Q = replicate OPEN_MAX None" "p_cwd Q = p_cwd C"
    using P2 by (simp_all add: Q_def)
  ultimately show ?thesis using i by (intro exI [of _ k4] exI [of _ Q]) simp
qed

end
