(* ===== verification/Example_Machine.thy ===== *)
theory Example_Machine
  imports VmSystem
begin

text \<open>
  A concrete machine with eight frames on which the hypotheses of the properties of the virtual
  memory system hold: it boots, makes an address space with a code segment backed by a five-byte
  file and a stack, and can take a fault on either.
\<close>

definition ex_file :: "u8 list" where
  "ex_file = [11, 22, 33, 44, 55]"

definition ex_io :: vm_io where
  "ex_io = \<lparr>io_kmalloc = True, io_open = True, io_swap_write = (\<lambda>_. 0), io_swap_read = (\<lambda>_. (None, 0)),
     io_vop_read = (\<lambda>v off len. (None, take len (drop (nat off) ex_file)))\<rparr>"

definition ex_boot :: vm_state where
  "ex_boot = \<lparr>coremap = [], coremapActive = False, cm_victim = 0,
     ram = \<lparr>firstpaddr = page_addr 2, lastpaddr = page_addr 8\<rparr>,
     swap = \<lparr>swap_list = [], swap_open = False, timesOut = 0, timesIn = 0, swap_data = (\<lambda>_. 0)\<rparr>,
     tlb = replicate 64 (0, 0), tlb_victim = 0, stats = \<lparr>counters = [], is_active = False\<rparr>,
     mem = (\<lambda>_. 0), pts = Map.empty, ases = Map.empty, next_ptr = 0, curas = None\<rparr>"

definition ex_started :: vm_state where
  "ex_started = ex_boot\<lparr>coremap := replicate 8 \<lparr>ce_as = None, status = clean, ce_vaddr = 0, alloc_size = 0\<rparr>,
     coremapActive := True, tlb_victim := 0, stats := init_statistics (stats ex_boot)\<rparr>"

lemma ex_bootstrap: "vm_bootstrap ex_io ex_boot = Some ex_started"
  by (simp add: vm_bootstrap_def coremap_init_def ex_started_def ex_io_def ex_boot_def ram_getsize_def
      unat_page_addr Let_def)

definition ex_created :: vm_state where
  "ex_created = snd (the (as_create ex_io ex_started))"

lemma ex_create: "as_create ex_io ex_started = Some (Some 1, ex_created)"
proof -
  have "\<exists>s. as_create ex_io ex_started = Some (Some 1, s)"
    by (simp add: as_create_def seg_create_def pt_create_def swapfile_init_def ex_io_def ex_started_def ex_boot_def Let_def)
  then show ?thesis by (auto simp: ex_created_def)
qed

definition ex_active :: vm_state where
  "ex_active = the (as_activate (ex_created\<lparr>curas := Some 1\<rparr>))"

lemma ex_activate: "as_activate (ex_created\<lparr>curas := Some 1\<rparr>) = Some ex_active"
  by (simp add: ex_active_def as_activate_def Let_def)

definition ex_code :: segment where
  "ex_code = \<lparr>p_type = PT_LOAD, p_offset = 0, p_vaddr = 0x400000, p_filesz = 5, p_memsz = 8192,
     p_permission = 5, seg_vnode = Some 7\<rparr>"

definition ex_stack :: segment where
  "ex_stack = \<lparr>p_type = PT_LOAD, p_offset = 0, p_vaddr = USERSTACK - VMC1_STACKPAGES * 4096, p_filesz = 0,
     p_memsz = VMC1_STACKPAGES * 4096, p_permission = PF_S, seg_vnode = None\<rparr>"

definition ex_as :: addrspace where
  "ex_as = \<lparr>as_pt = 0, as_code = ex_code, as_data = empty_segment, as_stack = ex_stack\<rparr>"

text \<open>After \<open>load_elf\<close> and \<open>as_define_stack\<close>.\<close>

definition ex_state :: vm_state where
  "ex_state = ex_active\<lparr>ases := (ases ex_active)(1 \<mapsto> ex_as)\<rparr>"

lemma ex_regions:
  "as_define_region (fresh_as 0) PT_LOAD 0 0x400000 8192 5 True False True 0 (Some 7)
     = Some ((fresh_as 0)\<lparr>as_code := ex_code\<rparr>)"
  "as_define_stack ((fresh_as 0)\<lparr>as_code := ex_code\<rparr>) = Some (USERSTACK, ex_as)"
  by (simp_all add: as_define_region_def fresh_as_def empty_segment_def seg_define_def seg_check_undefined_def
      ex_code_def as_define_stack_def seg_define_stack_def ex_as_def ex_stack_def Let_def)

lemma vm_inv_set_segments:
  assumes "vm_inv X s" and "curas s = Some a" and "ases s a = Some A" and "as_pt A' = as_pt A"
  shows "vm_inv X (s\<lparr>ases := (ases s)(a \<mapsto> A')\<rparr>)" and "content (s\<lparr>ases := (ases s)(a \<mapsto> A')\<rparr>) = content s"
  using assms by (auto simp: vm_inv_def content_def cur_map_def cur_pt_def)

lemma ex_active_ok: "vm_inv {} ex_active \<and> stats_balanced 0 (stats ex_active) \<and> content ex_active = (\<lambda>_. None)"
proof (rule first_address_space [OF _ _ _ _ ex_bootstrap ex_create _ ex_activate])
  show "ram_frames (ram ex_boot) 2 (nRamFrames ex_started)"
    by (simp add: ex_boot_def ex_started_def ram_frames_def)
qed (simp_all add: ex_boot_def ex_started_def)

lemma ex_active_as: "curas ex_active = Some 1" "ases ex_active 1 = Some (fresh_as 0)"
  "ram ex_active = ram ex_boot" "length (tlb ex_active) = 64"
  "nRamFrames ex_active = 8" "coremap ex_active = coremap ex_started" "next_ptr ex_active = 2"
proof -
  from as_create_SomeD [OF ex_create] obtain pt sw where c: "ex_created = ex_started\<lparr>pts := (pts ex_started)(next_ptr ex_started \<mapsto> pt),
      ases := (ases ex_started)(1 \<mapsto> fresh_as (next_ptr ex_started)), next_ptr := next_ptr ex_started + 2, swap := sw\<rparr>" by blast
  from ex_activate have a: "ex_active = ex_created\<lparr>curas := Some 1, tlb := tlb_flush (tlb ex_created), stats := tick TLB_INVALIDATE (stats ex_created)\<rparr>"
    by (auto simp: as_activate_def Let_def)
  have len: "length (tlb ex_created) = 64" by (simp add: c ex_started_def ex_boot_def)
  show "curas ex_active = Some 1" "ases ex_active 1 = Some (fresh_as 0)" "ram ex_active = ram ex_boot"
    "nRamFrames ex_active = 8" "coremap ex_active = coremap ex_started" "next_ptr ex_active = 2"
    by (simp_all add: a c ex_started_def) (simp_all add: ex_boot_def)
  show "length (tlb ex_active) = 64" by (simp add: a tlb_flush_eq [OF len])
qed

lemma ex_state_ok: "vm_inv {} ex_state" "stats_balanced 0 (stats ex_state)" "content ex_state = (\<lambda>_. None)"
  using vm_inv_set_segments [of "{}" ex_active 1 "fresh_as 0" ex_as] ex_active_ok ex_active_as
  by (simp_all add: ex_state_def ex_as_def fresh_as_def)

lemma ex_state_as: "curas ex_state = Some 1" "ases ex_state 1 = Some ex_as"
  by (simp_all add: ex_state_def ex_active_as)

lemma ex_state_room: "vm_room ex_io ex_state"
  by (simp add: vm_room_def io_reliable_def ex_io_def ex_state_def ex_active_as ex_boot_def ram_stealmem_def
      page_addr_def Let_def)

lemma ex_tlb_empty: "p < 0x80000 \<Longrightarrow> \<not> tlb_has (tlb ex_state) p"
proof -
  have a: "tlb ex_active = tlb_flush (tlb ex_created)"
    by (simp add: ex_active_def as_activate_def Let_def)
  from as_create_SomeD [OF ex_create] obtain pt sw where "ex_created = ex_started\<lparr>pts := (pts ex_started)(next_ptr ex_started \<mapsto> pt),
      ases := (ases ex_started)(1 \<mapsto> fresh_as (next_ptr ex_started)), next_ptr := next_ptr ex_started + 2, swap := sw\<rparr>" by blast
  from arg_cong [OF this, of tlb] have "length (tlb ex_created) = 64"
    by (simp only: vm_state.simps) (simp add: ex_started_def ex_boot_def)
  then show "p < 0x80000 \<Longrightarrow> \<not> tlb_has (tlb ex_state) p"
    using tlb_ok_flush(2) by (simp add: ex_state_def a)
qed

lemma ex_fault_code: "fault_at ex_state 0x400004 1 ex_as Code"
  using ex_tlb_empty [of "vpn 0x400004"] ex_state_ok ex_state_as
  by (simp add: fault_at_def as_get_segment_def ex_as_def ex_code_def vpn_def Let_def)

lemma ex_fault_stack: "fault_at ex_state 0x7ffffffc 1 ex_as Stack"
  using ex_tlb_empty [of "vpn 0x7ffffffc"] ex_state_ok ex_state_as
  by (simp add: fault_at_def as_get_segment_def ex_as_def ex_code_def ex_stack_def empty_segment_def vpn_def Let_def)

lemma ex_code_backed: "seg_backed ex_io (as_seg Code ex_as) 0x400004 ex_file"
  by (simp add: seg_backed_def ex_as_def ex_code_def seg_aligned_def seg_contains_def ex_file_def io_file_def ex_io_def)

lemma ex_stack_backed: "seg_backed ex_io (as_seg Stack ex_as) 0x7ffffffc c"
  by (simp add: seg_backed_def ex_as_def ex_stack_def)

text \<open>A run of the program: it faults on its stack, stores a byte there, reads it back.\<close>

definition ex_init :: "nat \<Rightarrow> bytes" where
  "ex_init p = (if p = vpn 0x7ffffffc then zero_page else seg_page_content ex_file ex_code 0x400004)"

definition ex_events :: "vm_event list" where
  "ex_events = ([] @ [Fault VM_FAULT_WRITE 0x7ffffffc]) @ [Store 0x7ffffffc 42] @ [Load 0x7ffffffc 42]"

lemma ex_backed: "backed_at ex_io ex_init ex_state 0x7ffffffc"
  using ex_fault_stack ex_stack_backed
  by (fastforce simp: backed_at_def fault_at_def fresh_content_def ex_init_def ex_as_def ex_stack_def)

lemma ex_run: "\<exists>s'. vm_run ex_io ex_init ex_events ex_state s' \<and> load_byte 0x7ffffffc s' = Some 42"
proof -
  from vm_fault_resolves [OF ex_fault_stack _ ex_stack_backed ex_state_ok(2) ex_state_room]
  obtain s1 where s1: "vm_fault ex_io VM_FAULT_WRITE 0x7ffffffc ex_state = Some (Resolved, s1)" by blast
  from vm_fault_correct [OF ex_fault_stack _ ex_stack_backed ex_state_ok(2) s1]
  obtain pa where tr: "tlb_translate (tlb s1) 0x7ffffffc = Some (pa, True)"
    by (auto simp: fault_done_def writable_def ex_as_def ex_stack_def)
  define s2 where "s2 = s1\<lparr>mem := (mem s1)(unat pa + offset_in 0x7ffffffc := 42)\<rparr>"
  have st: "store_byte 0x7ffffffc 42 s1 = Some s2" and ld: "load_byte 0x7ffffffc s2 = Some 42"
    using tr by (simp_all add: store_byte_def load_byte_def s2_def)
  have "vm_run ex_io ex_init ([] @ [Fault VM_FAULT_WRITE 0x7ffffffc]) ex_state s1"
    by (rule run_snoc [OF run_nil], rule step_fault)
      (use s1 ex_backed ex_tlb_empty [of "vpn 0x7ffffffc"] in \<open>simp_all add: vpn_def\<close>)
  from run_snoc [OF run_snoc [OF this step_store [OF _ st]] step_load [OF _ ld]] ld
  show ?thesis unfolding ex_events_def by fastforce
qed

text \<open>The same machine after the kernel has given back frame 1.\<close>

definition ex_free :: vm_state where
  "ex_free = ex_state\<lparr>coremap := (coremap ex_state)[1 := \<lparr>ce_as = None, status = free, ce_vaddr = 0, alloc_size = 0\<rparr>]\<rparr>"

lemma ex_frames: "coremap ex_state = replicate 8 \<lparr>ce_as = None, status = clean, ce_vaddr = 0, alloc_size = 0\<rparr>"
  "coremapActive ex_state" "firstpaddr (ram ex_state) = page_addr 2" "next_ptr ex_state = 2"
  using ex_state_ok(1) by (auto simp: ex_state_def ex_active_as ex_started_def ex_boot_def vm_inv_def)

lemma ex_free_ok: "vm_inv {} ex_free" "free_clean ex_free" "free_run (coremap ex_free) 1 1"
proof -
  from ex_state_ok(1) obtain a A pt nxt where i: "curas ex_state = Some a" "ases ex_state a = Some A"
      "pts ex_state (as_pt A) = Some pt" "pt_wf pt" "ram_frames (ram ex_state) nxt (nRamFrames ex_state)"
      "entries_inv {} (pt_entry pt) (coremap ex_state) (swap ex_state)"
      "frames_inv {} (pt_entry pt) (coremap ex_state) nxt a"
      "slots_inv (pt_entry pt) (swap ex_state)" "swap_wf (swap ex_state)"
      "tlb_ok (tlb_maps (pt_entry pt)) (tlb ex_state)" "tlb_victim ex_state < NUM_TLB"
      "coremapActive ex_state" "cm_victim ex_state < nRamFrames ex_state" "2 < nRamFrames ex_state"
    unfolding vm_inv_def by blast
  have len: "length (coremap ex_free) = length (coremap ex_state)" by (simp add: ex_free_def)
  have nth: "coremap ex_free ! f = (if f = 1 then \<lparr>ce_as = None, status = free, ce_vaddr = 0, alloc_size = 0\<rparr> else coremap ex_state ! f)"
    if "f < 8" for f
    using that by (simp add: ex_free_def ex_frames)
  have clean: "status (coremap ex_state ! f) = clean" if "f < 8" for f
    using that by (simp add: ex_frames)
  have nxt: "nxt = 2" using i(5) ex_frames(3) page_addr_eq_iff [of nxt 2] by (simp add: ram_frames_def ex_frames(1))
  have "entries_inv {} (pt_entry pt) (coremap ex_free) (swap ex_state)"
    using i(6) clean unfolding entries_inv_def resident_def by (fastforce simp: ex_frames(1))
  moreover have "frames_inv {} (pt_entry pt) (coremap ex_free) nxt a"
    using nth clean unfolding frames_inv_def len nxt by (simp add: ex_frames(1))
  ultimately show "vm_inv {} ex_free"
    unfolding vm_inv_def len using i by (intro exI [of _ a] exI [of _ A] exI [of _ pt] exI [of _ nxt]) (simp add: ex_free_def)
  show "free_clean ex_free" using nth [of 0]
    by (auto simp: free_clean_def ex_free_def ex_frames dest!: subsetD [OF set_update_subset_insert])
  show "free_run (coremap ex_free) 1 1"
    using nth [of 1] by (simp add: free_run_def ex_free_def ex_frames)
qed

lemma ex_swap: "swap_wf (swap ex_state)" "swap_slot (swap ex_state) k = None"
proof -
  from as_create_SomeD [OF ex_create] obtain pt sw where c: "swapfile_init ex_io (swap ex_started) = Some sw"
    "ex_created = ex_started\<lparr>pts := (pts ex_started)(next_ptr ex_started \<mapsto> pt),
      ases := (ases ex_started)(1 \<mapsto> fresh_as (next_ptr ex_started)), next_ptr := next_ptr ex_started + 2, swap := sw\<rparr>" by blast
  have "swap ex_state = swap ex_created" by (simp add: ex_state_def ex_active_def as_activate_def Let_def)
  with arg_cong [OF c(2), of swap] have "swap ex_state = sw" by simp
  with swap_wf_init [OF c(1)] show "swap_wf (swap ex_state)" "swap_slot (swap ex_state) k = None" by auto
qed

end
