(* ===== verification/Example_Kernel.thy ===== *)
theory Example_Kernel
  imports ProcSyscalls Example_Machine
begin

text \<open>
  A concrete kernel state for the witnesses: the kernel process (pid 1, thread 0) and a user
  process (pid 2, thread 1) that runs in the address space of theory Example_Machine, with a
  current directory (vnode 3) and its executable (vnode 7).
\<close>

definition ex_kernel_proc :: proc where
  "ex_kernel_proc = (fresh_proc 1 (Some \<lparr>sem_count = 0, sem_wchan = []\<rparr>))\<lparr>p_numthreads := 1\<rparr>"

definition ex_proc :: proc where
  "ex_proc = (fresh_proc 2 (Some \<lparr>sem_count = 0, sem_wchan = []\<rparr>))\<lparr>p_numthreads := 1, p_addrspace := Some 1, p_cwd := Some 3\<rparr>"

definition ex_kernel :: kstate where
  "ex_kernel = \<lparr>vm = ex_state,
     vnodes = [3 \<mapsto> \<lparr>vn_refcount = 2, vn_fs = Some 0, vn_ops = True\<rparr>, 7 \<mapsto> \<lparr>vn_refcount = 1, vn_fs = Some 0, vn_ops = True\<rparr>],
     procs = [0 \<mapsto> ex_kernel_proc, 1 \<mapsto> ex_proc], next_proc = 2,
     processTable = (replicate (MAX_PROC + 1) None)[1 := Some 0, 2 := Some 1], table_active = True, last_i = 2,
     kproc = Some 0, t_proc = (\<lambda>_. None)(0 := Some 0, 1 := Some 1), curthread = 1,
     systemFileTable = replicate SYSTEM_OPEN_MAX \<lparr>of_vn = None, of_offset = 0, countRef = 0\<rparr>\<rparr>"

definition ex_reclaim :: "nat \<Rightarrow> vnodes \<Rightarrow> vnodes" where
  "ex_reclaim vn vs = vs(vn := None)"

lemma ex_reclaims: "reclaims ex_reclaim"
  by (simp add: reclaims_def ex_reclaim_def)

lemma ex_kernel_sel [simp]:
  "procs ex_kernel = [0 \<mapsto> ex_kernel_proc, 1 \<mapsto> ex_proc]" "kproc ex_kernel = Some 0" "curproc ex_kernel = Some 1"
  "t_proc ex_kernel 0 = Some 0" "t_proc ex_kernel 5 = None" "vm ex_kernel = ex_state" "curthread ex_kernel = 1" "last_i ex_kernel = 2"
  "next_proc ex_kernel = 2"
  by (simp_all add: ex_kernel_def curproc_def)

lemma ex_table: "i \<le> MAX_PROC \<Longrightarrow> processTable ex_kernel ! i = (if i = 1 then Some 0 else if i = 2 then Some 1 else None)"
  by (simp add: ex_kernel_def nth_list_update)

lemma ex_kernel_inv: "procs_inv ex_kernel"
  unfolding procs_inv_def
proof (intro conjI allI impI)
  show "length (processTable ex_kernel) = MAX_PROC + 1" by (simp add: ex_kernel_def)
  show "processTable ex_kernel ! 0 = None" by (simp add: ex_table)
  show "\<exists>P. procs ex_kernel p = Some P \<and> p_pid P = i" if "i \<le> MAX_PROC" "processTable ex_kernel ! i = Some p" for i p
    using that by (auto simp: ex_table ex_kernel_proc_def ex_proc_def fresh_proc_def split: if_splits)
qed (auto simp: ex_table ex_kernel_proc_def ex_proc_def fresh_proc_def split: if_splits)

lemma ex_reapable: "reapable 1 ex_kernel ex_proc"
proof -
  from as_destroy_frees [OF ex_state_ok(1) ex_state_as(1)] obtain v m where d: "as_destroy 1 ex_state = Some (v, m)"
    by (auto simp: ex_frames)
  with ex_state_as(2) have "v = Some 7"
    by (auto simp: as_destroy_def bind_eq_Some_conv ex_as_def ex_code_def Let_def)
  with d show ?thesis
    by (simp add: reapable_def ex_kernel_def ex_proc_def fresh_proc_def vnodes_ok_def)
qed

end
