(* ===== verification/ProcessProperties.thy ===== *)
theory ProcessProperties
  imports Example_Kernel
begin

text \<open>
  The properties of processes and of the files they have open: they span the process table, the
  semaphores, the address spaces and the vnodes.
\<close>

text \<open>C21: An exit status reaches the process that waits: when the only thread of a process calls
  \<open>sys__exit\<close> and another process then calls \<open>sys_waitpid\<close> on its pid, the wait does not block,
  returns the pid and delivers the low 8 bits of the status; the process structure and its slot in
  the process table are free again and no other process has changed.\<close>

theorem exit_status_is_delivered:
  assumes "procs_inv k" and "curproc k = Some p" and "procs k p = Some P" and "p_numthreads P = 1"
    and "p_sem P = Some \<lparr>sem_count = 0, sem_wchan = []\<rparr>" and "p_pid P < MAX_PROC" and "kproc k \<noteq> Some p"
    and "reapable p k P" and "reclaims rc" and "t_proc k u = Some q" and "q \<noteq> p"
  shows "\<exists>k1 k2. sys__exit code k = Some ([], k1) \<and>
    sys_waitpid rc (int (p_pid P)) sp (sync_as (k1\<lparr>curthread := u\<rparr>)) =
      Some (Some (int (p_pid P), if sp \<noteq> 0 then Some (sp, code AND 0xff) else None), k2) \<and>
    procs k2 p = None \<and> processTable k2 = (processTable k)[p_pid P := None] \<and> (\<forall>r. r \<noteq> p \<longrightarrow> procs k2 r = procs k r)"
proof -
  define s where "s = \<lparr>sem_count = (1 :: u32), sem_wchan = []\<rparr>"
  define P' where "P' = P\<lparr>p_status := code AND 0xff, p_numthreads := p_numthreads P - 1, p_sem := Some s\<rparr>"
  define k1 where "k1 = sync_as ((exited p P code s k)\<lparr>curthread := u\<rparr>)"
  have "V \<lparr>sem_count = 0, sem_wchan = []\<rparr> = Some ([], s)" by (simp add: V_def wchan_wakeone_def s_def Let_def)
  then have ex: "sys__exit code k = Some ([], exited p P code s k)"
    using assms by (intro sys__exit_eq) simp_all
  have "touches p k (exited p P code s k)" by (rule sys__exit_touches [OF ex assms(2)])
  then have inv1: "procs_inv k1" using procs_inv_touches [OF assms(1)] by (simp add: k1_def)
  have P1: "procs k1 p = Some P'" by (simp add: k1_def sync_as_def exited_def P'_def)
  from reapable_exited [OF assms(8,10,11,2), of code s]
  have ok: "reapable p k1 P'" and cur: "curproc k1 = Some q" by (simp_all add: k1_def P'_def)
  have kp: "kproc k1 \<noteq> Some p" using assms(7) by (simp add: k1_def sync_as_def exited_def)
  from proc_wait_pass_total [OF P1 ok assms(9) kp, unfolded cur] assms(4,11) obtain k2
    where w: "proc_wait_pass rc p k1 = Some (Some (code AND 0xff), k2)" and rm: "removed p (p_pid P') k1 k2"
    by (auto simp: P'_def s_def)
  have "sys_waitpid rc (int (p_pid P)) sp k1 = Some (Some (int (p_pid P), if sp \<noteq> 0 then Some (sp, code AND 0xff) else None), k2)"
    using proc_search_pid_eq [OF inv1 P1] assms(6) w by (simp add: sys_waitpid_def P'_def)
  with ex rm show ?thesis
    unfolding k1_def by (intro exI conjI) (auto simp: removed_def sync_as_def exited_def P'_def)
qed

theorem exit_status_is_delivered_witness:
  "\<exists>k1 k2. sys__exit 0x107 ex_kernel = Some ([], k1) \<and>
     sys_waitpid ex_reclaim 2 0x7fff0000 (sync_as (k1\<lparr>curthread := 0\<rparr>)) = Some (Some (2, Some (0x7fff0000, 7)), k2) \<and>
     procs k2 1 = None"
proof -
  have P: "p_pid ex_proc = 2" "p_numthreads ex_proc = 1" "p_sem ex_proc = Some \<lparr>sem_count = 0, sem_wchan = []\<rparr>"
    by (simp_all add: ex_proc_def fresh_proc_def)
  have "curproc ex_kernel = Some 1" "procs ex_kernel 1 = Some ex_proc" "kproc ex_kernel \<noteq> Some 1"
    "t_proc ex_kernel 0 = Some 0" "(0 :: nat) \<noteq> 1" "p_pid ex_proc < MAX_PROC" by (simp_all add: P)
  from exit_status_is_delivered [OF ex_kernel_inv this(1,2) P(2,3) this(6,3) ex_reapable ex_reclaims this(4,5), of "0x107" "0x7fff0000"]
  show ?thesis unfolding P(1) by (elim exE conjE) (intro exI conjI, simp_all)
qed





end
