(* ===== verification/VfsList.thy ===== *)
theory VfsList
  imports Vnode
begin

text \<open>
  The table of named devices and mounted file systems: \<open>kern/vfs/vfslist.c\<close>. A pointer to a
  \<open>struct fs\<close> is a number, with the two special values the field \<open>kd_fs\<close> takes. The table is the
  list of its entries, as \<open>knowndevarray\<close> keeps them. The big lock is seen by the thread that runs:
  its depth, 0 when the thread does not hold it; waiting for another thread is left out.

  The operations of file systems and vnodes reach the code through tables of function pointers
  (\<open>fs.h\<close>, \<open>vnode.h\<close>). They are a record of functions here, on the state of the VFS layer, whose
  field \<open>fsd\<close>, of any type, is the private data of the file systems. \<open>fsop_sync fs i\<close> is the result
  of the \<open>i\<close>-th flush in a call. Transfers through a \<open>uio\<close> are left out. Names are strings without
  the terminating NUL.
\<close>

section \<open>State\<close>

datatype fs_ref = No_fs | SWAP_FS | A_fs nat

record knowndev =
  kd_name :: string
  kd_rawname :: "string option"
  kd_device :: "nat option"
  kd_vnode :: nat
  kd_fs :: fs_ref

record 's vfs_state =
  nodes :: vnodes
  fsd :: 's
  knowndevs :: "knowndev list"
  devnumbers :: "nat \<Rightarrow> nat"
  biglock_depth :: nat
  bootfs_vnode :: "nat option"
  cwd :: "nat option"

record 's vfs_io =
  fsop_sync :: "nat \<Rightarrow> nat \<Rightarrow> errno option"
  fsop_getvolname :: "nat \<Rightarrow> string option"
  fsop_getroot :: "nat \<Rightarrow> 's vfs_state \<Rightarrow> ((errno + nat) \<times> 's vfs_state) option"
  fsop_unmount :: "nat \<Rightarrow> 's vfs_state \<Rightarrow> (errno option \<times> 's vfs_state) option"
  vop_reclaim :: "nat \<Rightarrow> 's vfs_state \<Rightarrow> (errno option \<times> 's vfs_state) option"
  vop_eachopen :: "nat \<Rightarrow> u32 \<Rightarrow> 's vfs_state \<Rightarrow> errno option"
  vop_gettype :: "nat \<Rightarrow> 's vfs_state \<Rightarrow> errno + u32"
  vop_truncate :: "nat \<Rightarrow> int \<Rightarrow> 's vfs_state \<Rightarrow> (errno option \<times> 's vfs_state) option"
  vop_lookup :: "nat \<Rightarrow> string \<Rightarrow> 's vfs_state \<Rightarrow> ((errno + nat) \<times> 's vfs_state) option"
  vop_lookparent :: "nat \<Rightarrow> string \<Rightarrow> 's vfs_state \<Rightarrow> ((errno + nat \<times> string) \<times> 's vfs_state) option"
  vop_creat :: "nat \<Rightarrow> string \<Rightarrow> bool \<Rightarrow> u32 \<Rightarrow> 's vfs_state \<Rightarrow> ((errno + nat) \<times> 's vfs_state) option"
  vop_symlink :: "nat \<Rightarrow> string \<Rightarrow> string \<Rightarrow> 's vfs_state \<Rightarrow> (errno option \<times> 's vfs_state) option"
  vop_mkdir :: "nat \<Rightarrow> string \<Rightarrow> u32 \<Rightarrow> 's vfs_state \<Rightarrow> (errno option \<times> 's vfs_state) option"
  vop_link :: "nat \<Rightarrow> string \<Rightarrow> nat \<Rightarrow> 's vfs_state \<Rightarrow> (errno option \<times> 's vfs_state) option"
  vop_remove :: "nat \<Rightarrow> string \<Rightarrow> 's vfs_state \<Rightarrow> (errno option \<times> 's vfs_state) option"
  vop_rmdir :: "nat \<Rightarrow> string \<Rightarrow> 's vfs_state \<Rightarrow> (errno option \<times> 's vfs_state) option"
  vop_rename :: "nat \<Rightarrow> string \<Rightarrow> nat \<Rightarrow> string \<Rightarrow> 's vfs_state \<Rightarrow> (errno option \<times> 's vfs_state) option"
  vop_readlink :: "nat \<Rightarrow> 's vfs_state \<Rightarrow> errno option"

text \<open>The macros that call a vnode's operation check the vnode first.\<close>

definition VOP :: "nat \<Rightarrow> 's vfs_state \<Rightarrow> 'r option \<Rightarrow> 'r option" where
  "VOP vn s r = do { vnode_check vn (nodes s); r }"

definition VOP_INCREF :: "nat \<Rightarrow> 's vfs_state \<Rightarrow> 's vfs_state option" where
  "VOP_INCREF vn s = do { vs \<leftarrow> vnode_incref vn (nodes s); Some (s\<lparr>nodes := vs\<rparr>) }"

definition VOP_DECREF :: "'s vfs_io \<Rightarrow> nat \<Rightarrow> 's vfs_state \<Rightarrow> 's vfs_state option" where
  "VOP_DECREF io vn s = do {
     (destroy, vs) \<leftarrow> vnode_decref_count vn (nodes s);
     let s = s\<lparr>nodes := vs\<rparr>;
     if destroy then do {
       (result, s) \<leftarrow> VOP vn s (vop_reclaim io vn s);
       Some s }
     else Some s }"

section \<open>The big lock\<close>

definition vfs_biglock_acquire :: "'s vfs_state \<Rightarrow> 's vfs_state" where
  "vfs_biglock_acquire s = s\<lparr>biglock_depth := biglock_depth s + 1\<rparr>"

definition vfs_biglock_do_i_hold :: "'s vfs_state \<Rightarrow> bool" where
  "vfs_biglock_do_i_hold s \<longleftrightarrow> biglock_depth s > 0"

definition vfs_biglock_release :: "'s vfs_state \<Rightarrow> 's vfs_state option" where
  "vfs_biglock_release s = do {
     kassert (vfs_biglock_do_i_hold s);
     kassert (biglock_depth s > 0);
     Some (s\<lparr>biglock_depth := biglock_depth s - 1\<rparr>) }"

section \<open>Looking up names\<close>

fun getroot_from :: "'s vfs_io \<Rightarrow> string \<Rightarrow> knowndev list \<Rightarrow> 's vfs_state \<Rightarrow> ((errno + nat) \<times> 's vfs_state) option" where
  "getroot_from io devname [] s = Some (Inl ENODEV, s)"
| "getroot_from io devname (kd # kds) s =
     (if (case kd_fs kd of A_fs fs \<Rightarrow> kd_name kd = devname \<or> fsop_getvolname io fs = Some devname | _ \<Rightarrow> False)
      then (case kd_fs kd of A_fs fs \<Rightarrow> fsop_getroot io fs s | _ \<Rightarrow> None)
      else if (case kd_fs kd of A_fs fs \<Rightarrow> False | _ \<Rightarrow> kd_rawname kd \<noteq> None \<and> kd_name kd = devname)
      then Some (Inl ENXIO, s)
      else if kd_name kd = devname then do {
        kassert (kd_fs kd = No_fs);
        kassert (kd_rawname kd = None);
        kassert (kd_device kd \<noteq> None);
        s \<leftarrow> VOP_INCREF (kd_vnode kd) s;
        Some (Inr (kd_vnode kd), s) }
      else if kd_rawname kd = Some devname then do {
        kassert (kd_device kd \<noteq> None);
        s \<leftarrow> VOP_INCREF (kd_vnode kd) s;
        Some (Inr (kd_vnode kd), s) }
      else getroot_from io devname kds s)"

definition vfs_getroot :: "'s vfs_io \<Rightarrow> string \<Rightarrow> 's vfs_state \<Rightarrow> ((errno + nat) \<times> 's vfs_state) option" where
  "vfs_getroot io devname s = do {
     kassert (vfs_biglock_do_i_hold s);
     getroot_from io devname (knowndevs s) s }"

definition vfs_getdevname :: "nat \<Rightarrow> 's vfs_state \<Rightarrow> string option option" where
  "vfs_getdevname fs s = do {
     kassert (vfs_biglock_do_i_hold s);
     Some (map_option kd_name (find (\<lambda>kd. kd_fs kd = A_fs fs) (knowndevs s))) }"

fun sync_from :: "'s vfs_io \<Rightarrow> knowndev list \<Rightarrow> errno option list" where
  "sync_from io [] = []"
| "sync_from io (kd # kds) =
     (case kd_fs kd of A_fs fs \<Rightarrow> fsop_sync io fs 0 # sync_from io kds | _ \<Rightarrow> sync_from io kds)"

section \<open>Adding devices\<close>

definition mkrawname :: "string \<Rightarrow> string" where
  "mkrawname name = name @ ''raw''"

definition samestring :: "string option \<Rightarrow> string option \<Rightarrow> bool" where
  "samestring a b = (case a of None \<Rightarrow> False | Some x \<Rightarrow> (case b of None \<Rightarrow> False | Some y \<Rightarrow> x = y))"

definition samestring3 :: "string option \<Rightarrow> string option \<Rightarrow> string option \<Rightarrow> string option \<Rightarrow> bool" where
  "samestring3 a b c d \<longleftrightarrow> samestring a b \<or> samestring a c \<or> samestring a d"

fun badnames :: "'s vfs_io \<Rightarrow> string option \<Rightarrow> string option \<Rightarrow> string option \<Rightarrow> knowndev list \<Rightarrow> bool" where
  "badnames io n1 n2 n3 [] = False"
| "badnames io n1 n2 n3 (kd # kds) =
     (if (case kd_fs kd of A_fs fs \<Rightarrow> samestring3 (fsop_getvolname io fs) n1 n2 n3 | _ \<Rightarrow> False) then True
      else if samestring3 (kd_rawname kd) n1 n2 n3 \<or> samestring3 (Some (kd_name kd)) n1 n2 n3 then True
      else badnames io n1 n2 n3 kds)"

definition dev_create_vnode :: "nat \<Rightarrow> 's vfs_state \<Rightarrow> 's vfs_state option" where
  "dev_create_vnode v s = do {
     vs \<leftarrow> vnode_init v True None (nodes s);
     Some (s\<lparr>nodes := vs\<rparr>) }"

definition dev_uncreate_vnode :: "nat \<Rightarrow> 's vfs_state \<Rightarrow> 's vfs_state option" where
  "dev_uncreate_vnode v s = do {
     vs \<leftarrow> vnode_cleanup v (nodes s);
     Some (s\<lparr>nodes := vs(v := None)\<rparr>) }"

text \<open>The cleanup after the label \<open>fail\<close> of \<open>vfs_doadd\<close>; the vnode is there or not.\<close>

definition doadd_fail :: "errno \<Rightarrow> nat option \<Rightarrow> 's vfs_state \<Rightarrow> (errno option \<times> 's vfs_state) option" where
  "doadd_fail e vnode s = do {
     s \<leftarrow> (case vnode of None \<Rightarrow> Some s | Some v \<Rightarrow> dev_uncreate_vnode v s);
     s \<leftarrow> vfs_biglock_release s;
     Some (Some e, s) }"

text \<open>\<open>al 0\<close> to \<open>al 4\<close> say whether the allocations of the name, the raw name, the vnode, the entry
  and the slot of the table succeed; \<open>v\<close> is the address of the vnode.\<close>

definition vfs_doadd ::
    "'s vfs_io \<Rightarrow> (nat \<Rightarrow> bool) \<Rightarrow> nat \<Rightarrow> string \<Rightarrow> bool \<Rightarrow> nat option \<Rightarrow> fs_ref \<Rightarrow> 's vfs_state \<Rightarrow> (errno option \<times> 's vfs_state) option" where
  "vfs_doadd io al v dname mountable dev fs s = do {
     let s = vfs_biglock_acquire s;
     let rawname = (if mountable then Some (mkrawname dname) else None);
     if \<not> al 0 then doadd_fail ENOMEM None s
     else if mountable \<and> \<not> al 1 then doadd_fail ENOMEM None s
     else if \<not> al 2 then doadd_fail ENOMEM None s
     else do {
       s \<leftarrow> dev_create_vnode v s;
       if \<not> al 3 then doadd_fail ENOMEM (Some v) s
       else do {
         let kd = \<lparr>kd_name = dname, kd_rawname = rawname, kd_device = dev, kd_vnode = v, kd_fs = fs\<rparr>;
         let volname = (case fs of A_fs f \<Rightarrow> fsop_getvolname io f | _ \<Rightarrow> None);
         if badnames io (Some dname) rawname volname (knowndevs s) then doadd_fail EEXIST (Some v) s
         else if \<not> al 4 then doadd_fail ENOMEM (Some v) s
         else do {
           let index = length (knowndevs s);
           let s = s\<lparr>knowndevs := knowndevs s @ [kd]\<rparr>;
           let s = (case dev of None \<Rightarrow> s | Some d \<Rightarrow> s\<lparr>devnumbers := (devnumbers s)(d := index + 1)\<rparr>);
           s \<leftarrow> vfs_biglock_release s;
           Some (None, s) } } } }"

definition vfs_adddev :: "'s vfs_io \<Rightarrow> (nat \<Rightarrow> bool) \<Rightarrow> nat \<Rightarrow> string \<Rightarrow> nat \<Rightarrow> bool \<Rightarrow> 's vfs_state \<Rightarrow> (errno option \<times> 's vfs_state) option" where
  "vfs_adddev io al v devname dev mountable s = vfs_doadd io al v devname mountable (Some dev) No_fs s"

definition vfs_addfs :: "'s vfs_io \<Rightarrow> (nat \<Rightarrow> bool) \<Rightarrow> nat \<Rightarrow> string \<Rightarrow> nat \<Rightarrow> 's vfs_state \<Rightarrow> (errno option \<times> 's vfs_state) option" where
  "vfs_addfs io al v devname fs s = vfs_doadd io al v devname False None (A_fs fs) s"

section \<open>Mounting\<close>

text \<open>The index of the first mountable device of that name.\<close>

fun findmount_from :: "nat \<Rightarrow> string \<Rightarrow> knowndev list \<Rightarrow> errno + nat" where
  "findmount_from i devname [] = Inl ENODEV"
| "findmount_from i devname (kd # kds) =
     (if kd_rawname kd = None then findmount_from (i + 1) devname kds
      else if devname = kd_name kd then Inr i
      else findmount_from (i + 1) devname kds)"

definition findmount :: "string \<Rightarrow> 's vfs_state \<Rightarrow> (errno + nat) option" where
  "findmount devname s = do {
     kassert (vfs_biglock_do_i_hold s);
     Some (findmount_from 0 devname (knowndevs s)) }"

definition set_fs :: "nat \<Rightarrow> fs_ref \<Rightarrow> 's vfs_state \<Rightarrow> 's vfs_state" where
  "set_fs i fs s = s\<lparr>knowndevs := (knowndevs s)[i := (knowndevs s ! i)\<lparr>kd_fs := fs\<rparr>]\<rparr>"

definition vfs_mount ::
    "string \<Rightarrow> (nat \<Rightarrow> 's vfs_state \<Rightarrow> ((errno + nat) \<times> 's vfs_state) option) \<Rightarrow> 's vfs_state \<Rightarrow> (errno option \<times> 's vfs_state) option" where
  "vfs_mount devname mountfunc s = do {
     let s = vfs_biglock_acquire s;
     result \<leftarrow> findmount devname s;
     (case result of
        Inl e \<Rightarrow> do { s \<leftarrow> vfs_biglock_release s; Some (Some e, s) }
      | Inr i \<Rightarrow> do {
          let kd = knowndevs s ! i;
          if kd_fs kd \<noteq> No_fs then do { s \<leftarrow> vfs_biglock_release s; Some (Some EBUSY, s) }
          else do {
            kassert (kd_rawname kd \<noteq> None);
            dev \<leftarrow> kd_device kd;
            (r, s) \<leftarrow> mountfunc dev s;
            (case r of
               Inl e \<Rightarrow> do { s \<leftarrow> vfs_biglock_release s; Some (Some e, s) }
             | Inr fs \<Rightarrow> do {
                 let s = set_fs i (A_fs fs) s;
                 s \<leftarrow> vfs_biglock_release s;
                 Some (None, s) }) } }) }"

definition drop_colon :: "string \<Rightarrow> string" where
  "drop_colon devname = (if devname \<noteq> [] \<and> last devname = CHR '':'' then butlast devname else devname)"

definition vfs_swapon :: "bool \<Rightarrow> string \<Rightarrow> 's vfs_state \<Rightarrow> ((errno + nat) \<times> 's vfs_state) option" where
  "vfs_swapon dup devname s =
     (if drop_colon devname \<noteq> devname \<and> \<not> dup then Some (Inl ENOMEM, s)
      else do {
        let devname = drop_colon devname;
        let s = vfs_biglock_acquire s;
        result \<leftarrow> findmount devname s;
        (case result of
           Inl e \<Rightarrow> do { s \<leftarrow> vfs_biglock_release s; Some (Inl e, s) }
         | Inr i \<Rightarrow> do {
             let kd = knowndevs s ! i;
             if kd_fs kd \<noteq> No_fs then do { s \<leftarrow> vfs_biglock_release s; Some (Inl EBUSY, s) }
             else do {
               kassert (kd_rawname kd \<noteq> None);
               kassert (kd_device kd \<noteq> None);
               let s = set_fs i SWAP_FS s;
               s \<leftarrow> VOP_INCREF (kd_vnode kd) s;
               s \<leftarrow> vfs_biglock_release s;
               Some (Inr (kd_vnode kd), s) } }) })"

definition vfs_unmount :: "'s vfs_io \<Rightarrow> string \<Rightarrow> 's vfs_state \<Rightarrow> (errno option \<times> 's vfs_state) option" where
  "vfs_unmount io devname s = do {
     let s = vfs_biglock_acquire s;
     result \<leftarrow> findmount devname s;
     (case result of
        Inl e \<Rightarrow> do { s \<leftarrow> vfs_biglock_release s; Some (Some e, s) }
      | Inr i \<Rightarrow> do {
          let kd = knowndevs s ! i;
          (case kd_fs kd of
             A_fs fs \<Rightarrow> do {
               kassert (kd_rawname kd \<noteq> None);
               kassert (kd_device kd \<noteq> None);
               (case fsop_sync io fs 0 of
                  Some e \<Rightarrow> do { s \<leftarrow> vfs_biglock_release s; Some (Some e, s) }
                | None \<Rightarrow> do {
                    (result, s) \<leftarrow> fsop_unmount io fs s;
                    (case result of
                       Some e \<Rightarrow> do { s \<leftarrow> vfs_biglock_release s; Some (Some e, s) }
                     | None \<Rightarrow> do {
                         let s = set_fs i No_fs s;
                         s \<leftarrow> vfs_biglock_release s;
                         Some (None, s) }) }) }
           | _ \<Rightarrow> do { s \<leftarrow> vfs_biglock_release s; Some (Some EINVAL, s) }) }) }"

definition vfs_swapoff :: "string \<Rightarrow> 's vfs_state \<Rightarrow> (errno option \<times> 's vfs_state) option" where
  "vfs_swapoff devname s = do {
     let s = vfs_biglock_acquire s;
     result \<leftarrow> findmount devname s;
     (case result of
        Inl e \<Rightarrow> do { s \<leftarrow> vfs_biglock_release s; Some (Some e, s) }
      | Inr i \<Rightarrow>
          if kd_fs (knowndevs s ! i) \<noteq> SWAP_FS then do { s \<leftarrow> vfs_biglock_release s; Some (Some EINVAL, s) }
          else do {
            let s = set_fs i No_fs s;
            s \<leftarrow> vfs_biglock_release s;
            Some (None, s) }) }"

text \<open>The loop of \<open>vfs_unmountall\<close>, over the indices of the table; a device whose flush fails twice
  or whose file system refuses stays mounted.\<close>

fun unmount_each :: "'s vfs_io \<Rightarrow> nat list \<Rightarrow> 's vfs_state \<Rightarrow> 's vfs_state option" where
  "unmount_each io [] s = Some s"
| "unmount_each io (i # is) s =
     (let dev = knowndevs s ! i in
      if kd_rawname dev = None then unmount_each io is s
      else (case kd_fs dev of
          No_fs \<Rightarrow> unmount_each io is s
        | SWAP_FS \<Rightarrow> unmount_each io is (set_fs i No_fs s)
        | A_fs fs \<Rightarrow>
            if fsop_sync io fs 0 \<noteq> None \<and> fsop_sync io fs 1 \<noteq> None then unmount_each io is s
            else do {
              (result, s) \<leftarrow> fsop_unmount io fs s;
              if result \<noteq> None then unmount_each io is s
              else unmount_each io is (set_fs i No_fs s) }))"

definition vfs_unmountall :: "'s vfs_io \<Rightarrow> 's vfs_state \<Rightarrow> 's vfs_state option" where
  "vfs_unmountall io s = do {
     let s = vfs_biglock_acquire s;
     s \<leftarrow> unmount_each io [0..<length (knowndevs s)] s;
     vfs_biglock_release s }"

definition vfs_sync :: "'s vfs_io \<Rightarrow> 's vfs_state \<Rightarrow> (errno option list \<times> 's vfs_state) option" where
  "vfs_sync io s = do {
     let s = vfs_biglock_acquire s;
     let flushed = sync_from io (knowndevs s);
     s \<leftarrow> vfs_biglock_release s;
     Some (flushed, s) }"

end
