(* ===== verification/VfsLookup.thy ===== *)
theory VfsLookup
  imports VfsList
begin

text \<open>
  The current directory and the start of path translation: \<open>kern/vfs/vfscwd.c\<close> and
  \<open>kern/vfs/vfslookup.c\<close>. The field \<open>cwd\<close> is the directory of the running process. Taking a path
  apart, the code overwrites the colon after a device name with NUL and hands on a pointer into the
  same buffer; the two parts are two strings here.
\<close>

section \<open>The current directory\<close>

abbreviation S_IFDIR :: u32 where "S_IFDIR \<equiv> 0x2000"

definition vfs_getcurdir :: "'s vfs_state \<Rightarrow> ((errno + nat) \<times> 's vfs_state) option" where
  "vfs_getcurdir s =
     (case cwd s of
        Some d \<Rightarrow> do { s \<leftarrow> VOP_INCREF d s; Some (Inr d, s) }
      | None \<Rightarrow> Some (Inl ENOENT, s))"

definition vfs_setcurdir :: "'s vfs_io \<Rightarrow> nat \<Rightarrow> 's vfs_state \<Rightarrow> (errno option \<times> 's vfs_state) option" where
  "vfs_setcurdir io dir s = do {
     result \<leftarrow> VOP dir s (Some (vop_gettype io dir s));
     (case result of
        Inl e \<Rightarrow> Some (Some e, s)
      | Inr vtype \<Rightarrow>
          if vtype \<noteq> S_IFDIR then Some (Some ENOTDIR, s)
          else do {
            s \<leftarrow> VOP_INCREF dir s;
            let old = cwd s;
            let s = s\<lparr>cwd := Some dir\<rparr>;
            s \<leftarrow> (case old of None \<Rightarrow> Some s | Some old \<Rightarrow> VOP_DECREF io old s);
            Some (None, s) }) }"

definition vfs_clearcurdir :: "'s vfs_io \<Rightarrow> 's vfs_state \<Rightarrow> 's vfs_state option" where
  "vfs_clearcurdir io s = do {
     let old = cwd s;
     let s = s\<lparr>cwd := None\<rparr>;
     (case old of None \<Rightarrow> Some s | Some old \<Rightarrow> VOP_DECREF io old s) }"

text \<open>What \<open>vfs_getcwd\<close> moves to the caller's buffer before the name of the directory in its file
  system: the name of the volume, or of the device it is mounted on, and a colon.\<close>

definition vfs_getcwd :: "'s vfs_io \<Rightarrow> 's vfs_state \<Rightarrow> ((errno + string) \<times> 's vfs_state) option" where
  "vfs_getcwd io s = do {
     (result, s) \<leftarrow> vfs_getcurdir s;
     (case result of
        Inl e \<Rightarrow> Some (Inl e, s)
      | Inr d \<Rightarrow> do {
          v \<leftarrow> nodes s d;
          fs \<leftarrow> vn_fs v;
          (name, s) \<leftarrow> (case fsop_getvolname io fs of
              Some n \<Rightarrow> Some (Some n, s)
            | None \<Rightarrow> do {
                let s = vfs_biglock_acquire s;
                n \<leftarrow> vfs_getdevname fs s;
                s \<leftarrow> vfs_biglock_release s;
                Some (n, s) });
          name \<leftarrow> name;
          s \<leftarrow> VOP_DECREF io d s;
          Some (Inr (name @ '':''), s) }) }"

section \<open>Path translation\<close>

definition change_bootfs :: "'s vfs_io \<Rightarrow> nat option \<Rightarrow> 's vfs_state \<Rightarrow> 's vfs_state option" where
  "change_bootfs io newvn s = do {
     let oldvn = bootfs_vnode s;
     let s = s\<lparr>bootfs_vnode := newvn\<rparr>;
     (case oldvn of None \<Rightarrow> Some s | Some old \<Rightarrow> VOP_DECREF io old s) }"

text \<open>The position of the first colon or slash.\<close>

fun first_separator :: "nat \<Rightarrow> string \<Rightarrow> nat option" where
  "first_separator i [] = None"
| "first_separator i (c # cs) = (if c = CHR '':'' \<or> c = CHR ''/'' then Some i else first_separator (i + 1) cs)"

fun skip_slashes :: "string \<Rightarrow> string" where
  "skip_slashes [] = []"
| "skip_slashes (c # cs) = (if c = CHR ''/'' then skip_slashes cs else c # cs)"

definition getdevice :: "'s vfs_io \<Rightarrow> string \<Rightarrow> 's vfs_state \<Rightarrow> ((errno + string \<times> nat) \<times> 's vfs_state) option" where
  "getdevice io path s = do {
     kassert (vfs_biglock_do_i_hold s);
     if path = [] then Some (Inl EINVAL, s)
     else do {
       let i = first_separator 0 path;
       let colon = (case i of Some i \<Rightarrow> if path ! i = CHR '':'' then int i else -1 | None \<Rightarrow> -1);
       let slash = (case i of Some i \<Rightarrow> if path ! i = CHR ''/'' then int i else -1 | None \<Rightarrow> -1);
       if colon < 0 \<and> slash \<noteq> 0 then do {
         (r, s) \<leftarrow> vfs_getcurdir s;
         Some (map_sum id (\<lambda>vn. (path, vn)) r, s) }
       else if colon > 0 then do {
         let subpath = skip_slashes (drop (nat colon + 1) path);
         (r, s) \<leftarrow> vfs_getroot io (take (nat colon) path) s;
         Some (map_sum id (\<lambda>vn. (subpath, vn)) r, s) }
       else do {
         kassert (colon = 0 \<or> slash = 0);
         (r, s) \<leftarrow>
           (if path ! 0 = CHR ''/'' then
              (case bootfs_vnode s of
                 None \<Rightarrow> Some (Inl ENOENT, s)
               | Some b \<Rightarrow> do { s \<leftarrow> VOP_INCREF b s; Some (Inr b, s) })
            else do {
              kassert (path ! 0 = CHR '':'');
              (r, s) \<leftarrow> vfs_getcurdir s;
              (case r of
                 Inl e \<Rightarrow> Some (Inl e, s)
               | Inr vn \<Rightarrow> do {
                   v \<leftarrow> nodes s vn;
                   fs \<leftarrow> vn_fs v;
                   (r, s) \<leftarrow> fsop_getroot io fs s;
                   s \<leftarrow> VOP_DECREF io vn s;
                   Some (r, s) }) });
         Some (map_sum id (\<lambda>vn. (skip_slashes (drop 1 path), vn)) r, s) } } }"

definition vfs_lookparent :: "'s vfs_io \<Rightarrow> string \<Rightarrow> 's vfs_state \<Rightarrow> ((errno + nat \<times> string) \<times> 's vfs_state) option" where
  "vfs_lookparent io path s = do {
     let s = vfs_biglock_acquire s;
     (result, s) \<leftarrow> getdevice io path s;
     (case result of
        Inl e \<Rightarrow> do { s \<leftarrow> vfs_biglock_release s; Some (Inl e, s) }
      | Inr (path, startvn) \<Rightarrow> do {
          (result, s) \<leftarrow> (if length path = 0 then Some (Inl EINVAL, s)
                         else VOP startvn s (vop_lookparent io startvn path s));
          s \<leftarrow> VOP_DECREF io startvn s;
          s \<leftarrow> vfs_biglock_release s;
          Some (result, s) }) }"

definition vfs_lookup :: "'s vfs_io \<Rightarrow> string \<Rightarrow> 's vfs_state \<Rightarrow> ((errno + nat) \<times> 's vfs_state) option" where
  "vfs_lookup io path s = do {
     let s = vfs_biglock_acquire s;
     (result, s) \<leftarrow> getdevice io path s;
     (case result of
        Inl e \<Rightarrow> do { s \<leftarrow> vfs_biglock_release s; Some (Inl e, s) }
      | Inr (path, startvn) \<Rightarrow>
          if length path = 0 then do { s \<leftarrow> vfs_biglock_release s; Some (Inr startvn, s) }
          else do {
            (result, s) \<leftarrow> VOP startvn s (vop_lookup io startvn path s);
            s \<leftarrow> VOP_DECREF io startvn s;
            s \<leftarrow> vfs_biglock_release s;
            Some (result, s) }) }"

definition vfs_chdir :: "'s vfs_io \<Rightarrow> string \<Rightarrow> 's vfs_state \<Rightarrow> (errno option \<times> 's vfs_state) option" where
  "vfs_chdir io path s = do {
     (result, s) \<leftarrow> vfs_lookup io path s;
     (case result of
        Inl e \<Rightarrow> Some (Some e, s)
      | Inr vn \<Rightarrow> do {
          (result, s) \<leftarrow> vfs_setcurdir io vn s;
          s \<leftarrow> VOP_DECREF io vn s;
          Some (result, s) }) }"

text \<open>The test of \<open>vfs_setbootfs\<close> for a colon that is not at the end of the name compares the length
  of the string from the colon on, never 0, so every name with a colon is refused. The copy keeps the
  first 254 characters.\<close>

definition vfs_setbootfs :: "'s vfs_io \<Rightarrow> string \<Rightarrow> 's vfs_state \<Rightarrow> (errno option \<times> 's vfs_state) option" where
  "vfs_setbootfs io fsname s = do {
     let s = vfs_biglock_acquire s;
     let tmp = take 254 fsname;
     let tail = dropWhile (\<lambda>c. c \<noteq> CHR '':'') tmp;
     if tail \<noteq> [] \<and> length tail > 0 then do { s \<leftarrow> vfs_biglock_release s; Some (Some EINVAL, s) }
     else do {
       (result, s) \<leftarrow> vfs_chdir io (tmp @ '':'') s;
       (case result of
          Some e \<Rightarrow> do { s \<leftarrow> vfs_biglock_release s; Some (Some e, s) }
        | None \<Rightarrow> do {
            (result, s) \<leftarrow> vfs_getcurdir s;
            (case result of
               Inl e \<Rightarrow> do { s \<leftarrow> vfs_biglock_release s; Some (Some e, s) }
             | Inr newguy \<Rightarrow> do {
                 s \<leftarrow> change_bootfs io (Some newguy) s;
                 s \<leftarrow> vfs_biglock_release s;
                 Some (None, s) }) }) } }"

definition vfs_clearbootfs :: "'s vfs_io \<Rightarrow> 's vfs_state \<Rightarrow> 's vfs_state option" where
  "vfs_clearbootfs io s = do {
     let s = vfs_biglock_acquire s;
     s \<leftarrow> change_bootfs io None s;
     vfs_biglock_release s }"

end
