(* ===== verification/VfsPath.thy ===== *)
theory VfsPath
  imports VfsLookup
begin

text \<open>
  The operations on paths above the file systems: \<open>kern/vfs/vfspath.c\<close>. Each takes a path apart,
  calls one operation of a vnode and gives back the vnodes it took.
\<close>

section \<open>Operations\<close>

abbreviation O_RDONLY :: u32 where "O_RDONLY \<equiv> 0"
abbreviation O_WRONLY :: u32 where "O_WRONLY \<equiv> 1"
abbreviation O_RDWR :: u32 where "O_RDWR \<equiv> 2"
abbreviation O_CREAT :: u32 where "O_CREAT \<equiv> 4"
abbreviation O_EXCL :: u32 where "O_EXCL \<equiv> 8"
abbreviation O_TRUNC :: u32 where "O_TRUNC \<equiv> 16"
abbreviation O_APPEND :: u32 where "O_APPEND \<equiv> 32"
abbreviation O_ACCMODE :: u32 where "O_ACCMODE \<equiv> 3"

text \<open>The two halves of \<open>vfs_open\<close>: the vnode of the path, created when \<open>O_CREAT\<close> is given, and the
  checks and the truncation, which give it back on an error.\<close>

definition open_vnode :: "'s vfs_io \<Rightarrow> string \<Rightarrow> u32 \<Rightarrow> u32 \<Rightarrow> 's vfs_state \<Rightarrow> ((errno + nat) \<times> 's vfs_state) option" where
  "open_vnode io path openflags mode s =
     (if openflags AND O_CREAT \<noteq> 0 then do {
        (result, s) \<leftarrow> vfs_lookparent io path s;
        (case result of
           Inl e \<Rightarrow> Some (Inl e, s)
         | Inr (dir, name) \<Rightarrow> do {
             (result, s) \<leftarrow> VOP dir s (vop_creat io dir name (openflags AND O_EXCL \<noteq> 0) mode s);
             s \<leftarrow> VOP_DECREF io dir s;
             Some (result, s) }) }
      else vfs_lookup io path s)"

definition open_checked :: "'s vfs_io \<Rightarrow> nat \<Rightarrow> u32 \<Rightarrow> bool \<Rightarrow> 's vfs_state \<Rightarrow> ((errno + nat) \<times> 's vfs_state) option" where
  "open_checked io vn openflags canwrite s = do {
     result \<leftarrow> VOP vn s (Some (vop_eachopen io vn openflags s));
     (case result of
        Some e \<Rightarrow> do { s \<leftarrow> VOP_DECREF io vn s; Some (Inl e, s) }
      | None \<Rightarrow>
          if openflags AND O_TRUNC \<noteq> 0 then do {
            (result, s) \<leftarrow> (if \<not> canwrite then Some (Some EINVAL, s) else VOP vn s (vop_truncate io vn 0 s));
            (case result of
               Some e \<Rightarrow> do { s \<leftarrow> VOP_DECREF io vn s; Some (Inl e, s) }
             | None \<Rightarrow> Some (Inr vn, s)) }
          else Some (Inr vn, s)) }"

definition vfs_open :: "'s vfs_io \<Rightarrow> string \<Rightarrow> u32 \<Rightarrow> u32 \<Rightarrow> 's vfs_state \<Rightarrow> ((errno + nat) \<times> 's vfs_state) option" where
  "vfs_open io path openflags mode s =
     (let how = openflags AND O_ACCMODE in
      if how \<noteq> O_RDONLY \<and> how \<noteq> O_WRONLY \<and> how \<noteq> O_RDWR then Some (Inl EINVAL, s)
      else do {
        (result, s) \<leftarrow> open_vnode io path openflags mode s;
        (case result of
           Inl e \<Rightarrow> Some (Inl e, s)
         | Inr vn \<Rightarrow> open_checked io vn openflags (how = O_WRONLY \<or> how = O_RDWR) s) })"

text \<open>Four of the operations have one shape: the parent directory, one call, the parent given back.\<close>

definition in_parent ::
    "'s vfs_io \<Rightarrow> string \<Rightarrow> (nat \<Rightarrow> string \<Rightarrow> 's vfs_state \<Rightarrow> (errno option \<times> 's vfs_state) option) \<Rightarrow> 's vfs_state \<Rightarrow>
     (errno option \<times> 's vfs_state) option" where
  "in_parent io path f s = do {
     (result, s) \<leftarrow> vfs_lookparent io path s;
     (case result of
        Inl e \<Rightarrow> Some (Some e, s)
      | Inr (dir, name) \<Rightarrow> do {
          (result, s) \<leftarrow> VOP dir s (f dir name s);
          s \<leftarrow> VOP_DECREF io dir s;
          Some (result, s) }) }"

definition vfs_remove :: "'s vfs_io \<Rightarrow> string \<Rightarrow> 's vfs_state \<Rightarrow> (errno option \<times> 's vfs_state) option" where
  "vfs_remove io path s = in_parent io path (vop_remove io) s"

definition vfs_symlink :: "'s vfs_io \<Rightarrow> string \<Rightarrow> string \<Rightarrow> 's vfs_state \<Rightarrow> (errno option \<times> 's vfs_state) option" where
  "vfs_symlink io contents path s = in_parent io path (\<lambda>dir name. vop_symlink io dir name contents) s"

definition vfs_mkdir :: "'s vfs_io \<Rightarrow> string \<Rightarrow> u32 \<Rightarrow> 's vfs_state \<Rightarrow> (errno option \<times> 's vfs_state) option" where
  "vfs_mkdir io path mode s = in_parent io path (\<lambda>dir name. vop_mkdir io dir name mode) s"

definition vfs_rmdir :: "'s vfs_io \<Rightarrow> string \<Rightarrow> 's vfs_state \<Rightarrow> (errno option \<times> 's vfs_state) option" where
  "vfs_rmdir io path s = in_parent io path (vop_rmdir io) s"

definition vfs_readlink :: "'s vfs_io \<Rightarrow> string \<Rightarrow> 's vfs_state \<Rightarrow> (errno option \<times> 's vfs_state) option" where
  "vfs_readlink io path s = do {
     (result, s) \<leftarrow> vfs_lookup io path s;
     (case result of
        Inl e \<Rightarrow> Some (Some e, s)
      | Inr vn \<Rightarrow> do {
          result \<leftarrow> VOP vn s (Some (vop_readlink io vn s));
          s \<leftarrow> VOP_DECREF io vn s;
          Some (result, s) }) }"

definition fs_of :: "nat \<Rightarrow> 's vfs_state \<Rightarrow> nat option option" where
  "fs_of vn s = do { v \<leftarrow> nodes s vn; Some (vn_fs v) }"

definition vfs_rename :: "'s vfs_io \<Rightarrow> string \<Rightarrow> string \<Rightarrow> 's vfs_state \<Rightarrow> (errno option \<times> 's vfs_state) option" where
  "vfs_rename io oldpath newpath s = do {
     (result, s) \<leftarrow> vfs_lookparent io oldpath s;
     (case result of
        Inl e \<Rightarrow> Some (Some e, s)
      | Inr (olddir, oldname) \<Rightarrow> do {
          (result, s) \<leftarrow> vfs_lookparent io newpath s;
          (case result of
             Inl e \<Rightarrow> do { s \<leftarrow> VOP_DECREF io olddir s; Some (Some e, s) }
           | Inr (newdir, newname) \<Rightarrow> do {
               f \<leftarrow> fs_of olddir s;
               g \<leftarrow> fs_of newdir s;
               if f = None \<or> g = None \<or> f \<noteq> g then do {
                 s \<leftarrow> VOP_DECREF io newdir s;
                 s \<leftarrow> VOP_DECREF io olddir s;
                 Some (Some EXDEV, s) }
               else do {
                 (result, s) \<leftarrow> VOP olddir s (vop_rename io olddir oldname newdir newname s);
                 s \<leftarrow> VOP_DECREF io newdir s;
                 s \<leftarrow> VOP_DECREF io olddir s;
                 Some (result, s) } }) }) }"

definition vfs_link :: "'s vfs_io \<Rightarrow> string \<Rightarrow> string \<Rightarrow> 's vfs_state \<Rightarrow> (errno option \<times> 's vfs_state) option" where
  "vfs_link io oldpath newpath s = do {
     (result, s) \<leftarrow> vfs_lookup io oldpath s;
     (case result of
        Inl e \<Rightarrow> Some (Some e, s)
      | Inr oldfile \<Rightarrow> do {
          (result, s) \<leftarrow> vfs_lookparent io newpath s;
          (case result of
             Inl e \<Rightarrow> do { s \<leftarrow> VOP_DECREF io oldfile s; Some (Some e, s) }
           | Inr (newdir, newname) \<Rightarrow> do {
               f \<leftarrow> fs_of oldfile s;
               g \<leftarrow> fs_of newdir s;
               if f = None \<or> g = None \<or> f \<noteq> g then do {
                 s \<leftarrow> VOP_DECREF io newdir s;
                 s \<leftarrow> VOP_DECREF io oldfile s;
                 Some (Some EXDEV, s) }
               else do {
                 (result, s) \<leftarrow> VOP newdir s (vop_link io newdir newname oldfile s);
                 s \<leftarrow> VOP_DECREF io newdir s;
                 s \<leftarrow> VOP_DECREF io oldfile s;
                 Some (result, s) } }) }) }"

end
