(* ===== verification/CopyInOut.thy ===== *)
theory CopyInOut
  imports Prelude
begin

text \<open>
  \<open>kern/vm/copyinout.c\<close>: copying between kernel and user memory. The address check works on
  32-bit addresses that wrap. The jump out of a bad fault is modelled by its effect: the copy
  stops at the first byte that cannot be accessed, and the call returns \<open>EFAULT\<close>. \<open>accessible\<close>
  is what the virtual memory system decides about an address; both memories are arrays of bytes.
\<close>

section \<open>Operations\<close>

abbreviation USERSPACETOP :: u32 where "USERSPACETOP \<equiv> 0x80000000"

record memories =
  kmem :: bytes
  umem :: bytes
  accessible :: "nat \<Rightarrow> bool"

definition copycheck :: "u32 \<Rightarrow> u32 \<Rightarrow> errno + u32" where
  "copycheck userptr len =
     (let bot = userptr; top = bot + len - 1
      in if top < bot then Inl EFAULT
         else if bot \<ge> USERSPACETOP then Inl EFAULT
         else if top \<ge> USERSPACETOP then Inr (USERSPACETOP - bot)
         else Inr len)"

text \<open>\<open>memcpy\<close> under the fault handler: \<open>True\<close> when it got to the end.\<close>

fun memcpy_in :: "nat \<Rightarrow> nat \<Rightarrow> nat \<Rightarrow> 'a memories_scheme \<Rightarrow> bool \<times> 'a memories_scheme" where
  "memcpy_in dest src 0 m = (True, m)"
| "memcpy_in dest src (Suc n) m =
     (if accessible m src then memcpy_in (dest + 1) (src + 1) n (m\<lparr>kmem := (kmem m)(dest := umem m src)\<rparr>)
      else (False, m))"

fun memcpy_out :: "nat \<Rightarrow> nat \<Rightarrow> nat \<Rightarrow> 'a memories_scheme \<Rightarrow> bool \<times> 'a memories_scheme" where
  "memcpy_out dest src 0 m = (True, m)"
| "memcpy_out dest src (Suc n) m =
     (if accessible m dest then memcpy_out (dest + 1) (src + 1) n (m\<lparr>umem := (umem m)(dest := kmem m src)\<rparr>)
      else (False, m))"

definition copyin :: "u32 \<Rightarrow> nat \<Rightarrow> u32 \<Rightarrow> 'a memories_scheme \<Rightarrow> errno option \<times> 'a memories_scheme" where
  "copyin usersrc dest len m =
     (case copycheck usersrc len of
        Inl e \<Rightarrow> (Some e, m)
      | Inr stoplen \<Rightarrow>
          if stoplen \<noteq> len then (Some EFAULT, m)
          else let (done, m) = memcpy_in dest (unat usersrc) (unat len) m
               in if done then (None, m) else (Some EFAULT, m))"

definition copyout :: "nat \<Rightarrow> u32 \<Rightarrow> u32 \<Rightarrow> 'a memories_scheme \<Rightarrow> errno option \<times> 'a memories_scheme" where
  "copyout src userdest len m =
     (case copycheck userdest len of
        Inl e \<Rightarrow> (Some e, m)
      | Inr stoplen \<Rightarrow>
          if stoplen \<noteq> len then (Some EFAULT, m)
          else let (done, m) = memcpy_out (unat userdest) src (unat len) m
               in if done then (None, m) else (Some EFAULT, m))"

text \<open>\<open>copystr\<close> from user to kernel and back. The loop runs over \<open>n\<close> more bytes from index
  \<open>i\<close>; \<open>None\<close> is a bad fault, \<open>Some (Some g)\<close> the terminator found at \<open>g - 1\<close>.\<close>

fun copystr_in :: "nat \<Rightarrow> nat \<Rightarrow> nat \<Rightarrow> nat \<Rightarrow> 'a memories_scheme \<Rightarrow> nat option option \<times> 'a memories_scheme" where
  "copystr_in dest src i 0 m = (Some None, m)"
| "copystr_in dest src i (Suc n) m =
     (if \<not> accessible m (src + i) then (None, m)
      else let m = m\<lparr>kmem := (kmem m)(dest + i := umem m (src + i))\<rparr>
           in if umem m (src + i) = 0 then (Some (Some (i + 1)), m) else copystr_in dest src (i + 1) n m)"

fun copystr_out :: "nat \<Rightarrow> nat \<Rightarrow> nat \<Rightarrow> nat \<Rightarrow> 'a memories_scheme \<Rightarrow> nat option option \<times> 'a memories_scheme" where
  "copystr_out dest src i 0 m = (Some None, m)"
| "copystr_out dest src i (Suc n) m =
     (if \<not> accessible m (dest + i) then (None, m)
      else let m = m\<lparr>umem := (umem m)(dest + i := kmem m (src + i))\<rparr>
           in if kmem m (src + i) = 0 then (Some (Some (i + 1)), m) else copystr_out dest src (i + 1) n m)"

text \<open>What the call makes of the loop: the length with the terminator, or an error.\<close>

definition copystr_result :: "nat \<Rightarrow> nat \<Rightarrow> nat option option \<times> 'a memories_scheme \<Rightarrow> (errno + nat) \<times> 'a memories_scheme" where
  "copystr_result maxlen stoplen =
     (\<lambda>(r, m). case r of
        None \<Rightarrow> (Inl EFAULT, m)
      | Some (Some gotlen) \<Rightarrow> (Inr gotlen, m)
      | Some None \<Rightarrow> if stoplen < maxlen then (Inl EFAULT, m) else (Inl ENAMETOOLONG, m))"

definition copyinstr :: "u32 \<Rightarrow> nat \<Rightarrow> u32 \<Rightarrow> 'a memories_scheme \<Rightarrow> (errno + nat) \<times> 'a memories_scheme" where
  "copyinstr usersrc dest len m =
     (case copycheck usersrc len of
        Inl e \<Rightarrow> (Inl e, m)
      | Inr stoplen \<Rightarrow>
          copystr_result (unat len) (unat stoplen)
            (copystr_in dest (unat usersrc) 0 (min (unat len) (unat stoplen)) m))"

definition copyoutstr :: "nat \<Rightarrow> u32 \<Rightarrow> u32 \<Rightarrow> 'a memories_scheme \<Rightarrow> (errno + nat) \<times> 'a memories_scheme" where
  "copyoutstr src userdest len m =
     (case copycheck userdest len of
        Inl e \<Rightarrow> (Inl e, m)
      | Inr stoplen \<Rightarrow>
          copystr_result (unat len) (unat stoplen)
            (copystr_out (unat userdest) src 0 (min (unat len) (unat stoplen)) m))"

section \<open>The address check\<close>

lemma unat_pred: "0 < unat p \<Longrightarrow> unat ((p::u32) - 1) = unat p - 1"
  by (simp add: unat_sub_if')

lemma region_top:
  assumes "0 < unat (len::u32)"
  shows "unat (p + len - 1) =
    (if unat p + unat len \<le> 4294967296 then unat p + unat len - 1 else unat p + unat len - 1 - 4294967296)"
proof -
  have "p + len - 1 = p + (len - 1)" by (simp add: algebra_simps)
  moreover have "unat (p + (len - 1)) = (unat p + unat (len - 1)) mod 4294967296"
    by (simp only: unat_word_ariths) simp
  ultimately have "unat (p + len - 1) = (unat p + (unat len - 1)) mod 4294967296"
    using assms by (simp only: unat_pred)
  moreover have "unat p + (unat len - 1) < 4294967296 + 4294967296"
    using unat_lt_32 [of p] unat_lt_32 [of len] by linarith
  ultimately show ?thesis using assms by (auto simp: mod_if le_mod_geq)
qed

text \<open>On integers, for a region that is not empty: it must not wrap around and must start below
  the boundary; one that reaches past the boundary is cut off there.\<close>

lemma copycheck_eq:
  assumes "len \<noteq> 0"
  shows "copycheck p len =
     (if unat p + unat len > 4294967296 \<or> unat p \<ge> 0x80000000 then Inl EFAULT
      else if unat p + unat len > 0x80000000 then Inr (USERSPACETOP - p) else Inr len)"
proof -
  have pos: "0 < unat len" using assms by (metis unat_eq_zero neq0_conv)
  show ?thesis
    using region_top [OF pos, of p] pos unat_lt_32 [of len]
    by (auto simp: copycheck_def Let_def word_less_nat_alt word_le_nat_alt simp del: unat_lt_32)
qed

text \<open>An empty region passes only at address 0, with the whole user space as its length.\<close>

lemma copycheck_empty: "copycheck p 0 = (if p = 0 then Inr USERSPACETOP else Inl EFAULT)"
proof (cases "p = 0")
  case False
  then have "0 < unat p" by (metis unat_eq_zero neq0_conv)
  then have "p - 1 < p" by (simp add: word_less_nat_alt unat_pred)
  with False show ?thesis by (simp add: copycheck_def Let_def)
qed (simp add: copycheck_def)

section \<open>Blocks\<close>

definition all_accessible :: "'a memories_scheme \<Rightarrow> nat \<Rightarrow> nat \<Rightarrow> bool" where
  "all_accessible m a n \<longleftrightarrow> (\<forall>i<n. accessible m (a + i))"

lemma blit_none [simp]: "blit m a s b 0 = m"
  by (rule ext) (auto simp: blit_def)

lemma memories_sel:
  "kmem (m\<lparr>kmem := x\<rparr>) = x" "umem (m\<lparr>kmem := x\<rparr>) = umem m" "accessible (m\<lparr>kmem := x\<rparr>) = accessible m"
  "umem (m\<lparr>umem := x\<rparr>) = x" "kmem (m\<lparr>umem := x\<rparr>) = kmem m" "accessible (m\<lparr>umem := x\<rparr>) = accessible m"
  by simp_all

lemma all_accessible_upd [simp]:
  "all_accessible (m\<lparr>kmem := x\<rparr>) = all_accessible m" "all_accessible (m\<lparr>umem := x\<rparr>) = all_accessible m"
  by (simp_all add: all_accessible_def fun_eq_iff)

lemma blit_Suc:
  "blit (m(d := s a)) (d + 1) s (a + 1) k = blit m d s a (Suc k)"
  by (rule ext) (auto simp: blit_def intro: arg_cong [of _ _ s])

lemma all_accessible_Suc: "all_accessible m a (Suc n) \<longleftrightarrow> accessible m a \<and> all_accessible m (a + 1) n"
  unfolding all_accessible_def by (auto simp: less_Suc_eq_0_disj)

lemma memcpy_in_spec:
  "memcpy_in dest src n m = (done, m') \<Longrightarrow>
    umem m' = umem m \<and> accessible m' = accessible m \<and> (done \<longleftrightarrow> all_accessible m src n) \<and>
    (\<exists>k\<le>n. kmem m' = blit (kmem m) dest (umem m) src k \<and> (done \<longrightarrow> k = n))"
proof (induction n arbitrary: dest src m)
  case 0
  then show ?case by (auto simp: all_accessible_def)
next
  case (Suc n)
  show ?case
  proof (cases "accessible m src")
    case False
    with Suc.prems show ?thesis by (auto simp: all_accessible_def intro!: exI [of _ 0])
  next
    case True
    let ?m = "m\<lparr>kmem := (kmem m)(dest := umem m src)\<rparr>"
    from Suc.prems True have "memcpy_in (dest + 1) (src + 1) n ?m = (done, m')" by simp
    note IH = Suc.IH [OF this, unfolded memories_sel all_accessible_upd blit_Suc]
    then obtain k where "k \<le> n" "kmem m' = blit (kmem m) dest (umem m) src (Suc k)" "done \<longrightarrow> k = n" by blast
    then have "\<exists>k\<le>Suc n. kmem m' = blit (kmem m) dest (umem m) src k \<and> (done \<longrightarrow> k = Suc n)"
      by (intro exI [of _ "Suc k"]) simp
    with IH True show ?thesis unfolding all_accessible_Suc by blast
  qed
qed

lemma memcpy_out_spec:
  "memcpy_out dest src n m = (done, m') \<Longrightarrow>
    kmem m' = kmem m \<and> accessible m' = accessible m \<and> (done \<longleftrightarrow> all_accessible m dest n) \<and>
    (\<exists>k\<le>n. umem m' = blit (umem m) dest (kmem m) src k \<and> (done \<longrightarrow> k = n))"
proof (induction n arbitrary: dest src m)
  case 0
  then show ?case by (auto simp: all_accessible_def)
next
  case (Suc n)
  show ?case
  proof (cases "accessible m dest")
    case False
    with Suc.prems show ?thesis by (auto simp: all_accessible_def intro!: exI [of _ 0])
  next
    case True
    let ?m = "m\<lparr>umem := (umem m)(dest := kmem m src)\<rparr>"
    from Suc.prems True have "memcpy_out (dest + 1) (src + 1) n ?m = (done, m')" by simp
    note IH = Suc.IH [OF this, unfolded memories_sel all_accessible_upd blit_Suc]
    then obtain k where "k \<le> n" "umem m' = blit (umem m) dest (kmem m) src (Suc k)" "done \<longrightarrow> k = n" by blast
    then have "\<exists>k\<le>Suc n. umem m' = blit (umem m) dest (kmem m) src k \<and> (done \<longrightarrow> k = Suc n)"
      by (intro exI [of _ "Suc k"]) simp
    with IH True show ?thesis unfolding all_accessible_Suc by blast
  qed
qed

text \<open>A region the kernel may touch on behalf of the program.\<close>

definition user_region :: "'a memories_scheme \<Rightarrow> u32 \<Rightarrow> u32 \<Rightarrow> bool" where
  "user_region m p len \<longleftrightarrow> len \<noteq> 0 \<and> unat p + unat len \<le> 0x80000000 \<and> all_accessible m (unat p) (unat len)"

lemma copycheck_whole:
  "copycheck p len = Inr len \<longleftrightarrow> len \<noteq> 0 \<and> unat p + unat len \<le> 0x80000000"
proof (cases "len = 0")
  case True
  then show ?thesis by (simp add: copycheck_empty)
next
  case False
  have "USERSPACETOP - p \<noteq> len" if "unat p + unat len > 0x80000000" "unat p < 0x80000000"
  proof
    assume eq: "USERSPACETOP - p = len"
    have "unat (USERSPACETOP - p) = 0x80000000 - unat p" using that(2) by (simp add: unat_sub_if')
    with eq that show False by simp
  qed
  moreover have "0 < unat len" using False by (metis unat_eq_zero neq0_conv)
  ultimately show ?thesis using False by (auto simp: copycheck_eq)
qed

lemma copyin_cases:
  "copyin p dest len m =
     (if len \<noteq> 0 \<and> unat p + unat len \<le> 0x80000000
      then (let (done, m) = memcpy_in dest (unat p) (unat len) m in if done then (None, m) else (Some EFAULT, m))
      else (Some EFAULT, m))"
  using copycheck_whole [of p len]
  by (cases "copycheck p len") (auto simp: copyin_def copycheck_def Let_def split: if_splits)

lemma copyout_cases:
  "copyout src p len m =
     (if len \<noteq> 0 \<and> unat p + unat len \<le> 0x80000000
      then (let (done, m) = memcpy_out (unat p) src (unat len) m in if done then (None, m) else (Some EFAULT, m))
      else (Some EFAULT, m))"
  using copycheck_whole [of p len]
  by (cases "copycheck p len") (auto simp: copyout_def copycheck_def Let_def split: if_splits)

lemma copyin_spec:
  assumes "copyin p dest len m = (r, m')"
  shows "(r = None \<longleftrightarrow> user_region m p len) \<and> (r = None \<or> r = Some EFAULT) \<and> umem m' = umem m \<and>
    (r = None \<longrightarrow> kmem m' = blit (kmem m) dest (umem m) (unat p) (unat len)) \<and>
    (\<forall>a. \<not> (dest \<le> a \<and> a < dest + unat len) \<longrightarrow> kmem m' a = kmem m a)"
proof (cases "len \<noteq> 0 \<and> unat p + unat len \<le> 0x80000000")
  case False
  with assms show ?thesis by (auto simp: copyin_cases user_region_def)
next
  case True
  obtain d m1 where run: "memcpy_in dest (unat p) (unat len) m = (d, m1)" by fastforce
  from memcpy_in_spec [OF run] obtain k where k: "k \<le> unat len" "kmem m1 = blit (kmem m) dest (umem m) (unat p) k"
    "d \<longrightarrow> k = unat len" "umem m1 = umem m" "d \<longleftrightarrow> all_accessible m (unat p) (unat len)" by auto
  have "m' = m1" "r = (if d then None else Some EFAULT)" using assms True run by (auto simp: copyin_cases split: if_splits)
  with k True show ?thesis by (auto simp: user_region_def blit_def)
qed

lemma copyout_spec:
  assumes "copyout src p len m = (r, m')"
  shows "(r = None \<longleftrightarrow> user_region m p len) \<and> (r = None \<or> r = Some EFAULT) \<and> kmem m' = kmem m \<and>
    (r = None \<longrightarrow> umem m' = blit (umem m) (unat p) (kmem m) src (unat len)) \<and>
    (\<forall>a\<ge>0x80000000. umem m' a = umem m a)"
proof (cases "len \<noteq> 0 \<and> unat p + unat len \<le> 0x80000000")
  case False
  with assms show ?thesis by (auto simp: copyout_cases user_region_def)
next
  case True
  obtain d m1 where run: "memcpy_out (unat p) src (unat len) m = (d, m1)" by fastforce
  from memcpy_out_spec [OF run] obtain k where k: "k \<le> unat len" "umem m1 = blit (umem m) (unat p) (kmem m) src k"
    "d \<longrightarrow> k = unat len" "kmem m1 = kmem m" "d \<longleftrightarrow> all_accessible m (unat p) (unat len)" by auto
  have "m' = m1" "r = (if d then None else Some EFAULT)" using assms True run by (auto simp: copyout_cases split: if_splits)
  with k True show ?thesis by (auto simp: user_region_def blit_def)
qed

section \<open>Strings\<close>

text \<open>The length of the string at \<open>a\<close>, with its terminator, if it ends within \<open>n\<close> bytes.\<close>

definition string_at :: "bytes \<Rightarrow> nat \<Rightarrow> nat \<Rightarrow> bool" where
  "string_at m a g \<longleftrightarrow> 0 < g \<and> m (a + (g - 1)) = 0 \<and> (\<forall>i<g - 1. m (a + i) \<noteq> 0)"

lemma copystr_in_spec:
  "copystr_in dest src i n m = (r, m') \<Longrightarrow> \<forall>j<i. umem m (src + j) \<noteq> 0 \<Longrightarrow>
    umem m' = umem m \<and> (\<forall>a. \<not> (dest + i \<le> a \<and> a < dest + i + n) \<longrightarrow> kmem m' a = kmem m a) \<and>
    (case r of None \<Rightarrow> True
     | Some None \<Rightarrow> \<forall>j<i + n. umem m (src + j) \<noteq> 0
     | Some (Some g) \<Rightarrow> i < g \<and> g \<le> i + n \<and> string_at (umem m) src g \<and> (\<forall>j. i \<le> j \<and> j < g \<longrightarrow> kmem m' (dest + j) = umem m (src + j)))"
proof (induction n arbitrary: i m)
  case 0
  then show ?case by auto
next
  case (Suc n)
  let ?m = "m\<lparr>kmem := (kmem m)(dest + i := umem m (src + i))\<rparr>"
  consider "\<not> accessible m (src + i)" | "accessible m (src + i)" "umem m (src + i) = 0"
    | "accessible m (src + i)" "umem m (src + i) \<noteq> 0" by blast
  then show ?case
  proof cases
    case 1
    with Suc.prems show ?thesis by auto
  next
    case 2
    with Suc.prems show ?thesis by (auto simp: string_at_def Let_def le_less_Suc_eq)
  next
    case 3
    with Suc.prems(1) have run: "copystr_in dest src (i + 1) n ?m = (r, m')" by (simp add: Let_def)
    have "\<forall>j<i + 1. umem ?m (src + j) \<noteq> 0" using Suc.prems(2) 3 by (auto simp: less_Suc_eq)
    note IH = Suc.IH [OF run this]
    then have head: "kmem m' (dest + i) = umem m (src + i)" by auto
    have step: "kmem m' (dest + j) = umem m (src + j)"
      if "i \<le> j" "j < g" "\<forall>j. i + 1 \<le> j \<and> j < g \<longrightarrow> kmem m' (dest + j) = umem m (src + j)" for j g
      using that head by (cases "j = i") auto
    show ?thesis using IH
      by (cases r; cases "the r") (auto intro: step)
  qed
qed

lemma copycheck_stop:
  assumes "len \<noteq> 0" and "copycheck p len = Inr stop"
  shows "unat stop \<le> unat len" and "unat p + unat stop \<le> 0x80000000" and "0 < unat stop"
    and "unat stop < unat len \<longrightarrow> unat p + unat stop = 0x80000000"
proof -
  have pos: "0 < unat len" using assms(1) by (metis unat_eq_zero neq0_conv)
  have p: "unat p < 0x80000000" using assms by (auto simp: copycheck_eq split: if_splits)
  have cut: "unat (USERSPACETOP - p) = 0x80000000 - unat p" using p by (simp add: unat_sub_if')
  from assms consider "unat p + unat len > 0x80000000" "stop = USERSPACETOP - p"
    | "unat p + unat len \<le> 0x80000000" "stop = len"
    by (auto simp: copycheck_eq split: if_splits)
  then show "unat stop \<le> unat len" and "unat p + unat stop \<le> 0x80000000" and "0 < unat stop"
    and "unat stop < unat len \<longrightarrow> unat p + unat stop = 0x80000000"
    using pos p cut by (cases; auto)+
qed

lemma copyinstr_spec:
  assumes len: "len \<noteq> 0" and run: "copyinstr p dest len m = (r, m')"
  shows "case r of
      Inr g \<Rightarrow> g \<le> unat len \<and> unat p + g \<le> 0x80000000 \<and> string_at (umem m) (unat p) g \<and>
        (\<forall>j<g. kmem m' (dest + j) = umem m (unat p + j))
    | Inl e \<Rightarrow> e = EFAULT \<or> e = ENAMETOOLONG \<and> (\<forall>j<unat len. umem m (unat p + j) \<noteq> 0)"
proof (cases "copycheck p len")
  case (Inl e)
  then have "e = EFAULT" by (auto simp: copycheck_def Let_def split: if_splits)
  with Inl run show ?thesis by (auto simp: copyinstr_def)
next
  case (Inr stop)
  note stop = copycheck_stop [OF len Inr]
  then have mn: "min (unat len) (unat stop) = unat stop" by simp
  obtain q m1 where loop: "copystr_in dest (unat p) 0 (unat stop) m = (q, m1)" by fastforce
  note sp = copystr_in_spec [OF loop]
  from run Inr loop mn have res: "(r, m') = copystr_result (unat len) (unat stop) (q, m1)"
    by (simp add: copyinstr_def)
  show ?thesis
  proof (cases q)
    case None
    with res show ?thesis by (simp add: copystr_result_def)
  next
    case (Some g0)
    show ?thesis
    proof (cases g0)
      case None
      with Some sp have "\<forall>j<unat stop. umem m (unat p + j) \<noteq> 0" by simp
      with None Some res stop(1) show ?thesis
        by (cases "unat stop < unat len") (auto simp: copystr_result_def)
    next
      case (Some g)
      with \<open>q = Some g0\<close> sp have "0 < g" "g \<le> unat stop" "string_at (umem m) (unat p) g"
        "\<forall>j<g. kmem m1 (dest + j) = umem m (unat p + j)" by auto
      with Some \<open>q = Some g0\<close> res stop(1,2) show ?thesis by (auto simp: copystr_result_def)
    qed
  qed
qed

section \<open>The calls\<close>





text \<open>The empty region is refused: \<open>copycheck\<close> subtracts one from the length before it
  compares, so a length of 0 is \<open>EFAULT\<close> at every address but 0, where it allows the whole of
  user space.\<close>

theorem copycheck_of_nothing:
  "copycheck p 0 = (if p = 0 then Inr USERSPACETOP else Inl EFAULT)"
  by (rule copycheck_empty)

end
