(* ===== verification/Uio.thy ===== *)
theory Uio
  imports CopyInOut
begin

text \<open>
  \<open>kern/lib/uio.c\<close>: the description of a transfer and the copying to or from its buffers. A
  buffer of the kernel is a value: the bytes before the pointer \<open>iov_kbase\<close> and those from it on; an iovec that
  is used up is kept in \<open>uio_past\<close>. For the buffers of a program the copy goes through \<open>copyin\<close>
  and \<open>copyout\<close>, with the kernel's side of the transfer at address 0 of the kernel memory. The address
  space in use (\<open>proc_getas\<close>) is the argument \<open>cur\<close>. Transfers are steps on any record that extends the
  memories.
\<close>

section \<open>State\<close>

datatype uio_rw = UIO_READ | UIO_WRITE

datatype uio_seg = UIO_USERISPACE | UIO_USERSPACE | UIO_SYSSPACE

record uio =
  uio_offset :: int
  uio_resid :: u32
  uio_rw :: uio_rw

record iovec =
  iov_ubase :: u32
  iov_kpast :: "u8 list"
  iov_kbase :: "u8 list"
  iov_len :: u32

record uiov = uio +
  uio_past :: "iovec list"
  uio_iov :: "iovec list"
  uio_segflg :: uio_seg
  uio_space :: "nat option"

section \<open>Operations\<close>

text \<open>The copy of one part between the buffer at \<open>ptr\<close> (\<open>part\<close>) and the first iovec.\<close>

definition move_part :: "uiov \<Rightarrow> iovec \<Rightarrow> u8 list \<Rightarrow> 'a memories_scheme \<Rightarrow> (errno option \<times> u8 list \<times> iovec \<times> 'a memories_scheme) option" where
  "move_part u iov part m =
     (let size = length part in
      case uio_segflg u of
        UIO_SYSSPACE \<Rightarrow> do {
          kassert (size \<le> length (iov_kbase iov));
          (case uio_rw u of
             UIO_READ \<Rightarrow> Some (None, part, iov\<lparr>iov_kpast := iov_kpast iov @ part, iov_kbase := drop size (iov_kbase iov)\<rparr>, m)
           | UIO_WRITE \<Rightarrow> Some (None, take size (iov_kbase iov),
               iov\<lparr>iov_kpast := iov_kpast iov @ take size (iov_kbase iov), iov_kbase := drop size (iov_kbase iov)\<rparr>, m)) }
      | _ \<Rightarrow>
          let m = m\<lparr>kmem := store (kmem m) 0 part\<rparr>;
              (result, m) = (case uio_rw u of
                 UIO_READ \<Rightarrow> copyout 0 (iov_ubase iov) (word_of_nat size) m
               | UIO_WRITE \<Rightarrow> copyin (iov_ubase iov) 0 (word_of_nat size) m);
              part = (case uio_rw u of UIO_READ \<Rightarrow> part | UIO_WRITE \<Rightarrow> map (kmem m) [0..<size])
          in (case result of
                Some e \<Rightarrow> Some (Some e, part, iov, m)
              | None \<Rightarrow> Some (None, part, iov\<lparr>iov_ubase := iov_ubase iov + word_of_nat size\<rparr>, m)))"

text \<open>The loop: the buffer \<open>buf\<close> holds the \<open>n\<close> bytes from \<open>ptr\<close> on.\<close>

function (sequential) uiomove_loop :: "u8 list \<Rightarrow> uiov \<Rightarrow> 'a memories_scheme \<Rightarrow> (errno option \<times> u8 list \<times> uiov \<times> 'a memories_scheme) option" where
  "uiomove_loop buf u m =
     (if length buf > 0 \<and> uio_resid u > 0 then
        (case uio_iov u of
           [] \<Rightarrow> None
         | iov # iovs \<Rightarrow>
             let size = min (unat (iov_len iov)) (length buf) in
             if size = 0 then
               (if iovs = [] then None else uiomove_loop buf (u\<lparr>uio_past := uio_past u @ [iov], uio_iov := iovs\<rparr>) m)
             else do {
               (result, part, iov, m) \<leftarrow> move_part u iov (take size buf) m;
               (case result of
                  Some e \<Rightarrow> Some (Some e, part @ drop size buf, u\<lparr>uio_iov := iov # iovs\<rparr>, m)
                | None \<Rightarrow> do {
                    let iov = iov\<lparr>iov_len := iov_len iov - word_of_nat size\<rparr>;
                    (result, rest, u, m) \<leftarrow> uiomove_loop (drop size buf)
                      (u\<lparr>uio_iov := iov # iovs, uio_resid := uio_resid u - word_of_nat size, uio_offset := uio_offset u + int size\<rparr>) m;
                    Some (result, part @ rest, u, m) }) })
      else Some (None, buf, u, m))"
  by pat_completeness auto
termination by (relation "measures [\<lambda>(buf, u, m). length buf, \<lambda>(buf, u, m). length (uio_iov u)]") auto

declare uiomove_loop.simps [simp del]

definition uiomove :: "nat option \<Rightarrow> u8 list \<Rightarrow> uiov \<Rightarrow> 'a memories_scheme \<Rightarrow> (errno option \<times> u8 list \<times> uiov \<times> 'a memories_scheme) option" where
  "uiomove cur buf u m = do {
     kassert (if uio_segflg u = UIO_SYSSPACE then uio_space u = None else uio_space u = cur);
     uiomove_loop buf u m }"

text \<open>Sixteen zeros at a time.\<close>

function zeros_loop :: "nat option \<Rightarrow> nat \<Rightarrow> uiov \<Rightarrow> 'a memories_scheme \<Rightarrow> (errno option \<times> uiov \<times> 'a memories_scheme) option" where
  "zeros_loop cur n u m =
     (if n > 0 then do {
        let amt = min 16 n;
        (result, buf, u, m) \<leftarrow> uiomove cur (replicate amt 0) u m;
        (case result of
           Some e \<Rightarrow> Some (Some e, u, m)
         | None \<Rightarrow> zeros_loop cur (n - amt) u m) }
      else Some (None, u, m))"
  by pat_completeness auto
termination by (relation "measure (\<lambda>(cur, n, u, m). n)") auto

declare zeros_loop.simps [simp del]

definition uiomovezeros :: "nat option \<Rightarrow> nat \<Rightarrow> uiov \<Rightarrow> 'a memories_scheme \<Rightarrow> (errno option \<times> uiov \<times> 'a memories_scheme) option" where
  "uiomovezeros cur n u m = do { kassert (uio_rw u = UIO_READ); zeros_loop cur n u m }"

definition uio_kinit :: "u8 list \<Rightarrow> int \<Rightarrow> uio_rw \<Rightarrow> uiov" where
  "uio_kinit kbuf pos rw =
     \<lparr>uio_offset = pos, uio_resid = word_of_nat (length kbuf), uio_rw = rw, uio_past = [],
      uio_iov = [\<lparr>iov_ubase = 0, iov_kpast = [], iov_kbase = kbuf, iov_len = word_of_nat (length kbuf)\<rparr>],
      uio_segflg = UIO_SYSSPACE, uio_space = None\<rparr>"

section \<open>What a transfer does\<close>

definition same_rest :: "'a memories_scheme \<Rightarrow> 'a memories_scheme \<Rightarrow> bool" where
  "same_rest m m' \<longleftrightarrow> (\<exists>k w. m' = m\<lparr>kmem := k, umem := w\<rparr>)"

lemma same_rest_refl [simp]: "same_rest m m"
  unfolding same_rest_def by (rule exI [of _ "kmem m"], rule exI [of _ "umem m"]) simp

lemma same_rest_trans: "same_rest m m' \<Longrightarrow> same_rest m' m'' \<Longrightarrow> same_rest m m''"
  unfolding same_rest_def
proof (elim exE)
  fix k w k' w'
  assume "m' = m\<lparr>kmem := k, umem := w\<rparr>" "m'' = m'\<lparr>kmem := k', umem := w'\<rparr>"
  then have "m'' = m\<lparr>kmem := k', umem := w'\<rparr>" by simp
  then show "\<exists>k w. m'' = m\<lparr>kmem := k, umem := w\<rparr>" by blast
qed

lemma same_rest_upd [simp]: "same_rest m (m\<lparr>kmem := k\<rparr>)" "same_rest m (m\<lparr>umem := w\<rparr>)"
  unfolding same_rest_def
  by (rule exI [of _ k], rule exI [of _ "umem m"], simp) (rule exI [of _ "kmem m"], rule exI [of _ w], simp)

lemma memcpy_in_rest: "memcpy_in dest src n m = (d, m') \<Longrightarrow> same_rest m m'"
proof (induction n arbitrary: dest src m)
  case (Suc n)
  then show ?case by (cases "accessible m src") (auto intro: same_rest_trans [OF same_rest_upd(1)])
qed simp

lemma memcpy_out_rest: "memcpy_out dest src n m = (d, m') \<Longrightarrow> same_rest m m'"
proof (induction n arbitrary: dest src m)
  case (Suc n)
  then show ?case by (cases "accessible m dest") (auto intro: same_rest_trans [OF same_rest_upd(2)])
qed simp

lemma copyin_rest: "copyin p dest len m = (r, m') \<Longrightarrow> same_rest m m'"
  by (auto simp: copyin_cases Let_def split: if_splits prod.splits intro: memcpy_in_rest)

lemma copyout_rest: "copyout src p len m = (r, m') \<Longrightarrow> same_rest m m'"
  by (auto simp: copyout_cases Let_def split: if_splits prod.splits intro: memcpy_out_rest)

text \<open>A transfer of one buffer, with room for what is still to come.\<close>

definition uio_ready :: "nat option \<Rightarrow> uiov \<Rightarrow> bool" where
  "uio_ready cur u \<longleftrightarrow> (\<exists>iov. uio_iov u = [iov] \<and> unat (uio_resid u) \<le> unat (iov_len iov) \<and>
     (if uio_segflg u = UIO_SYSSPACE then uio_space u = None \<and> length (iov_kbase iov) = unat (iov_len iov)
      else uio_space u = cur))"

text \<open>The bytes a write still has to take.\<close>

definition source :: "uiov \<Rightarrow> 'a memories_scheme \<Rightarrow> u8 list" where
  "source u m = (if uio_segflg u = UIO_SYSSPACE then iov_kbase (hd (uio_iov u))
     else map (\<lambda>i. umem m (unat (iov_ubase (hd (uio_iov u))) + i)) [0..<unat (iov_len (hd (uio_iov u)))])"

text \<open>The bytes \<open>bs\<close> have been moved, and nothing else happened outside the kernel's scratch memory.\<close>

definition moved :: "u8 list \<Rightarrow> uiov \<Rightarrow> 'a memories_scheme \<Rightarrow> uiov \<Rightarrow> 'a memories_scheme \<Rightarrow> bool" where
  "moved bs u m u' m' \<longleftrightarrow>
     uio_rw u' = uio_rw u \<and> uio_segflg u' = uio_segflg u \<and> uio_space u' = uio_space u \<and>
     uio_offset u' = uio_offset u + int (length bs) \<and> unat (uio_resid u) = length bs + unat (uio_resid u') \<and> same_rest m m' \<and>
     (let iov = hd (uio_iov u); iov' = hd (uio_iov u') in
      unat (iov_len iov) = length bs + unat (iov_len iov') \<and>
      (if uio_segflg u = UIO_SYSSPACE then iov_kpast iov' = iov_kpast iov @ bs \<and> iov_kbase iov' = drop (length bs) (iov_kbase iov) \<and> m' = m
      else unat (iov_ubase iov') = unat (iov_ubase iov) + length bs \<and>
        umem m' = (if uio_rw u = UIO_READ then store (umem m) (unat (iov_ubase iov)) bs else umem m))) \<and>
     (uio_rw u = UIO_WRITE \<longrightarrow> take (length bs) (source u m) = bs)"

lemma store_append: "store (store m a bs) (a + length bs) cs = store m a (bs @ cs)"
  by (rule ext) (auto simp: store_def nth_append)

lemma store_Nil [simp]: "store m a [] = m"
  by (rule ext) (auto simp: store_def)

lemma moved_nothing: "moved [] u m u m"
  unfolding moved_def by (simp add: Let_def)

lemma source_moved:
  assumes "moved bs u m u' m'" and "uio_rw u = UIO_WRITE"
  shows "source u' m' = drop (length bs) (source u m)"
proof (cases "uio_segflg u = UIO_SYSSPACE")
  case True
  with assms show ?thesis by (simp add: moved_def source_def Let_def)
next
  case False
  with assms show ?thesis by (intro nth_equalityI) (simp_all add: moved_def source_def Let_def ac_simps)
qed

lemma moved_trans:
  assumes "moved bs u m u1 m1" and "moved cs u1 m1 u2 m2"
  shows "moved (bs @ cs) u m u2 m2"
proof -
  have w: "take (length (bs @ cs)) (source u m) = bs @ cs" if w: "uio_rw u = UIO_WRITE"
  proof -
    from assms w have "take (length bs) (source u m) = bs" "take (length cs) (source u1 m1) = cs" by (simp_all add: moved_def)
    then show ?thesis unfolding source_moved [OF assms(1) w] by (metis take_add length_append)
  qed
  have "same_rest m m2" using assms by (auto simp: moved_def intro: same_rest_trans)
  moreover have "umem m2 = store (umem m) (unat (iov_ubase (hd (uio_iov u)))) (bs @ cs)" if "uio_segflg u \<noteq> UIO_SYSSPACE" "uio_rw u = UIO_READ"
    using assms that store_append [of "umem m"] by (simp add: moved_def Let_def)
  ultimately show ?thesis using assms w unfolding moved_def Let_def by (cases "uio_segflg u = UIO_SYSSPACE") (simp_all add: ac_simps)
qed

lemma moved_length: "moved bs u m u' m' \<Longrightarrow> length bs \<le> unat (uio_resid u)"
  by (simp add: moved_def)

text \<open>A call with a buffer that fits: it moves the whole buffer, or a program's memory is not accessible
  and nothing has been counted as moved.\<close>

lemma user_word: "n \<le> unat (w::u32) \<Longrightarrow> unat (word_of_nat n :: u32) = n"
  by (metis le_unat_uoi)

lemma uiomove_loop_Nil [simp]: "uiomove_loop [] u m = Some (None, [], u, m)"
  by (simp add: uiomove_loop.simps)

lemma sub_size:
  assumes "n \<le> unat (w::u32)"
  shows "unat (w - word_of_nat n) = unat w - n"
  using assms unat_sub [of "word_of_nat n" w] by (simp add: user_word [OF assms] word_le_nat_alt)

lemma move_part_error: "move_part u iov part m = Some (Some e, part', iov', m') \<Longrightarrow> iov' = iov"
  by (auto simp: move_part_def Let_def split: uio_seg.splits uio_rw.splits prod.splits option.splits)

lemma uiomove_ok:
  assumes ready: "uio_ready cur u" and fits: "length buf \<le> unat (uio_resid u)"
  shows "\<exists>r buf' u' m'. uiomove cur buf u m = Some (r, buf', u', m') \<and> length buf' = length buf \<and> uio_ready cur u' \<and>
    (case r of
       None \<Rightarrow> moved buf' u m u' m' \<and> (uio_rw u = UIO_READ \<longrightarrow> buf' = buf)
     | Some e \<Rightarrow> e = EFAULT \<and> u' = u \<and> same_rest m m' \<and> uio_segflg u \<noteq> UIO_SYSSPACE \<and> (uio_rw u = UIO_WRITE \<longrightarrow> umem m' = umem m))"
proof (cases "buf = []")
  case True
  with ready have "uiomove cur buf u m = Some (None, [], u, m)" by (auto simp: uiomove_def uio_ready_def)
  with True ready show ?thesis using moved_nothing [of u m] by simp
next
  case False
  from ready obtain iov where iov: "uio_iov u = [iov]" "unat (uio_resid u) \<le> unat (iov_len iov)"
    and space: "if uio_segflg u = UIO_SYSSPACE then uio_space u = None \<and> length (iov_kbase iov) = unat (iov_len iov)
      else uio_space u = cur" unfolding uio_ready_def by blast
  have fits': "length buf \<le> unat (iov_len iov)" using fits iov(2) by simp
  have pos: "length buf > 0" "uio_resid u > 0" using False fits by (auto simp: word_gt_0 intro: Nat.gr0I)
  note n = user_word [OF fits] and left = sub_size [OF fits] sub_size [OF fits']
  let ?u = "\<lambda>iov. u\<lparr>uio_iov := [iov\<lparr>iov_len := iov_len iov - word_of_nat (length buf)\<rparr>],
    uio_resid := uio_resid u - word_of_nat (length buf), uio_offset := uio_offset u + int (length buf)\<rparr>"
  have run: "uiomove cur buf u m = move_part u iov buf m \<bind> (\<lambda>(r, part, iov, m).
      case r of Some e \<Rightarrow> Some (Some e, part, u, m) | None \<Rightarrow> Some (None, part, ?u iov, m))"
  proof -
    have same: "u\<lparr>uio_iov := [iov]\<rparr> = u" using iov(1) by (cases u) simp
    have size: "min (unat (iov_len iov)) (length buf) = length buf" using fits' by simp
    have "uiomove_loop buf u m = move_part u iov buf m \<bind> (\<lambda>(r, part, iov, m).
        case r of Some e \<Rightarrow> Some (Some e, part, u, m) | None \<Rightarrow> Some (None, part, ?u iov, m))"
    proof (cases "move_part u iov buf m")
      case None
      with pos show ?thesis by (subst uiomove_loop.simps) (simp add: iov(1) size Let_def)
    next
      case (Some x)
      obtain r part iov' m' where x: "x = (r, part, iov', m')" by (cases x)
      show ?thesis
      proof (cases r)
        case None
        then show ?thesis using pos Some x by (subst uiomove_loop.simps) (simp add: iov(1) size Let_def)
      next
        case err: (Some e)
        with Some x have "iov' = iov" by (auto dest: move_part_error)
        with Some x err show ?thesis using pos
          by (subst uiomove_loop.simps) (simp add: iov(1) size Let_def same)
      qed
    qed
    then show ?thesis using space unfolding uiomove_def by (simp split: if_splits)
  qed
  show ?thesis
  proof (cases "uio_segflg u = UIO_SYSSPACE")
    case True
    with space have k: "uio_space u = None" "length (iov_kbase iov) = unat (iov_len iov)" by simp_all
    let ?iov = "\<lambda>part. iov\<lparr>iov_kpast := iov_kpast iov @ part, iov_kbase := drop (length buf) (iov_kbase iov)\<rparr>"
    let ?part = "if uio_rw u = UIO_READ then buf else take (length buf) (iov_kbase iov)"
    have "move_part u iov buf m = Some (None, ?part, ?iov ?part, m)"
      using True fits' k by (cases "uio_rw u") (simp_all add: move_part_def Let_def)
    moreover have "length ?part = length buf" using fits' k by simp
    moreover have "uio_ready cur (?u (?iov ?part))" using True k iov left by (simp add: uio_ready_def)
    moreover have "moved ?part u m (?u (?iov ?part)) m"
      using True k iov left fits by (auto simp: moved_def source_def Let_def)
    ultimately show ?thesis using run by auto
  next
    case False
    let ?m = "m\<lparr>kmem := store (kmem m) 0 buf\<rparr>" and ?len = "word_of_nat (length buf) :: u32"
    have len0: "?len \<noteq> 0" using n pos(1) by force
    have seg: "uio_space u = cur" using space False by simp
    have ready': "uio_ready cur (?u (iov\<lparr>iov_ubase := b\<rparr>))" for b using False seg iov left by (simp add: uio_ready_def)
    have base: "unat (iov_ubase iov + ?len) = unat (iov_ubase iov) + length buf" if "user_region m' (iov_ubase iov) ?len" for m' :: "'a memories_scheme"
      using that unat_add_lem [of "iov_ubase iov" ?len] n by (simp add: user_region_def)
    show ?thesis
    proof (cases "uio_rw u")
      case UIO_READ
      obtain r m' where c: "copyout 0 (iov_ubase iov) ?len ?m = (r, m')" by fastforce
      have mp: "move_part u iov buf m = Some (case r of Some e \<Rightarrow> (Some e, buf, iov, m')
          | None \<Rightarrow> (None, buf, iov\<lparr>iov_ubase := iov_ubase iov + ?len\<rparr>, m'))"
        using False UIO_READ c by (cases "uio_segflg u") (simp_all add: move_part_def Let_def split: option.splits)
      note sp = copyout_spec [OF c]
      have rest: "same_rest m m'" using same_rest_trans [OF same_rest_upd(1) copyout_rest [OF c]] .
      show ?thesis
      proof (cases r)
        case None
        with sp have reg: "user_region ?m (iov_ubase iov) ?len" and um: "umem m' = blit (umem m) (unat (iov_ubase iov)) (store (kmem m) 0 buf) 0 (length buf)"
          by (simp_all add: n)
        have "umem m' = store (umem m) (unat (iov_ubase iov)) buf" unfolding um by (rule ext) (auto simp: blit_def store_def)
        with False UIO_READ rest iov left fits base [OF reg] have "moved buf u m (?u (iov\<lparr>iov_ubase := iov_ubase iov + ?len\<rparr>)) m'"
          by (simp add: moved_def Let_def)
        with run mp None ready' UIO_READ show ?thesis by simp
      next
        case (Some e)
        with run mp sp rest False UIO_READ ready show ?thesis by auto
      qed
    next
      case UIO_WRITE
      obtain r m' where c: "copyin (iov_ubase iov) 0 ?len ?m = (r, m')" by fastforce
      let ?part = "map (kmem m') [0..<length buf]"
      have mp: "move_part u iov buf m = Some (case r of Some e \<Rightarrow> (Some e, ?part, iov, m')
          | None \<Rightarrow> (None, ?part, iov\<lparr>iov_ubase := iov_ubase iov + ?len\<rparr>, m'))"
        using False UIO_WRITE c by (cases "uio_segflg u") (simp_all add: move_part_def Let_def split: option.splits)
      note sp = copyin_spec [OF c]
      have rest: "same_rest m m'" using same_rest_trans [OF same_rest_upd(1) copyin_rest [OF c]] .
      show ?thesis
      proof (cases r)
        case None
        with sp have reg: "user_region ?m (iov_ubase iov) ?len" and km: "kmem m' = blit (store (kmem m) 0 buf) 0 (umem m) (unat (iov_ubase iov)) (length buf)"
          and um: "umem m' = umem m" by (simp_all add: n)
        have "take (length buf) (source u m) = ?part" using fits False iov
          by (intro nth_equalityI) (simp_all add: source_def km blit_def)
        with False UIO_WRITE rest iov left fits um base [OF reg] have "moved ?part u m (?u (iov\<lparr>iov_ubase := iov_ubase iov + ?len\<rparr>)) m'"
          by (simp add: moved_def Let_def)
        with run mp None ready' UIO_WRITE show ?thesis by simp
      next
        case (Some e)
        with run mp sp rest False UIO_WRITE ready show ?thesis by auto
      qed
    qed
  qed
qed

lemma zeros_ok:
  assumes "uio_ready cur u" and "n \<le> unat (uio_resid u)" and "uio_rw u = UIO_READ"
  shows "\<exists>r u' m'. zeros_loop cur n u m = Some (r, u', m') \<and> uio_ready cur u' \<and>
    (case r of
       None \<Rightarrow> moved (replicate n 0) u m u' m'
     | Some e \<Rightarrow> e = EFAULT \<and> uio_segflg u \<noteq> UIO_SYSSPACE \<and> (\<exists>k m1. moved (replicate k 0) u m u' m1 \<and> same_rest m1 m'))"
  using assms
proof (induction n arbitrary: u m rule: less_induct)
  case (less n)
  show ?case
  proof (cases "n = 0")
    case True
    with less.prems show ?thesis using moved_nothing [of u m] by (subst zeros_loop.simps) simp
  next
    case False
    let ?amt = "min 16 n"
    have "length (replicate ?amt (0::u8)) \<le> unat (uio_resid u)" using less.prems by simp
    from uiomove_ok [OF less.prems(1) this, of m] less.prems(3) obtain r buf u1 and m1 :: "'a memories_scheme" where
      mv: "uiomove cur (replicate ?amt 0) u m = Some (r, buf, u1, m1)" "uio_ready cur u1"
      "case r of None \<Rightarrow> moved buf u m u1 m1 \<and> buf = replicate ?amt 0
       | Some e \<Rightarrow> e = EFAULT \<and> u1 = u \<and> same_rest m m1 \<and> uio_segflg u \<noteq> UIO_SYSSPACE" by (auto split: option.splits)
    show ?thesis
    proof (cases r)
      case (Some e)
      have "moved (replicate 0 0) u m u m" using moved_nothing [of u m] by simp
      then have "\<exists>k m0. moved (replicate k 0) u m u m0 \<and> same_rest m0 m1" using Some mv(3) by (intro exI [of _ 0] exI [of _ m]) simp
      with Some mv False show ?thesis by (subst zeros_loop.simps) (simp add: Let_def)
    next
      case None
      with mv(3) have m1: "moved (replicate ?amt 0) u m u1 m1" by auto
      then have u1: "n - ?amt \<le> unat (uio_resid u1)" "uio_rw u1 = UIO_READ" "uio_segflg u1 = uio_segflg u"
        using less.prems by (auto simp: moved_def)
      from less.IH [OF _ mv(2) u1(1,2), of m1] False obtain r' u' and m' :: "'a memories_scheme" where
        z: "zeros_loop cur (n - ?amt) u1 m1 = Some (r', u', m')" "uio_ready cur u'"
        "case r' of None \<Rightarrow> moved (replicate (n - ?amt) 0) u1 m1 u' m'
         | Some e \<Rightarrow> e = EFAULT \<and> uio_segflg u1 \<noteq> UIO_SYSSPACE \<and> (\<exists>k m2. moved (replicate k 0) u1 m1 u' m2 \<and> same_rest m2 m')" by auto
      have run: "zeros_loop cur n u m = Some (r', u', m')" using False mv(1) None z(1) by (subst zeros_loop.simps) (simp add: Let_def)
      have comp: "moved (replicate (?amt + k) 0) u m u' m2" if "moved (replicate k 0) u1 m1 u' m2" for k m2
        using moved_trans [OF m1 that] by (simp add: replicate_add)
      show ?thesis
      proof (cases r')
        case None
        with z(3) have "moved (replicate n 0) u m u' m'" using comp [of "n - ?amt" m'] by simp
        with None run z(2) show ?thesis by simp
      next
        case (Some e)
        with z(3) u1(3) have "e = EFAULT \<and> uio_segflg u \<noteq> UIO_SYSSPACE \<and> (\<exists>k m1. moved (replicate k 0) u m u' m1 \<and> same_rest m1 m')"
          using comp by auto
        with Some run z(2) show ?thesis by simp
      qed
    qed
  qed
qed

end
