(* ===== verification/Device.thy ===== *)
theory Device
  imports VfsPath Uio
begin

text \<open>
  Devices as files: the vnode operations of \<open>kern/vfs/device.c\<close>, the failing stubs of
  \<open>kern/vfs/vfsfail.c\<close> they share with the file systems, and the null device of
  \<open>kern/vfs/devnull.c\<close>. The operations of the driver below are parameters; of a \<open>uio\<close> the direction,
  the offset and the residue are modelled. File offsets are 64-bit signed, block counts 32-bit
  words: the size of a device is computed with 32 bits and wraps.
\<close>

section \<open>Devices\<close>

abbreviation S_IFREG :: u32 where "S_IFREG \<equiv> 0x1000"
abbreviation S_IFCHR :: u32 where "S_IFCHR \<equiv> 0x6000"
abbreviation S_IFBLK :: u32 where "S_IFBLK \<equiv> 0x7000"

record device =
  d_blocks :: u32
  d_blocksize :: u32

text \<open>What the stat call reports of a device.\<close>

record devstat =
  st_size :: u32
  st_blksize :: u32
  st_mode :: u32
  st_nlink :: nat
  st_blocks :: u32
  st_rdev :: nat

definition dev_eachopen :: "(u32 \<Rightarrow> errno option) \<Rightarrow> u32 \<Rightarrow> errno option" where
  "dev_eachopen devop_eachopen flags =
     (if flags AND (O_CREAT OR O_TRUNC OR O_EXCL OR O_APPEND) \<noteq> 0 then Some EINVAL else devop_eachopen flags)"

text \<open>C's remainder and quotient of the offset by the block size; a size of 0 traps.\<close>

definition dev_tryseek :: "device \<Rightarrow> int \<Rightarrow> errno option option" where
  "dev_tryseek d pos =
     (if d_blocks d > 0 then do {
        kassert (d_blocksize d \<noteq> 0);
        let size = uint (d_blocksize d);
        let q = (if pos < 0 then - (- pos div size) else pos div size);
        let r = pos - q * size;
        if r \<noteq> 0 then Some (Some EINVAL)
        else if q \<ge> uint (d_blocks d) then Some (Some EINVAL)
        else Some None }
      else Some None)"

definition dev_read :: "(uio \<Rightarrow> errno option \<times> uio) \<Rightarrow> device \<Rightarrow> uio \<Rightarrow> (errno option \<times> uio) option" where
  "dev_read devop_io d u = do {
     result \<leftarrow> dev_tryseek d (uio_offset u);
     (case result of
        Some e \<Rightarrow> Some (Some e, u)
      | None \<Rightarrow> do { kassert (uio_rw u = UIO_READ); Some (devop_io u) }) }"

definition dev_write :: "(uio \<Rightarrow> errno option \<times> uio) \<Rightarrow> device \<Rightarrow> uio \<Rightarrow> (errno option \<times> uio) option" where
  "dev_write devop_io d u = do {
     result \<leftarrow> dev_tryseek d (uio_offset u);
     (case result of
        Some e \<Rightarrow> Some (Some e, u)
      | None \<Rightarrow> do { kassert (uio_rw u = UIO_WRITE); Some (devop_io u) }) }"

definition dev_gettype :: "device \<Rightarrow> u32" where
  "dev_gettype d = (if d_blocks d > 0 then S_IFBLK else S_IFCHR)"

definition dev_stat :: "device \<Rightarrow> nat \<Rightarrow> devstat" where
  "dev_stat d devnumber =
     \<lparr>st_size = (if d_blocks d > 0 then d_blocks d * d_blocksize d else 0),
      st_blksize = (if d_blocks d > 0 then d_blocksize d else 0),
      st_mode = dev_gettype d OR 0x180, st_nlink = 1, st_blocks = d_blocks d, st_rdev = devnumber\<rparr>"

definition dev_isseekable :: "device \<Rightarrow> bool" where
  "dev_isseekable d \<longleftrightarrow> d_blocks d \<noteq> 0"

definition dev_truncate :: "device \<Rightarrow> int \<Rightarrow> errno option" where
  "dev_truncate d len =
     (if d_blocks d > 0 \<and> uint (d_blocks d * d_blocksize d) = len then None else Some EINVAL)"

definition dev_lookup :: "nat \<Rightarrow> string \<Rightarrow> 's vfs_state \<Rightarrow> ((errno + nat) \<times> 's vfs_state) option" where
  "dev_lookup dir pathname s =
     (if length pathname > 0 then Some (Inl ENOENT, s)
      else do { s \<leftarrow> VOP_INCREF dir s; Some (Inr dir, s) })"

text \<open>Devices are permanent: the last reference stays.\<close>

definition dev_reclaim :: "nat \<Rightarrow> 's vfs_state \<Rightarrow> (errno option \<times> 's vfs_state) option" where
  "dev_reclaim v s = Some (None, s)"

section \<open>The stubs that fail\<close>

definition vopfail_creat_notdir :: "nat \<Rightarrow> string \<Rightarrow> bool \<Rightarrow> u32 \<Rightarrow> 's \<Rightarrow> ((errno + nat) \<times> 's) option" where
  "vopfail_creat_notdir vn name excl mode s = Some (Inl ENOTDIR, s)"

definition vopfail_symlink_notdir :: "nat \<Rightarrow> string \<Rightarrow> string \<Rightarrow> 's \<Rightarrow> (errno option \<times> 's) option" where
  "vopfail_symlink_notdir vn contents name s = Some (Some ENOTDIR, s)"

definition vopfail_symlink_nosys :: "nat \<Rightarrow> string \<Rightarrow> string \<Rightarrow> 's \<Rightarrow> (errno option \<times> 's) option" where
  "vopfail_symlink_nosys vn contents name s = Some (Some ENOSYS, s)"

definition vopfail_mkdir_notdir :: "nat \<Rightarrow> string \<Rightarrow> u32 \<Rightarrow> 's \<Rightarrow> (errno option \<times> 's) option" where
  "vopfail_mkdir_notdir vn name mode s = Some (Some ENOTDIR, s)"

definition vopfail_mkdir_nosys :: "nat \<Rightarrow> string \<Rightarrow> u32 \<Rightarrow> 's \<Rightarrow> (errno option \<times> 's) option" where
  "vopfail_mkdir_nosys vn name mode s = Some (Some ENOSYS, s)"

definition vopfail_link_notdir :: "nat \<Rightarrow> string \<Rightarrow> nat \<Rightarrow> 's \<Rightarrow> (errno option \<times> 's) option" where
  "vopfail_link_notdir dir name file s = Some (Some ENOTDIR, s)"

definition vopfail_link_nosys :: "nat \<Rightarrow> string \<Rightarrow> nat \<Rightarrow> 's \<Rightarrow> (errno option \<times> 's) option" where
  "vopfail_link_nosys dir name file s = Some (Some ENOSYS, s)"

definition vopfail_string_notdir :: "nat \<Rightarrow> string \<Rightarrow> 's \<Rightarrow> (errno option \<times> 's) option" where
  "vopfail_string_notdir vn name s = Some (Some ENOTDIR, s)"

definition vopfail_string_nosys :: "nat \<Rightarrow> string \<Rightarrow> 's \<Rightarrow> (errno option \<times> 's) option" where
  "vopfail_string_nosys vn name s = Some (Some ENOSYS, s)"

definition vopfail_rename_notdir :: "nat \<Rightarrow> string \<Rightarrow> nat \<Rightarrow> string \<Rightarrow> 's \<Rightarrow> (errno option \<times> 's) option" where
  "vopfail_rename_notdir fromdir fromname todir toname s = Some (Some ENOTDIR, s)"

definition vopfail_rename_nosys :: "nat \<Rightarrow> string \<Rightarrow> nat \<Rightarrow> string \<Rightarrow> 's \<Rightarrow> (errno option \<times> 's) option" where
  "vopfail_rename_nosys fromdir fromname todir toname s = Some (Some ENOSYS, s)"

definition vopfail_lookup_notdir :: "nat \<Rightarrow> string \<Rightarrow> 's \<Rightarrow> ((errno + nat) \<times> 's) option" where
  "vopfail_lookup_notdir vn path s = Some (Inl ENOTDIR, s)"

definition vopfail_lookparent_notdir :: "nat \<Rightarrow> string \<Rightarrow> 's \<Rightarrow> ((errno + nat \<times> string) \<times> 's) option" where
  "vopfail_lookparent_notdir vn path s = Some (Inl ENOTDIR, s)"

definition vopfail_truncate_isdir :: "nat \<Rightarrow> int \<Rightarrow> 's \<Rightarrow> (errno option \<times> 's) option" where
  "vopfail_truncate_isdir vn pos s = Some (Some EISDIR, s)"

definition vopfail_uio_inval :: "nat \<Rightarrow> errno option" where
  "vopfail_uio_inval vn = Some EINVAL"

definition vopfail_uio_isdir :: "nat \<Rightarrow> errno option" where
  "vopfail_uio_isdir vn = Some EISDIR"

lemmas vopfail_defs = vopfail_creat_notdir_def vopfail_symlink_notdir_def vopfail_symlink_nosys_def vopfail_mkdir_notdir_def
  vopfail_mkdir_nosys_def vopfail_link_notdir_def vopfail_link_nosys_def vopfail_string_notdir_def vopfail_string_nosys_def
  vopfail_rename_notdir_def vopfail_rename_nosys_def vopfail_lookup_notdir_def vopfail_lookparent_notdir_def
  vopfail_truncate_isdir_def vopfail_uio_inval_def vopfail_uio_isdir_def

section \<open>The null device\<close>

definition nullopen :: "u32 \<Rightarrow> errno option" where
  "nullopen openflags = None"

definition nullio :: "uio \<Rightarrow> errno option \<times> uio" where
  "nullio u = (None, if uio_rw u = UIO_WRITE then u\<lparr>uio_resid := 0\<rparr> else u)"

definition nullioctl :: "int \<Rightarrow> errno option" where
  "nullioctl op = Some EINVAL"

definition devnull_create :: "'s vfs_io \<Rightarrow> (nat \<Rightarrow> bool) \<Rightarrow> nat \<Rightarrow> nat \<Rightarrow> 's vfs_state \<Rightarrow> (device \<times> 's vfs_state) option" where
  "devnull_create io al v dev s = do {
     kassert (al 5);
     (result, s) \<leftarrow> vfs_adddev io al v ''null'' dev False s;
     kassert (result = None);
     Some (\<lparr>d_blocks = 0, d_blocksize = 1\<rparr>, s) }"

section \<open>Positions\<close>

text \<open>The positions a block device accepts are the starts of its blocks, and what lies a whole number
  of blocks below 0.\<close>

lemma dev_tryseek_block:
  assumes "d_blocks d > 0" and "d_blocksize d \<noteq> 0"
  shows "dev_tryseek d pos = Some None \<longleftrightarrow>
    uint (d_blocksize d) dvd pos \<and> pos < uint (d_blocks d) * uint (d_blocksize d)"
proof -
  define n where "n = uint (d_blocksize d)"
  define b where "b = uint (d_blocks d)"
  have n: "0 < n" using assms(2) by (simp add: n_def order_less_le uint_0_iff)
  have b: "0 < b" using assms(1) by (simp add: b_def word_less_def)
  have run: "dev_tryseek d pos = Some None \<longleftrightarrow>
      (let q = (if pos < 0 then - (- pos div n) else pos div n) in pos - q * n = 0 \<and> q < b)"
    using assms by (simp add: dev_tryseek_def n_def b_def Let_def)
  show ?thesis
  proof (cases "pos < 0")
    case True
    have "- pos div n \<ge> 0" using True n by (simp add: pos_imp_zdiv_nonneg_iff)
    moreover have "pos + (- pos div n) * n = - (- pos mod n)" using div_mult_mod_eq [of "- pos" n] by linarith
    then have "pos = - (- pos div n * n) \<longleftrightarrow> - pos mod n = 0" by linarith
    moreover have "- pos mod n = 0 \<longleftrightarrow> n dvd pos" using dvd_eq_mod_eq_0 [of n "- pos"] by simp
    moreover have "pos < b * n" using True mult_pos_pos [OF b n] by linarith
    ultimately show ?thesis using True b run by (simp add: Let_def n_def [symmetric] b_def [symmetric])
  next
    case False
    have "pos = pos div n * n \<longleftrightarrow> pos mod n = 0" using div_mult_mod_eq [of pos n] by linarith
    moreover have "pos div n < b \<longleftrightarrow> pos < b * n"
    proof -
      have e: "pos = pos div n * n + pos mod n" "0 \<le> pos mod n" "pos mod n < n" using n by simp_all
      have "pos div n * n + n \<le> b * n \<longleftrightarrow> pos div n + 1 \<le> b"
        using n mult_le_cancel_right [of "pos div n + 1" n b] by (simp add: distrib_right)
      moreover have "b * n \<le> pos div n * n \<longleftrightarrow> b \<le> pos div n" using n by (simp add: mult_le_cancel_right)
      ultimately show ?thesis using e by linarith
    qed
    ultimately show ?thesis using False run
      by (simp add: Let_def n_def [symmetric] b_def [symmetric] dvd_eq_mod_eq_0)
  qed
qed

end
