(* ===== verification/Semfs.thy ===== *)
theory Semfs
  imports Device
begin

text \<open>
  The semaphore file system: \<open>kern/fs/semfs/semfs_obj.c\<close>, \<open>semfs_vnops.c\<close> and \<open>semfs_fsops.c\<close>. Its
  private data is the table of semaphores, with holes, the root directory, with holes, and the list
  of the vnodes that exist, each with the number of its semaphore. A semaphore holds the threads
  asleep on its condition variable, first to wake first. Locks are left out: every operation is one
  atomic step, and a read stops where it sleeps. \<open>km i\<close> says whether the \<open>i\<close>-th allocation of a call
  succeeds; \<open>sem_heap\<close> is the address of the next vnode and \<open>sem_fs\<close> the one of the file system.
\<close>

section \<open>State\<close>

abbreviation SEMFS_ROOTDIR :: nat where "SEMFS_ROOTDIR \<equiv> 0xffffffff"

record semfs_sem =
  sems_count :: u32
  sems_waiting :: "nat list"
  sems_hasvnode :: bool
  sems_linked :: bool

record semfs_direntry =
  semd_name :: string
  semd_semnum :: nat

record semfs =
  semfs_vnodes :: "(nat \<times> nat) list"
  semfs_sems :: "semfs_sem option list"
  semfs_dents :: "semfs_direntry option list"
  sem_heap :: nat
  sem_fs :: nat

type_synonym sem_state = "semfs vfs_state"

definition upd_fs :: "(semfs \<Rightarrow> semfs) \<Rightarrow> sem_state \<Rightarrow> sem_state" where
  "upd_fs f s = s\<lparr>fsd := f (fsd s)\<rparr>"

text \<open>An entry of an array, which asserts its bounds.\<close>

definition array_get :: "'a list \<Rightarrow> nat \<Rightarrow> 'a option" where
  "array_get xs i = do { kassert (i < length xs); Some (xs ! i) }"

definition semnum_of :: "nat \<Rightarrow> sem_state \<Rightarrow> nat option" where
  "semnum_of vn s = map_of (semfs_vnodes (fsd s)) vn"

section \<open>Semaphores and directory entries\<close>

definition semfs_sem_create :: "bool \<Rightarrow> semfs_sem option" where
  "semfs_sem_create km =
     (if km then Some \<lparr>sems_count = 0, sems_waiting = [], sems_hasvnode = False, sems_linked = False\<rparr> else None)"

fun first_hole :: "nat \<Rightarrow> 'a option list \<Rightarrow> nat option" where
  "first_hole i [] = None"
| "first_hole i (x # xs) = (if x = None then Some i else first_hole (i + 1) xs)"

definition semfs_sem_insert :: "bool \<Rightarrow> semfs_sem \<Rightarrow> semfs \<Rightarrow> (errno + nat) \<times> semfs" where
  "semfs_sem_insert km sem f =
     (let num = length (semfs_sems f) in
      if num = SEMFS_ROOTDIR then (Inl ENOSPC, f)
      else (case first_hole 0 (semfs_sems f) of
          Some i \<Rightarrow> (Inr i, f\<lparr>semfs_sems := (semfs_sems f)[i := Some sem]\<rparr>)
        | None \<Rightarrow> if km then (Inr num, f\<lparr>semfs_sems := semfs_sems f @ [Some sem]\<rparr>) else (Inl ENOMEM, f)))"

definition semfs_direntry_create :: "bool \<Rightarrow> string \<Rightarrow> nat \<Rightarrow> semfs_direntry option" where
  "semfs_direntry_create km name semnum = (if km then Some \<lparr>semd_name = name, semd_semnum = semnum\<rparr> else None)"

section \<open>Vnodes\<close>

definition semfs_vnode_create :: "bool \<Rightarrow> nat \<Rightarrow> sem_state \<Rightarrow> (nat option \<times> sem_state) option" where
  "semfs_vnode_create km semnum s =
     (if \<not> km then Some (None, s)
      else do {
        let v = sem_heap (fsd s);
        vs \<leftarrow> vnode_init v True (Some (sem_fs (fsd s))) (nodes s);
        Some (Some v, upd_fs (\<lambda>f. f\<lparr>sem_heap := v + 1\<rparr>) (s\<lparr>nodes := vs\<rparr>)) })"

definition semfs_vnode_destroy :: "nat \<Rightarrow> sem_state \<Rightarrow> sem_state option" where
  "semfs_vnode_destroy v s = do {
     vs \<leftarrow> vnode_cleanup v (nodes s);
     Some (s\<lparr>nodes := vs(v := None)\<rparr>) }"

definition set_sem :: "nat \<Rightarrow> semfs_sem option \<Rightarrow> sem_state \<Rightarrow> sem_state" where
  "set_sem i x s = upd_fs (\<lambda>f. f\<lparr>semfs_sems := (semfs_sems f)[i := x]\<rparr>) s"

definition set_dent :: "nat \<Rightarrow> semfs_direntry option \<Rightarrow> sem_state \<Rightarrow> sem_state" where
  "set_dent i x s = upd_fs (\<lambda>f. f\<lparr>semfs_dents := (semfs_dents f)[i := x]\<rparr>) s"

definition semfs_getvnode :: "(nat \<Rightarrow> bool) \<Rightarrow> nat \<Rightarrow> sem_state \<Rightarrow> ((errno + nat) \<times> sem_state) option" where
  "semfs_getvnode km semnum s =
     (case find (\<lambda>(v, n). n = semnum) (semfs_vnodes (fsd s)) of
        Some (v, n) \<Rightarrow> do { s \<leftarrow> VOP_INCREF v s; Some (Inr v, s) }
      | None \<Rightarrow> do {
          (semv, s) \<leftarrow> semfs_vnode_create (km 0) semnum s;
          (case semv of
             None \<Rightarrow> Some (Inl ENOMEM, s)
           | Some v \<Rightarrow>
               if \<not> km 1 then do { s \<leftarrow> semfs_vnode_destroy v s; Some (Inl ENOMEM, s) }
               else do {
                 let s = upd_fs (\<lambda>f. f\<lparr>semfs_vnodes := semfs_vnodes f @ [(v, semnum)]\<rparr>) s;
                 s \<leftarrow> (if semnum \<noteq> SEMFS_ROOTDIR then do {
                        sem \<leftarrow> array_get (semfs_sems (fsd s)) semnum;
                        sem \<leftarrow> sem;
                        kassert (\<not> sems_hasvnode sem);
                        Some (set_sem semnum (Some (sem\<lparr>sems_hasvnode := True\<rparr>)) s) }
                      else Some s);
                 Some (Inr v, s) }) })"

text \<open>\<open>semfs_reclaim\<close> looks at the count again under its lock: another thread may have taken the vnode.\<close>

definition semfs_reclaim :: "nat \<Rightarrow> sem_state \<Rightarrow> (errno option \<times> sem_state) option" where
  "semfs_reclaim vn s = do {
     semnum \<leftarrow> semnum_of vn s;
     v \<leftarrow> nodes s vn;
     if vn_refcount v > 1 then
       Some (Some EBUSY, s\<lparr>nodes := (nodes s)(vn \<mapsto> v\<lparr>vn_refcount := vn_refcount v - 1\<rparr>)\<rparr>)
     else do {
       let s = upd_fs (\<lambda>f. f\<lparr>semfs_vnodes := filter (\<lambda>(v, n). v \<noteq> vn) (semfs_vnodes f)\<rparr>) s;
       s \<leftarrow> (if semnum \<noteq> SEMFS_ROOTDIR then do {
              sem \<leftarrow> array_get (semfs_sems (fsd s)) semnum;
              sem \<leftarrow> sem;
              kassert (sems_hasvnode sem);
              let sem = sem\<lparr>sems_hasvnode := False\<rparr>;
              Some (set_sem semnum (if \<not> sems_linked sem then None else Some sem) s) }
            else Some s);
       s \<leftarrow> semfs_vnode_destroy vn s;
       Some (None, s) } }"

section \<open>Basic operations\<close>

definition semfs_eachopen :: "nat \<Rightarrow> u32 \<Rightarrow> errno option" where
  "semfs_eachopen semnum openflags =
     (if semnum = SEMFS_ROOTDIR \<and> openflags AND O_ACCMODE \<noteq> O_RDONLY then Some EISDIR
      else if semnum = SEMFS_ROOTDIR \<and> openflags AND O_APPEND \<noteq> 0 then Some EISDIR
      else None)"

definition semfs_gettype :: "nat \<Rightarrow> u32" where
  "semfs_gettype semnum = (if semnum = SEMFS_ROOTDIR then S_IFDIR else S_IFREG)"

definition semfs_isseekable :: "nat \<Rightarrow> bool" where
  "semfs_isseekable semnum \<longleftrightarrow> \<not> semnum \<noteq> SEMFS_ROOTDIR"

section \<open>Counting\<close>

text \<open>Whom a change of the count wakes: nobody, the first sleeper, or all.\<close>

definition semfs_wakeup :: "semfs_sem \<Rightarrow> u32 \<Rightarrow> nat list \<times> semfs_sem" where
  "semfs_wakeup sem newcount =
     (if sems_count sem > 0 \<or> newcount = 0 then ([], sem)
      else if newcount = 1 then (take 1 (sems_waiting sem), sem\<lparr>sems_waiting := drop 1 (sems_waiting sem)\<rparr>)
      else (sems_waiting sem, sem\<lparr>sems_waiting := []\<rparr>))"

text \<open>The loop of \<open>semfs_read\<close> up to its end (\<open>True\<close>) or its sleep.\<close>

definition semfs_read_pass :: "nat \<Rightarrow> semfs_sem \<Rightarrow> uio \<Rightarrow> bool \<times> semfs_sem \<times> uio" where
  "semfs_read_pass t sem u =
     (let consume = (if uio_resid u > sems_count sem then sems_count sem else uio_resid u);
          sem = sem\<lparr>sems_count := sems_count sem - consume\<rparr>;
          u = u\<lparr>uio_offset := uio_offset u + uint consume, uio_resid := uio_resid u - consume\<rparr>
      in if uio_resid u = 0 then (True, sem, u)
         else (False, sem\<lparr>sems_waiting := sems_waiting sem @ [t]\<rparr>, u))"

definition semfs_write :: "semfs_sem \<Rightarrow> uio \<Rightarrow> errno option \<times> nat list \<times> semfs_sem \<times> uio" where
  "semfs_write sem u =
     (if uio_resid u > 0 then
        (let newcount = sems_count sem + uio_resid u in
         if newcount < sems_count sem then (Some EFBIG, [], sem, u)
         else (let (woken, sem) = semfs_wakeup sem newcount in
               (None, woken, sem\<lparr>sems_count := newcount\<rparr>,
                u\<lparr>uio_offset := uio_offset u + uint (uio_resid u), uio_resid := 0\<rparr>)))
      else (None, [], sem, u))"

text \<open>A truncation sets the count to the length.\<close>

definition semfs_truncate :: "nat \<Rightarrow> int \<Rightarrow> sem_state \<Rightarrow> (errno option \<times> sem_state) option" where
  "semfs_truncate vn len s = do {
     semnum \<leftarrow> semnum_of vn s;
     if len < 0 then Some (Some EINVAL, s)
     else if len > 0xffffffff then Some (Some EFBIG, s)
     else do {
       let newcount = word_of_int len;
       sem \<leftarrow> array_get (semfs_sems (fsd s)) semnum;
       sem \<leftarrow> sem;
       let (woken, sem) = semfs_wakeup sem newcount;
       Some (None, set_sem semnum (Some (sem\<lparr>sems_count := newcount\<rparr>)) s) } }"

text \<open>What \<open>stat\<close> reports: size, links, mode and number.\<close>

definition semfs_semstat :: "nat \<Rightarrow> sem_state \<Rightarrow> (u32 \<times> nat \<times> u32 \<times> nat) option" where
  "semfs_semstat semnum s = do {
     sem \<leftarrow> array_get (semfs_sems (fsd s)) semnum;
     sem \<leftarrow> sem;
     Some (sems_count sem, if sems_linked sem then 1 else 0, S_IFREG OR 0x1b6, semnum) }"

text \<open>The permissions of the directory are written in decimal in the code.\<close>

definition semfs_dirstat :: "sem_state \<Rightarrow> nat \<times> nat \<times> u32 \<times> nat" where
  "semfs_dirstat s = (length (semfs_dents (fsd s)), 2, S_IFDIR OR 1777, SEMFS_ROOTDIR)"

section \<open>The directory\<close>

text \<open>The name a directory read transfers, none at the end. A removed entry is a null pointer, which
  the code follows; the offset after the call has grown by the length of the name.\<close>

definition semfs_getdirentry :: "int \<Rightarrow> sem_state \<Rightarrow> string option option" where
  "semfs_getdirentry offset s = do {
     kassert (offset \<ge> 0);
     let pos = unat (word_of_int offset :: u32);
     if pos \<ge> length (semfs_dents (fsd s)) then Some None
     else do { dent \<leftarrow> semfs_dents (fsd s) ! pos; Some (Some (semd_name dent)) } }"

text \<open>The scan of the directory by name: the first entry of that name.\<close>

definition find_dent :: "string \<Rightarrow> semfs_direntry option list \<Rightarrow> nat option" where
  "find_dent name ds = find (\<lambda>i. case ds ! i of None \<Rightarrow> False | Some d \<Rightarrow> semd_name d = name) [0..<length ds]"

text \<open>\<open>semfs_creat\<close> returns an error number and stores a vnode through its argument; when it forgets to
  set the error number it returns 0 with no vnode. The allocations are those of the semaphore (2),
  its slot (3), the entry (4), the slot of the entry (5) and the vnode (0 and 1).\<close>

definition creat_unlock :: "errno option \<Rightarrow> sem_state \<Rightarrow> (errno option \<times> nat option) \<times> sem_state" where
  "creat_unlock result s = ((result, None), s)"

definition semfs_creat_link :: "(nat \<Rightarrow> bool) \<Rightarrow> nat \<Rightarrow> nat \<Rightarrow> sem_state \<Rightarrow> ((errno option \<times> nat option) \<times> sem_state) option" where
  "semfs_creat_link km semnum slot s = do {
     (r, s) \<leftarrow> semfs_getvnode km semnum s;
     (case r of
        Inl e \<Rightarrow> Some (creat_unlock (Some e) (set_sem semnum None (set_dent slot None s)))
      | Inr v \<Rightarrow> do {
          sem \<leftarrow> array_get (semfs_sems (fsd s)) semnum;
          sem \<leftarrow> sem;
          Some ((None, Some v), set_sem semnum (Some (sem\<lparr>sems_linked := True\<rparr>)) s) }) }"

definition semfs_creat :: "(nat \<Rightarrow> bool) \<Rightarrow> string \<Rightarrow> bool \<Rightarrow> sem_state \<Rightarrow> ((errno option \<times> nat option) \<times> sem_state) option" where
  "semfs_creat km name excl s =
     (if name = ''.'' \<or> name = ''..'' then Some ((Some EEXIST, None), s)
      else (case find_dent name (semfs_dents (fsd s)) of
        Some i \<Rightarrow>
          if excl then Some ((Some EEXIST, None), s)
          else do {
            dent \<leftarrow> semfs_dents (fsd s) ! i;
            (r, s) \<leftarrow> semfs_getvnode km (semd_semnum dent) s;
            Some (case r of Inl e \<Rightarrow> (Some e, None) | Inr v \<Rightarrow> (None, Some v), s) }
      | None \<Rightarrow>
          (case semfs_sem_create (km 2) of
             None \<Rightarrow> Some (creat_unlock (Some ENOMEM) s)
           | Some sem \<Rightarrow>
             (case semfs_sem_insert (km 3) sem (fsd s) of
                (Inl e, f) \<Rightarrow> Some (creat_unlock (Some e) s)
              | (Inr semnum, f) \<Rightarrow>
                  let s = upd_fs (\<lambda>_. f) s; uninsert = set_sem semnum None in
                  (case semfs_direntry_create (km 4) name semnum of
                     None \<Rightarrow> Some (creat_unlock None (uninsert s))
                   | Some dent \<Rightarrow>
                       (case first_hole 0 (semfs_dents (fsd s)) of
                          None \<Rightarrow>
                            if \<not> km 5 then Some (creat_unlock (Some ENOMEM) (uninsert s))
                            else semfs_creat_link km semnum (length (semfs_dents (fsd s)))
                              (upd_fs (\<lambda>f. f\<lparr>semfs_dents := semfs_dents f @ [Some dent]\<rparr>) s)
                        | Some slot \<Rightarrow> semfs_creat_link km semnum slot (set_dent slot (Some dent) s)))))))"

definition semfs_remove :: "string \<Rightarrow> sem_state \<Rightarrow> (errno option \<times> sem_state) option" where
  "semfs_remove name s =
     (if name = ''.'' \<or> name = ''..'' then Some (Some EINVAL, s)
      else (case find_dent name (semfs_dents (fsd s)) of
        None \<Rightarrow> Some (Some ENOENT, s)
      | Some i \<Rightarrow> do {
          dent \<leftarrow> semfs_dents (fsd s) ! i;
          sem \<leftarrow> array_get (semfs_sems (fsd s)) (semd_semnum dent);
          sem \<leftarrow> sem;
          kassert (sems_linked sem);
          let sem = sem\<lparr>sems_linked := False\<rparr>;
          let s = set_sem (semd_semnum dent) (if \<not> sems_hasvnode sem then None else Some sem) s;
          Some (None, set_dent i None s) }))"

definition semfs_lookup :: "(nat \<Rightarrow> bool) \<Rightarrow> nat \<Rightarrow> string \<Rightarrow> sem_state \<Rightarrow> ((errno + nat) \<times> sem_state) option" where
  "semfs_lookup km dirvn path s =
     (if path = ''.'' \<or> path = ''..'' then do { s \<leftarrow> VOP_INCREF dirvn s; Some (Inr dirvn, s) }
      else (case find_dent path (semfs_dents (fsd s)) of
        None \<Rightarrow> Some (Inl ENOENT, s)
      | Some i \<Rightarrow> do {
          dent \<leftarrow> semfs_dents (fsd s) ! i;
          semfs_getvnode km (semd_semnum dent) s }))"

definition semfs_lookparent :: "nat \<Rightarrow> nat \<Rightarrow> string \<Rightarrow> sem_state \<Rightarrow> ((errno + nat \<times> string) \<times> sem_state) option" where
  "semfs_lookparent bufmax dirvn path s =
     (if length path + 1 > bufmax then Some (Inl ENAMETOOLONG, s)
      else do { s \<leftarrow> VOP_INCREF dirvn s; Some (Inr (dirvn, path), s) })"

section \<open>The file system\<close>

definition semfs_sync :: "nat \<Rightarrow> nat \<Rightarrow> errno option" where
  "semfs_sync fs i = None"

definition semfs_getvolname :: "nat \<Rightarrow> string option" where
  "semfs_getvolname fs = Some ''sem''"

definition semfs_getroot :: "(nat \<Rightarrow> bool) \<Rightarrow> nat \<Rightarrow> sem_state \<Rightarrow> ((errno + nat) \<times> sem_state) option" where
  "semfs_getroot km fs s = semfs_getvnode km SEMFS_ROOTDIR s"

definition semfs_destroy :: "semfs \<Rightarrow> semfs" where
  "semfs_destroy f = f\<lparr>semfs_sems := [], semfs_dents := []\<rparr>"

definition semfs_unmount :: "nat \<Rightarrow> sem_state \<Rightarrow> (errno option \<times> sem_state) option" where
  "semfs_unmount fs s =
     (if length (semfs_vnodes (fsd s)) > 0 then Some (Some EBUSY, s)
      else Some (None, upd_fs semfs_destroy s))"

definition semfs_create :: "nat \<Rightarrow> nat \<Rightarrow> semfs" where
  "semfs_create fs heap = \<lparr>semfs_vnodes = [], semfs_sems = [], semfs_dents = [], sem_heap = heap, sem_fs = fs\<rparr>"

text \<open>The operations of a system whose file systems are the semaphore file system and devices. A vnode
  is the root directory, a semaphore or, with no semaphore number, a device; \<open>devtab\<close> gives the
  device of a device vnode and \<open>drv\<close> is the open routine of its driver. 256 is the size of
  the name buffers of the callers of \<open>vfs_lookparent\<close>.\<close>

datatype vkind = Root | Sem nat | Dev

definition kind_of :: "nat \<Rightarrow> sem_state \<Rightarrow> vkind" where
  "kind_of vn s = (case semnum_of vn s of None \<Rightarrow> Dev | Some n \<Rightarrow> if n = SEMFS_ROOTDIR then Root else Sem n)"

definition creat_result :: "((errno option \<times> nat option) \<times> sem_state) option \<Rightarrow> ((errno + nat) \<times> sem_state) option" where
  "creat_result r = do {
     ((result, v), s) \<leftarrow> r;
     (case result of Some e \<Rightarrow> Some (Inl e, s) | None \<Rightarrow> do { v \<leftarrow> v; Some (Inr v, s) }) }"

definition semfs_io :: "(nat \<Rightarrow> bool) \<Rightarrow> (nat \<Rightarrow> device) \<Rightarrow> (u32 \<Rightarrow> errno option) \<Rightarrow> semfs vfs_io" where
  "semfs_io km devtab drv = \<lparr>
     fsop_sync = semfs_sync,
     fsop_getvolname = semfs_getvolname,
     fsop_getroot = semfs_getroot km,
     fsop_unmount = semfs_unmount,
     vop_reclaim = (\<lambda>v s. if kind_of v s = Dev then dev_reclaim v s else semfs_reclaim v s),
     vop_eachopen = (\<lambda>v flags s. case kind_of v s of Dev \<Rightarrow> dev_eachopen drv flags
       | Root \<Rightarrow> semfs_eachopen SEMFS_ROOTDIR flags | Sem n \<Rightarrow> semfs_eachopen n flags),
     vop_gettype = (\<lambda>v s. Inr (case kind_of v s of Dev \<Rightarrow> dev_gettype (devtab v)
       | Root \<Rightarrow> semfs_gettype SEMFS_ROOTDIR | Sem n \<Rightarrow> semfs_gettype n)),
     vop_truncate = (\<lambda>v len s. case kind_of v s of Dev \<Rightarrow> Some (dev_truncate (devtab v) len, s)
       | Root \<Rightarrow> vopfail_truncate_isdir v len s | Sem n \<Rightarrow> semfs_truncate v len s),
     vop_lookup = (\<lambda>v path s. case kind_of v s of Dev \<Rightarrow> dev_lookup v path s
       | Root \<Rightarrow> semfs_lookup km v path s | Sem n \<Rightarrow> vopfail_lookup_notdir v path s),
     vop_lookparent = (\<lambda>v path s. if kind_of v s = Root then semfs_lookparent 256 v path s
       else vopfail_lookparent_notdir v path s),
     vop_creat = (\<lambda>v name excl mode s. if kind_of v s = Root then creat_result (semfs_creat km name excl s)
       else vopfail_creat_notdir v name excl mode s),
     vop_symlink = (\<lambda>v a b s. if kind_of v s = Root then vopfail_symlink_nosys v a b s else vopfail_symlink_notdir v a b s),
     vop_mkdir = (\<lambda>v name mode s. if kind_of v s = Root then vopfail_mkdir_nosys v name mode s
       else vopfail_mkdir_notdir v name mode s),
     vop_link = (\<lambda>v name w s. if kind_of v s = Root then vopfail_link_nosys v name w s else vopfail_link_notdir v name w s),
     vop_remove = (\<lambda>v name s. if kind_of v s = Root then semfs_remove name s else vopfail_string_notdir v name s),
     vop_rmdir = (\<lambda>v name s. if kind_of v s = Root then vopfail_string_nosys v name s else vopfail_string_notdir v name s),
     vop_rename = (\<lambda>v name w name' s. if kind_of v s = Root then vopfail_rename_nosys v name w name' s
       else vopfail_rename_notdir v name w name' s),
     vop_readlink = (\<lambda>v s. if kind_of v s = Root then vopfail_uio_isdir v else vopfail_uio_inval v)\<rparr>"

section \<open>Start\<close>

text \<open>Memory is assumed for the file system itself (\<open>m\<close>), the table and the lock; \<open>v\<close> and \<open>w\<close> are the
  addresses of the vnodes of \<open>null:\<close> and of the entry for \<open>sem:\<close>.\<close>

definition semfs_bootstrap :: "semfs vfs_io \<Rightarrow> bool \<Rightarrow> (nat \<Rightarrow> bool) \<Rightarrow> nat \<Rightarrow> nat \<Rightarrow> nat \<Rightarrow> sem_state \<Rightarrow> sem_state option" where
  "semfs_bootstrap io m al v fs heap s = do {
     kassert m;
     (result, s) \<leftarrow> vfs_addfs io al v ''sem'' fs (s\<lparr>fsd := semfs_create fs heap\<rparr>);
     kassert (result = None);
     Some s }"

definition vfs_bootstrap :: "semfs vfs_io \<Rightarrow> bool \<Rightarrow> (nat \<Rightarrow> bool) \<Rightarrow> nat \<Rightarrow> nat \<Rightarrow> nat \<Rightarrow> nat \<Rightarrow> nat \<Rightarrow> sem_state \<Rightarrow> sem_state option" where
  "vfs_bootstrap io m al v dev w fs heap s = do {
     kassert m;
     let s = s\<lparr>knowndevs := [], biglock_depth := 0\<rparr>;
     (d, s) \<leftarrow> devnull_create io al v dev s;
     semfs_bootstrap io m al w fs heap s }"

end
