(* ===== verification/VfsRefs.thy ===== *)
theory VfsRefs
  imports VfsPath
begin

text \<open>
  The contract between the VFS layer and the file systems, as a locale over the table of operations,
  and what the VFS layer makes of it: every operation on a path returns, with the big lock as it was,
  and has taken exactly the references it hands to its caller, on every path through the code. The
  contract is the one \<open>vnode.h\<close> and \<open>fs.h\<close> describe: an operation that returns a vnode has taken one
  reference to it and no other, and the last reference is gone after \<open>vop_reclaim\<close>.
\<close>

section \<open>Accounting\<close>

definition ref :: "nat option \<Rightarrow> nat multiset" where
  "ref v = (case v of None \<Rightarrow> {#} | Some v \<Rightarrow> {#v#})"

definition ref_of :: "errno + nat \<Rightarrow> nat multiset" where
  "ref_of r = (case r of Inl e \<Rightarrow> {#} | Inr v \<Rightarrow> {#v#})"

lemma ref_simps [simp]: "ref None = {#}" "ref (Some v) = {#v#}" "ref_of (Inl e) = {#}" "ref_of (Inr v) = {#v#}"
  by (simp_all add: ref_def ref_of_def)

lemma ref_of_pair [simp]: "ref_of (map_sum id snd (map_sum id (Pair p) r)) = ref_of r"
  by (cases r) simp_all

text \<open>The references the VFS layer holds itself.\<close>

definition holders :: "'s vfs_state \<Rightarrow> nat multiset" where
  "holders s = mset (map kd_vnode (knowndevs s)) + ref (bootfs_vnode s) + ref (cwd s)"

text \<open>Everything but the vnodes and the private data of the file systems.\<close>

type_synonym vfs_tables = "knowndev list \<times> (nat \<Rightarrow> nat) \<times> nat \<times> nat option \<times> nat option"

definition tables :: "'s vfs_state \<Rightarrow> vfs_tables" where
  "tables s = (knowndevs s, devnumbers s, biglock_depth s, bootfs_vnode s, cwd s)"

text \<open>The device table as \<open>vfs_adddev\<close> and \<open>vfs_addfs\<close> fill it.\<close>

definition devs_ok :: "knowndev list \<Rightarrow> bool" where
  "devs_ok kds \<longleftrightarrow> (\<forall>kd\<in>set kds.
     (kd_rawname kd \<noteq> None \<longrightarrow> kd_device kd \<noteq> None) \<and>
     (kd_rawname kd = None \<longrightarrow> kd_fs kd \<noteq> SWAP_FS \<and> (kd_fs kd = No_fs \<longrightarrow> kd_device kd \<noteq> None)))"

definition has_fs :: "nat \<Rightarrow> 's vfs_state \<Rightarrow> bool" where
  "has_fs v s \<longleftrightarrow> (\<forall>x. nodes s v = Some x \<longrightarrow> vn_fs x \<noteq> None)"

text \<open>\<open>E\<close> are the references held outside the VFS layer.\<close>

definition vfs_wf :: "('s vfs_state \<Rightarrow> bool) \<Rightarrow> nat multiset \<Rightarrow> 's vfs_state \<Rightarrow> bool" where
  "vfs_wf fsinv E s \<longleftrightarrow> fsinv s \<and> counted (E + holders s) (nodes s) \<and> devs_ok (knowndevs s) \<and>
     (\<forall>d. cwd s = Some d \<longrightarrow> has_fs d s)"

text \<open>What an operation of a file system does: it returns, keeps its invariant and the tables, takes
  exactly the references of its result, and no live vnode moves to another file system.\<close>

definition serves :: "('s vfs_state \<Rightarrow> bool) \<Rightarrow> nat multiset \<Rightarrow> 's vfs_state \<Rightarrow> ('r \<Rightarrow> nat multiset) \<Rightarrow> ('r \<times> 's vfs_state) option \<Rightarrow> bool" where
  "serves fsinv R s Q m \<longleftrightarrow> (\<exists>r s'. m = Some (r, s') \<and> fsinv s' \<and> counted (R + Q r) (nodes s') \<and> tables s' = tables s \<and>
     (\<forall>v\<in>#R. has_fs v s \<longrightarrow> has_fs v s'))"

lemma tables_simps:
  "tables (s\<lparr>nodes := vs\<rparr>) = tables s" "tables (s\<lparr>fsd := f\<rparr>) = tables s"
  by (simp_all add: tables_def)

lemma holders_tables: "tables s = tables s' \<Longrightarrow> holders s = holders s'"
  by (simp add: tables_def holders_def)

section \<open>The contract\<close>

locale file_systems =
  fixes io :: "'s vfs_io" and fsinv :: "'s vfs_state \<Rightarrow> bool"
  assumes inv_refcount: "fsinv s \<Longrightarrow> nodes s v = Some x \<Longrightarrow> 0 < n \<Longrightarrow> fsinv (s\<lparr>nodes := (nodes s)(v \<mapsto> x\<lparr>vn_refcount := n\<rparr>)\<rparr>)"
    and inv_tables: "fsinv s \<Longrightarrow> nodes s' = nodes s \<Longrightarrow> fsd s' = fsd s \<Longrightarrow> knowndevs s' = knowndevs s \<Longrightarrow> fsinv s'"
    and reclaim: "fsinv s \<Longrightarrow> nodes s v = Some x \<Longrightarrow> vn_refcount x = 1 \<Longrightarrow> v \<notin># holders s \<Longrightarrow> vnodes_ok (nodes s) \<Longrightarrow>
      \<exists>r s'. vop_reclaim io v s = Some (r, s') \<and> fsinv s' \<and> nodes s' = (nodes s)(v := None) \<and> tables s' = tables s"
    and getroot: "fsinv s \<Longrightarrow> counted R (nodes s) \<Longrightarrow> serves fsinv R s ref_of (fsop_getroot io fs s)"
    and directory: "fsinv s \<Longrightarrow> nodes s v \<noteq> None \<Longrightarrow> vop_gettype io v s = Inr S_IFDIR \<Longrightarrow> has_fs v s"
    and truncate: "fsinv s \<Longrightarrow> counted R (nodes s) \<Longrightarrow> v \<in># R \<Longrightarrow> serves fsinv R s (\<lambda>_. {#}) (vop_truncate io v len s)"
    and lookup: "fsinv s \<Longrightarrow> counted R (nodes s) \<Longrightarrow> v \<in># R \<Longrightarrow> serves fsinv R s ref_of (vop_lookup io v path s)"
    and lookparent: "fsinv s \<Longrightarrow> counted R (nodes s) \<Longrightarrow> v \<in># R \<Longrightarrow>
      serves fsinv R s (ref_of \<circ> map_sum id fst) (vop_lookparent io v path s)"
    and creat: "fsinv s \<Longrightarrow> counted R (nodes s) \<Longrightarrow> v \<in># R \<Longrightarrow> serves fsinv R s ref_of (vop_creat io v name excl mode s)"
    and symlink: "fsinv s \<Longrightarrow> counted R (nodes s) \<Longrightarrow> v \<in># R \<Longrightarrow> serves fsinv R s (\<lambda>_. {#}) (vop_symlink io v a b s)"
    and mkdir: "fsinv s \<Longrightarrow> counted R (nodes s) \<Longrightarrow> v \<in># R \<Longrightarrow> serves fsinv R s (\<lambda>_. {#}) (vop_mkdir io v name mode s)"
    and link: "fsinv s \<Longrightarrow> counted R (nodes s) \<Longrightarrow> v \<in># R \<Longrightarrow> w \<in># R \<Longrightarrow> serves fsinv R s (\<lambda>_. {#}) (vop_link io v name w s)"
    and remove: "fsinv s \<Longrightarrow> counted R (nodes s) \<Longrightarrow> v \<in># R \<Longrightarrow> serves fsinv R s (\<lambda>_. {#}) (vop_remove io v name s)"
    and rmdir: "fsinv s \<Longrightarrow> counted R (nodes s) \<Longrightarrow> v \<in># R \<Longrightarrow> serves fsinv R s (\<lambda>_. {#}) (vop_rmdir io v name s)"
    and rename: "fsinv s \<Longrightarrow> counted R (nodes s) \<Longrightarrow> v \<in># R \<Longrightarrow> w \<in># R \<Longrightarrow>
      serves fsinv R s (\<lambda>_. {#}) (vop_rename io v name w name' s)"
begin

text \<open>\<open>stands E t s\<close>: the state is well formed with the outside references \<open>E\<close>, and the tables are \<open>t\<close>.\<close>

definition stands :: "nat multiset \<Rightarrow> vfs_tables \<Rightarrow> 's vfs_state \<Rightarrow> bool" where
  "stands E t s \<longleftrightarrow> vfs_wf fsinv E s \<and> tables s = t"

definition returns :: "nat multiset \<Rightarrow> vfs_tables \<Rightarrow> ('r \<Rightarrow> nat multiset) \<Rightarrow> ('r \<times> 's vfs_state) option \<Rightarrow> bool" where
  "returns E t Q m \<longleftrightarrow> (\<exists>r s'. m = Some (r, s') \<and> stands (E + Q r) t s')"

definition runs :: "nat multiset \<Rightarrow> vfs_tables \<Rightarrow> 's vfs_state option \<Rightarrow> bool" where
  "runs E t m \<longleftrightarrow> (\<exists>s'. m = Some s' \<and> stands E t s')"

lemma returns_done: "stands E' t s \<Longrightarrow> E' = E + Q r \<Longrightarrow> returns E t Q (Some (r, s))"
  by (simp add: returns_def)

lemma returns_bind:
  assumes "returns E' t' P m" and "\<And>r s. stands (E' + P r) t' s \<Longrightarrow> returns E t Q (f r s)"
  shows "returns E t Q (m \<bind> (\<lambda>(r, s). f r s))"
  using assms by (auto simp: returns_def)

lemma runs_bind: "runs E' t' m \<Longrightarrow> (\<And>s. stands E' t' s \<Longrightarrow> returns E t Q (f s)) \<Longrightarrow> returns E t Q (m \<bind> f)"
  by (auto simp: runs_def)

lemma runs_bind_runs: "runs E' t' m \<Longrightarrow> (\<And>s. stands E' t' s \<Longrightarrow> runs E t (f s)) \<Longrightarrow> runs E t (m \<bind> f)"
  by (auto simp: runs_def)

text \<open>The steps.\<close>

lemma step_incref:
  assumes "stands E t s" and v: "v \<in># E + holders s"
  shows "runs (add_mset v E) t (VOP_INCREF v s)"
proof -
  from assms have wf: "vfs_wf fsinv E s" and t: "tables s = t" by (simp_all add: stands_def)
  then have cnt: "counted (E + holders s) (nodes s)" by (simp add: vfs_wf_def)
  from counted_liveE [OF cnt v] obtain x where x: "nodes s v = Some x" .
  let ?s = "s\<lparr>nodes := (nodes s)(v \<mapsto> x\<lparr>vn_refcount := vn_refcount x + 1\<rparr>)\<rparr>"
  have "0 < vn_refcount x + 1" using counted_refcount [OF cnt x] by simp
  then have "fsinv ?s" using inv_refcount [OF _ x] wf by (simp add: vfs_wf_def)
  moreover have "holders ?s = holders s" by (rule holders_tables) (simp add: tables_simps)
  moreover have "has_fs d ?s" if "has_fs d s" for d using that x by (auto simp: has_fs_def)
  ultimately have "vfs_wf fsinv (add_mset v E) ?s" using wf counted_incref(2) [OF cnt v x] by (simp add: vfs_wf_def)
  then show ?thesis using counted_incref(1) [OF cnt v x] t by (simp add: runs_def stands_def VOP_INCREF_def tables_simps)
qed

lemma step_decref:
  assumes at: "stands E' t s" and E': "E' = add_mset v E"
  shows "runs E t (VOP_DECREF io v s)"
proof -
  from assms have wf: "vfs_wf fsinv (add_mset v E) s" and t: "tables s = t" by (simp_all add: stands_def)
  then have cnt: "counted (add_mset v (E + holders s)) (nodes s)" by (simp add: vfs_wf_def)
  from cnt show ?thesis
  proof (cases rule: counted_decref)
    case (down x)
    let ?s = "s\<lparr>nodes := (nodes s)(v \<mapsto> x\<lparr>vn_refcount := vn_refcount x - 1\<rparr>)\<rparr>"
    have "0 < count (E + holders s) v" using down(2) by (simp only: count_greater_zero_iff)
    moreover have "vn_refcount x - 1 = int (count (E + holders s) v)" using counted_refcount [OF cnt down(1)] by simp
    ultimately have "0 < vn_refcount x - 1" by linarith
    then have "fsinv ?s" using inv_refcount [OF _ down(1)] wf by (simp add: vfs_wf_def)
    moreover have "holders ?s = holders s" by (rule holders_tables) (simp add: tables_simps)
    moreover have "has_fs d ?s" if "has_fs d s" for d using that down(1) by (auto simp: has_fs_def)
    ultimately have "vfs_wf fsinv E ?s" using wf down(4) by (simp add: vfs_wf_def)
    then show ?thesis using down t by (simp add: runs_def stands_def VOP_DECREF_def tables_simps)
  next
    case (reclaim x)
    have "vnode_check v (nodes s) = Some ()" by (rule counted_check [OF cnt]) simp
    moreover from file_systems.reclaim [OF file_systems_axioms _ reclaim(1,4)] reclaim(2) wf counted_ok [OF cnt] obtain r s'
      where s': "vop_reclaim io v s = Some (r, s')" "fsinv s'" "nodes s' = (nodes s)(v := None)" "tables s' = tables s"
      by (auto simp: vfs_wf_def)
    moreover have "has_fs d s'" if "has_fs d s" for d using that s'(3) by (auto simp: has_fs_def)
    moreover have "holders s' = holders s" "knowndevs s' = knowndevs s" "cwd s' = cwd s"
      using s'(4) holders_tables by (auto simp: tables_def)
    ultimately show ?thesis using wf reclaim t by (simp add: runs_def stands_def VOP_DECREF_def VOP_def vfs_wf_def)
  qed
qed

lemma step_check: "stands E t s \<Longrightarrow> v \<in># E + holders s \<Longrightarrow> VOP v s r = r"
  using counted_check [of "E + holders s" "nodes s" v] by (simp add: stands_def vfs_wf_def VOP_def)

lemma step_serves:
  assumes at: "stands E t s" and sv: "serves fsinv (E + holders s) s P m"
  shows "returns E t P m"
proof -
  from sv obtain r s' where m: "m = Some (r, s')" "fsinv s'" "counted (E + holders s + P r) (nodes s')" "tables s' = tables s"
    and fs: "\<forall>v\<in>#E + holders s. has_fs v s \<longrightarrow> has_fs v s'" by (auto simp: serves_def)
  have "holders s' = holders s" "knowndevs s' = knowndevs s" "cwd s' = cwd s"
    using m(4) holders_tables by (auto simp: tables_def)
  moreover have "d \<in># holders s" if "cwd s = Some d" for d using that by (simp add: holders_def)
  ultimately have "vfs_wf fsinv (E + P r) s'" using at m fs by (auto simp: stands_def vfs_wf_def ac_simps)
  with at m show ?thesis by (simp add: returns_def stands_def)
qed

lemma stands_counted: "stands E t s \<Longrightarrow> fsinv s \<and> counted (E + holders s) (nodes s)"
  by (simp add: stands_def vfs_wf_def)

section \<open>Names and paths\<close>

lemma step_acquire: "stands E (ds, ns, d, b, c) s \<Longrightarrow> stands E (ds, ns, d + 1, b, c) (vfs_biglock_acquire s)"
  using inv_tables [of s "vfs_biglock_acquire s"]
  by (auto simp: stands_def vfs_wf_def vfs_biglock_acquire_def tables_def holders_def has_fs_def)

lemma step_release:
  assumes "stands E (ds, ns, d + 1, b, c) s"
  shows "runs E (ds, ns, d, b, c) (vfs_biglock_release s)"
proof -
  let ?s = "s\<lparr>biglock_depth := biglock_depth s - 1\<rparr>"
  have "fsinv ?s" using inv_tables [of s ?s] assms by (simp add: stands_def vfs_wf_def)
  then have "stands E (ds, ns, d, b, c) ?s" using assms
    by (auto simp: stands_def vfs_wf_def tables_def holders_def has_fs_def)
  then show ?thesis using assms
    by (auto simp: runs_def vfs_biglock_release_def vfs_biglock_do_i_hold_def stands_def tables_def)
qed

lemma held_holders: "tables s = (ds, ns, d, b, c) \<Longrightarrow> holders s = mset (map kd_vnode ds) + ref b + ref c"
  by (simp add: tables_def holders_def)

lemma stands_holders: "stands E (ds, ns, d, b, c) s \<Longrightarrow> holders s = mset (map kd_vnode ds) + ref b + ref c"
  by (simp add: stands_def held_holders)

lemma getroot_from_returns:
  assumes "stands E (ds, ns, d, b, c) s" and "devs_ok ds" and "set kds \<subseteq> set ds"
  shows "returns E (ds, ns, d, b, c) ref_of (getroot_from io name kds s)"
  using assms(3)
proof (induction kds)
  case Nil
  with assms show ?case by (auto intro: returns_done)
next
  case (Cons kd kds)
  then have mem: "kd \<in> set ds" and rest: "returns E (ds, ns, d, b, c) ref_of (getroot_from io name kds s)" by simp_all
  from mem have "kd_vnode kd \<in># E + holders s" by (simp add: stands_holders [OF assms(1)])
  from step_incref [OF assms(1) this]
  have inc: "returns E (ds, ns, d, b, c) ref_of (VOP_INCREF (kd_vnode kd) s \<bind> (\<lambda>s. Some (Inr (kd_vnode kd), s)))"
    by (rule runs_bind) (auto intro: returns_done)
  have root: "returns E (ds, ns, d, b, c) ref_of (fsop_getroot io fs s)" for fs
    by (rule step_serves [OF assms(1) getroot]) (use stands_counted [OF assms(1)] in auto)
  have "returns E (ds, ns, d, b, c) ref_of (Some (Inl ENXIO, s))" by (rule returns_done [OF assms(1)]) simp
  with mem assms(2) rest inc root show ?case
    by (cases "kd_fs kd"; cases "kd_rawname kd") (auto simp: devs_ok_def)
qed

lemma getroot_returns:
  assumes "stands E (ds, ns, d, b, c) s" and "0 < d"
  shows "returns E (ds, ns, d, b, c) ref_of (vfs_getroot io name s)"
proof -
  have "knowndevs s = ds" "biglock_depth s = d" "devs_ok ds" using assms by (auto simp: stands_def vfs_wf_def tables_def)
  with assms getroot_from_returns [OF assms(1), of ds name] show ?thesis
    by (simp add: vfs_getroot_def vfs_biglock_do_i_hold_def)
qed

lemma getcurdir_returns:
  assumes "stands E (ds, ns, d, b, c) s"
  shows "returns E (ds, ns, d, b, c) ref_of (vfs_getcurdir s)"
proof (cases c)
  case None
  with assms show ?thesis by (auto simp: vfs_getcurdir_def stands_def tables_def intro: returns_done)
next
  case (Some v)
  have "v \<in># E + holders s" using stands_holders [OF assms] Some by simp
  from step_incref [OF assms this]
  have "returns E (ds, ns, d, b, c) ref_of (VOP_INCREF v s \<bind> (\<lambda>s. Some (Inr v, s)))"
    by (rule runs_bind) (auto intro: returns_done)
  moreover have "cwd s = Some v" using assms Some by (simp add: stands_def tables_def)
  ultimately show ?thesis by (simp add: vfs_getcurdir_def)
qed

lemma returns_map: "returns E t P m \<Longrightarrow> (\<And>r. Q (g r) = P r) \<Longrightarrow> returns E t Q (m \<bind> (\<lambda>(r, s). Some (g r, s)))"
  by (auto simp: returns_def)

text \<open>The start vnode of a translation, before the path is cut.\<close>

lemma bootfs_returns:
  assumes "stands E (ds, ns, d, b, c) s"
  shows "returns E (ds, ns, d, b, c) ref_of (case bootfs_vnode s of None \<Rightarrow> Some (Inl ENOENT, s)
    | Some b \<Rightarrow> VOP_INCREF b s \<bind> (\<lambda>s. Some (Inr b, s)))"
proof (cases b)
  case None
  then have "bootfs_vnode s = None" using assms by (simp add: stands_def tables_def)
  with assms show ?thesis by (auto intro: returns_done)
next
  case (Some v)
  have "v \<in># E + holders s" using stands_holders [OF assms] Some by simp
  from step_incref [OF assms this]
  have "returns E (ds, ns, d, b, c) ref_of (VOP_INCREF v s \<bind> (\<lambda>s. Some (Inr v, s)))"
    by (rule runs_bind) (auto intro: returns_done)
  moreover have "bootfs_vnode s = Some v" using assms Some by (simp add: stands_def tables_def)
  ultimately show ?thesis by simp
qed

lemma cwd_fs:
  assumes s: "stands E (ds, ns, d, b, Some v) s"
  shows "\<exists>x fs. nodes s v = Some x \<and> vn_fs x = Some fs"
proof -
  have "v \<in># E + holders s" using stands_holders [OF s] by simp
  with stands_counted [OF s] obtain x where x: "nodes s v = Some x" by (meson counted_liveE)
  with s show ?thesis by (auto simp: stands_def vfs_wf_def tables_def has_fs_def)
qed

lemma current_root_returns:
  assumes "stands E (ds, ns, d, b, c) s"
  shows "returns E (ds, ns, d, b, c) ref_of (vfs_getcurdir s \<bind> (\<lambda>(r, s). case r of
       Inl e \<Rightarrow> Some (Inl e, s)
     | Inr vn \<Rightarrow> do { v \<leftarrow> nodes s vn; fs \<leftarrow> vn_fs v; (r, s) \<leftarrow> fsop_getroot io fs s; s \<leftarrow> VOP_DECREF io vn s; Some (r, s) }))"
proof (cases c)
  case None
  with assms have "cwd s = None" by (simp add: stands_def tables_def)
  with assms show ?thesis by (auto simp: vfs_getcurdir_def intro: returns_done)
next
  case (Some v)
  then have cwd: "cwd s = Some v" using assms by (simp add: stands_def tables_def)
  have "v \<in># E + holders s" using stands_holders [OF assms] Some by simp
  from step_incref [OF assms this] obtain s1 where s1: "VOP_INCREF v s = Some s1" "stands (add_mset v E) (ds, ns, d, b, Some v) s1"
    using Some by (auto simp: runs_def)
  from cwd_fs [OF s1(2)] obtain x fs where x: "nodes s1 v = Some x" "vn_fs x = Some fs" by blast
  have root: "returns (add_mset v E) (ds, ns, d, b, c) ref_of (fsop_getroot io fs s1)"
    using step_serves [OF s1(2) getroot] stands_counted [OF s1(2)] Some by auto
  have "returns E (ds, ns, d, b, c) ref_of (fsop_getroot io fs s1 \<bind> (\<lambda>(r, s). VOP_DECREF io v s \<bind> (\<lambda>s. Some (r, s))))"
    by (rule returns_bind [OF root], rule runs_bind, erule step_decref, simp) (auto intro: returns_done)
  with cwd s1 x show ?thesis by (simp add: vfs_getcurdir_def)
qed

lemma getdevice_returns:
  assumes s: "stands E (ds, ns, d, b, c) s" and d: "0 < d"
  shows "returns E (ds, ns, d, b, c) (ref_of \<circ> map_sum id snd) (getdevice io path s)"
proof -
  have held: "vfs_biglock_do_i_hold s" using s d by (simp add: stands_def tables_def vfs_biglock_do_i_hold_def)
  have ret: "returns E (ds, ns, d, b, c) (ref_of \<circ> map_sum id snd) (m \<bind> (\<lambda>(r, s). Some (map_sum id (\<lambda>vn. (p, vn)) r, s)))"
    if "returns E (ds, ns, d, b, c) ref_of m" for m :: "((errno + nat) \<times> 's vfs_state) option" and p :: string
    by (rule returns_map [OF that]) simp
  have inval: "returns E (ds, ns, d, b, c) (ref_of \<circ> map_sum id snd) (Some (Inl EINVAL, s))"
    by (rule returns_done [OF s]) simp
  show ?thesis
  proof (cases path)
    case Nil
    with held inval show ?thesis by (simp add: getdevice_def)
  next
    case (Cons a p)
    note parts = ret [OF getcurdir_returns [OF s]] ret [OF getroot_returns [OF s d]] ret [OF bootfs_returns [OF s]]
      ret [OF current_root_returns [OF s]]
    show ?thesis
      using held parts Cons unfolding getdevice_def Let_def
      by (auto simp: split: option.splits if_splits)
  qed
qed

lemma release_done:
  assumes "stands (E + Q r) (ds, ns, d + 1, b, c) s"
  shows "returns E (ds, ns, d, b, c) Q (vfs_biglock_release s \<bind> (\<lambda>s. Some (r, s)))"
  by (rule runs_bind [OF step_release [OF assms]]) (erule returns_done, simp)

lemma decref_done:
  assumes "stands E' t s" and "E' = add_mset v (E + Q r)"
  shows "returns E t Q (VOP_DECREF io v s \<bind> (\<lambda>s. Some (r, s)))"
  by (rule runs_bind [OF step_decref [OF assms]]) (erule returns_done, simp)

lemma decref_release_done:
  assumes "stands E' (ds, ns, d + 1, b, c) s" and "E' = add_mset v (E + Q r)"
  shows "returns E (ds, ns, d, b, c) Q (VOP_DECREF io v s \<bind> (\<lambda>s. vfs_biglock_release s \<bind> (\<lambda>s. Some (r, s))))"
  by (rule runs_bind [OF step_decref [OF assms]]) (erule release_done)

text \<open>An operation called on a vnode the caller holds a reference to.\<close>

lemma call_returns:
  assumes s: "stands E t s" and v: "v \<in># E"
    and op: "\<And>R. fsinv s \<Longrightarrow> counted R (nodes s) \<Longrightarrow> v \<in># R \<Longrightarrow> serves fsinv R s Q m"
  shows "returns E t Q (VOP v s m)"
proof -
  have v': "v \<in># E + holders s" using v by simp
  have "serves fsinv (E + holders s) s Q m" using op stands_counted [OF s] v' by blast
  from step_serves [OF s this] show ?thesis by (simp add: step_check [OF s v'])
qed

lemma lookparent_returns:
  assumes s: "stands E (ds, ns, d, b, c) s"
  shows "returns E (ds, ns, d, b, c) (ref_of \<circ> map_sum id fst) (vfs_lookparent io path s)"
  unfolding vfs_lookparent_def Let_def
proof (rule returns_bind [OF getdevice_returns [OF step_acquire [OF s]]])
  fix r :: "errno + string \<times> nat" and s1 :: "'s vfs_state"
  assume s1: "stands (E + (ref_of \<circ> map_sum id snd) r) (ds, ns, d + 1, b, c) s1"
  show "returns E (ds, ns, d, b, c) (ref_of \<circ> map_sum id fst)
    (case r of Inl e \<Rightarrow> vfs_biglock_release s1 \<bind> (\<lambda>s. Some (Inl e, s))
     | Inr (path, startvn) \<Rightarrow> (if length path = 0 then Some (Inl EINVAL, s1) else VOP startvn s1 (vop_lookparent io startvn path s1)) \<bind>
         (\<lambda>(result, s). VOP_DECREF io startvn s \<bind> (\<lambda>s. vfs_biglock_release s \<bind> (\<lambda>s. Some (result, s)))))"
  proof (cases r)
    case (Inl e)
    with s1 show ?thesis by (auto intro: release_done)
  next
    case (Inr pv)
    then obtain p v where pv: "r = Inr (p, v)" by (cases pv) auto
    with s1 have s1: "stands (E + {#v#}) (ds, ns, d + 1, b, c) s1" by simp
    have inner: "returns (E + {#v#}) (ds, ns, d + 1, b, c) (ref_of \<circ> map_sum id fst)
      (if length p = 0 then Some (Inl EINVAL, s1) else VOP v s1 (vop_lookparent io v p s1))"
    proof (cases "length p = 0")
      case True
      then show ?thesis by (simp only: if_True simp_thms) (rule returns_done [OF s1], simp)
    next
      case False
      then show ?thesis by (simp only: if_False) (rule call_returns [OF s1 _ lookparent], auto)
    qed
    show ?thesis unfolding pv sum.case prod.case
      by (rule returns_bind [OF inner], erule decref_release_done) (simp add: ac_simps)
  qed
qed simp

lemma lookup_returns:
  assumes s: "stands E (ds, ns, d, b, c) s"
  shows "returns E (ds, ns, d, b, c) ref_of (vfs_lookup io path s)"
  unfolding vfs_lookup_def Let_def
proof (rule returns_bind [OF getdevice_returns [OF step_acquire [OF s]]])
  fix r :: "errno + string \<times> nat" and s1 :: "'s vfs_state"
  assume s1: "stands (E + (ref_of \<circ> map_sum id snd) r) (ds, ns, d + 1, b, c) s1"
  show "returns E (ds, ns, d, b, c) ref_of
    (case r of Inl e \<Rightarrow> vfs_biglock_release s1 \<bind> (\<lambda>s. Some (Inl e, s))
     | Inr (path, startvn) \<Rightarrow> if length path = 0 then vfs_biglock_release s1 \<bind> (\<lambda>s. Some (Inr startvn, s))
         else VOP startvn s1 (vop_lookup io startvn path s1) \<bind>
           (\<lambda>(result, s). VOP_DECREF io startvn s \<bind> (\<lambda>s. vfs_biglock_release s \<bind> (\<lambda>s. Some (result, s)))))"
  proof (cases r)
    case (Inl e)
    with s1 show ?thesis by (auto intro: release_done)
  next
    case (Inr pv)
    then obtain p v where pv: "r = Inr (p, v)" by (cases pv) auto
    with s1 have s1: "stands (E + {#v#}) (ds, ns, d + 1, b, c) s1" by simp
    have "returns (E + {#v#}) (ds, ns, d + 1, b, c) ref_of (VOP v s1 (vop_lookup io v p s1))"
      by (rule call_returns [OF s1 _ lookup]) auto
    then have "returns E (ds, ns, d, b, c) ref_of (VOP v s1 (vop_lookup io v p s1) \<bind>
        (\<lambda>(result, s). VOP_DECREF io v s \<bind> (\<lambda>s. vfs_biglock_release s \<bind> (\<lambda>s. Some (result, s)))))"
      by (rule returns_bind) (erule decref_release_done, simp add: ac_simps)
    with s1 pv show ?thesis by (auto intro: release_done)
  qed
qed simp

section \<open>The operations on paths\<close>

lemma open_vnode_returns:
  assumes s: "stands E (ds, ns, d, b, c) s"
  shows "returns E (ds, ns, d, b, c) ref_of (open_vnode io path flags mode s)"
proof (cases "flags AND O_CREAT = 0")
  case True
  with lookup_returns [OF s] show ?thesis by (simp add: open_vnode_def)
next
  case False
  have "returns E (ds, ns, d, b, c) ref_of (vfs_lookparent io path s \<bind> (\<lambda>(result, s). case result of
            Inl e \<Rightarrow> Some (Inl e, s)
          | Inr (dir, name) \<Rightarrow> VOP dir s (vop_creat io dir name (flags AND O_EXCL \<noteq> 0) mode s) \<bind>
              (\<lambda>(result, s). VOP_DECREF io dir s \<bind> (\<lambda>s. Some (result, s)))))"
  proof (rule returns_bind [OF lookparent_returns [OF s]])
    fix r :: "errno + nat \<times> string" and s1 :: "'s vfs_state"
    assume s1: "stands (E + (ref_of \<circ> map_sum id fst) r) (ds, ns, d, b, c) s1"
    show "returns E (ds, ns, d, b, c) ref_of (case r of
            Inl e \<Rightarrow> Some (Inl e, s1)
          | Inr (dir, name) \<Rightarrow> VOP dir s1 (vop_creat io dir name (flags AND O_EXCL \<noteq> 0) mode s1) \<bind>
              (\<lambda>(result, s). VOP_DECREF io dir s \<bind> (\<lambda>s. Some (result, s))))"
    proof (cases r)
      case (Inl e)
      with s1 show ?thesis by (auto intro: returns_done)
    next
      case (Inr dn)
      then obtain v n where vn: "r = Inr (v, n)" by (cases dn) auto
      with s1 have "stands (E + {#v#}) (ds, ns, d, b, c) s1" by simp
      from call_returns [OF this _ creat] have "returns (E + {#v#}) (ds, ns, d, b, c) ref_of
          (VOP v s1 (vop_creat io v n (flags AND O_EXCL \<noteq> 0) mode s1))" by auto
      then show ?thesis unfolding vn sum.case prod.case
        by (rule returns_bind) (erule decref_done, simp add: ac_simps)
    qed
  qed
  with False show ?thesis by (simp add: open_vnode_def)
qed

lemma open_checked_returns:
  assumes s: "stands (E + {#v#}) t s"
  shows "returns E t ref_of (open_checked io v flags w s)"
proof -
  have fail: "returns E t ref_of (VOP_DECREF io v s2 \<bind> (\<lambda>s. Some (Inl e, s)))" if "stands (E + {#v#}) t s2" for s2 e
    by (rule decref_done [OF that]) simp
  have good: "returns E t ref_of (Some (Inr v, s2))" if "stands (E + {#v#}) t s2" for s2
    by (rule returns_done [OF that]) simp
  have trunc: "returns (E + {#v#}) t (\<lambda>_. {#}) (if \<not> w then Some (Some EINVAL, s) else VOP v s (vop_truncate io v 0 s))"
  proof (cases w)
    case True
    then show ?thesis by (simp only: not_True_eq_False if_False) (rule call_returns [OF s _ truncate], auto)
  next
    case False
    then show ?thesis by (simp only: not_False_eq_True if_True) (rule returns_done [OF s], simp)
  qed
  have "returns E t ref_of ((if \<not> w then Some (Some EINVAL, s) else VOP v s (vop_truncate io v 0 s)) \<bind>
      (\<lambda>(result, s). case result of Some e \<Rightarrow> VOP_DECREF io v s \<bind> (\<lambda>s. Some (Inl e, s)) | None \<Rightarrow> Some (Inr v, s)))"
    by (rule returns_bind [OF trunc]) (auto split: option.split intro: fail good)
  moreover have "VOP v s (Some x) = Some x" for x :: "errno option" by (rule step_check [OF s]) simp
  ultimately show ?thesis using fail [OF s] good [OF s]
    by (cases "vop_eachopen io v flags s") (simp_all add: open_checked_def)
qed

lemma open_returns:
  assumes s: "stands E (ds, ns, d, b, c) s"
  shows "returns E (ds, ns, d, b, c) ref_of (vfs_open io path flags mode s)"
proof -
  have "returns E (ds, ns, d, b, c) ref_of (Some (Inl EINVAL, s))" by (rule returns_done [OF s]) simp
  moreover have "returns E (ds, ns, d, b, c) ref_of (open_vnode io path flags mode s \<bind> (\<lambda>(r, s).
      case r of Inl e \<Rightarrow> Some (Inl e, s) | Inr vn \<Rightarrow> open_checked io vn flags w s))" for w
    by (rule returns_bind [OF open_vnode_returns [OF s]])
      (auto split: sum.split intro: returns_done open_checked_returns)
  ultimately show ?thesis by (simp add: vfs_open_def Let_def)
qed

lemma in_parent_returns:
  assumes s: "stands E (ds, ns, d, b, c) s"
    and f: "\<And>v name s R. fsinv s \<Longrightarrow> counted R (nodes s) \<Longrightarrow> v \<in># R \<Longrightarrow> serves fsinv R s (\<lambda>_. {#}) (f v name s)"
  shows "returns E (ds, ns, d, b, c) (\<lambda>_. {#}) (in_parent io path f s)"
  unfolding in_parent_def
proof (rule returns_bind [OF lookparent_returns [OF s]])
  fix r :: "errno + nat \<times> string" and s1 :: "'s vfs_state"
  assume s1: "stands (E + (ref_of \<circ> map_sum id fst) r) (ds, ns, d, b, c) s1"
  show "returns E (ds, ns, d, b, c) (\<lambda>_. {#}) (case r of Inl e \<Rightarrow> Some (Some e, s1)
      | Inr (dir, name) \<Rightarrow> VOP dir s1 (f dir name s1) \<bind> (\<lambda>(result, s). VOP_DECREF io dir s \<bind> (\<lambda>s. Some (result, s))))"
  proof (cases r)
    case (Inl e)
    with s1 show ?thesis by (auto intro: returns_done)
  next
    case (Inr dn)
    then obtain v n where vn: "r = Inr (v, n)" by (cases dn) auto
    with s1 have "stands (E + {#v#}) (ds, ns, d, b, c) s1" by simp
    from call_returns [OF this _ f] have "returns (E + {#v#}) (ds, ns, d, b, c) (\<lambda>_. {#}) (VOP v s1 (f v n s1))" by auto
    then show ?thesis unfolding vn sum.case prod.case
      by (rule returns_bind) (erule decref_done, simp)
  qed
qed

lemma path_calls_return:
  assumes s: "stands E (ds, ns, d, b, c) s"
  shows "returns E (ds, ns, d, b, c) (\<lambda>_. {#}) (vfs_remove io path s)"
    and "returns E (ds, ns, d, b, c) (\<lambda>_. {#}) (vfs_rmdir io path s)"
    and "returns E (ds, ns, d, b, c) (\<lambda>_. {#}) (vfs_mkdir io path mode s)"
    and "returns E (ds, ns, d, b, c) (\<lambda>_. {#}) (vfs_symlink io contents path s)"
  unfolding vfs_remove_def vfs_rmdir_def vfs_mkdir_def vfs_symlink_def
  by (rule in_parent_returns [OF s], rule remove rmdir mkdir symlink, assumption+)+

lemma readlink_returns:
  assumes s: "stands E (ds, ns, d, b, c) s"
  shows "returns E (ds, ns, d, b, c) (\<lambda>_. {#}) (vfs_readlink io path s)"
  unfolding vfs_readlink_def
proof (rule returns_bind [OF lookup_returns [OF s]])
  fix r :: "errno + nat" and s1 :: "'s vfs_state"
  assume s1: "stands (E + ref_of r) (ds, ns, d, b, c) s1"
  show "returns E (ds, ns, d, b, c) (\<lambda>_. {#}) (case r of Inl e \<Rightarrow> Some (Some e, s1)
      | Inr vn \<Rightarrow> VOP vn s1 (Some (vop_readlink io vn s1)) \<bind> (\<lambda>result. VOP_DECREF io vn s1 \<bind> (\<lambda>s. Some (result, s))))"
  proof (cases r)
    case (Inl e)
    with s1 show ?thesis by (auto intro: returns_done)
  next
    case (Inr v)
    with s1 have s1: "stands (E + {#v#}) (ds, ns, d, b, c) s1" by simp
    then have "VOP v s1 (Some x) = Some x" for x :: "errno option" by (rule step_check) simp
    then show ?thesis by (simp add: Inr) (rule decref_done [OF s1], simp)
  qed
qed

text \<open>With two vnodes in hand.\<close>

lemma two_done:
  assumes "stands (E + {#v#} + {#w#}) t s"
  shows "returns E t (\<lambda>_. {#}) (VOP_DECREF io w s \<bind> (\<lambda>s. VOP_DECREF io v s \<bind> (\<lambda>s. Some (r, s))))"
  by (rule runs_bind [OF step_decref [OF assms, of w "E + {#v#}"]], simp) (erule decref_done, simp)

lemma call_pair_returns:
  assumes s: "stands (E + {#v#} + {#w#}) t s" and u: "u = v \<or> u = w"
    and op: "\<And>R. fsinv s \<Longrightarrow> counted R (nodes s) \<Longrightarrow> v \<in># R \<Longrightarrow> w \<in># R \<Longrightarrow> serves fsinv R s Q m"
  shows "returns (E + {#v#} + {#w#}) t Q (VOP u s m)"
proof -
  have "serves fsinv (E + {#v#} + {#w#} + holders s) s Q m" using op stands_counted [OF s] by auto
  from step_serves [OF s this] show ?thesis using u by (auto simp: step_check [OF s])
qed

lemma two_vnodes_return:
  assumes s: "stands (E + {#v#} + {#w#}) t s"
    and op: "returns (E + {#v#} + {#w#}) t (\<lambda>_. {#}) m"
  shows "returns E t (\<lambda>_. {#}) (do {
     f \<leftarrow> fs_of v s;
     g \<leftarrow> fs_of w s;
     if f = None \<or> g = None \<or> f \<noteq> g then do {
       s \<leftarrow> VOP_DECREF io w s;
       s \<leftarrow> VOP_DECREF io v s;
       Some (Some EXDEV, s) }
     else do {
       (result, s) \<leftarrow> m;
       s \<leftarrow> VOP_DECREF io w s;
       s \<leftarrow> VOP_DECREF io v s;
       Some (result, s) } })"
proof -
  have fs: "\<exists>f. fs_of u s = Some f" if "u = v \<or> u = w" for u
  proof -
    have "u \<in># E + {#v#} + {#w#} + holders s" using that by auto
    with stands_counted [OF s] show ?thesis by (metis counted_liveE fs_of_def bind.bind_lunit)
  qed
  then obtain f g where "fs_of v s = Some f" "fs_of w s = Some g" by blast
  moreover have "returns E t (\<lambda>_. {#}) (m \<bind> (\<lambda>(result, s). VOP_DECREF io w s \<bind> (\<lambda>s. VOP_DECREF io v s \<bind> (\<lambda>s. Some (result, s)))))"
    by (rule returns_bind [OF op], rule two_done) simp
  ultimately show ?thesis using two_done [OF s, of "Some EXDEV"] by simp
qed

lemma rename_returns:
  assumes s: "stands E (ds, ns, d, b, c) s"
  shows "returns E (ds, ns, d, b, c) (\<lambda>_. {#}) (vfs_rename io oldpath newpath s)"
  unfolding vfs_rename_def
proof (rule returns_bind [OF lookparent_returns [OF s]], goal_cases)
  case (1 r s1)
  show ?case
  proof (cases r)
    case (Inl e)
    with 1 show ?thesis by (auto intro: returns_done)
  next
    case (Inr vn)
    then obtain v n where v: "r = Inr (v, n)" by (cases vn) auto
    with 1 have s1: "stands (E + {#v#}) (ds, ns, d, b, c) s1" by simp
    show ?thesis unfolding v sum.case prod.case
    proof (rule returns_bind [OF lookparent_returns [OF s1]], goal_cases)
      case (1 r s2)
      show ?case
      proof (cases r)
        case (Inl e)
        with 1 have s2: "stands (E + {#v#}) (ds, ns, d, b, c) s2" by simp
        show ?thesis unfolding Inl sum.case by (rule decref_done [OF s2]) simp
      next
        case (Inr wn)
        then obtain w n' where w: "r = Inr (w, n')" by (cases wn) auto
        with 1 have s2: "stands (E + {#v#} + {#w#}) (ds, ns, d, b, c) s2" by simp
        have "returns (E + {#v#} + {#w#}) (ds, ns, d, b, c) (\<lambda>_. {#}) (VOP v s2 (vop_rename io v n w n' s2))"
          by (rule call_pair_returns [OF s2]) (auto intro: rename)
        from two_vnodes_return [OF s2 this] show ?thesis by (simp add: w)
      qed
    qed
  qed
qed

lemma link_returns:
  assumes s: "stands E (ds, ns, d, b, c) s"
  shows "returns E (ds, ns, d, b, c) (\<lambda>_. {#}) (vfs_link io oldpath newpath s)"
  unfolding vfs_link_def
proof (rule returns_bind [OF lookup_returns [OF s]], goal_cases)
  case (1 r s1)
  show ?case
  proof (cases r)
    case (Inl e)
    with 1 show ?thesis by (auto intro: returns_done)
  next
    case (Inr v)
    with 1 have s1: "stands (E + {#v#}) (ds, ns, d, b, c) s1" by simp
    show ?thesis unfolding Inr sum.case
    proof (rule returns_bind [OF lookparent_returns [OF s1]], goal_cases)
      case (1 r s2)
      show ?case
      proof (cases r)
        case (Inl e)
        with 1 have s2: "stands (E + {#v#}) (ds, ns, d, b, c) s2" by simp
        show ?thesis unfolding Inl sum.case by (rule decref_done [OF s2]) simp
      next
        case (Inr wn)
        then obtain w n where w: "r = Inr (w, n)" by (cases wn) auto
        with 1 have s2: "stands (E + {#v#} + {#w#}) (ds, ns, d, b, c) s2" by simp
        have "returns (E + {#v#} + {#w#}) (ds, ns, d, b, c) (\<lambda>_. {#}) (VOP w s2 (vop_link io w n v s2))"
          by (rule call_pair_returns [OF s2]) (auto intro: link)
        from two_vnodes_return [OF s2 this] show ?thesis by (simp add: w)
      qed
    qed
  qed
qed

text \<open>Changing the directory moves the reference: the tables differ in the field \<open>cwd\<close> only.\<close>

lemma setcurdir_returns:
  assumes s: "stands (E + {#v#}) (ds, ns, d, b, c) s"
  shows "\<exists>r s' c'. vfs_setcurdir io v s = Some (r, s') \<and> stands (E + {#v#}) (ds, ns, d, b, c') s' \<and>
    (case r of None \<Rightarrow> c' = Some v | Some e \<Rightarrow> c' = c)"
proof (cases "vop_gettype io v s = Inr S_IFDIR")
  case False
  with s show ?thesis
    by (cases "vop_gettype io v s") (auto simp: vfs_setcurdir_def step_check [OF s])
next
  case True
  have live: "v \<in># E + {#v#} + holders s" by simp
  with stands_counted [OF s] have "nodes s v \<noteq> None" by (meson counted_live)
  then have fs: "has_fs v s" using directory True stands_counted [OF s] by blast
  from step_incref [OF s live] obtain s1 where s1: "VOP_INCREF v s = Some s1" "stands (add_mset v (E + {#v#})) (ds, ns, d, b, c) s1"
    by (auto simp: runs_def)
  have fs1: "has_fs v s1" using fs s1(1) by (auto simp: VOP_INCREF_def vnode_incref_def has_fs_def bind_eq_Some_conv split: if_splits)
  let ?s = "s1\<lparr>cwd := Some v\<rparr>"
  have cwd: "cwd s1 = c" using s1(2) by (simp add: stands_def tables_def)
  have "holders ?s + ref c = add_mset v (holders s1)" using cwd by (simp add: holders_def)
  then have bal: "E + {#v#} + ref c + holders ?s = add_mset v (E + {#v#}) + holders s1" by (simp add: ac_simps)
  have "fsinv ?s" using inv_tables [of s1 ?s] s1(2) by (simp add: stands_def vfs_wf_def)
  moreover have "counted (E + {#v#} + ref c + holders ?s) (nodes ?s)"
    using s1(2) unfolding bal by (simp add: stands_def vfs_wf_def)
  moreover have "tables ?s = (ds, ns, d, b, Some v)" "devs_ok (knowndevs ?s)" using s1(2) by (auto simp: stands_def vfs_wf_def tables_def)
  ultimately have "stands (E + {#v#} + ref c) (ds, ns, d, b, Some v) ?s"
    using fs1 by (simp add: stands_def vfs_wf_def has_fs_def)
  then have "\<exists>s'. (case cwd s1 of None \<Rightarrow> Some ?s | Some old \<Rightarrow> VOP_DECREF io old ?s) = Some s' \<and>
      stands (E + {#v#}) (ds, ns, d, b, Some v) s'"
    using step_decref [of _ _ ?s _ "E + {#v#}"] cwd by (cases c) (auto simp: runs_def)
  with s1 True show ?thesis by (auto simp: vfs_setcurdir_def step_check [OF s])
qed

lemma chdir_returns:
  assumes s: "stands E (ds, ns, d, b, c) s"
  shows "\<exists>r s' c'. vfs_chdir io path s = Some (r, s') \<and> stands E (ds, ns, d, b, c') s' \<and> (r \<noteq> None \<longrightarrow> c' = c)"
proof -
  from lookup_returns [OF s, of path] obtain r s1 where l: "vfs_lookup io path s = Some (r, s1)" and s1: "stands (E + ref_of r) (ds, ns, d, b, c) s1"
    by (auto simp: returns_def)
  show ?thesis
  proof (cases r)
    case (Inl e)
    with l s1 show ?thesis by (auto simp: vfs_chdir_def)
  next
    case (Inr v)
    with s1 setcurdir_returns obtain r' s2 c' where c: "vfs_setcurdir io v s1 = Some (r', s2)"
      and s2: "stands (E + {#v#}) (ds, ns, d, b, c') s2" and k: "case r' of None \<Rightarrow> c' = Some v | Some e \<Rightarrow> c' = c" by fastforce
    from step_decref [OF s2, of v E] obtain s3 where "VOP_DECREF io v s2 = Some s3" "stands E (ds, ns, d, b, c') s3"
      by (auto simp: runs_def)
    with l Inr c k show ?thesis by (auto simp: vfs_chdir_def split: option.splits)
  qed
qed

end

end
