(* ===== verification/SemfsContract.thy ===== *)
theory SemfsContract
  imports Semfs VfsRefs
begin

text \<open>
  The semaphore file system and the devices honour the contract of theory VfsRefs. The invariant of
  the file system: a semaphore is in the table exactly as long as it is in the directory or open;
  the flags of each say which; every vnode of the file system is in its list, once.
\<close>

section \<open>The invariant\<close>

text \<open>An array with holes as a map.\<close>

definition slot :: "'a option list \<Rightarrow> nat \<Rightarrow> 'a option" where
  "slot xs i = (if i < length xs then xs ! i else None)"

lemma slot_update [simp]: "i < length xs \<Longrightarrow> slot (xs[i := x]) = (slot xs)(i := x)"
  by (auto simp: slot_def fun_eq_iff)

lemma slot_append [simp]: "slot (xs @ [x]) = (slot xs)(length xs := x)"
  by (auto simp: slot_def fun_eq_iff nth_append)

lemma slot_SomeD: "slot xs i = Some x \<Longrightarrow> i < length xs \<and> xs ! i = Some x"
  by (simp add: slot_def split: if_splits)

lemma slot_length [simp]: "slot xs (length xs) = None"
  by (simp add: slot_def)

lemma array_get_slot: "slot xs i = Some x \<Longrightarrow> array_get xs i = Some (Some x)"
  by (auto simp: array_get_def dest: slot_SomeD)

definition vnodes_inv :: "vnodes \<Rightarrow> nat set \<Rightarrow> (nat \<times> nat) list \<Rightarrow> nat \<Rightarrow> bool" where
  "vnodes_inv N K T h \<longleftrightarrow> distinct (map fst T) \<and> distinct (map snd T) \<and>
     (\<forall>v. v \<in> fst ` set T \<longleftrightarrow> (\<exists>x. N v = Some x \<and> vn_fs x \<noteq> None)) \<and>
     (\<forall>v x. N v = Some x \<longrightarrow> v < h \<and> (vn_fs x = None \<longrightarrow> v \<in> K))"

definition sems_inv :: "nat set \<Rightarrow> (nat \<Rightarrow> semfs_sem option) \<Rightarrow> (nat \<Rightarrow> semfs_direntry option) \<Rightarrow> bool" where
  "sems_inv A M D \<longleftrightarrow>
     (\<forall>i\<in>A. i = SEMFS_ROOTDIR \<or> M i \<noteq> None) \<and>
     (\<forall>j d. D j = Some d \<longrightarrow> M (semd_semnum d) \<noteq> None) \<and>
     (\<forall>i x. M i = Some x \<longrightarrow> i < SEMFS_ROOTDIR \<and> (sems_hasvnode x \<longleftrightarrow> i \<in> A) \<and>
        (sems_linked x \<longleftrightarrow> (\<exists>j d. D j = Some d \<and> semd_semnum d = i)) \<and> (sems_hasvnode x \<or> sems_linked x)) \<and>
     (\<forall>j k d e. D j = Some d \<longrightarrow> D k = Some e \<longrightarrow> semd_name d = semd_name e \<or> semd_semnum d = semd_semnum e \<longrightarrow> j = k)"

definition semfs_ok :: "sem_state \<Rightarrow> bool" where
  "semfs_ok s \<longleftrightarrow> vnodes_inv (nodes s) (kd_vnode ` set (knowndevs s)) (semfs_vnodes (fsd s)) (sem_heap (fsd s)) \<and>
     sems_inv (snd ` set (semfs_vnodes (fsd s))) (slot (semfs_sems (fsd s))) (slot (semfs_dents (fsd s))) \<and>
     length (semfs_sems (fsd s)) \<le> SEMFS_ROOTDIR"

lemma semnum_of_iff: "semfs_ok s \<Longrightarrow> semnum_of v s = Some n \<longleftrightarrow> (v, n) \<in> set (semfs_vnodes (fsd s))"
  by (simp add: semnum_of_def semfs_ok_def vnodes_inv_def)

lemma semnum_None: "semnum_of v s = None \<longleftrightarrow> v \<notin> fst ` set (semfs_vnodes (fsd s))"
  by (simp add: semnum_of_def map_of_eq_None_iff)

lemma first_hole_SomeD: "first_hole i xs = Some j \<Longrightarrow> i \<le> j \<and> j < i + length xs \<and> xs ! (j - i) = None"
proof (induction xs arbitrary: i)
  case (Cons x xs)
  show ?case
  proof (cases "x = None")
    case True
    with Cons.prems show ?thesis by simp
  next
    case False
    with Cons.prems Cons.IH [of "Suc i"] show ?thesis by (auto simp: nth_Cons' Suc_le_eq)
  qed
qed simp

lemma find_dent_SomeD: "find_dent name ds = Some i \<Longrightarrow> \<exists>d. slot ds i = Some d \<and> ds ! i = Some d \<and> semd_name d = name"
  by (auto simp: find_dent_def find_Some_iff slot_def split: option.splits)

lemma find_dent_NoneD: "find_dent name ds = None \<Longrightarrow> slot ds j = Some d \<Longrightarrow> semd_name d \<noteq> name"
  by (auto simp: find_dent_def find_None_iff slot_def split: if_splits)

text \<open>Changes of a reference count and of a semaphore's count keep it.\<close>

lemma vnodes_inv_refcount:
  assumes "vnodes_inv N K T h" and "N v = Some x"
  shows "vnodes_inv (N(v \<mapsto> x\<lparr>vn_refcount := n\<rparr>)) K T h"
  using assms unfolding vnodes_inv_def by auto

lemma sems_inv_count:
  assumes "sems_inv A M D" and "M i = Some x" and "sems_hasvnode y = sems_hasvnode x" and "sems_linked y = sems_linked x"
  shows "sems_inv A (M(i \<mapsto> y)) D"
  using assms unfolding sems_inv_def by (auto split: if_splits)

text \<open>A new vnode, of the root or of a linked semaphore that has none.\<close>

lemma vnodes_inv_add:
  assumes "vnodes_inv N K T h" and "i \<notin> snd ` set T"
  shows "vnodes_inv (N(h \<mapsto> \<lparr>vn_refcount = 1, vn_fs = Some f, vn_ops = True\<rparr>)) K (T @ [(h, i)]) (h + 1)"
proof -
  have N: "N h = None" using assms(1) unfolding vnodes_inv_def by (metis less_irrefl not_Some_eq)
  have h: "h \<notin> fst ` set T" using assms(1) N unfolding vnodes_inv_def by auto
  have live: "v \<in> fst ` set T \<longleftrightarrow> (\<exists>x. N v = Some x \<and> vn_fs x \<noteq> None)" for v
    using assms(1) unfolding vnodes_inv_def by blast
  have bound: "N v = Some x \<Longrightarrow> v < h \<and> (vn_fs x = None \<longrightarrow> v \<in> K)" for v x
    using assms(1) unfolding vnodes_inv_def by blast
  show ?thesis unfolding vnodes_inv_def
  proof (intro conjI allI impI)
    show "distinct (map fst (T @ [(h, i)]))" "distinct (map snd (T @ [(h, i)]))"
      using assms h by (auto simp: vnodes_inv_def image_iff)
    show "(v \<in> fst ` set (T @ [(h, i)])) = (\<exists>x. (N(h \<mapsto> \<lparr>vn_refcount = 1, vn_fs = Some f, vn_ops = True\<rparr>)) v = Some x \<and> vn_fs x \<noteq> None)" for v
      using live [of v] by (cases "v = h") auto
  qed (use bound in \<open>auto split: if_splits intro: less_SucI\<close>)
qed

lemma fst_image_iff: "x \<in> fst ` A \<longleftrightarrow> (\<exists>y. (x, y) \<in> A)"
  by force

lemma snd_image_iff: "y \<in> snd ` A \<longleftrightarrow> (\<exists>x. (x, y) \<in> A)"
  by force

lemma vnodes_inv_remove:
  assumes "vnodes_inv N K T h" and "(v, i) \<in> set T"
  shows "vnodes_inv (N(v := None)) K (filter (\<lambda>(w, n). w \<noteq> v) T) h"
    and "snd ` set (filter (\<lambda>(w, n). w \<noteq> v) T) = snd ` set T - {i}"
proof -
  let ?T = "filter (\<lambda>(w, n). w \<noteq> v) T"
  have d: "distinct (map fst T)" "distinct (map snd T)" using assms(1) unfolding vnodes_inv_def by blast+
  have same: "w = v" if "(w, i) \<in> set T" for w
    using inj_onD [of snd "set T" "(w, i)" "(v, i)"] d(2) that assms(2) by (simp add: distinct_map)
  have same': "n = i" if "(v, n) \<in> set T" for n
    using inj_onD [of fst "set T" "(v, n)" "(v, i)"] d(1) that assms(2) by (simp add: distinct_map)
  have T: "(w, n) \<in> set ?T \<longleftrightarrow> (w, n) \<in> set T \<and> w \<noteq> v" for w n by simp
  show "snd ` set ?T = snd ` set T - {i}"
  proof (rule set_eqI)
    fix n
    show "n \<in> snd ` set ?T \<longleftrightarrow> n \<in> snd ` set T - {i}"
      unfolding snd_image_iff Diff_iff T using same same' by blast
  qed
  have "w \<in> fst ` set ?T \<longleftrightarrow> w \<in> fst ` set T \<and> w \<noteq> v" for w unfolding fst_image_iff T by blast
  moreover have "w \<in> fst ` set T \<longleftrightarrow> (\<exists>x. N w = Some x \<and> vn_fs x \<noteq> None)" for w
    using assms(1) unfolding vnodes_inv_def by blast
  ultimately have "w \<in> fst ` set ?T \<longleftrightarrow> (\<exists>x. (N(v := None)) w = Some x \<and> vn_fs x \<noteq> None)" for w by auto
  moreover have "distinct (map fst ?T)" "distinct (map snd ?T)" using d by (simp_all add: distinct_map_filter)
  moreover have "w < h \<and> (vn_fs x = None \<longrightarrow> w \<in> K)" if "(N(v := None)) w = Some x" for w x
    using assms(1) that unfolding vnodes_inv_def by (auto split: if_splits)
  ultimately show "vnodes_inv (N(v := None)) K ?T h" unfolding vnodes_inv_def by blast
qed

text \<open>The semaphores when one is opened, made, unlinked or closed.\<close>

lemma sems_invD:
  "sems_inv A M D \<Longrightarrow> M i = Some x \<Longrightarrow> i < SEMFS_ROOTDIR \<and> (sems_hasvnode x \<longleftrightarrow> i \<in> A) \<and>
    (sems_linked x \<longleftrightarrow> (\<exists>j d. D j = Some d \<and> semd_semnum d = i)) \<and> (sems_hasvnode x \<or> sems_linked x)"
  unfolding sems_inv_def by blast

lemma sems_inv_open:
  "sems_inv A M D \<Longrightarrow> M i = Some x \<Longrightarrow> sems_inv (insert i A) (M(i \<mapsto> x\<lparr>sems_hasvnode := True\<rparr>)) D"
  unfolding sems_inv_def by auto

lemma sems_inv_root: "sems_inv A M D \<Longrightarrow> sems_inv (insert SEMFS_ROOTDIR A) M D"
  unfolding sems_inv_def by auto

lemma sems_inv_unused: "sems_inv A M D \<Longrightarrow> M i = None \<Longrightarrow> i \<noteq> SEMFS_ROOTDIR \<Longrightarrow> i \<notin> A \<and> (\<forall>j d. D j = Some d \<longrightarrow> semd_semnum d \<noteq> i)"
  unfolding sems_inv_def by metis

lemma sems_inv_creat:
  assumes inv: "sems_inv A M D" and i: "M i = None" "i < SEMFS_ROOTDIR" and j: "D j = None" and d: "semd_semnum d = i"
    and new: "\<forall>k e. D k = Some e \<longrightarrow> semd_name e \<noteq> semd_name d" and x: "sems_hasvnode x" "sems_linked x"
  shows "sems_inv (insert i A) (M(i \<mapsto> x)) (D(j \<mapsto> d))"
proof -
  have un: "i \<notin> A" "\<And>k e. D k = Some e \<Longrightarrow> semd_semnum e \<noteq> i" using sems_inv_unused [OF inv i(1)] i(2) by auto
  have 1: "\<forall>k\<in>insert i A. k = SEMFS_ROOTDIR \<or> (M(i \<mapsto> x)) k \<noteq> None" using inv unfolding sems_inv_def by auto
  have 2: "\<forall>k e. (D(j \<mapsto> d)) k = Some e \<longrightarrow> (M(i \<mapsto> x)) (semd_semnum e) \<noteq> None" using inv d unfolding sems_inv_def by auto
  have linked: "(\<exists>k e. (D(j \<mapsto> d)) k = Some e \<and> semd_semnum e = n) \<longleftrightarrow> n = i \<or> (\<exists>k e. D k = Some e \<and> semd_semnum e = n)" for n
    using d j by (metis fun_upd_other fun_upd_same option.distinct(1) option.inject)
  have 3: "n < SEMFS_ROOTDIR \<and> (sems_hasvnode y \<longleftrightarrow> n \<in> insert i A) \<and>
      (sems_linked y \<longleftrightarrow> (\<exists>k e. (D(j \<mapsto> d)) k = Some e \<and> semd_semnum e = n)) \<and> (sems_hasvnode y \<or> sems_linked y)"
    if "(M(i \<mapsto> x)) n = Some y" for n y
  proof (cases "n = i")
    case True
    with that x i(2) show ?thesis unfolding linked by simp
  next
    case False
    with that have "M n = Some y" by simp
    from sems_invD [OF inv this] False show ?thesis unfolding linked by blast
  qed
  have 4: "k = l" if "(D(j \<mapsto> d)) k = Some e" "(D(j \<mapsto> d)) l = Some e'" "semd_name e = semd_name e' \<or> semd_semnum e = semd_semnum e'" for k l e e'
  proof -
    have old: "k = l" if "D k = Some e" "D l = Some e'" using inv that \<open>semd_name e = semd_name e' \<or> _\<close> unfolding sems_inv_def by blast
    show ?thesis
    proof (cases "k = j"; cases "l = j")
      assume "k = j" "l \<noteq> j"
      with that(1,2) have "e = d" "D l = Some e'" by simp_all
      with that(3) new un(2) d show ?thesis by metis
    next
      assume "k \<noteq> j" "l = j"
      with that(1,2) have "e' = d" "D k = Some e" by simp_all
      with that(3) new un(2) d show ?thesis by metis
    next
      assume "k \<noteq> j" "l \<noteq> j"
      with that(1,2) old show ?thesis by simp
    qed simp
  qed
  from 1 2 3 4 show ?thesis unfolding sems_inv_def by blast
qed

lemma sems_inv_remove:
  assumes inv: "sems_inv A M D" and j: "D j = Some d" "M (semd_semnum d) = Some x"
  shows "sems_inv A (M(semd_semnum d := if \<not> sems_hasvnode x then None else Some (x\<lparr>sems_linked := False\<rparr>))) (D(j := None))"
proof -
  let ?i = "semd_semnum d"
  let ?M = "M(?i := if \<not> sems_hasvnode x then None else Some (x\<lparr>sems_linked := False\<rparr>))"
  have only: "k = j" if "D k = Some e" "semd_semnum e = ?i" for k e using inv that j(1) unfolding sems_inv_def by metis
  have x: "?i < SEMFS_ROOTDIR" "sems_hasvnode x \<longleftrightarrow> ?i \<in> A" using inv j unfolding sems_inv_def by blast+
  have 1: "\<forall>k\<in>A. k = SEMFS_ROOTDIR \<or> ?M k \<noteq> None" using inv x(2) unfolding sems_inv_def by auto
  have 2: "\<forall>k e. (D(j := None)) k = Some e \<longrightarrow> ?M (semd_semnum e) \<noteq> None"
    using inv only unfolding sems_inv_def by (auto split: if_splits)
  have linked: "(\<exists>k e. (D(j := None)) k = Some e \<and> semd_semnum e = n) \<longleftrightarrow> n \<noteq> ?i \<and> (\<exists>k e. D k = Some e \<and> semd_semnum e = n)" for n
    using only j(1) by (metis fun_upd_other fun_upd_same option.distinct(1) option.inject)
  have 3: "n < SEMFS_ROOTDIR \<and> (sems_hasvnode y \<longleftrightarrow> n \<in> A) \<and>
      (sems_linked y \<longleftrightarrow> (\<exists>k e. (D(j := None)) k = Some e \<and> semd_semnum e = n)) \<and> (sems_hasvnode y \<or> sems_linked y)"
    if "?M n = Some y" for n y
  proof (cases "n = ?i")
    case True
    with that x show ?thesis unfolding linked by (auto split: if_splits)
  next
    case False
    with that have "M n = Some y" by simp
    from sems_invD [OF inv this] False show ?thesis unfolding linked by blast
  qed
  have 4: "k = l" if "(D(j := None)) k = Some e" "(D(j := None)) l = Some e'" "semd_name e = semd_name e' \<or> semd_semnum e = semd_semnum e'" for k l e e'
    using that inv unfolding sems_inv_def by (auto split: if_splits)
  from 1 2 3 4 show ?thesis unfolding sems_inv_def by blast
qed

lemma sems_inv_close:
  assumes inv: "sems_inv A M D" and x: "M i = Some x"
  shows "sems_inv (A - {i}) (M(i := if \<not> sems_linked x then None else Some (x\<lparr>sems_hasvnode := False\<rparr>))) D"
proof -
  let ?M = "M(i := if \<not> sems_linked x then None else Some (x\<lparr>sems_hasvnode := False\<rparr>))"
  have l: "i < SEMFS_ROOTDIR" "sems_linked x \<longleftrightarrow> (\<exists>k e. D k = Some e \<and> semd_semnum e = i)" using inv x unfolding sems_inv_def by blast+
  have 1: "\<forall>k\<in>A - {i}. k = SEMFS_ROOTDIR \<or> ?M k \<noteq> None" using inv unfolding sems_inv_def by auto
  have 2: "\<forall>k e. D k = Some e \<longrightarrow> ?M (semd_semnum e) \<noteq> None" using inv l(2) unfolding sems_inv_def by auto
  have 3: "n < SEMFS_ROOTDIR \<and> (sems_hasvnode y \<longleftrightarrow> n \<in> A - {i}) \<and>
      (sems_linked y \<longleftrightarrow> (\<exists>k e. D k = Some e \<and> semd_semnum e = n)) \<and> (sems_hasvnode y \<or> sems_linked y)"
    if "?M n = Some y" for n y
  proof (cases "n = i")
    case True
    with that l show ?thesis by (auto split: if_splits)
  next
    case False
    with that have "M n = Some y" by simp
    from sems_invD [OF inv this] False show ?thesis by blast
  qed
  have 4: "\<forall>k l d e. D k = Some d \<longrightarrow> D l = Some e \<longrightarrow> semd_name d = semd_name e \<or> semd_semnum d = semd_semnum e \<longrightarrow> k = l"
    using inv unfolding sems_inv_def by blast
  from 1 2 3 4 show ?thesis unfolding sems_inv_def by blast
qed

lemma sems_inv_close_root: "sems_inv A M D \<Longrightarrow> sems_inv (A - {SEMFS_ROOTDIR}) M D"
  unfolding sems_inv_def by auto

section \<open>The operations\<close>

lemma upd_fs_sel [simp]:
  "nodes (upd_fs f s) = nodes s" "fsd (upd_fs f s) = f (fsd s)" "knowndevs (upd_fs f s) = knowndevs s"
  "tables (upd_fs f s) = tables s" "tables (s\<lparr>nodes := N\<rparr>) = tables s" "has_fs v (upd_fs f s) = has_fs v s"
  by (simp_all add: upd_fs_def tables_def has_fs_def)

lemma semfs_ok_parts:
  assumes "semfs_ok s"
  shows "vnodes_inv (nodes s) (kd_vnode ` set (knowndevs s)) (semfs_vnodes (fsd s)) (sem_heap (fsd s))"
    and "sems_inv (snd ` set (semfs_vnodes (fsd s))) (slot (semfs_sems (fsd s))) (slot (semfs_dents (fsd s)))"
    and "length (semfs_sems (fsd s)) \<le> SEMFS_ROOTDIR"
  using assms by (simp_all add: semfs_ok_def)

lemma serves_same: "semfs_ok s \<Longrightarrow> counted R (nodes s) \<Longrightarrow> Q r = {#} \<Longrightarrow> serves semfs_ok R s Q (Some (r, s))"
  by (simp add: serves_def)

lemma serves_incref:
  assumes ok: "semfs_ok s" and cnt: "counted R (nodes s)" and v: "v \<in># R" and Q: "Q r = {#v#}"
  shows "serves semfs_ok R s Q (do { s \<leftarrow> VOP_INCREF v s; Some (r, s) })"
proof -
  from counted_liveE [OF cnt v] obtain x where x: "nodes s v = Some x" .
  let ?s = "s\<lparr>nodes := (nodes s)(v \<mapsto> x\<lparr>vn_refcount := vn_refcount x + 1\<rparr>)\<rparr>"
  have "semfs_ok ?s" using ok vnodes_inv_refcount [of "nodes s" _ _ _ v x] x by (simp add: semfs_ok_def)
  moreover have "has_fs w ?s" if "has_fs w s" for w using that x by (auto simp: has_fs_def)
  ultimately show ?thesis
    using counted_incref [OF cnt v x] Q by (simp add: serves_def VOP_INCREF_def)
qed

lemma counted_new: "counted R N \<Longrightarrow> N h = None \<Longrightarrow> counted (R + {#h#}) (N(h \<mapsto> \<lparr>vn_refcount = 1, vn_fs = f, vn_ops = True\<rparr>))"
  using counted_live [of R N h] by (auto simp: counted_def vnodes_ok_def count_eq_zero_iff)

lemma heap_free: "semfs_ok s \<Longrightarrow> nodes s (sem_heap (fsd s)) = None"
  by (metis less_irrefl not_Some_eq semfs_ok_parts(1) vnodes_inv_def)

text \<open>The state after a vnode is made.\<close>

definition with_vnode :: "nat \<Rightarrow> sem_state \<Rightarrow> sem_state" where
  "with_vnode n s = upd_fs (\<lambda>f. f\<lparr>semfs_vnodes := semfs_vnodes f @ [(sem_heap f, n)], sem_heap := sem_heap f + 1\<rparr>)
    (s\<lparr>nodes := (nodes s)(sem_heap (fsd s) \<mapsto> \<lparr>vn_refcount = 1, vn_fs = Some (sem_fs (fsd s)), vn_ops = True\<rparr>)\<rparr>)"

lemma with_vnode_sel [simp]:
  "nodes (with_vnode n s) = (nodes s)(sem_heap (fsd s) \<mapsto> \<lparr>vn_refcount = 1, vn_fs = Some (sem_fs (fsd s)), vn_ops = True\<rparr>)"
  "semfs_vnodes (fsd (with_vnode n s)) = semfs_vnodes (fsd s) @ [(sem_heap (fsd s), n)]"
  "semfs_sems (fsd (with_vnode n s)) = semfs_sems (fsd s)" "semfs_dents (fsd (with_vnode n s)) = semfs_dents (fsd s)"
  "sem_heap (fsd (with_vnode n s)) = sem_heap (fsd s) + 1" "knowndevs (with_vnode n s) = knowndevs s"
  "tables (with_vnode n s) = tables s"
  by (simp_all add: with_vnode_def)

lemma find_none_snd: "n \<notin> snd ` set T \<Longrightarrow> find (\<lambda>(v, m). m = n) T = None"
  by (auto simp: find_None_iff snd_image_iff)

lemma getvnode_new:
  assumes "n \<notin> snd ` set (semfs_vnodes (fsd s))" and "km 0" and "km 1"
    and "n = SEMFS_ROOTDIR \<or> (slot (semfs_sems (fsd s)) n = Some x \<and> \<not> sems_hasvnode x)"
  shows "semfs_getvnode km n s = Some (Inr (sem_heap (fsd s)),
    if n = SEMFS_ROOTDIR then with_vnode n s else set_sem n (Some (x\<lparr>sems_hasvnode := True\<rparr>)) (with_vnode n s))"
proof -
  have "find (\<lambda>(v, m). m = n) (semfs_vnodes (fsd s)) = None" by (rule find_none_snd [OF assms(1)])
  moreover have "upd_fs (\<lambda>f. f\<lparr>semfs_vnodes := semfs_vnodes f @ [(sem_heap (fsd s), n)]\<rparr>)
      (upd_fs (\<lambda>f. f\<lparr>sem_heap := sem_heap (fsd s) + 1\<rparr>)
        (s\<lparr>nodes := (nodes s)(sem_heap (fsd s) \<mapsto> \<lparr>vn_refcount = 1, vn_fs = Some (sem_fs (fsd s)), vn_ops = True\<rparr>)\<rparr>)) = with_vnode n s"
    by (simp add: with_vnode_def upd_fs_def)
  ultimately show ?thesis using assms(2-4)
    by (cases "n = SEMFS_ROOTDIR")
      (simp_all add: semfs_getvnode_def semfs_vnode_create_def vnode_init_def array_get_slot Let_def)
qed

lemma has_fs_with_vnode: "semfs_ok s \<Longrightarrow> has_fs v s \<Longrightarrow> has_fs v (with_vnode n s)"
  by (simp add: has_fs_def)

lemma getvnode_serves:
  assumes ok: "semfs_ok s" and cnt: "counted R (nodes s)" and km: "km 0" "km 1"
    and n: "n = SEMFS_ROOTDIR \<or> slot (semfs_sems (fsd s)) n \<noteq> None"
  shows "serves semfs_ok R s ref_of (semfs_getvnode km n s)"
proof (cases "n \<in> snd ` set (semfs_vnodes (fsd s))")
  case True
  then have "find (\<lambda>(v, m). m = n) (semfs_vnodes (fsd s)) \<noteq> None" by (auto simp: find_None_iff)
  then obtain p where p: "find (\<lambda>(v, m). m = n) (semfs_vnodes (fsd s)) = Some p" by blast
  moreover obtain v m where "p = (v, m)" by (cases p)
  ultimately have f: "find (\<lambda>(v, m). m = n) (semfs_vnodes (fsd s)) = Some (v, n)" "(v, n) \<in> set (semfs_vnodes (fsd s))"
    by (auto simp: find_Some_iff in_set_conv_nth)
  have "nodes s v \<noteq> None" using semfs_ok_parts(1) [OF ok] f(2) unfolding vnodes_inv_def fst_image_iff by blast
  then have v: "v \<in># R" using counted_live [OF cnt] by blast
  show ?thesis by (simp add: semfs_getvnode_def f(1)) (rule serves_incref [OF ok cnt v], simp)
next
  case False
  let ?T = "semfs_vnodes (fsd s)"
  have v: "vnodes_inv (nodes (with_vnode n s)) (kd_vnode ` set (knowndevs s)) (?T @ [(sem_heap (fsd s), n)]) (sem_heap (fsd s) + 1)"
    using vnodes_inv_add [OF semfs_ok_parts(1) [OF ok] False] by simp
  have c: "counted (R + {#sem_heap (fsd s)#}) (nodes (with_vnode n s))"
    using counted_new [OF cnt heap_free [OF ok]] by simp
  have snd: "snd ` set (?T @ [(sem_heap (fsd s), n)]) = insert n (snd ` set ?T)" by auto
  show ?thesis
  proof (cases "n = SEMFS_ROOTDIR")
    case True
    have "semfs_ok (with_vnode n s)"
      using v semfs_ok_parts [OF ok] sems_inv_root [OF semfs_ok_parts(2) [OF ok]] snd True by (simp add: semfs_ok_def)
    moreover have "semfs_getvnode km n s = Some (Inr (sem_heap (fsd s)), with_vnode n s)"
      using getvnode_new [OF False km, of undefined] True by simp
    ultimately show ?thesis using c has_fs_with_vnode [OF ok] by (simp add: serves_def del: with_vnode_sel(1))
  next
    case nroot: False
    with n obtain x where x: "slot (semfs_sems (fsd s)) n = Some x" by blast
    have hv: "\<not> sems_hasvnode x" using sems_invD [OF semfs_ok_parts(2) [OF ok] x] False by blast
    let ?s = "set_sem n (Some (x\<lparr>sems_hasvnode := True\<rparr>)) (with_vnode n s)"
    have "semfs_ok ?s"
      using v semfs_ok_parts(3) [OF ok] sems_inv_open [OF semfs_ok_parts(2) [OF ok] x] slot_SomeD [OF x] snd
      by (simp add: semfs_ok_def set_sem_def)
    moreover have "nodes ?s = nodes (with_vnode n s)" "tables ?s = tables s" "\<And>w. has_fs w ?s = has_fs w (with_vnode n s)"
      by (simp_all add: set_sem_def)
    moreover have "semfs_getvnode km n s = Some (Inr (sem_heap (fsd s)), ?s)"
      using getvnode_new [OF False km, of x] nroot x hv by simp
    ultimately show ?thesis using c has_fs_with_vnode [OF ok] by (simp add: serves_def del: with_vnode_sel(1))
  qed
qed

lemma semnum_exists:
  assumes ok: "semfs_ok s" and n: "semnum_of v s = Some n" "n \<noteq> SEMFS_ROOTDIR"
  shows "\<exists>x. slot (semfs_sems (fsd s)) n = Some x \<and> sems_hasvnode x"
proof -
  from n(1) ok have "n \<in> snd ` set (semfs_vnodes (fsd s))" unfolding snd_image_iff by (auto simp: semnum_of_iff)
  with semfs_ok_parts(2) [OF ok] n(2) obtain x where "slot (semfs_sems (fsd s)) n = Some x"
    unfolding sems_inv_def by blast
  with sems_invD [OF semfs_ok_parts(2) [OF ok] this] \<open>n \<in> _\<close> show ?thesis by blast
qed

lemma vnodes_invD:
  "vnodes_inv N K T h \<Longrightarrow> N v = Some x \<Longrightarrow> v < h \<and> (v \<in> fst ` set T \<longleftrightarrow> vn_fs x \<noteq> None) \<and> (vn_fs x = None \<longrightarrow> v \<in> K)"
  unfolding vnodes_inv_def by (metis option.inject)

lemma device_vnode: "semfs_ok s \<Longrightarrow> nodes s v = Some x \<Longrightarrow> semnum_of v s = None \<Longrightarrow> v \<in> kd_vnode ` set (knowndevs s)"
  using vnodes_invD [OF semfs_ok_parts(1)] by (metis semnum_None)

lemma truncate_serves:
  assumes ok: "semfs_ok s" and cnt: "counted R (nodes s)" and n: "semnum_of v s = Some n" "n \<noteq> SEMFS_ROOTDIR"
  shows "serves semfs_ok R s (\<lambda>_. {#}) (semfs_truncate v len s)"
proof -
  from semnum_exists [OF assms(1,3,4)] obtain x where x: "slot (semfs_sems (fsd s)) n = Some x" by blast
  obtain w y where w: "semfs_wakeup x (word_of_int len) = (w, y)" by (cases "semfs_wakeup x (word_of_int len)")
  then have y: "sems_hasvnode y = sems_hasvnode x" "sems_linked y = sems_linked x"
    by (auto simp: semfs_wakeup_def split: if_splits)
  let ?s = "set_sem n (Some (y\<lparr>sems_count := word_of_int len\<rparr>)) s"
  have "semfs_ok ?s"
    using ok sems_inv_count [OF semfs_ok_parts(2) [OF ok] x, of "y\<lparr>sems_count := word_of_int len\<rparr>"] y slot_SomeD [OF x]
    by (simp add: semfs_ok_def set_sem_def)
  moreover have "nodes ?s = nodes s" "tables ?s = tables s" "\<And>v. has_fs v ?s = has_fs v s" by (simp_all add: set_sem_def)
  moreover have "semfs_truncate v len s = Some (if len < 0 then (Some EINVAL, s) else if len > 0xffffffff then (Some EFBIG, s) else (None, ?s))"
    using n x w by (simp add: semfs_truncate_def array_get_slot)
  ultimately show ?thesis using ok cnt by (simp add: serves_def)
qed

lemma remove_serves:
  assumes ok: "semfs_ok s" and cnt: "counted R (nodes s)"
  shows "serves semfs_ok R s (\<lambda>_. {#}) (semfs_remove name s)"
proof (cases "name = ''.'' \<or> name = ''..'' \<or> find_dent name (semfs_dents (fsd s)) = None")
  case True
  with ok cnt show ?thesis by (auto simp: semfs_remove_def serves_def)
next
  case False
  then obtain j where j: "find_dent name (semfs_dents (fsd s)) = Some j" by auto
  from find_dent_SomeD [OF j] obtain d where d: "slot (semfs_dents (fsd s)) j = Some d" "semfs_dents (fsd s) ! j = Some d" by blast
  from semfs_ok_parts(2) [OF ok] d(1) obtain x where x: "slot (semfs_sems (fsd s)) (semd_semnum d) = Some x"
    unfolding sems_inv_def by blast
  have l: "sems_linked x" using sems_invD [OF semfs_ok_parts(2) [OF ok] x] d(1) by blast
  let ?s = "set_dent j None (set_sem (semd_semnum d) (if \<not> sems_hasvnode x then None else Some (x\<lparr>sems_linked := False\<rparr>)) s)"
  have "semfs_ok ?s"
    using ok sems_inv_remove [OF semfs_ok_parts(2) [OF ok] d(1) x] slot_SomeD [OF x] slot_SomeD [OF d(1)]
    by (simp add: semfs_ok_def set_sem_def set_dent_def)
  moreover have "nodes ?s = nodes s" "tables ?s = tables s" "\<And>v. has_fs v ?s = has_fs v s"
    by (simp_all add: set_sem_def set_dent_def)
  moreover have "semfs_remove name s = Some (None, ?s)"
    using False j d(2) x l by (auto simp: semfs_remove_def array_get_slot)
  ultimately show ?thesis using cnt by (simp add: serves_def)
qed

lemma reclaim_serves:
  assumes ok: "semfs_ok s" and v: "nodes s v = Some x" "vn_refcount x = 1" "semnum_of v s = Some n"
  shows "\<exists>r s'. semfs_reclaim v s = Some (r, s') \<and> semfs_ok s' \<and> nodes s' = (nodes s)(v := None) \<and> tables s' = tables s"
proof -
  let ?T = "filter (\<lambda>(w, m). w \<noteq> v) (semfs_vnodes (fsd s))"
  have mem: "(v, n) \<in> set (semfs_vnodes (fsd s))" using semnum_of_iff [OF ok] v(3) by blast
  note rest = vnodes_inv_remove [OF semfs_ok_parts(1) [OF ok] mem]
  define s1 where "s1 = upd_fs (\<lambda>f. f\<lparr>semfs_vnodes := filter (\<lambda>(w, m). w \<noteq> v) (semfs_vnodes f)\<rparr>) s"
  have s1: "nodes s1 = nodes s" "tables s1 = tables s" "knowndevs s1 = knowndevs s" "semfs_vnodes (fsd s1) = ?T"
    "semfs_sems (fsd s1) = semfs_sems (fsd s)" "semfs_dents (fsd s1) = semfs_dents (fsd s)" "sem_heap (fsd s1) = sem_heap (fsd s)"
    by (simp_all add: s1_def)
  have destroy: "semfs_vnode_destroy v s2 = Some (s2\<lparr>nodes := (nodes s)(v := None)\<rparr>)" if "nodes s2 = nodes s" for s2
    using v that by (simp add: semfs_vnode_destroy_def vnode_cleanup_def)
  show ?thesis
  proof (cases "n = SEMFS_ROOTDIR")
    case True
    let ?s = "s1\<lparr>nodes := (nodes s)(v := None)\<rparr>"
    have "semfs_ok ?s" using rest sems_inv_close_root [OF semfs_ok_parts(2) [OF ok]] semfs_ok_parts(3) [OF ok] True s1
      by (simp add: semfs_ok_def)
    moreover have "semfs_reclaim v s = Some (None, ?s)"
      using v True destroy [OF s1(1)] by (simp add: semfs_reclaim_def s1_def [symmetric])
    moreover have "tables ?s = tables s" using s1(2) by simp
    ultimately show ?thesis by auto
  next
    case False
    from semnum_exists [OF ok v(3) False] obtain y where y: "slot (semfs_sems (fsd s)) n = Some y" "sems_hasvnode y" by blast
    let ?y = "if \<not> sems_linked y then None else Some (y\<lparr>sems_hasvnode := False\<rparr>)"
    let ?s = "(set_sem n ?y s1)\<lparr>nodes := (nodes s)(v := None)\<rparr>"
    have "semfs_ok ?s"
      using rest sems_inv_close [OF semfs_ok_parts(2) [OF ok] y(1)] semfs_ok_parts(3) [OF ok] s1 slot_SomeD [OF y(1)]
      by (simp add: semfs_ok_def set_sem_def)
    moreover have "semfs_reclaim v s = Some (None, ?s)"
      using v False destroy [of "set_sem n ?y s1"] s1 y
      by (simp add: semfs_reclaim_def s1_def [symmetric] array_get_slot set_sem_def)
    moreover have "tables ?s = tables s" using s1(2) by (simp add: set_sem_def)
    ultimately show ?thesis by auto
  qed
qed

text \<open>Creation: the slots taken, then the vnode.\<close>

lemma first_hole_slot: "first_hole 0 xs = Some i \<Longrightarrow> i < length xs \<and> slot xs i = None"
  using first_hole_SomeD [of 0 xs i] by (auto simp: slot_def)

lemma sem_insert_slot:
  assumes "length (semfs_sems f) \<le> SEMFS_ROOTDIR" and "length (semfs_sems f) \<noteq> SEMFS_ROOTDIR"
  obtains i S where "semfs_sem_insert True x f = (Inr i, f\<lparr>semfs_sems := S\<rparr>)" "slot S = (slot (semfs_sems f))(i \<mapsto> x)"
    "slot (semfs_sems f) i = None" "i < SEMFS_ROOTDIR" "length S \<le> SEMFS_ROOTDIR" "i < length S"
proof (cases "first_hole 0 (semfs_sems f)")
  case None
  with assms show ?thesis
    by (intro that [of "length (semfs_sems f)" "semfs_sems f @ [Some x]"]) (simp_all add: semfs_sem_insert_def Let_def)
next
  case (Some i)
  with first_hole_slot [OF Some] assms show ?thesis
    by (intro that [of i "(semfs_sems f)[i := Some x]"]) (simp_all add: semfs_sem_insert_def Let_def)
qed

lemma creat_link_eq:
  assumes "slot (semfs_sems (fsd s)) i = Some x" and "\<not> sems_hasvnode x" and "i \<noteq> SEMFS_ROOTDIR"
    and "i \<notin> snd ` set (semfs_vnodes (fsd s))" and "km 0" "km 1"
  shows "semfs_creat_link km i j s = Some ((None, Some (sem_heap (fsd s))),
    set_sem i (Some (x\<lparr>sems_hasvnode := True, sems_linked := True\<rparr>)) (with_vnode i s))"
proof -
  let ?s = "set_sem i (Some (x\<lparr>sems_hasvnode := True\<rparr>)) (with_vnode i s)"
  have i: "i < length (semfs_sems (fsd s))" using slot_SomeD [OF assms(1)] by simp
  have g: "semfs_getvnode km i s = Some (Inr (sem_heap (fsd s)), ?s)"
    using getvnode_new [OF assms(4-6), of x] assms(1-3) by simp
  have "array_get (semfs_sems (fsd ?s)) i = Some (Some (x\<lparr>sems_hasvnode := True\<rparr>))"
    using i by (simp add: array_get_def set_sem_def)
  moreover have "set_sem i (Some (x\<lparr>sems_hasvnode := True, sems_linked := True\<rparr>)) ?s =
      set_sem i (Some (x\<lparr>sems_hasvnode := True, sems_linked := True\<rparr>)) (with_vnode i s)"
    by (simp add: set_sem_def upd_fs_def)
  ultimately show ?thesis using g by (simp add: semfs_creat_link_def)
qed

lemma creat_new_ok:
  assumes ok: "semfs_ok s" and cnt: "counted R (nodes s)"
    and S: "slot S = (slot (semfs_sems (fsd s)))(i \<mapsto> x)" "slot (semfs_sems (fsd s)) i = None" "i < SEMFS_ROOTDIR"
      "length S \<le> SEMFS_ROOTDIR" "i < length S"
    and D: "slot D = (slot (semfs_dents (fsd s)))(j \<mapsto> d)" "slot (semfs_dents (fsd s)) j = None" "semd_semnum d = i"
    and new: "find_dent (semd_name d) (semfs_dents (fsd s)) = None"
  defines "s' \<equiv> set_sem i (Some (x\<lparr>sems_hasvnode := True, sems_linked := True\<rparr>))
    (with_vnode i (upd_fs (\<lambda>f. f\<lparr>semfs_sems := S, semfs_dents := D\<rparr>) s))"
  shows "semfs_ok s'" and "counted (R + {#sem_heap (fsd s)#}) (nodes s')" and "tables s' = tables s"
    and "has_fs v s \<Longrightarrow> has_fs v s'"
proof -
  let ?T = "semfs_vnodes (fsd s)"
  have un: "i \<notin> snd ` set ?T" using sems_inv_unused [OF semfs_ok_parts(2) [OF ok] S(2)] S(3) by simp
  have names: "\<forall>k e. slot (semfs_dents (fsd s)) k = Some e \<longrightarrow> semd_name e \<noteq> semd_name d"
    using find_dent_NoneD [OF new] by blast
  have N: "nodes s' = (nodes s)(sem_heap (fsd s) \<mapsto> \<lparr>vn_refcount = 1, vn_fs = Some (sem_fs (fsd s)), vn_ops = True\<rparr>)"
    by (simp add: s'_def set_sem_def)
  have "vnodes_inv (nodes s') (kd_vnode ` set (knowndevs s)) (?T @ [(sem_heap (fsd s), i)]) (sem_heap (fsd s) + 1)"
    unfolding N by (rule vnodes_inv_add [OF semfs_ok_parts(1) [OF ok] un])
  moreover have "snd ` set (?T @ [(sem_heap (fsd s), i)]) = insert i (snd ` set ?T)" by auto
  moreover have "sems_inv (insert i (snd ` set ?T)) ((slot (semfs_sems (fsd s)))(i \<mapsto> x\<lparr>sems_hasvnode := True, sems_linked := True\<rparr>)) (slot D)"
    unfolding D(1) by (rule sems_inv_creat [OF semfs_ok_parts(2) [OF ok] S(2,3) D(2,3) names]) simp_all
  ultimately show "semfs_ok s'" using S by (simp add: semfs_ok_def s'_def set_sem_def)
  show "counted (R + {#sem_heap (fsd s)#}) (nodes s')" unfolding N by (rule counted_new [OF cnt heap_free [OF ok]])
  show "tables s' = tables s" by (simp add: s'_def set_sem_def)
  show "has_fs v s \<Longrightarrow> has_fs v s'" unfolding has_fs_def N by simp
qed

lemma creat_serves:
  assumes ok: "semfs_ok s" and cnt: "counted R (nodes s)" and km: "\<And>i. i \<le> 5 \<Longrightarrow> km i"
  shows "serves semfs_ok R s ref_of (creat_result (semfs_creat km name excl s))"
proof (cases "name = ''.'' \<or> name = ''..''")
  case True
  with ok cnt show ?thesis by (auto simp: semfs_creat_def creat_result_def serves_def)
next
  case name: False
  show ?thesis
  proof (cases "find_dent name (semfs_dents (fsd s))")
    case (Some j)
    from find_dent_SomeD [OF this] obtain d where d: "slot (semfs_dents (fsd s)) j = Some d" "semfs_dents (fsd s) ! j = Some d" by blast
    with semfs_ok_parts(2) [OF ok] have "slot (semfs_sems (fsd s)) (semd_semnum d) \<noteq> None" unfolding sems_inv_def by blast
    then have g: "serves semfs_ok R s ref_of (semfs_getvnode km (semd_semnum d) s)"
      by (intro getvnode_serves [OF ok cnt]) (simp_all add: km)
    then obtain r s' where r: "semfs_getvnode km (semd_semnum d) s = Some (r, s')" by (auto simp: serves_def)
    have "creat_result (semfs_creat km name excl s) = (if excl then Some (Inl EEXIST, s) else Some (r, s'))"
      using name Some d(2) r by (auto simp: semfs_creat_def creat_result_def split: sum.split)
    with g r ok cnt show ?thesis by (auto simp: serves_def)
  next
    case None
    show ?thesis
    proof (cases "length (semfs_sems (fsd s)) = SEMFS_ROOTDIR")
      case True
      with name None km ok cnt show ?thesis
        by (simp add: semfs_creat_def creat_result_def semfs_sem_create_def semfs_sem_insert_def creat_unlock_def serves_def)
    next
      case False
      define x where "x = \<lparr>sems_count = (0 :: u32), sems_waiting = [], sems_hasvnode = False, sems_linked = False\<rparr>"
      from sem_insert_slot [OF semfs_ok_parts(3) [OF ok] False] obtain i S
        where S: "semfs_sem_insert True x (fsd s) = (Inr i, (fsd s)\<lparr>semfs_sems := S\<rparr>)" "slot S = (slot (semfs_sems (fsd s)))(i \<mapsto> x)"
          "slot (semfs_sems (fsd s)) i = None" "i < SEMFS_ROOTDIR" "length S \<le> SEMFS_ROOTDIR" "i < length S" by metis
      define d where "d = \<lparr>semd_name = name, semd_semnum = i\<rparr>"
      obtain j D where j: "slot D = (slot (semfs_dents (fsd s)))(j \<mapsto> d)" "slot (semfs_dents (fsd s)) j = None"
        and run: "semfs_creat km name excl s = semfs_creat_link km i j (upd_fs (\<lambda>f. f\<lparr>semfs_sems := S, semfs_dents := D\<rparr>) s)"
      proof (cases "first_hole 0 (semfs_dents (fsd s))")
        case h: None
        show thesis
          by (rule that [of "semfs_dents (fsd s) @ [Some d]" "length (semfs_dents (fsd s))"])
            (use name None h S(1) km in \<open>simp_all add: semfs_creat_def semfs_sem_create_def semfs_direntry_create_def
              x_def [symmetric] d_def [symmetric] upd_fs_def Let_def\<close>)
      next
        case (Some h)
        show thesis
          by (rule that [of "(semfs_dents (fsd s))[h := Some d]" h])
            (use name None Some first_hole_slot [OF Some] S(1) km in \<open>simp_all add: semfs_creat_def semfs_sem_create_def
              semfs_direntry_create_def x_def [symmetric] d_def [symmetric] upd_fs_def set_dent_def Let_def\<close>)
      qed
      have un: "i \<notin> snd ` set (semfs_vnodes (fsd s))"
        using sems_inv_unused [OF semfs_ok_parts(2) [OF ok] S(3)] S(4) by simp
      have "find_dent (semd_name d) (semfs_dents (fsd s)) = None" "semd_semnum d = i" using None by (simp_all add: d_def)
      note fin = creat_new_ok [OF ok cnt S(2-6) j this(2,1)]
      have "slot S i = Some x" "\<not> sems_hasvnode x" using S(2) by (simp_all add: x_def)
      then show ?thesis using fin un S(4) km
        by (simp add: run creat_link_eq creat_result_def serves_def)
    qed
  qed
qed

section \<open>The contract holds\<close>

abbreviation sem_io :: "(nat \<Rightarrow> device) \<Rightarrow> (u32 \<Rightarrow> errno option) \<Rightarrow> semfs vfs_io" where
  "sem_io devtab drv \<equiv> semfs_io (\<lambda>_. True) devtab drv"

lemma lookup_serves:
  assumes "semfs_ok s" and "counted R (nodes s)" and "v \<in># R"
  shows "serves semfs_ok R s ref_of (vop_lookup (sem_io devtab drv) v path s)"
proof (cases "kind_of v s")
  case Root
  have root: "serves semfs_ok R s ref_of (semfs_lookup (\<lambda>_. True) v path s)"
  proof (cases "path = ''.'' \<or> path = ''..''")
    case True
    then show ?thesis unfolding semfs_lookup_def by (simp only: if_True) (rule serves_incref [OF assms], simp)
  next
    case False
    show ?thesis
    proof (cases "find_dent path (semfs_dents (fsd s))")
      case None
      with False serves_same [OF assms(1,2)] show ?thesis by (simp add: semfs_lookup_def serves_def assms)
    next
      case (Some j)
      from find_dent_SomeD [OF this] obtain d where d: "slot (semfs_dents (fsd s)) j = Some d" "semfs_dents (fsd s) ! j = Some d" by blast
      with semfs_ok_parts(2) [OF assms(1)] have "slot (semfs_sems (fsd s)) (semd_semnum d) \<noteq> None" unfolding sems_inv_def by blast
      with getvnode_serves [OF assms(1,2)] False Some d(2) show ?thesis by (simp add: semfs_lookup_def)
    qed
  qed
  with Root show ?thesis by (simp add: semfs_io_def)
next
  case Dev
  have "serves semfs_ok R s ref_of (VOP_INCREF v s \<bind> (\<lambda>s. Some (Inr v, s)))" by (rule serves_incref [OF assms]) simp
  with Dev serves_same [OF assms(1,2)] show ?thesis by (auto simp: semfs_io_def dev_lookup_def serves_def assms)
qed (use assms in \<open>simp add: semfs_io_def vopfail_defs serves_def\<close>)

lemma lookparent_serves:
  assumes "semfs_ok s" and "counted R (nodes s)" and "v \<in># R"
  shows "serves semfs_ok R s (ref_of \<circ> map_sum id fst) (vop_lookparent (sem_io devtab drv) v path s)"
proof -
  have "serves semfs_ok R s (ref_of \<circ> map_sum id fst) (VOP_INCREF v s \<bind> (\<lambda>s. Some (Inr (v, path), s)))"
    by (rule serves_incref [OF assms]) simp
  then show ?thesis using assms by (auto simp: semfs_io_def semfs_lookparent_def vopfail_defs serves_def)
qed

interpretation sem: file_systems "sem_io devtab drv" semfs_ok for devtab drv
proof (standard, goal_cases)
  case (1 s v x n)
  then show ?case using vnodes_inv_refcount [of "nodes s" _ _ _ v x n] by (simp add: semfs_ok_def)
next
  case (2 s s')
  then show ?case by (simp add: semfs_ok_def)
next
  case (3 s v x)
  show ?case
  proof (cases "semnum_of v s")
    case None
    from device_vnode [OF 3(1,2) this] 3(4) show ?thesis by (auto simp: holders_def)
  next
    case (Some n)
    with reclaim_serves [OF 3(1-3) Some] show ?thesis by (simp add: semfs_io_def kind_of_def)
  qed
next
  case (4 s R fs)
  then show ?case using getvnode_serves [of s R] by (simp add: semfs_io_def semfs_getroot_def)
next
  case (5 s v)
  have "semnum_of v s \<noteq> None"
    using 5(3) by (cases "semnum_of v s") (simp_all add: semfs_io_def kind_of_def dev_gettype_def split: if_splits)
  with vnodes_invD [OF semfs_ok_parts(1) [OF 5(1)]] show ?case unfolding has_fs_def semnum_None by blast
next
  case (6 s R v len)
  then show ?case using truncate_serves [OF 6(1,2)]
    by (auto simp: semfs_io_def kind_of_def vopfail_defs serves_same split: option.splits)
next
  case (7 s R v path)
  then show ?case using lookup_serves [OF 7] by simp
next
  case (8 s R v path)
  then show ?case using lookparent_serves [OF 8] by simp
qed (auto simp: semfs_io_def vopfail_defs serves_same remove_serves creat_serves)

end
