(* ===== verification/FileSyscalls.thy ===== *)
theory FileSyscalls
  imports ProcSyscalls SemfsContract
begin

text \<open>
  Open files: \<open>kern/syscall/file_syscalls.c\<close> in the configuration with files and without a kernel
  buffer. The state joins the kernel of theory Procs and the VFS layer: the vnodes and the current
  directory the VFS layer sees are those of the kernel and of the running process. A pointer to an
  entry of the system file table is its index. \<open>vfs_close\<close> is \<open>VOP_DECREF\<close>. The transfer of a
  vnode is a parameter \<open>tr\<close>, on the vnode, the \<open>uio\<close> and the state of the VFS layer.
\<close>

section \<open>State\<close>

record 's os =
  kern :: kstate
  vfss :: "'s vfs_state"

definition cur_cwd :: "kstate \<Rightarrow> nat option" where
  "cur_cwd k = (case curproc k of None \<Rightarrow> None | Some p \<Rightarrow> (case procs k p of None \<Rightarrow> None | Some P \<Rightarrow> p_cwd P))"

definition vfs_view :: "'s os \<Rightarrow> 's vfs_state" where
  "vfs_view os = (vfss os)\<lparr>nodes := vnodes (kern os), cwd := cur_cwd (kern os)\<rparr>"

definition vfs_put :: "'s vfs_state \<Rightarrow> 's os \<Rightarrow> 's os" where
  "vfs_put s os = os\<lparr>kern := (kern os)\<lparr>vnodes := nodes s\<rparr>, vfss := s\<rparr>"

definition set_file :: "nat \<Rightarrow> openfile \<Rightarrow> 's os \<Rightarrow> 's os" where
  "set_file i f os = os\<lparr>kern := (kern os)\<lparr>systemFileTable := (systemFileTable (kern os))[i := f]\<rparr>\<rparr>"

definition set_fd :: "nat \<Rightarrow> nat \<Rightarrow> nat option \<Rightarrow> 's os \<Rightarrow> 's os option" where
  "set_fd p fd f os = do {
     k \<leftarrow> upd_proc p (\<lambda>P. P\<lparr>fileTable := (fileTable P)[fd := f]\<rparr>) (kern os);
     Some (os\<lparr>kern := k\<rparr>) }"

section \<open>Open and close\<close>

text \<open>The end of \<open>sys_open\<close> without a slot.\<close>

definition open_no_slot :: "'s vfs_io \<Rightarrow> errno \<Rightarrow> nat \<Rightarrow> 's os \<Rightarrow> ((errno + nat) \<times> 's os) option" where
  "open_no_slot io e v os = do {
     s \<leftarrow> VOP_DECREF io v (vfs_view os);
     Some (Inl e, vfs_put s os) }"

definition sys_open :: "'s vfs_io \<Rightarrow> string \<Rightarrow> u32 \<Rightarrow> u32 \<Rightarrow> 's os \<Rightarrow> ((errno + nat) \<times> 's os) option" where
  "sys_open io path openflags mode os = do {
     (result, s) \<leftarrow> vfs_open io path openflags mode (vfs_view os);
     let os = vfs_put s os;
     (case result of
        Inl e \<Rightarrow> Some (Inl ENOENT, os)
      | Inr v \<Rightarrow>
          (case find_from (\<lambda>f. of_vn f = None) 0 (systemFileTable (kern os)) of
             None \<Rightarrow> open_no_slot io ENFILE v os
           | Some i \<Rightarrow> do {
               let os = set_file i \<lparr>of_vn = Some v, of_offset = 0, countRef = 1\<rparr> os;
               p \<leftarrow> curproc (kern os);
               P \<leftarrow> procs (kern os) p;
               (case find (\<lambda>fd. fileTable P ! fd = None) [3..<OPEN_MAX] of
                  None \<Rightarrow> open_no_slot io EMFILE v os
                | Some fd \<Rightarrow> do {
                    os \<leftarrow> set_fd p fd (Some i) os;
                    Some (Inr fd, os) }) })) }"

text \<open>The entry of a descriptor: outside a call that checks it, \<open>fd = OPEN_MAX\<close> reads past the table.\<close>

definition fd_entry :: "nat \<Rightarrow> kstate \<Rightarrow> nat option option" where
  "fd_entry fd k = do {
     p \<leftarrow> curproc k;
     P \<leftarrow> procs k p;
     kassert (fd < length (fileTable P));
     Some (fileTable P ! fd) }"

definition sys_close :: "'s vfs_io \<Rightarrow> int \<Rightarrow> 's os \<Rightarrow> (int \<times> 's os) option" where
  "sys_close io fd os =
     (if fd < 0 \<or> fd > int OPEN_MAX then Some (-1, os)
      else do {
        of' \<leftarrow> fd_entry (nat fd) (kern os);
        (case of' of
           None \<Rightarrow> Some (-1, os)
         | Some i \<Rightarrow> do {
             p \<leftarrow> curproc (kern os);
             os \<leftarrow> set_fd p (nat fd) None os;
             kassert (i < length (systemFileTable (kern os)));
             let f = systemFileTable (kern os) ! i;
             let f = f\<lparr>countRef := countRef f - 1\<rparr>;
             if countRef f > 0 then Some (0, set_file i f os)
             else do {
               let os = set_file i (f\<lparr>of_vn := None\<rparr>) os;
               (case of_vn f of
                  None \<Rightarrow> Some (-1, os)
                | Some vn \<Rightarrow> do {
                    s \<leftarrow> VOP_DECREF io vn (vfs_view os);
                    Some (0, vfs_put s os) }) } }) })"

section \<open>Read and write\<close>

type_synonym 's transfer = "nat \<Rightarrow> uio \<Rightarrow> 's vfs_state \<Rightarrow> (errno option \<times> uio \<times> 's vfs_state) option"

text \<open>\<open>file_read\<close> and \<open>file_write\<close> differ in the direction. An error number is returned as it is.\<close>

definition file_transfer :: "uio_rw \<Rightarrow> 's transfer \<Rightarrow> int \<Rightarrow> u32 \<Rightarrow> 's os \<Rightarrow> (int \<times> 's os) option" where
  "file_transfer rw tr fd len os =
     (if fd < 0 \<or> fd > int OPEN_MAX then Some (-1, os)
      else do {
        of' \<leftarrow> fd_entry (nat fd) (kern os);
        (case of' of
           None \<Rightarrow> Some (-1, os)
         | Some i \<Rightarrow> do {
             kassert (i < length (systemFileTable (kern os)));
             let f = systemFileTable (kern os) ! i;
             (case of_vn f of
                None \<Rightarrow> Some (-1, os)
              | Some vn \<Rightarrow> do {
                  let u = \<lparr>uio_offset = of_offset f, uio_resid = len, uio_rw = rw\<rparr>;
                  (result, u, s) \<leftarrow> VOP vn (vfs_view os) (tr vn u (vfs_view os));
                  let os = vfs_put s os;
                  (case result of
                     Some e \<Rightarrow> Some (errno_code e, os)
                   | None \<Rightarrow> Some (sint (len - uio_resid u), set_file i (f\<lparr>of_offset := uio_offset u\<rparr>) os)) }) }) })"

definition file_read :: "'s transfer \<Rightarrow> int \<Rightarrow> u32 \<Rightarrow> 's os \<Rightarrow> (int \<times> 's os) option" where
  "file_read = file_transfer UIO_READ"

definition file_write :: "'s transfer \<Rightarrow> int \<Rightarrow> u32 \<Rightarrow> 's os \<Rightarrow> (int \<times> 's os) option" where
  "file_write = file_transfer UIO_WRITE"

text \<open>The console: \<open>getch\<close> gives the characters of \<open>input\<close> one after the other, and the first with the top
  bit set, negative as a \<open>char\<close>, is stored but ends the read. The result, the memory and the rest of
  the input.\<close>

fun console_read :: "nat \<Rightarrow> nat \<Rightarrow> u8 list \<Rightarrow> bytes \<Rightarrow> nat \<Rightarrow> (nat \<times> bytes \<times> u8 list) option" where
  "console_read buf i input m 0 = Some (i, m, input)"
| "console_read buf i [] m (Suc n) = None"
| "console_read buf i (c # input) m (Suc n) =
     (let m = m(buf + i := c) in
      if sint c < 0 then Some (i, m, input) else console_read buf (i + 1) input m n)"

text \<open>\<open>None\<close> is also a read that waits for input forever.\<close>

definition sys_read :: "'s transfer \<Rightarrow> int \<Rightarrow> u32 \<Rightarrow> u32 \<Rightarrow> u8 list \<Rightarrow> bytes \<Rightarrow> 's os \<Rightarrow> (int \<times> bytes \<times> u8 list \<times> 's os) option" where
  "sys_read tr fd buf len input m os =
     (if fd \<noteq> 0 then do { (r, os) \<leftarrow> file_read tr fd len os; Some (r, m, input, os) }
      else if sint len \<le> 0 then Some (sint len, m, input, os)
      else do {
        (n, m, input) \<leftarrow> console_read (unat buf) 0 input m (unat len);
        Some (int n, m, input, os) })"

definition sys_write :: "'s transfer \<Rightarrow> int \<Rightarrow> u32 \<Rightarrow> u32 \<Rightarrow> u8 list \<Rightarrow> bytes \<Rightarrow> 's os \<Rightarrow> (int \<times> u8 list \<times> 's os) option" where
  "sys_write tr fd buf len screen m os =
     (if fd \<noteq> 1 \<and> fd \<noteq> 2 then do { (r, os) \<leftarrow> file_write tr fd len os; Some (r, screen, os) }
      else Some (sint len, screen @ map (\<lambda>i. m (unat buf + i)) [0..<nat (sint len)], os))"

section \<open>The open file tables\<close>

text \<open>The descriptors that refer to an entry, and the references the entries hold.\<close>

definition descriptors :: "kstate \<Rightarrow> nat \<Rightarrow> (nat \<times> nat) set" where
  "descriptors k i = {(p, fd). \<exists>P. procs k p = Some P \<and> fd < length (fileTable P) \<and> fileTable P ! fd = Some i}"

definition open_refs :: "openfile list \<Rightarrow> nat multiset" where
  "open_refs fs = mset (concat (map (\<lambda>f. case of_vn f of None \<Rightarrow> [] | Some v \<Rightarrow> [v]) fs))"

text \<open>Every descriptor refers to an entry in use, and an entry counts its descriptors.\<close>

definition files_ok :: "kstate \<Rightarrow> bool" where
  "files_ok k \<longleftrightarrow> length (systemFileTable k) = SYSTEM_OPEN_MAX \<and> finite (dom (procs k)) \<and>
     (\<forall>p P. procs k p = Some P \<longrightarrow> length (fileTable P) = OPEN_MAX) \<and>
     (\<forall>i. descriptors k i \<noteq> {} \<longrightarrow> i < SYSTEM_OPEN_MAX) \<and>
     (\<forall>i<SYSTEM_OPEN_MAX. (of_vn (systemFileTable k ! i) = None \<longleftrightarrow> descriptors k i = {}) \<and>
        (of_vn (systemFileTable k ! i) \<noteq> None \<longrightarrow> card (descriptors k i) = unat (countRef (systemFileTable k ! i))))"

text \<open>The state of open files is sound when, besides, the counts of the vnodes are right, with \<open>R\<close> the
  references that programs and other processes hold.\<close>

definition os_wf :: "('s vfs_state \<Rightarrow> bool) \<Rightarrow> nat multiset \<Rightarrow> 's os \<Rightarrow> bool" where
  "os_wf fsinv R os \<longleftrightarrow> files_ok (kern os) \<and> vfs_wf fsinv (R + open_refs (systemFileTable (kern os))) (vfs_view os)"

lemma descriptors_finite: "files_ok k \<Longrightarrow> finite (descriptors k i)"
  by (rule finite_subset [of _ "dom (procs k) \<times> {..<OPEN_MAX}"]) (auto simp: files_ok_def descriptors_def)

lemma descriptors_set:
  assumes "procs k p = Some P" and "fd < length (fileTable P)"
  shows "descriptors (k\<lparr>procs := (procs k)(p \<mapsto> P\<lparr>fileTable := (fileTable P)[fd := f]\<rparr>)\<rparr>) i =
    (if f = Some i then insert (p, fd) (descriptors k i) else descriptors k i - {(p, fd)})"
  using assms by (auto simp: descriptors_def nth_list_update split: if_splits)

lemma open_refs_update:
  assumes "i < length fs"
  shows "open_refs (fs[i := f]) + ref (of_vn (fs ! i)) = open_refs fs + ref (of_vn f)"
  using assms by (induction fs arbitrary: i) (auto simp: open_refs_def ref_def split: nat.splits option.splits)

lemma cur_cwd_update [simp]:
  "curproc (k\<lparr>vnodes := vs\<rparr>) = curproc k" "curproc (k\<lparr>systemFileTable := fs\<rparr>) = curproc k" "curproc (k\<lparr>procs := ps\<rparr>) = curproc k"
  "cur_cwd (k\<lparr>vnodes := vs\<rparr>) = cur_cwd k" "cur_cwd (k\<lparr>systemFileTable := fs\<rparr>) = cur_cwd k"
  by (simp_all add: cur_cwd_def curproc_def split: option.split)

lemma vfs_view_simps [simp]:
  "vfs_view (set_file i f os) = vfs_view os" "kern (vfs_put s os) = (kern os)\<lparr>vnodes := nodes s\<rparr>"
  "kern (set_file i f os) = (kern os)\<lparr>systemFileTable := (systemFileTable (kern os))[i := f]\<rparr>"
  by (simp_all add: vfs_view_def vfs_put_def set_file_def)

lemma vfs_view_put: "cwd s = cur_cwd (kern os) \<Longrightarrow> vfs_view (vfs_put s os) = s"
  by (simp add: vfs_view_def vfs_put_def)

lemma set_fd_eq:
  assumes "procs (kern os) p = Some P"
  shows "set_fd p fd f os =
    Some (os\<lparr>kern := (kern os)\<lparr>procs := (procs (kern os))(p \<mapsto> P\<lparr>fileTable := (fileTable P)[fd := f]\<rparr>)\<rparr>\<rparr>)"
  using assms by (simp add: set_fd_def upd_proc_def)

lemma vfs_view_fd:
  assumes "procs (kern os) p = Some P"
  shows "vfs_view (os\<lparr>kern := (kern os)\<lparr>procs := (procs (kern os))(p \<mapsto> P\<lparr>fileTable := ft\<rparr>)\<rparr>\<rparr>) = vfs_view os"
  using assms by (simp add: vfs_view_def cur_cwd_def split: option.split)

lemma files_okD:
  assumes "files_ok k"
  shows "length (systemFileTable k) = SYSTEM_OPEN_MAX" and "finite (dom (procs k))"
    and "procs k p = Some P \<Longrightarrow> length (fileTable P) = OPEN_MAX" and "(p, fd) \<in> descriptors k i \<Longrightarrow> i < SYSTEM_OPEN_MAX"
    and "i < SYSTEM_OPEN_MAX \<Longrightarrow> of_vn (systemFileTable k ! i) = None \<longleftrightarrow> descriptors k i = {}"
    and "i < SYSTEM_OPEN_MAX \<Longrightarrow> of_vn (systemFileTable k ! i) \<noteq> None \<Longrightarrow>
      card (descriptors k i) = unat (countRef (systemFileTable k ! i))"
  using assms unfolding files_ok_def by blast+

lemma files_ok_change:
  assumes ok: "files_ok k" and P: "procs k p = Some P" and fd: "fd < OPEN_MAX" and j: "j < SYSTEM_OPEN_MAX"
    and others: "\<And>i. i \<noteq> j \<Longrightarrow> descriptors (k\<lparr>procs := (procs k)(p \<mapsto> P\<lparr>fileTable := (fileTable P)[fd := f]\<rparr>)\<rparr>) i = descriptors k i"
    and entry: "of_vn x = None \<longleftrightarrow> D = {}" "of_vn x \<noteq> None \<Longrightarrow> card D = unat (countRef x)"
    and D: "descriptors (k\<lparr>procs := (procs k)(p \<mapsto> P\<lparr>fileTable := (fileTable P)[fd := f]\<rparr>)\<rparr>) j = D"
  shows "files_ok (k\<lparr>procs := (procs k)(p \<mapsto> P\<lparr>fileTable := (fileTable P)[fd := f]\<rparr>), systemFileTable := (systemFileTable k)[j := x]\<rparr>)"
proof -
  let ?k = "k\<lparr>procs := (procs k)(p \<mapsto> P\<lparr>fileTable := (fileTable P)[fd := f]\<rparr>), systemFileTable := (systemFileTable k)[j := x]\<rparr>"
  have desc: "descriptors ?k i = (if i = j then D else descriptors k i)" for i
    using others D by (auto simp: descriptors_def)
  note f = files_okD [OF ok]
  show ?thesis unfolding files_ok_def
  proof (intro conjI allI impI)
    show "length (systemFileTable ?k) = SYSTEM_OPEN_MAX" using f(1) by simp
    show "finite (dom (procs ?k))" using f(2) by simp
    show "length (fileTable Q) = OPEN_MAX" if "procs ?k q = Some Q" for q Q
      using that f(3) [of q Q] f(3) [OF P] by (auto split: if_splits)
    show "i < SYSTEM_OPEN_MAX" if "descriptors ?k i \<noteq> {}" for i
      using that j f(4) unfolding desc by (cases "i = j") fastforce+
    fix i assume i: "i < SYSTEM_OPEN_MAX"
    show "of_vn (systemFileTable ?k ! i) = None \<longleftrightarrow> descriptors ?k i = {}"
      unfolding desc using f(1) f(5) [OF i] entry(1) i by (simp add: nth_list_update)
    show "card (descriptors ?k i) = unat (countRef (systemFileTable ?k ! i))" if "of_vn (systemFileTable ?k ! i) \<noteq> None"
      using that f(6) [OF i] entry(2) i f(1) unfolding desc by (cases "i = j") (simp_all add: nth_list_update)
  qed
qed

lemma files_ok_vnodes [simp]: "files_ok (k\<lparr>vnodes := vs\<rparr>) = files_ok k"
  by (simp add: files_ok_def descriptors_def)

lemma files_ok_cong: "procs k' = procs k \<Longrightarrow> systemFileTable k' = systemFileTable k \<Longrightarrow> files_ok k' = files_ok k"
  by (simp add: files_ok_def descriptors_def)

text \<open>What an open changes of the tables: nothing, or one entry and the least free descriptor.\<close>

definition opened :: "nat \<Rightarrow> proc \<Rightarrow> kstate \<Rightarrow> errno + nat \<Rightarrow> kstate \<Rightarrow> bool" where
  "opened p P k r k' = (case r of
      Inl e \<Rightarrow> e \<in> {ENOENT, ENFILE} \<and> procs k' = procs k \<and> systemFileTable k' = systemFileTable k
    | Inr fd \<Rightarrow> 3 \<le> fd \<and> fd < OPEN_MAX \<and> fileTable P ! fd = None \<and> (\<forall>fd'. 3 \<le> fd' \<longrightarrow> fd' < fd \<longrightarrow> fileTable P ! fd' \<noteq> None) \<and>
        (\<exists>i v. i < SYSTEM_OPEN_MAX \<and> of_vn (systemFileTable k ! i) = None \<and>
          procs k' = (procs k)(p \<mapsto> P\<lparr>fileTable := (fileTable P)[fd := Some i]\<rparr>) \<and>
          systemFileTable k' = (systemFileTable k)[i := \<lparr>of_vn = Some v, of_offset = 0, countRef = 1\<rparr>]))"

text \<open>What a close changes: the descriptor goes, and the entry with its last descriptor.\<close>

definition closed :: "nat \<Rightarrow> proc \<Rightarrow> nat \<Rightarrow> nat \<Rightarrow> kstate \<Rightarrow> kstate \<Rightarrow> bool" where
  "closed p P fd i k k' \<longleftrightarrow> procs k' = (procs k)(p \<mapsto> P\<lparr>fileTable := (fileTable P)[fd := None]\<rparr>) \<and>
     (let f = systemFileTable k ! i in systemFileTable k' = (systemFileTable k)[i :=
       f\<lparr>countRef := countRef f - 1, of_vn := if card (descriptors k i) = 1 then None else of_vn f\<rparr>])"

lemma find_least:
  fixes m n :: nat
  assumes "\<exists>x\<in>{m..<n}. Q x"
  obtains x where "find Q [m..<n] = Some x" "m \<le> x" "x < n" "Q x" "\<forall>y. m \<le> y \<longrightarrow> y < x \<longrightarrow> \<not> Q y"
proof -
  from assms have "find Q [m..<n] \<noteq> None" unfolding find_None_iff by auto
  then obtain x where f: "find Q [m..<n] = Some x" by blast
  then obtain i where i: "i < n - m" "Q (m + i)" "x = m + i" and least: "\<forall>j<i. Q (m + j) \<longrightarrow> False"
    by (auto simp: find_Some_iff)
  have "\<not> Q y" if "m \<le> y" "y < x" for y using least [rule_format, of "y - m"] that i(3) by (auto simp: less_diff_conv2)
  with f i show ?thesis by (intro that) auto
qed

context file_systems
begin

lemma open_no_slot_wf:
  assumes "stands (add_mset v E) t (vfs_view os)"
  shows "\<exists>s. open_no_slot io e v os = Some (Inl e, vfs_put s os) \<and> stands E t s"
  using step_decref [OF assms refl] by (auto simp: open_no_slot_def runs_def)

lemma sys_open_wf:
  assumes wf: "os_wf fsinv R os" and cur: "curproc (kern os) = Some p" "procs (kern os) p = Some P"
    and free: "\<exists>fd\<in>{3..<OPEN_MAX}. fileTable P ! fd = None"
  shows "\<exists>r os'. sys_open io path flags mode os = Some (r, os') \<and> os_wf fsinv R os' \<and> curproc (kern os') = Some p \<and>
    opened p P (kern os) r (kern os')"
proof -
  let ?fs = "systemFileTable (kern os)"
  define E where "E = R + open_refs ?fs"
  obtain ds ns d b c where t: "tables (vfs_view os) = (ds, ns, d, b, c)" by (metis prod_cases5)
  from wf have ok: "files_ok (kern os)" and st: "stands E (ds, ns, d, b, c) (vfs_view os)"
    by (simp_all add: os_wf_def stands_def t E_def)
  from open_returns [OF st, of path flags mode] obtain r0 s1 where o: "vfs_open io path flags mode (vfs_view os) = Some (r0, s1)"
    and s1: "stands (E + ref_of r0) (ds, ns, d, b, c) s1" by (auto simp: returns_def)
  let ?os = "vfs_put s1 os"
  have cwd: "cwd s = cur_cwd (kern os)" if "stands E' (ds, ns, d, b, c) s" for E' s
    using that t by (simp add: stands_def tables_def vfs_view_def)
  have view: "vfs_view ?os = s1" by (rule vfs_view_put) (rule cwd [OF s1])
  show ?thesis
  proof (cases r0)
    case (Inl e)
    have "sys_open io path flags mode os = Some (Inl ENOENT, ?os)" by (simp add: sys_open_def o Inl)
    moreover have "os_wf fsinv R ?os" using s1 ok by (simp add: os_wf_def view Inl stands_def E_def ref_of_def)
    ultimately show ?thesis using cur by (simp add: opened_def)
  next
    case (Inr v)
    with s1 have s1': "stands (add_mset v E) (ds, ns, d, b, c) (vfs_view ?os)" by (simp add: view ref_of_def)
    show ?thesis
    proof (cases "find_from (\<lambda>f. of_vn f = None) 0 ?fs")
      case None
      from open_no_slot_wf [OF s1', of ENFILE] obtain s2 where
        n: "open_no_slot io ENFILE v ?os = Some (Inl ENFILE, vfs_put s2 ?os)" and s2: "stands E (ds, ns, d, b, c) s2" by blast
      have "vfs_view (vfs_put s2 ?os) = s2" by (rule vfs_view_put) (simp add: cwd [OF s2])
      then have "os_wf fsinv R (vfs_put s2 ?os)" using s2 ok by (simp add: os_wf_def stands_def E_def)
      moreover have "sys_open io path flags mode os = Some (Inl ENFILE, vfs_put s2 ?os)" by (simp add: sys_open_def o Inr None n)
      ultimately show ?thesis using cur by (simp add: opened_def)
    next
      case (Some i)
      let ?x = "\<lparr>of_vn = Some v, of_offset = 0, countRef = 1\<rparr>"
      from find_from_SomeD [OF Some] files_okD(1) [OF ok] have i: "i < SYSTEM_OPEN_MAX" "of_vn (?fs ! i) = None" by simp_all
      from find_least [OF free] obtain fd where fd: "find (\<lambda>fd. fileTable P ! fd = None) [3..<OPEN_MAX] = Some fd"
        "3 \<le> fd" "fd < OPEN_MAX" "fileTable P ! fd = None" "\<forall>fd'. 3 \<le> fd' \<longrightarrow> fd' < fd \<longrightarrow> fileTable P ! fd' \<noteq> None" .
      let ?P = "P\<lparr>fileTable := (fileTable P)[fd := Some i]\<rparr>"
      let ?os1 = "set_file i ?x ?os"
      let ?os2 = "?os1\<lparr>kern := (kern ?os1)\<lparr>procs := (procs (kern ?os1))(p \<mapsto> ?P)\<rparr>\<rparr>"
      have P1: "procs (kern ?os1) p = Some P" using cur(2) by simp
      have run: "sys_open io path flags mode os = Some (Inr fd, ?os2)"
        using cur fd(1) set_fd_eq [OF P1, of fd "Some i"] by (simp add: sys_open_def o Inr Some del: upt_rec_numeral)
      have empty: "descriptors (kern os) i = {}" using files_okD(5) [OF ok i(1)] i(2) by simp
      have len: "fd < length (fileTable P)" using files_okD(3) [OF ok cur(2)] fd(3) by simp
      have "files_ok ((kern os)\<lparr>procs := (procs (kern os))(p \<mapsto> ?P), systemFileTable := ?fs[i := ?x]\<rparr>)"
      proof (rule files_ok_change [OF ok cur(2) fd(3) i(1)])
        show "descriptors ((kern os)\<lparr>procs := (procs (kern os))(p \<mapsto> ?P)\<rparr>) i = {(p, fd)}"
          using empty by (simp add: descriptors_set [OF cur(2) len])
        show "descriptors ((kern os)\<lparr>procs := (procs (kern os))(p \<mapsto> ?P)\<rparr>) j = descriptors (kern os) j" if "j \<noteq> i" for j
          using that fd(4) cur(2) by (auto simp: descriptors_set [OF cur(2) len]) (simp add: descriptors_def)
      qed simp_all
      then have "files_ok (kern ?os2)" by (rule files_ok_cong [THEN iffD2, rotated 2]) simp_all
      moreover have "vfs_view ?os2 = s1" using vfs_view_fd [OF P1] by (simp add: view)
      moreover have "open_refs (?fs[i := ?x]) = open_refs ?fs + {#v#}"
        using open_refs_update [of i ?fs ?x] i files_okD(1) [OF ok] by (simp add: ref_def)
      ultimately have "os_wf fsinv R ?os2" using s1 by (simp add: os_wf_def stands_def Inr E_def ref_of_def)
      with run show ?thesis using cur fd i by (intro exI [of _ "Inr fd"] exI [of _ ?os2]) (auto simp: opened_def)
    qed
  qed
qed

lemma sys_close_wf:
  assumes wf: "os_wf fsinv R os" and cur: "curproc (kern os) = Some p" "procs (kern os) p = Some P"
    and fd: "fd < OPEN_MAX" "fileTable P ! fd = Some i"
  shows "\<exists>os'. sys_close io (int fd) os = Some (0, os') \<and> os_wf fsinv R os' \<and> curproc (kern os') = Some p \<and>
    closed p P fd i (kern os) (kern os')"
proof -
  let ?fs = "systemFileTable (kern os)" and ?P = "P\<lparr>fileTable := (fileTable P)[fd := None]\<rparr>"
  let ?f = "?fs ! i" and ?D = "descriptors (kern os) i"
  let ?c = "countRef ?f - 1" and ?os1 = "os\<lparr>kern := (kern os)\<lparr>procs := (procs (kern os))(p \<mapsto> ?P)\<rparr>\<rparr>"
  define E where "E = R + open_refs ?fs"
  obtain ds ns d b c where t: "tables (vfs_view os) = (ds, ns, d, b, c)" by (metis prod_cases5)
  from wf have ok: "files_ok (kern os)" and st: "stands E (ds, ns, d, b, c) (vfs_view os)"
    by (simp_all add: os_wf_def stands_def t E_def)
  note f = files_okD [OF ok]
  have len: "fd < length (fileTable P)" using f(3) [OF cur(2)] fd(1) by simp
  have mem: "(p, fd) \<in> ?D" using cur(2) len fd(2) by (auto simp: descriptors_def)
  have i: "i < SYSTEM_OPEN_MAX" by (rule f(4) [OF mem])
  with mem f(5) obtain v where v: "of_vn ?f = Some v" by fastforce
  have card: "card ?D = unat (countRef ?f)" using f(6) [OF i] v by simp
  have fin: "finite ?D" by (rule descriptors_finite [OF ok])
  have "card ?D \<noteq> 0" using mem fin by auto
  then have c: "unat ?c = card ?D - 1" unfolding card by (intro unat_minus_one) auto
  have D: "card (?D - {(p, fd)}) = card ?D - 1" using mem fin by simp
  have desc: "descriptors ((kern os)\<lparr>procs := (procs (kern os))(p \<mapsto> ?P)\<rparr>) j = descriptors (kern os) j - {(p, fd)}" for j
    by (simp add: descriptors_set [OF cur(2) len])
  have others: "descriptors ((kern os)\<lparr>procs := (procs (kern os))(p \<mapsto> ?P)\<rparr>) j = descriptors (kern os) j" if "j \<noteq> i" for j
    using that fd(2) cur(2) unfolding desc by (auto simp: descriptors_def)
  have start: "sys_close io (int fd) os = (if ?c > 0 then Some (0, set_file i (?f\<lparr>countRef := ?c\<rparr>) ?os1)
      else (case of_vn ?f of None \<Rightarrow> Some (-1, set_file i (?f\<lparr>countRef := ?c, of_vn := None\<rparr>) ?os1)
        | Some vn \<Rightarrow> VOP_DECREF io vn (vfs_view (set_file i (?f\<lparr>countRef := ?c, of_vn := None\<rparr>) ?os1)) \<bind>
            (\<lambda>s. Some (0, vfs_put s (set_file i (?f\<lparr>countRef := ?c, of_vn := None\<rparr>) ?os1)))))"
    using fd cur len i f(1) set_fd_eq [OF cur(2), of fd None] by (simp add: sys_close_def fd_entry_def Let_def v)
  show ?thesis
  proof (cases "?c > 0")
    case True
    let ?os2 = "set_file i (?f\<lparr>countRef := ?c\<rparr>) ?os1"
    have "0 < unat ?c" using True by (simp add: word_less_nat_alt)
    with c have more: "card ?D \<noteq> 1" "card (?D - {(p, fd)}) = unat ?c" by (simp_all add: D)
    have left: "?D - {(p, fd)} \<noteq> {}"
    proof
      assume "?D - {(p, fd)} = {}"
      then have "card (?D - {(p, fd)}) = 0" by (simp only: card.empty)
      with more(2) \<open>0 < unat ?c\<close> show False by simp
    qed
    have "files_ok ((kern os)\<lparr>procs := (procs (kern os))(p \<mapsto> ?P), systemFileTable := ?fs[i := ?f\<lparr>countRef := ?c\<rparr>]\<rparr>)"
    proof (rule files_ok_change [OF ok cur(2) fd(1) i others _ _ desc])
      show "(of_vn (?f\<lparr>countRef := ?c\<rparr>) = None) = (?D - {(p, fd)} = {})" using left v by simp
      show "card (?D - {(p, fd)}) = unat (countRef (?f\<lparr>countRef := ?c\<rparr>))" using more by simp
    qed
    then have "files_ok (kern ?os2)" by (rule files_ok_cong [THEN iffD2, rotated 2]) simp_all
    moreover have "vfs_view ?os2 = vfs_view os" using vfs_view_fd [OF cur(2)] by simp
    moreover have "open_refs (?fs[i := ?f\<lparr>countRef := ?c\<rparr>]) = open_refs ?fs"
      using open_refs_update [of i ?fs "?f\<lparr>countRef := ?c\<rparr>"] i f(1) by simp
    ultimately have "os_wf fsinv R ?os2" using wf by (simp add: os_wf_def)
    with True cur more(1) show ?thesis unfolding start by (simp add: closed_def Let_def)
  next
    case False
    let ?x = "?f\<lparr>countRef := ?c, of_vn := None\<rparr>"
    let ?os2 = "set_file i ?x ?os1"
    have "unat ?c = 0" using False by (simp add: word_less_nat_alt)
    with c \<open>card ?D \<noteq> 0\<close> have one: "card ?D = 1" by simp
    then have D0: "?D - {(p, fd)} = {}" using D fin by simp
    have view: "vfs_view ?os2 = vfs_view os" using vfs_view_fd [OF cur(2)] by simp
    have refs: "open_refs (?fs[i := ?x]) + {#v#} = open_refs ?fs"
      using open_refs_update [of i ?fs ?x] i f(1) v by (simp add: ref_def)
    then have E: "E = add_mset v (R + open_refs (?fs[i := ?x]))" by (simp add: E_def)
    from step_decref [OF st E] obtain s where s: "VOP_DECREF io v (vfs_view os) = Some s"
      "stands (R + open_refs (?fs[i := ?x])) (ds, ns, d, b, c) s" by (auto simp: runs_def)
    have "cwd s = cur_cwd (kern os)" using s(2) t by (simp add: stands_def tables_def vfs_view_def)
    moreover have "cur_cwd (kern ?os2) = cur_cwd (kern os)" using arg_cong [OF view, of cwd] by (simp add: vfs_view_def)
    ultimately have vs: "vfs_view (vfs_put s ?os2) = s" by (intro vfs_view_put) simp
    have "files_ok ((kern os)\<lparr>procs := (procs (kern os))(p \<mapsto> ?P), systemFileTable := ?fs[i := ?x]\<rparr>)"
      by (rule files_ok_change [OF ok cur(2) fd(1) i others _ _ desc]) (simp_all only: D0, simp_all)
    then have "files_ok (kern (vfs_put s ?os2))" by (rule files_ok_cong [THEN iffD2, rotated 2]) simp_all
    with vs s(2) have "os_wf fsinv R (vfs_put s ?os2)" by (simp add: os_wf_def stands_def)
    moreover have "sys_close io (int fd) os = Some (0, vfs_put s ?os2)"
      unfolding start view using False s(1) by (simp add: v)
    ultimately show ?thesis using cur one by (simp add: closed_def Let_def)
  qed
qed

end

end
