(* ===== verification/VfsNames.thy ===== *)
theory VfsNames
  imports VfsRefs
begin

text \<open>
  The device table as a name space: names are unique, a name resolves to its device or the file
  system on it, and mounting changes what one name means.
\<close>

section \<open>Unique names\<close>

definition dev_names :: "knowndev \<Rightarrow> string list" where
  "dev_names kd = kd_name kd # (case kd_rawname kd of None \<Rightarrow> [] | Some r \<Rightarrow> [r])"

definition names_ok :: "knowndev list \<Rightarrow> bool" where
  "names_ok kds \<longleftrightarrow> distinct (concat (map dev_names kds))"

text \<open>No mounted volume has the name.\<close>

definition no_volume :: "'s vfs_io \<Rightarrow> string \<Rightarrow> knowndev list \<Rightarrow> bool" where
  "no_volume io n kds \<longleftrightarrow> (\<forall>kd\<in>set kds. \<forall>fs. kd_fs kd = A_fs fs \<longrightarrow> fsop_getvolname io fs \<noteq> Some n)"

lemma samestring_iff [simp]: "samestring a b \<longleftrightarrow> a \<noteq> None \<and> a = b"
  by (auto simp: samestring_def split: option.splits)

lemma badnames_None:
  assumes "\<not> badnames io (Some n) r v kds" and "kd \<in> set kds" and "x \<in> set (dev_names kd)"
  shows "x \<noteq> n \<and> r \<noteq> Some x"
  using assms by (induction kds) (auto simp: samestring3_def dev_names_def split: if_splits option.splits)

lemma badnames_known:
  assumes "kd \<in> set kds" and "n \<in> set (dev_names kd)"
  shows "badnames io (Some n) r v kds"
  using assms by (induction kds) (auto simp: samestring3_def dev_names_def split: option.splits)

text \<open>Entries with other names are passed over.\<close>

lemma getroot_skip:
  assumes "\<forall>kd\<in>set xs. n \<notin> set (dev_names kd)" and "no_volume io n xs"
  shows "getroot_from io n (xs @ ys) s = getroot_from io n ys s"
  using assms by (induction xs) (auto simp: dev_names_def no_volume_def split: fs_ref.splits option.splits)

text \<open>What a device's own name means.\<close>

definition device_root :: "'s vfs_io \<Rightarrow> knowndev \<Rightarrow> 's vfs_state \<Rightarrow> ((errno + nat) \<times> 's vfs_state) option" where
  "device_root io kd s = (case kd_fs kd of
       A_fs fs \<Rightarrow> fsop_getroot io fs s
     | _ \<Rightarrow> if kd_rawname kd \<noteq> None then Some (Inl ENXIO, s)
            else VOP_INCREF (kd_vnode kd) s \<bind> (\<lambda>s. Some (Inr (kd_vnode kd), s)))"

lemma names_ok_split:
  assumes "names_ok kds" and "kd \<in> set kds"
  obtains xs ys where "kds = xs @ kd # ys" "\<forall>k\<in>set xs. set (dev_names k) \<inter> set (dev_names kd) = {}"
proof -
  from assms(2) obtain xs ys where "kds = xs @ kd # ys" by (meson split_list)
  moreover from this assms(1) have "\<forall>k\<in>set xs. set (dev_names k) \<inter> set (dev_names kd) = {}"
    by (auto simp: names_ok_def)
  ultimately show ?thesis by (rule that)
qed

lemma no_volume_append: "no_volume io n (xs @ ys) \<longleftrightarrow> no_volume io n xs \<and> no_volume io n ys"
  by (auto simp: no_volume_def)

lemma getroot_name:
  assumes "names_ok kds" and "devs_ok kds" and "kd \<in> set kds" and "no_volume io (kd_name kd) kds"
  shows "getroot_from io (kd_name kd) kds s = device_root io kd s"
proof -
  from names_ok_split [OF assms(1,3)] obtain xs ys where kds: "kds = xs @ kd # ys"
    and "\<forall>k\<in>set xs. set (dev_names k) \<inter> set (dev_names kd) = {}" .
  then have "\<forall>k\<in>set xs. kd_name kd \<notin> set (dev_names k)" by (auto simp: dev_names_def)
  then have skip: "getroot_from io (kd_name kd) kds s = getroot_from io (kd_name kd) (kd # ys) s"
    unfolding kds using assms(4) by (intro getroot_skip) (simp_all add: kds no_volume_append)
  have "kd_rawname kd = None \<Longrightarrow> kd_fs kd \<noteq> SWAP_FS \<and> (kd_fs kd = No_fs \<longrightarrow> kd_device kd \<noteq> None)"
    using assms(2,3) by (simp add: devs_ok_def)
  then show ?thesis unfolding skip by (cases "kd_fs kd"; cases "kd_rawname kd") (auto simp: device_root_def)
qed

lemma getroot_rawname:
  assumes "names_ok kds" and "devs_ok kds" and "kd \<in> set kds" and "kd_rawname kd = Some n" and "no_volume io n kds"
  shows "getroot_from io n kds s = VOP_INCREF (kd_vnode kd) s \<bind> (\<lambda>s. Some (Inr (kd_vnode kd), s))"
proof -
  from names_ok_split [OF assms(1,3)] obtain xs ys where kds: "kds = xs @ kd # ys"
    and "\<forall>k\<in>set xs. set (dev_names k) \<inter> set (dev_names kd) = {}" .
  then have "\<forall>k\<in>set xs. n \<notin> set (dev_names k)" using assms(4) by (auto simp: dev_names_def)
  then have skip: "getroot_from io n kds s = getroot_from io n (kd # ys) s"
    unfolding kds using assms(5) by (intro getroot_skip) (simp_all add: kds no_volume_append)
  have "kd_name kd \<noteq> n" using assms(1) by (auto simp: kds names_ok_def dev_names_def assms(4))
  moreover have "kd_device kd \<noteq> None" using assms(2-4) by (auto simp: devs_ok_def)
  moreover have "fsop_getvolname io fs \<noteq> Some n" if "kd_fs kd = A_fs fs" for fs
    using assms(5) that by (simp add: kds no_volume_def)
  ultimately show ?thesis unfolding skip using assms(4) by (cases "kd_fs kd") auto
qed

lemma getroot_unknown:
  assumes "\<forall>kd\<in>set kds. n \<notin> set (dev_names kd)" and "no_volume io n kds"
  shows "getroot_from io n kds s = Some (Inl ENODEV, s)"
  using getroot_skip [of kds n io "[]" s] assms by simp

section \<open>Adding a device\<close>

lemma acquire_release: "vfs_biglock_release (vfs_biglock_acquire s) = Some s"
  by (simp add: vfs_biglock_release_def vfs_biglock_acquire_def vfs_biglock_do_i_hold_def)

lemma mkrawname_neq [simp]: "mkrawname n \<noteq> n" "n \<noteq> mkrawname n"
  by (simp_all add: mkrawname_def)

text \<open>The entry and the state of a successful addition.\<close>

definition new_dev :: "nat \<Rightarrow> string \<Rightarrow> bool \<Rightarrow> nat option \<Rightarrow> fs_ref \<Rightarrow> knowndev" where
  "new_dev v n mountable dev fs = \<lparr>kd_name = n, kd_rawname = if mountable then Some (mkrawname n) else None,
     kd_device = dev, kd_vnode = v, kd_fs = fs\<rparr>"

lemma vfs_doadd_SomeD:
  assumes "vfs_doadd io al v n mountable dev fs s = Some (None, s')"
  shows "knowndevs s' = knowndevs s @ [new_dev v n mountable dev fs]" and "biglock_depth s' = biglock_depth s"
    and "nodes s' = (nodes s)(v \<mapsto> \<lparr>vn_refcount = 1, vn_fs = None, vn_ops = True\<rparr>)"
    and "\<not> (\<exists>kd\<in>set (knowndevs s). n \<in> set (dev_names kd))"
    and "mountable \<Longrightarrow> \<not> (\<exists>kd\<in>set (knowndevs s). mkrawname n \<in> set (dev_names kd))"
proof -
  define r where "r = (if mountable then Some (mkrawname n) else None)"
  define vol where "vol = (case fs of A_fs f \<Rightarrow> fsop_getvolname io f | _ \<Rightarrow> None)"
  have nb: "\<not> badnames io (Some n) r vol (knowndevs s)"
    using assms unfolding vfs_doadd_def r_def vol_def
    by (auto simp: Let_def doadd_fail_def dev_create_vnode_def vnode_init_def vfs_biglock_acquire_def bind_eq_Some_conv
        split: if_splits option.splits)
  have "knowndevs s' = knowndevs s @ [new_dev v n mountable dev fs] \<and> biglock_depth s' = biglock_depth s \<and>
      nodes s' = (nodes s)(v \<mapsto> \<lparr>vn_refcount = 1, vn_fs = None, vn_ops = True\<rparr>)"
    using assms unfolding vfs_doadd_def
    by (auto simp: Let_def doadd_fail_def dev_create_vnode_def vnode_init_def vfs_biglock_acquire_def vfs_biglock_release_def
        vfs_biglock_do_i_hold_def bind_eq_Some_conv new_dev_def split: if_splits option.splits)
  then show "knowndevs s' = knowndevs s @ [new_dev v n mountable dev fs]" "biglock_depth s' = biglock_depth s"
    "nodes s' = (nodes s)(v \<mapsto> \<lparr>vn_refcount = 1, vn_fs = None, vn_ops = True\<rparr>)" by blast+
  show "\<not> (\<exists>kd\<in>set (knowndevs s). n \<in> set (dev_names kd))" using badnames_None [OF nb] by blast
  show "mountable \<Longrightarrow> \<not> (\<exists>kd\<in>set (knowndevs s). mkrawname n \<in> set (dev_names kd))"
    using badnames_None [OF nb] by (auto simp: r_def)
qed

lemma names_ok_add:
  assumes "names_ok kds" and "\<not> (\<exists>kd\<in>set kds. n \<in> set (dev_names kd))"
    and "mountable \<Longrightarrow> \<not> (\<exists>kd\<in>set kds. mkrawname n \<in> set (dev_names kd))"
  shows "names_ok (kds @ [new_dev v n mountable dev fs])"
  using assms by (cases mountable) (auto simp: names_ok_def new_dev_def dev_names_def)

lemma vfs_doadd_known:
  assumes "kd \<in> set (knowndevs s)" and "n \<in> set (dev_names kd)" and "\<And>i. al i"
  shows "\<exists>s'. vfs_doadd io al v n mountable dev fs s = Some (Some EEXIST, s') \<and> tables s' = tables s \<and> nodes s' = (nodes s)(v := None)"
  using badnames_known [OF assms(1,2), of io] assms(3)
  by (simp add: vfs_doadd_def Let_def doadd_fail_def dev_create_vnode_def dev_uncreate_vnode_def vnode_init_def vnode_cleanup_def
      vfs_biglock_acquire_def vfs_biglock_release_def vfs_biglock_do_i_hold_def tables_def)

section \<open>Mounting\<close>

lemma findmount_from_eq:
  assumes "names_ok kds" and "i < length kds" and "kd_rawname (kds ! i) \<noteq> None" and "kd_name (kds ! i) = n"
  shows "findmount_from k n kds = Inr (k + i)"
  using assms
proof (induction kds arbitrary: k i)
  case (Cons kd kds)
  show ?case
  proof (cases i)
    case 0
    with Cons.prems show ?thesis by auto
  next
    case (Suc j)
    with Cons.prems have j: "j < length kds" "kd_rawname (kds ! j) \<noteq> None" "kd_name (kds ! j) = n" "names_ok kds"
      by (auto simp: names_ok_def)
    then have "kds ! j \<in> set kds" by simp
    with Cons.prems(1) j(3) have "kd_name kd \<noteq> n" by (auto simp: names_ok_def dev_names_def)
    with Suc Cons.IH [OF j(4,1-3)] show ?thesis by simp
  qed
qed simp

lemma findmount_eq:
  assumes "names_ok (knowndevs s)" and "i < length (knowndevs s)" and "kd_rawname (knowndevs s ! i) \<noteq> None"
    and "0 < biglock_depth s"
  shows "findmount (kd_name (knowndevs s ! i)) s = Some (Inr i)"
  using findmount_from_eq [OF assms(1-3) refl, of 0] assms(4) by (simp add: findmount_def vfs_biglock_do_i_hold_def)

lemma set_fs_simps [simp]:
  "nodes (set_fs i fs s) = nodes s" "fsd (set_fs i fs s) = fsd s" "biglock_depth (set_fs i fs s) = biglock_depth s"
  "bootfs_vnode (set_fs i fs s) = bootfs_vnode s" "cwd (set_fs i fs s) = cwd s" "devnumbers (set_fs i fs s) = devnumbers s"
  "knowndevs (set_fs i fs s) = (knowndevs s)[i := (knowndevs s ! i)\<lparr>kd_fs := fs\<rparr>]"
  "set_fs i fs (s\<lparr>biglock_depth := d\<rparr>) = (set_fs i fs s)\<lparr>biglock_depth := d\<rparr>"
  by (simp_all add: set_fs_def)

lemma dev_names_set_fs [simp]: "dev_names (kd\<lparr>kd_fs := fs\<rparr>) = dev_names kd"
  by (simp add: dev_names_def)

lemma names_ok_set_fs [simp]: "i < length kds \<Longrightarrow> names_ok (kds[i := (kds ! i)\<lparr>kd_fs := fs\<rparr>]) = names_ok kds"
proof -
  assume i: "i < length kds"
  have "map dev_names (kds[i := (kds ! i)\<lparr>kd_fs := fs\<rparr>]) = (map dev_names kds)[i := map dev_names kds ! i]"
    using i by (simp add: map_update)
  then show ?thesis by (simp add: names_ok_def)
qed

lemma vfs_mount_eq:
  assumes "names_ok (knowndevs s)" and i: "i < length (knowndevs s)" and kd: "kd = knowndevs s ! i"
    and "kd_rawname kd \<noteq> None" and "kd_device kd = Some d"
    and m: "mountfunc d (vfs_biglock_acquire s) = Some (Inr fs, vfs_biglock_acquire s1)"
  shows "vfs_mount (kd_name kd) mountfunc s =
    (if kd_fs kd = No_fs then Some (None, set_fs i (A_fs fs) s1) else Some (Some EBUSY, s))"
proof -
  let ?s = "vfs_biglock_acquire s"
  have "findmount (kd_name kd) ?s = Some (Inr i)"
    using findmount_eq [of ?s i] assms(1,2,4) by (simp add: kd vfs_biglock_acquire_def)
  moreover have "knowndevs ?s ! i = kd" by (simp add: kd vfs_biglock_acquire_def)
  moreover have "vfs_biglock_release (set_fs i (A_fs fs) (vfs_biglock_acquire s1)) = Some (set_fs i (A_fs fs) s1)"
    by (simp add: vfs_biglock_release_def vfs_biglock_acquire_def vfs_biglock_do_i_hold_def)
  ultimately show ?thesis using assms(4-6) acquire_release [of s]
    by (auto simp: vfs_mount_def Let_def)
qed

lemma vfs_unmount_eq:
  assumes "names_ok (knowndevs s)" and i: "i < length (knowndevs s)" and kd: "kd = knowndevs s ! i"
    and "kd_rawname kd \<noteq> None" and "kd_device kd \<noteq> None" and "kd_fs kd = A_fs fs" and "fsop_sync io fs 0 = None"
    and m: "fsop_unmount io fs (vfs_biglock_acquire s) = Some (None, vfs_biglock_acquire s1)"
  shows "vfs_unmount io (kd_name kd) s = Some (None, set_fs i No_fs s1)"
proof -
  let ?s = "vfs_biglock_acquire s"
  have "findmount (kd_name kd) ?s = Some (Inr i)"
    using findmount_eq [of ?s i] assms(1,2,4) by (simp add: kd vfs_biglock_acquire_def)
  moreover have "knowndevs ?s ! i = kd" by (simp add: kd vfs_biglock_acquire_def)
  moreover have "vfs_biglock_release (set_fs i No_fs (vfs_biglock_acquire s1)) = Some (set_fs i No_fs s1)"
    by (simp add: vfs_biglock_release_def vfs_biglock_acquire_def vfs_biglock_do_i_hold_def)
  ultimately show ?thesis using assms(4-7) m by (auto simp: vfs_unmount_def Let_def)
qed

text \<open>A device used as swap is taken for file systems, and the other way round.\<close>

lemma vfs_swapon_eq:
  assumes "names_ok (knowndevs s)" and i: "i < length (knowndevs s)" and kd: "kd = knowndevs s ! i"
    and "kd_rawname kd \<noteq> None" and "kd_device kd \<noteq> None" and v: "nodes s (kd_vnode kd) = Some x"
    and n: "drop_colon n = kd_name kd"
  shows "vfs_swapon True n s =
    (if kd_fs kd = No_fs
     then Some (Inr (kd_vnode kd), (set_fs i SWAP_FS s)\<lparr>nodes := (nodes s)(kd_vnode kd \<mapsto> x\<lparr>vn_refcount := vn_refcount x + 1\<rparr>)\<rparr>)
     else Some (Inl EBUSY, s))"
proof -
  let ?s = "vfs_biglock_acquire s"
  have "findmount (kd_name kd) ?s = Some (Inr i)"
    using findmount_eq [of ?s i] assms(1,2,4) by (simp add: kd vfs_biglock_acquire_def)
  moreover have "knowndevs ?s ! i = kd" by (simp add: kd vfs_biglock_acquire_def)
  moreover have "VOP_INCREF (kd_vnode kd) (set_fs i SWAP_FS ?s) =
      Some ((set_fs i SWAP_FS ?s)\<lparr>nodes := (nodes s)(kd_vnode kd \<mapsto> x\<lparr>vn_refcount := vn_refcount x + 1\<rparr>)\<rparr>)"
    using v by (simp add: VOP_INCREF_def vnode_incref_def vfs_biglock_acquire_def)
  ultimately show ?thesis using assms(4,5) n acquire_release [of s]
    by (auto simp: vfs_swapon_def Let_def vfs_biglock_release_def vfs_biglock_acquire_def vfs_biglock_do_i_hold_def)
qed

text \<open>\<open>vfs_unmountall\<close>: a device whose flush fails twice, or whose file system refuses, stays mounted;
  all others lose their file system or swap.\<close>

definition unmounted :: "'s vfs_io \<Rightarrow> knowndev \<Rightarrow> knowndev \<Rightarrow> bool" where
  "unmounted io kd kd' \<longleftrightarrow> kd' = kd\<lparr>kd_fs := No_fs\<rparr> \<or>
     kd' = kd \<and> (kd_rawname kd = None \<or> (\<exists>fs. kd_fs kd = A_fs fs \<and>
       ((fsop_sync io fs 0 \<noteq> None \<and> fsop_sync io fs 1 \<noteq> None) \<or> (\<exists>s s' e. fsop_unmount io fs s = Some (Some e, s')))))"

lemma unmounted_No_fs: "kd_fs kd = No_fs \<Longrightarrow> unmounted io kd kd"
  by (simp add: unmounted_def)

lemma unmount_each_result:
  assumes keep: "\<And>fs s r s'. fsop_unmount io fs s = Some (r, s') \<Longrightarrow> knowndevs s' = knowndevs s"
    and "unmount_each io is s = Some s'" and "distinct is" and "\<forall>i\<in>set is. i < length (knowndevs s)"
  shows "length (knowndevs s') = length (knowndevs s) \<and>
    (\<forall>i<length (knowndevs s). if i \<in> set is then unmounted io (knowndevs s ! i) (knowndevs s' ! i)
       else knowndevs s' ! i = knowndevs s ! i)"
  using assms(2-4)
proof (induction "is" arbitrary: s)
  case (Cons j js)
  have "\<exists>s1 kd. unmount_each io js s1 = Some s' \<and> knowndevs s1 = (knowndevs s)[j := kd] \<and> unmounted io (knowndevs s ! j) kd"
  proof (cases "kd_rawname (knowndevs s ! j) = None")
    case True
    with Cons.prems(1) show ?thesis
      by (intro exI [of _ s] exI [of _ "knowndevs s ! j"]) (simp add: unmounted_def Let_def)
  next
    case False
    then obtain rn where raw: "kd_rawname (knowndevs s ! j) = Some rn" by blast
    show ?thesis
    proof (cases "kd_fs (knowndevs s ! j)")
      case No_fs
      with raw Cons.prems(1) show ?thesis
        by (intro exI [of _ s] exI [of _ "knowndevs s ! j"]) (simp add: unmounted_No_fs Let_def)
    next
      case SWAP_FS
      with raw Cons.prems(1) show ?thesis
        by (intro exI [of _ "set_fs j No_fs s"] exI [of _ "(knowndevs s ! j)\<lparr>kd_fs := No_fs\<rparr>"]) (simp add: unmounted_def Let_def)
    next
      case (A_fs fs)
      show ?thesis
      proof (cases "fsop_sync io fs 0 \<noteq> None \<and> fsop_sync io fs 1 \<noteq> None")
        case True
        with A_fs raw Cons.prems(1) show ?thesis
          by (intro exI [of _ s] exI [of _ "knowndevs s ! j"]) (simp add: unmounted_def Let_def)
      next
        case False
        with A_fs raw Cons.prems(1) obtain r s1 where u: "fsop_unmount io fs s = Some (r, s1)"
          and go: "(if r \<noteq> None then unmount_each io js s1 else unmount_each io js (set_fs j No_fs s1)) = Some s'"
          by (auto simp: Let_def bind_eq_Some_conv)
        from keep [OF u] have k: "knowndevs s1 = knowndevs s" .
        show ?thesis
        proof (cases r)
          case None
          with go k show ?thesis
            by (intro exI [of _ "set_fs j No_fs s1"] exI [of _ "(knowndevs s ! j)\<lparr>kd_fs := No_fs\<rparr>"]) (simp add: unmounted_def)
        next
          case (Some e)
          with u A_fs have "unmounted io (knowndevs s ! j) (knowndevs s ! j)" unfolding unmounted_def by blast
          with go k Some show ?thesis by (intro exI [of _ s1] exI [of _ "knowndevs s ! j"]) simp
        qed
      qed
    qed
  qed
  then obtain s1 kd where s1: "unmount_each io js s1 = Some s'" "knowndevs s1 = (knowndevs s)[j := kd]" "unmounted io (knowndevs s ! j) kd"
    by blast
  from Cons.IH [OF s1(1)] Cons.prems(2,3) s1(2,3) show ?case by (auto simp: nth_list_update split: if_splits)
qed simp

end
