(* ===== verification/VfsProperties.thy ===== *)
theory VfsProperties
  imports SemfsContract VfsNames
begin

text \<open>
  The properties of the VFS layer over the semaphore file system and the devices: references are
  balanced by every call and by every run from boot, names resolve, mounts can be undone, and the
  two faults of the semaphore file system.
\<close>

section \<open>The VFS layer as a transition system\<close>

text \<open>A state is the references held by programs (open files) and the state of the VFS layer. A step is
  a call, or the close of an open file.\<close>

inductive vfs_step :: "'s vfs_io \<Rightarrow> nat multiset \<times> 's vfs_state \<Rightarrow> nat multiset \<times> 's vfs_state \<Rightarrow> bool" for io where
  step_open: "vfs_open io path flags mode s = Some (r, s') \<Longrightarrow> vfs_step io (E, s) (E + ref_of r, s')"
| step_close: "v \<in># E \<Longrightarrow> VOP_DECREF io v s = Some s' \<Longrightarrow> vfs_step io (E, s) (E - {#v#}, s')"
| step_remove: "vfs_remove io path s = Some (r, s') \<Longrightarrow> vfs_step io (E, s) (E, s')"
| step_rename: "vfs_rename io path path' s = Some (r, s') \<Longrightarrow> vfs_step io (E, s) (E, s')"
| step_link: "vfs_link io path path' s = Some (r, s') \<Longrightarrow> vfs_step io (E, s) (E, s')"
| step_mkdir: "vfs_mkdir io path mode s = Some (r, s') \<Longrightarrow> vfs_step io (E, s) (E, s')"
| step_rmdir: "vfs_rmdir io path s = Some (r, s') \<Longrightarrow> vfs_step io (E, s) (E, s')"
| step_symlink: "vfs_symlink io contents path s = Some (r, s') \<Longrightarrow> vfs_step io (E, s) (E, s')"
| step_readlink: "vfs_readlink io path s = Some (r, s') \<Longrightarrow> vfs_step io (E, s) (E, s')"
| step_chdir: "vfs_chdir io path s = Some (r, s') \<Longrightarrow> vfs_step io (E, s) (E, s')"

inductive_cases vfs_stepE: "vfs_step io (E, s) (E', s')"

definition vfs_start :: "sem_state \<Rightarrow> bool" where
  "vfs_start s \<longleftrightarrow> nodes s = Map.empty \<and> bootfs_vnode s = None \<and> cwd s = None"

text \<open>A call that returns, leaves the tables as they were, and has taken the references of its result.\<close>

definition accounted :: "nat multiset \<Rightarrow> sem_state \<Rightarrow> ('r \<Rightarrow> nat multiset) \<Rightarrow> ('r \<times> sem_state) option \<Rightarrow> bool" where
  "accounted E s Q m \<longleftrightarrow> (\<exists>r s'. m = Some (r, s') \<and> vfs_wf semfs_ok (E + Q r) s' \<and> tables s' = tables s)"

lemma stands_iff: "sem.stands E t s \<longleftrightarrow> vfs_wf semfs_ok E s \<and> tables s = t"
  by (rule sem.stands_def)

lemma wf_stands: "vfs_wf semfs_ok E s \<Longrightarrow> sem.stands E (knowndevs s, devnumbers s, biglock_depth s, bootfs_vnode s, cwd s) s"
  by (simp add: stands_iff tables_def)

lemma accounted_iff: "accounted E s Q m \<longleftrightarrow> sem.returns E (knowndevs s, devnumbers s, biglock_depth s, bootfs_vnode s, cwd s) Q m"
  by (simp add: accounted_def sem.returns_def stands_iff tables_def)

lemma close_wf:
  assumes wf: "vfs_wf semfs_ok E s" and v: "v \<in># E"
  shows "\<exists>s'. VOP_DECREF (sem_io devtab drv) v s = Some s' \<and> vfs_wf semfs_ok (E - {#v#}) s' \<and> tables s' = tables s"
proof -
  have "E = add_mset v (E - {#v#})" using v by simp
  from sem.step_decref [OF wf_stands [OF wf] this, of devtab drv] show ?thesis
    by (auto simp: sem.runs_def stands_iff tables_def)
qed

lemma chdir_wf:
  assumes wf: "vfs_wf semfs_ok E s"
  shows "\<exists>r s'. vfs_chdir (sem_io devtab drv) path s = Some (r, s') \<and> vfs_wf semfs_ok E s' \<and>
    biglock_depth s' = biglock_depth s"
  using sem.chdir_returns [OF wf_stands [OF wf], of devtab drv path] by (auto simp: stands_iff tables_def)

lemma vfs_bootstrap_wf:
  assumes st: "vfs_start s0" and boot: "vfs_bootstrap io m al v dev w fs heap s0 = Some s"
    and addr: "v \<noteq> w" "v < heap" "w < heap"
  shows "vfs_wf semfs_ok {#} s" and "biglock_depth s = 0"
proof -
  define s1 where "s1 = s0\<lparr>knowndevs := [], biglock_depth := 0\<rparr>"
  from boot obtain s2 where 2: "vfs_doadd io al v ''null'' False (Some dev) No_fs s1 = Some (None, s2)"
    and 3: "vfs_doadd io al w ''sem'' False None (A_fs fs) (s2\<lparr>fsd := semfs_create fs heap\<rparr>) = Some (None, s)"
    by (auto simp: vfs_bootstrap_def devnull_create_def semfs_bootstrap_def vfs_adddev_def vfs_addfs_def s1_def bind_eq_Some_conv Let_def)
  note a = vfs_doadd_SomeD(1-3) [OF 2] and b = vfs_doadd_SomeD(1-3) [OF 3]
  have same: "bootfs_vnode s = None \<and> cwd s = None \<and> fsd s = semfs_create fs heap"
    using 2 3 st by (auto simp: vfs_doadd_def Let_def doadd_fail_def dev_create_vnode_def dev_uncreate_vnode_def vnode_init_def
        vnode_cleanup_def vfs_biglock_acquire_def vfs_biglock_release_def bind_eq_Some_conv vfs_start_def s1_def
        split: if_splits option.splits)
  have nodes: "nodes s = [v \<mapsto> \<lparr>vn_refcount = 1, vn_fs = None, vn_ops = True\<rparr>, w \<mapsto> \<lparr>vn_refcount = 1, vn_fs = None, vn_ops = True\<rparr>]"
    using a(3) b(3) st by (simp add: vfs_start_def s1_def)
  have kds: "knowndevs s = [new_dev v ''null'' False (Some dev) No_fs, new_dev w ''sem'' False None (A_fs fs)]"
    using a(1) b(1) by (simp add: s1_def)
  show "biglock_depth s = 0" using a(2) b(2) by (simp add: s1_def)
  have "counted (holders s) (nodes s)"
    using addr by (auto simp: counted_def holders_def kds same nodes vnodes_ok_def new_dev_def vn_refs_def)
  moreover have "semfs_ok s"
    using addr by (auto simp: semfs_ok_def vnodes_inv_def sems_inv_def slot_def same semfs_create_def nodes kds new_dev_def)
  moreover have "devs_ok (knowndevs s)" by (simp add: devs_ok_def kds new_dev_def)
  ultimately show "vfs_wf semfs_ok {#} s" by (simp add: vfs_wf_def same)
qed

lemma returned_wf:
  assumes "sem.returns E (knowndevs s, devnumbers s, biglock_depth s, bootfs_vnode s, cwd s) Q m" and "m = Some (r, s')"
  shows "vfs_wf semfs_ok (E + Q r) s' \<and> biglock_depth s' = biglock_depth s"
  using assms by (simp add: sem.returns_def stands_iff tables_def)

lemma returned_none_wf:
  assumes "sem.returns E (knowndevs s, devnumbers s, biglock_depth s, bootfs_vnode s, cwd s) (\<lambda>_. {#}) m" and "m = Some (r, s')"
  shows "vfs_wf semfs_ok E s' \<and> biglock_depth s' = biglock_depth s"
  using returned_wf [OF assms] by simp

lemmas call_wf = sem.path_calls_return [THEN returned_none_wf, OF wf_stands] sem.rename_returns [THEN returned_none_wf, OF wf_stands]
  sem.link_returns [THEN returned_none_wf, OF wf_stands] sem.readlink_returns [THEN returned_none_wf, OF wf_stands]

lemma vfs_step_wf:
  assumes step: "vfs_step (sem_io devtab drv) (E, s) (E', s')" and wf: "vfs_wf semfs_ok E s"
  shows "vfs_wf semfs_ok E' s' \<and> biglock_depth s' = biglock_depth s"
proof -
  note st = wf_stands [OF wf]
  from step show ?thesis
  proof cases
    case (step_open path flags mode r)
    with returned_wf [OF sem.open_returns [OF st, of devtab drv path flags mode]] show ?thesis by simp
  next
    case (step_close v)
    with close_wf [OF wf, of v devtab drv] show ?thesis by (auto simp: tables_def)
  next
    case (step_chdir path r)
    with chdir_wf [OF wf, of devtab drv path] show ?thesis by auto
  qed (simp, erule call_wf [OF wf])+
qed

section \<open>Example\<close>

definition ex_start :: sem_state where
  "ex_start = \<lparr>nodes = Map.empty, fsd = semfs_create 0 0, knowndevs = [], devnumbers = (\<lambda>_. 0), biglock_depth = 5,
     bootfs_vnode = None, cwd = None\<rparr>"

abbreviation ex_sem_io :: "semfs vfs_io" where
  "ex_sem_io \<equiv> sem_io (\<lambda>_. \<lparr>d_blocks = 0, d_blocksize = 1\<rparr>) (\<lambda>_. None)"

definition ex_vfs :: sem_state where
  "ex_vfs = \<lparr>nodes = [1 \<mapsto> \<lparr>vn_refcount = 1, vn_fs = None, vn_ops = True\<rparr>, 2 \<mapsto> \<lparr>vn_refcount = 1, vn_fs = None, vn_ops = True\<rparr>],
     fsd = semfs_create 0 3,
     knowndevs = [\<lparr>kd_name = ''null'', kd_rawname = None, kd_device = Some 0, kd_vnode = 1, kd_fs = No_fs\<rparr>,
       \<lparr>kd_name = ''sem'', kd_rawname = None, kd_device = None, kd_vnode = 2, kd_fs = A_fs 0\<rparr>],
     devnumbers = (\<lambda>_. 0)(0 := 1), biglock_depth = 0, bootfs_vnode = None, cwd = None\<rparr>"

lemma ex_boots: "vfs_bootstrap ex_sem_io True (\<lambda>_. True) 1 0 2 0 3 ex_start = Some ex_vfs"
  by (simp add: vfs_bootstrap_def devnull_create_def semfs_bootstrap_def vfs_adddev_def vfs_addfs_def vfs_doadd_def ex_start_def
      ex_vfs_def Let_def vfs_biglock_acquire_def vfs_biglock_release_def vfs_biglock_do_i_hold_def dev_create_vnode_def vnode_init_def
      samestring3_def semfs_io_def semfs_getvolname_def semfs_create_def)

lemma ex_start_ok: "vfs_start ex_start"
  by (simp add: vfs_start_def ex_start_def)

lemma ex_wf: "vfs_wf semfs_ok {#} ex_vfs"
  by (rule vfs_bootstrap_wf(1) [OF ex_start_ok ex_boots]) simp_all

section \<open>Properties\<close>



text \<open>C24: From boot on, through any sequence of calls on paths and closes of open files, the reference
  count of every vnode is the number of its holders (open files, device table, current directory, boot
  file system), the tables of the semaphore file system stay consistent and the big lock is
  free between calls.\<close>
theorem vfs_references_counted:
  assumes "vfs_start s0" and "vfs_bootstrap (sem_io devtab drv) m al v dev w fs heap s0 = Some s1"
    and "v \<noteq> w" and "v < heap" and "w < heap" and "(vfs_step (sem_io devtab drv))\<^sup>*\<^sup>* ({#}, s1) (E, s)"
  shows "counted (E + holders s) (nodes s) \<and> semfs_ok s \<and> biglock_depth s = 0"
proof -
  note boot = vfs_bootstrap_wf [OF assms(1-5)]
  from assms(6) have "vfs_wf semfs_ok E s \<and> biglock_depth s = 0"
  proof (induction "(E, s)" arbitrary: E s rule: rtranclp_induct)
    case base
    with boot show ?case by simp
  next
    case (step y)
    obtain E1 s2 where y: "y = (E1, s2)" by (cases y)
    with step vfs_step_wf [of devtab drv E1 s2 E s] show ?case by simp
  qed
  then show ?thesis by (simp add: vfs_wf_def)
qed

theorem vfs_references_counted_witness:
  "\<exists>E s. (vfs_step ex_sem_io)\<^sup>*\<^sup>* ({#}, ex_vfs) (E, s) \<and> (\<exists>r. vfs_open ex_sem_io ''sem:a'' (O_WRONLY OR O_CREAT) 0 ex_vfs = Some (r, s)) \<and>
    counted (E + holders s) (nodes s)"
proof -
  from sem.open_returns [OF wf_stands [OF ex_wf], of "\<lambda>_. \<lparr>d_blocks = 0, d_blocksize = 1\<rparr>" "\<lambda>_. None" "''sem:a''" "O_WRONLY OR O_CREAT" 0]
  obtain r s where o: "vfs_open ex_sem_io ''sem:a'' (O_WRONLY OR O_CREAT) 0 ex_vfs = Some (r, s)"
    by (auto simp: sem.returns_def)
  then have run: "(vfs_step ex_sem_io)\<^sup>*\<^sup>* ({#}, ex_vfs) ({#} + ref_of r, s)" by (blast intro: step_open)
  from vfs_references_counted [OF ex_start_ok ex_boots _ _ _ run] run o show ?thesis by fastforce
qed

text \<open>C26: A device added under a free name keeps all names different and is found under its name: a
  device that can be mounted has no meaning under its own name until a file system is on it
  (\<open>ENXIO\<close>), but under the raw name it is the vnode just made, with one more reference; any
  other device is that vnode under its own name. A second device of the name is refused with
  \<open>EEXIST\<close> and changes nothing.\<close>
theorem device_is_found:
  assumes "names_ok (knowndevs s)" and "devs_ok (knowndevs s)" and add: "vfs_adddev io al v n dev mountable s = Some (None, s')"
    and vol: "no_volume io n (knowndevs s)" "no_volume io (mkrawname n) (knowndevs s)"
  shows "names_ok (knowndevs s') \<and> devs_ok (knowndevs s') \<and>
    vfs_getroot io n (vfs_biglock_acquire s') =
      (if mountable then Some (Inl ENXIO, vfs_biglock_acquire s')
       else Some (Inr v, (vfs_biglock_acquire s')\<lparr>nodes := (nodes s')(v \<mapsto> \<lparr>vn_refcount = 2, vn_fs = None, vn_ops = True\<rparr>)\<rparr>)) \<and>
    (mountable \<longrightarrow> vfs_getroot io (mkrawname n) (vfs_biglock_acquire s') =
       Some (Inr v, (vfs_biglock_acquire s')\<lparr>nodes := (nodes s')(v \<mapsto> \<lparr>vn_refcount = 2, vn_fs = None, vn_ops = True\<rparr>)\<rparr>)) \<and>
    (\<exists>s''. vfs_adddev io (\<lambda>_. True) w n dev' mountable' s' = Some (Some EEXIST, s'') \<and> knowndevs s'' = knowndevs s')"
proof -
  let ?kd = "new_dev v n mountable (Some dev) No_fs"
  note a = vfs_doadd_SomeD [OF add [unfolded vfs_adddev_def]]
  have k: "knowndevs (vfs_biglock_acquire s') = knowndevs s'" by (simp add: vfs_biglock_acquire_def)
  have names: "names_ok (knowndevs s')" using names_ok_add [OF assms(1) a(4,5)] by (simp add: a(1))
  have devs: "devs_ok (knowndevs s')" using assms(2) by (auto simp: a(1) devs_ok_def new_dev_def)
  have kd: "?kd \<in> set (knowndevs s')" "n \<in> set (dev_names ?kd)" by (simp_all add: a(1) dev_names_def new_dev_def)
  have nm: "kd_name ?kd = n" "mountable \<Longrightarrow> kd_rawname ?kd = Some (mkrawname n)" "kd_vnode ?kd = v" by (simp_all add: new_dev_def)
  have vol': "no_volume io n (knowndevs s')" "no_volume io (mkrawname n) (knowndevs s')"
    using vol by (simp_all add: a(1) no_volume_def new_dev_def)
  have incr: "VOP_INCREF v (vfs_biglock_acquire s') = Some ((vfs_biglock_acquire s')\<lparr>nodes :=
      (nodes s')(v \<mapsto> \<lparr>vn_refcount = 2, vn_fs = None, vn_ops = True\<rparr>)\<rparr>)"
    by (simp add: VOP_INCREF_def vnode_incref_def vfs_biglock_acquire_def a(3))
  have held: "vfs_biglock_do_i_hold (vfs_biglock_acquire s')" by (simp add: vfs_biglock_do_i_hold_def vfs_biglock_acquire_def)
  have own: "vfs_getroot io n (vfs_biglock_acquire s') = device_root io ?kd (vfs_biglock_acquire s')"
    using getroot_name [OF names devs kd(1), of io] vol'(1) held by (simp add: vfs_getroot_def k nm)
  have raw: "mountable \<longrightarrow> vfs_getroot io (mkrawname n) (vfs_biglock_acquire s') =
      VOP_INCREF v (vfs_biglock_acquire s') \<bind> (\<lambda>s. Some (Inr v, s))"
  proof
    assume m: mountable
    from getroot_rawname [OF names devs kd(1) nm(2) [OF m] vol'(2)] held
    show "vfs_getroot io (mkrawname n) (vfs_biglock_acquire s') = VOP_INCREF v (vfs_biglock_acquire s') \<bind> (\<lambda>s. Some (Inr v, s))"
      by (simp add: vfs_getroot_def k nm(3))
  qed
  have again: "\<exists>s''. vfs_adddev io (\<lambda>_. True) w n dev' mountable' s' = Some (Some EEXIST, s'') \<and> knowndevs s'' = knowndevs s'"
    using vfs_doadd_known [OF kd, of "\<lambda>_. True" io w mountable' "Some dev'" No_fs] by (auto simp: vfs_adddev_def tables_def)
  from names devs own raw again incr show ?thesis by (simp add: device_root_def new_dev_def)
qed

theorem device_is_found_witness:
  "\<exists>s'. vfs_adddev ex_sem_io (\<lambda>_. True) 7 ''lhd0'' 1 True ex_vfs = Some (None, s') \<and>
    vfs_getroot ex_sem_io ''lhd0'' (vfs_biglock_acquire s') = Some (Inl ENXIO, vfs_biglock_acquire s')"
proof -
  obtain s' where s': "vfs_adddev ex_sem_io (\<lambda>_. True) 7 ''lhd0'' 1 True ex_vfs = Some (None, s')"
    by (simp add: vfs_adddev_def vfs_doadd_def ex_vfs_def Let_def vfs_biglock_acquire_def vfs_biglock_release_def
        vfs_biglock_do_i_hold_def dev_create_vnode_def vnode_init_def samestring3_def semfs_io_def semfs_getvolname_def mkrawname_def)
  have "names_ok (knowndevs ex_vfs)" "devs_ok (knowndevs ex_vfs)" "no_volume ex_sem_io ''lhd0'' (knowndevs ex_vfs)"
    "no_volume ex_sem_io (mkrawname ''lhd0'') (knowndevs ex_vfs)"
    by (simp_all add: ex_vfs_def names_ok_def dev_names_def devs_ok_def no_volume_def semfs_io_def semfs_getvolname_def mkrawname_def)
  from device_is_found [OF this(1,2) s' this(3,4)] s' show ?thesis by simp
qed

text \<open>C27: A device with nothing on it can be mounted: its name then means the root of the new file
  system, a second mount and use as swap are refused with \<open>EBUSY\<close>, and unmounting, when the file
  system is flushed and lets go, gives back the table as it was before.\<close>
theorem mount_round_trip:
  assumes names: "names_ok (knowndevs s)" and devs: "devs_ok (knowndevs s)" and i: "i < length (knowndevs s)"
    and kd: "kd = knowndevs s ! i" "kd_rawname kd \<noteq> None" "kd_device kd = Some d" "kd_fs kd = No_fs"
    and mount: "\<And>s. mountfunc d s = Some (Inr fs, s)"
    and vol: "no_volume io (kd_name kd) (knowndevs s)" "fsop_getvolname io fs \<noteq> Some (kd_name kd)"
    and sync: "fsop_sync io fs 0 = None"
    and t: "t = set_fs i (A_fs fs) s"
    and unmount: "fsop_unmount io fs (vfs_biglock_acquire t) = Some (None, vfs_biglock_acquire t')" "tables t' = tables t"
  shows "vfs_mount (kd_name kd) mountfunc s = Some (None, t) \<and>
    vfs_getroot io (kd_name kd) (vfs_biglock_acquire t) = fsop_getroot io fs (vfs_biglock_acquire t) \<and>
    vfs_mount (kd_name kd) mountfunc t = Some (Some EBUSY, t) \<and>
    (\<exists>s'. vfs_unmount io (kd_name kd) t = Some (None, s') \<and> tables s' = tables s)"
proof -
  let ?kd = "knowndevs t ! i"
  have kt: "knowndevs t = (knowndevs s)[i := kd\<lparr>kd_fs := A_fs fs\<rparr>]" by (simp add: t kd(1))
  have it: "i < length (knowndevs t)" and kdt: "?kd = kd\<lparr>kd_fs := A_fs fs\<rparr>" using i by (simp_all add: kt)
  have namest: "names_ok (knowndevs t)" using names names_ok_set_fs [OF i] by (simp add: t)
  have devst: "devs_ok (knowndevs t)"
    using devs kd(2,3) by (auto simp: kt devs_ok_def dest!: subsetD [OF set_update_subset_insert])
  have volt: "no_volume io (kd_name kd) (knowndevs t)"
    using vol by (auto simp: kt no_volume_def dest!: subsetD [OF set_update_subset_insert])
  have "vfs_mount (kd_name kd) mountfunc s = Some (None, t)"
    using vfs_mount_eq [OF names i kd(1-3), of mountfunc fs s] mount kd(4) by (simp add: t)
  moreover have "vfs_mount (kd_name kd) mountfunc t = Some (Some EBUSY, t)"
    using vfs_mount_eq [OF namest it refl, of d mountfunc fs t] mount kd(2,3) by (simp add: kdt)
  moreover have "vfs_getroot io (kd_name kd) (vfs_biglock_acquire t) = fsop_getroot io fs (vfs_biglock_acquire t)"
    using getroot_name [OF namest devst nth_mem [OF it], of io] volt
    by (simp add: kdt vfs_getroot_def vfs_biglock_acquire_def vfs_biglock_do_i_hold_def device_root_def)
  moreover have "vfs_unmount io (kd_name kd) t = Some (None, set_fs i No_fs t')"
    using vfs_unmount_eq [OF namest it refl _ _ _ sync unmount(1)] kd(2,3) by (simp add: kdt)
  moreover have "tables (set_fs i No_fs t') = tables s"
  proof -
    have "knowndevs s ! i = (knowndevs s ! i)\<lparr>kd_fs := No_fs\<rparr>" using kd(1,4) by (cases "knowndevs s ! i") simp
    then have "(knowndevs s)[i := (knowndevs s ! i)\<lparr>kd_fs := No_fs\<rparr>] = knowndevs s" by (metis list_update_id)
    then show ?thesis using unmount(2) i by (simp add: tables_def kt kd(1)) (simp add: t)
  qed
  ultimately show ?thesis by blast
qed

definition ex_disk :: sem_state where
  "ex_disk = ex_vfs\<lparr>knowndevs := [\<lparr>kd_name = ''lhd0'', kd_rawname = Some ''lhd0raw'', kd_device = Some 0, kd_vnode = 1, kd_fs = No_fs\<rparr>]\<rparr>"

theorem mount_round_trip_witness:
  "vfs_mount ''lhd0'' (\<lambda>_ s. Some (Inr 0, s)) ex_disk = Some (None, set_fs 0 (A_fs 0) ex_disk) \<and>
    (\<exists>s'. vfs_unmount ex_sem_io ''lhd0'' (set_fs 0 (A_fs 0) ex_disk) = Some (None, s') \<and> tables s' = tables ex_disk)"
proof -
  have "names_ok (knowndevs ex_disk)" "devs_ok (knowndevs ex_disk)" "0 < length (knowndevs ex_disk)"
    by (simp_all add: ex_disk_def names_ok_def dev_names_def devs_ok_def)
  moreover have "fsop_unmount ex_sem_io 0 (vfs_biglock_acquire (set_fs 0 (A_fs 0) ex_disk)) = Some (None, vfs_biglock_acquire (set_fs 0 (A_fs 0) ex_disk))"
    by (simp add: semfs_io_def semfs_unmount_def ex_disk_def ex_vfs_def semfs_create_def vfs_biglock_acquire_def upd_fs_def semfs_destroy_def)
  ultimately show ?thesis
    using mount_round_trip [of ex_disk 0 "\<lparr>kd_name = ''lhd0'', kd_rawname = Some ''lhd0raw'', kd_device = Some 0, kd_vnode = 1, kd_fs = No_fs\<rparr>"
        0 "\<lambda>_ s. Some (Inr 0, s)" 0 ex_sem_io "set_fs 0 (A_fs 0) ex_disk" "set_fs 0 (A_fs 0) ex_disk"]
    by (simp add: ex_disk_def no_volume_def semfs_io_def semfs_getvolname_def semfs_sync_def)
qed


end
