(* ===== verification/FileProperties.thy ===== *)
theory FileProperties
  imports FileSyscalls VfsProperties Example_Kernel
begin

text \<open>
  The properties of open files over the semaphore file system and the devices: descriptors, entries
  of the system file table and vnodes are counted right through opens and closes, except when a
  process runs out of descriptors.
\<close>

section \<open>Opening and closing as steps\<close>

text \<open>The calls of the running process; an open when a descriptor is free.\<close>

inductive file_step :: "'s vfs_io \<Rightarrow> 's os \<Rightarrow> 's os \<Rightarrow> bool" for io where
  file_open: "curproc (kern os) = Some p \<Longrightarrow> procs (kern os) p = Some P \<Longrightarrow> \<exists>fd\<in>{3..<OPEN_MAX}. fileTable P ! fd = None \<Longrightarrow>
    sys_open io path flags mode os = Some (r, os') \<Longrightarrow> file_step io os os'"
| file_close: "0 \<le> fd \<Longrightarrow> fd < int OPEN_MAX \<Longrightarrow> sys_close io fd os = Some (r, os') \<Longrightarrow> file_step io os os'"

inductive_cases file_stepE: "file_step io os os'"

abbreviation sem_os_wf :: "nat multiset \<Rightarrow> semfs os \<Rightarrow> bool" where
  "sem_os_wf \<equiv> os_wf semfs_ok"

lemma file_step_wf:
  assumes step: "file_step (sem_io devtab drv) os os'" and wf: "sem_os_wf R os" and cur: "curproc (kern os) = Some p" "procs (kern os) p = Some P"
  shows "sem_os_wf R os' \<and> curproc (kern os') = Some p \<and> (\<exists>P'. procs (kern os') p = Some P')"
  using step
proof cases
  case (file_open q Q path flags mode r)
  from sem.sys_open_wf [OF wf file_open(1-3), of devtab drv path flags mode] file_open cur show ?thesis
    by (cases r) (auto simp: opened_def)
next
  case (file_close fd r)
  from wf have ok: "files_ok (kern os)" by (simp add: os_wf_def)
  have fd: "nat fd < OPEN_MAX" "int (nat fd) = fd" using file_close by simp_all
  have len: "length (fileTable P) = OPEN_MAX" by (rule files_okD(3) [OF ok cur(2)])
  show ?thesis
  proof (cases "fileTable P ! nat fd")
    case None
    then have "os' = os" using file_close cur fd len by (auto simp: sys_close_def fd_entry_def)
    with wf cur show ?thesis by simp
  next
    case (Some i)
    from sem.sys_close_wf [OF wf cur fd(1) Some, of devtab drv] file_close(3) fd(2) show ?thesis
      by (auto simp: closed_def)
  qed
qed

section \<open>Example\<close>

definition ex_os :: "semfs os" where
  "ex_os = \<lparr>kern = ex_kernel\<lparr>vnodes := nodes ex_vfs, procs := [1 \<mapsto> ex_proc\<lparr>p_cwd := None\<rparr>]\<rparr>, vfss = ex_vfs\<rparr>"

lemma ex_os_view: "vfs_view ex_os = ex_vfs"
  by (simp add: vfs_view_def ex_os_def cur_cwd_def) (simp add: ex_vfs_def)

lemma ex_os_cur: "curproc (kern ex_os) = Some 1" "procs (kern ex_os) 1 = Some (ex_proc\<lparr>p_cwd := None\<rparr>)"
  by (simp_all add: ex_os_def)

lemma ex_os_table: "systemFileTable (kern ex_os) = replicate SYSTEM_OPEN_MAX \<lparr>of_vn = None, of_offset = 0, countRef = 0\<rparr>"
  by (simp add: ex_os_def ex_kernel_def)

lemma ex_fileTable: "fileTable ex_proc = replicate OPEN_MAX None"
  by (simp add: ex_proc_def fresh_proc_def)

lemma ex_os_wf: "sem_os_wf {#} ex_os"
proof -
  have none: "descriptors (kern ex_os) i = {}" for i
    by (auto simp: descriptors_def ex_os_def ex_fileTable split: if_splits simp del: replicate.simps)
  have "open_refs (replicate n \<lparr>of_vn = None, of_offset = 0, countRef = 0\<rparr>) = {#}" for n
    by (induction n) (simp_all add: open_refs_def)
  then have "open_refs (systemFileTable (kern ex_os)) = {#}" by (simp only: ex_os_table)
  moreover have "files_ok (kern ex_os)" unfolding files_ok_def none ex_os_table
    by (auto simp: ex_os_def ex_fileTable split: if_splits simp del: replicate.simps)
  ultimately show ?thesis using ex_wf by (simp add: os_wf_def ex_os_view)
qed

lemma ex_os_free: "\<exists>fd\<in>{3..<OPEN_MAX}. fileTable (ex_proc\<lparr>p_cwd := None\<rparr>) ! fd = None"
  by (rule bexI [of _ 3]) (simp_all add: ex_fileTable)

text \<open>A process with all its descriptors open on \<open>null:\<close>, one entry for all.\<close>

definition ex_full :: "semfs os" where
  "ex_full = \<lparr>kern = (kern ex_os)\<lparr>vnodes := (nodes ex_vfs)(1 \<mapsto> \<lparr>vn_refcount = 2, vn_fs = None, vn_ops = True\<rparr>),
     procs := [1 \<mapsto> ex_proc\<lparr>p_cwd := None, fileTable := replicate OPEN_MAX (Some 0)\<rparr>],
     systemFileTable := (systemFileTable (kern ex_os))[0 := \<lparr>of_vn = Some 1, of_offset = 0, countRef = 128\<rparr>]\<rparr>, vfss = ex_vfs\<rparr>"

lemma ex_full_view: "vfs_view ex_full = ex_vfs\<lparr>nodes := (nodes ex_vfs)(1 \<mapsto> \<lparr>vn_refcount = 2, vn_fs = None, vn_ops = True\<rparr>)\<rparr>"
  by (simp add: vfs_view_def ex_full_def ex_os_def cur_cwd_def del: replicate.simps) (simp add: ex_vfs_def)

lemma ex_full_cur: "curproc (kern ex_full) = Some 1"
  "procs (kern ex_full) 1 = Some (ex_proc\<lparr>p_cwd := None, fileTable := replicate OPEN_MAX (Some 0)\<rparr>)"
  by (simp_all add: ex_full_def ex_os_def)

lemma ex_full_table: "systemFileTable (kern ex_full) = \<lparr>of_vn = Some 1, of_offset = 0, countRef = 128\<rparr> #
    replicate (SYSTEM_OPEN_MAX - 1) \<lparr>of_vn = None, of_offset = 0, countRef = 0\<rparr>"
proof -
  have "SYSTEM_OPEN_MAX = Suc (SYSTEM_OPEN_MAX - 1)" by simp
  then have "systemFileTable (kern ex_os) = \<lparr>of_vn = None, of_offset = 0, countRef = 0\<rparr> #
      replicate (SYSTEM_OPEN_MAX - 1) \<lparr>of_vn = None, of_offset = 0, countRef = 0\<rparr>"
    unfolding ex_os_table by (metis replicate_Suc)
  then show ?thesis by (simp add: ex_full_def)
qed

lemma ex_full_wf: "sem_os_wf {#} ex_full"
proof -
  have desc: "descriptors (kern ex_full) i = (if i = 0 then {1} \<times> {..<OPEN_MAX} else {})" for i
    by (auto simp: descriptors_def ex_full_def simp del: replicate.simps split: if_splits)
  have refs0: "open_refs (replicate n \<lparr>of_vn = None, of_offset = 0, countRef = 0\<rparr>) = {#}" for n
    by (induction n) (simp_all add: open_refs_def)
  then have "open_refs (systemFileTable (kern ex_full)) = {#1#}"
    unfolding ex_full_table using refs0 [of "SYSTEM_OPEN_MAX - 1"] by (simp add: open_refs_def)
  moreover have "files_ok (kern ex_full)" unfolding files_ok_def desc ex_full_table
    by (auto simp: lessThan_empty_iff ex_full_def nth_Cons' ex_os_def simp del: replicate.simps split: if_splits)
  moreover have "vfs_wf semfs_ok {#1#} (vfs_view ex_full)"
    using sem.step_incref [OF wf_stands [OF ex_wf], of 1]
    by (simp add: ex_full_view sem.runs_def VOP_INCREF_def vnode_incref_def stands_iff) (simp add: ex_vfs_def holders_def vn_refs_def)
  ultimately show ?thesis by (simp add: os_wf_def)
qed

lemma ex_opens: "\<exists>s. vfs_open ex_sem_io ''null:'' 0 0 (vfs_view ex_full) = Some (Inr 1, s)"
  by (simp add: vfs_open_def open_vnode_def vfs_lookup_def ex_full_view ex_vfs_def getdevice_def vfs_biglock_acquire_def
      vfs_biglock_do_i_hold_def vfs_biglock_release_def vfs_getroot_def VOP_INCREF_def vnode_incref_def open_checked_def
      VOP_def vnode_check_def semfs_io_def kind_of_def semnum_of_def semfs_create_def dev_eachopen_def)

section \<open>Properties\<close>



text \<open>C29: Open and close are inverse: with a free descriptor \<open>sys_open\<close> returns, either with \<open>ENOENT\<close> or
  \<open>ENFILE\<close> and all tables as they were, or with the least free descriptor, which refers to a free entry now
  set to the vnode at offset 0; and \<open>sys_close\<close> of that descriptor then returns 0, gives
  every process the descriptors it had before and frees the entry. All counts stay right.\<close>
theorem open_close_round_trip:
  assumes "sem_os_wf R os" and "curproc (kern os) = Some p" and "procs (kern os) p = Some P"
    and "\<exists>fd\<in>{3..<OPEN_MAX}. fileTable P ! fd = None"
  shows "\<exists>r os'. sys_open (sem_io devtab drv) path flags mode os = Some (r, os') \<and> sem_os_wf R os' \<and>
    opened p P (kern os) r (kern os') \<and>
    (\<forall>fd. r = Inr fd \<longrightarrow> (\<exists>os''. sys_close (sem_io devtab drv) (int fd) os' = Some (0, os'') \<and> sem_os_wf R os'' \<and>
       procs (kern os'') = procs (kern os) \<and>
       map of_vn (systemFileTable (kern os'')) = map of_vn (systemFileTable (kern os))))"
proof -
  from sem.sys_open_wf [OF assms, of devtab drv path flags mode] obtain r and os' :: "semfs os" where
    o: "sys_open (sem_io devtab drv) path flags mode os = Some (r, os')" and wf: "sem_os_wf R os'" and cur: "curproc (kern os') = Some p"
    and op: "opened p P (kern os) r (kern os')" by blast
  have "\<exists>os''. sys_close (sem_io devtab drv) (int fd) os' = Some (0, os'') \<and> sem_os_wf R os'' \<and>
       procs (kern os'') = procs (kern os) \<and> map of_vn (systemFileTable (kern os'')) = map of_vn (systemFileTable (kern os))"
    if "r = Inr fd" for fd
  proof -
    from op that obtain i v where fd: "fd < OPEN_MAX" "fileTable P ! fd = None" and i: "i < SYSTEM_OPEN_MAX"
      "of_vn (systemFileTable (kern os) ! i) = None"
      and k: "procs (kern os') = (procs (kern os))(p \<mapsto> P\<lparr>fileTable := (fileTable P)[fd := Some i]\<rparr>)"
      "systemFileTable (kern os') = (systemFileTable (kern os))[i := \<lparr>of_vn = Some v, of_offset = 0, countRef = 1\<rparr>]"
      by (auto simp: opened_def)
    from assms(1) have ok: "files_ok (kern os)" by (simp add: os_wf_def)
    have len: "fd < length (fileTable P)" "i < length (systemFileTable (kern os))"
      using files_okD(1,3) [OF ok] assms(3) fd(1) i(1) by auto
    let ?P = "P\<lparr>fileTable := (fileTable P)[fd := Some i]\<rparr>"
    have P': "procs (kern os') p = Some ?P" by (simp add: k)
    have one: "descriptors (kern os') i = {(p, fd)}"
      using files_okD(5) [OF ok i(1)] i(2) len assms(3) by (auto simp: descriptors_def k nth_list_update split: if_splits)
    from sem.sys_close_wf [OF wf cur P' fd(1), of i devtab drv] len obtain os'' :: "semfs os" where
      c: "sys_close (sem_io devtab drv) (int fd) os' = Some (0, os'')" "sem_os_wf R os''" "closed p ?P fd i (kern os') (kern os'')"
      by auto
    have same: "(fileTable P)[fd := None] = fileTable P" by (metis fd(2) list_update_id)
    have "procs (kern os'') = procs (kern os)" using c(3) assms(3) by (simp add: closed_def k same fun_upd_idem)
    moreover have "map of_vn (systemFileTable (kern os'')) = map of_vn (systemFileTable (kern os))"
      using c(3) i len by (simp add: closed_def k one map_update Let_def) (metis list_update_id nth_map)
    ultimately show ?thesis using c by blast
  qed
  with o wf op show ?thesis by blast
qed

theorem open_close_round_trip_witness:
  "\<exists>r os'. sys_open ex_sem_io ''null:'' 0 0 ex_os = Some (r, os') \<and>
    (\<forall>fd. r = Inr fd \<longrightarrow> (\<exists>os''. sys_close ex_sem_io (int fd) os' = Some (0, os'') \<and> sem_os_wf {#} os''))"
  using open_close_round_trip [OF ex_os_wf ex_os_cur ex_os_free, of "\<lambda>_. \<lparr>d_blocks = 0, d_blocksize = 1\<rparr>" "\<lambda>_. None" "''null:''" 0 0]
  by blast

text \<open>C30: A process that has no descriptor left and opens a file gets \<open>EMFILE\<close>, but the entry taken
  in the system file table stays in use, with a count of one, for a vnode whose reference has been
  given back: no descriptor refers to it, so it is never closed, and the tables are not sound any
  more.\<close>
theorem emfile_leaves_entry:
  assumes wf: "sem_os_wf R os" and cur: "curproc (kern os) = Some p" "procs (kern os) p = Some P"
    and full: "\<forall>fd\<in>{3..<OPEN_MAX}. fileTable P ! fd \<noteq> None"
    and o: "vfs_open (sem_io devtab drv) path flags mode (vfs_view os) = Some (Inr v, s)"
    and i: "i < SYSTEM_OPEN_MAX" "of_vn (systemFileTable (kern os) ! i) = None"
  shows "\<exists>os' j. sys_open (sem_io devtab drv) path flags mode os = Some (Inl EMFILE, os') \<and>
    of_vn (systemFileTable (kern os') ! j) = Some v \<and> countRef (systemFileTable (kern os') ! j) = 1 \<and>
    descriptors (kern os') j = {} \<and> procs (kern os') = procs (kern os) \<and> \<not> sem_os_wf R os'"
proof -
  let ?fs = "systemFileTable (kern os)" and ?x = "\<lparr>of_vn = Some v, of_offset = 0, countRef = 1\<rparr>"
  from wf have ok: "files_ok (kern os)" by (simp add: os_wf_def)
  have "find_from (\<lambda>f. of_vn f = None) 0 ?fs \<noteq> None"
    unfolding find_from_None_iff using i files_okD(1) [OF ok] by (metis nth_mem)
  then obtain j where j: "find_from (\<lambda>f. of_vn f = None) 0 ?fs = Some j" by blast
  from find_from_SomeD [OF j] files_okD(1) [OF ok] have j': "j < SYSTEM_OPEN_MAX" "of_vn (?fs ! j) = None" by simp_all
  have none: "find (\<lambda>fd. fileTable P ! fd = None) [3..<OPEN_MAX] = None" unfolding find_None_iff using full by auto
  let ?os1 = "set_file j ?x (vfs_put s os)"
  have wf0: "vfs_wf semfs_ok (R + open_refs ?fs) (vfs_view os)" using wf by (simp add: os_wf_def)
  from returned_wf [OF sem.open_returns [OF wf_stands [OF wf0]] o] have wf1: "vfs_wf semfs_ok (R + open_refs ?fs + {#v#}) s"
    by (simp add: ref_of_def)
  have "cwd s = cwd (vfs_view os)"
    using sem.open_returns [OF wf_stands [OF wf0], of devtab drv path flags mode] o by (simp add: sem.returns_def stands_iff tables_def)
  then have view: "vfs_view (vfs_put s os) = s" by (simp add: vfs_view_def vfs_put_def)
  from close_wf [OF wf1, of v devtab drv] obtain s2 where "VOP_DECREF (sem_io devtab drv) v s = Some s2" by auto
  then have close: "open_no_slot (sem_io devtab drv) EMFILE v ?os1 = Some (Inl EMFILE, vfs_put s2 ?os1)"
    by (simp add: open_no_slot_def view)
  have run: "sys_open (sem_io devtab drv) path flags mode os = Some (Inl EMFILE, vfs_put s2 ?os1)"
    using cur none by (simp add: sys_open_def o j close del: upt_rec_numeral)
  let ?k = "kern (vfs_put s2 ?os1)"
  have x: "systemFileTable ?k ! j = ?x" using j'(1) files_okD(1) [OF ok] by simp
  have empty: "descriptors ?k j = {}" using files_okD(5) [OF ok j'(1)] j'(2) by (simp add: descriptors_def)
  have "\<not> files_ok ?k" using files_okD(5) [of ?k j] j'(1) x empty by force
  then have "\<not> sem_os_wf R (vfs_put s2 ?os1)" by (simp add: os_wf_def)
  with run x empty show ?thesis by (intro exI [of _ "vfs_put s2 ?os1"] exI [of _ j]) simp
qed

theorem emfile_leaves_entry_witness:
  "\<exists>os' j. sys_open ex_sem_io ''null:'' 0 0 ex_full = Some (Inl EMFILE, os') \<and> of_vn (systemFileTable (kern os') ! j) = Some 1"
proof -
  from ex_opens obtain s where o: "vfs_open ex_sem_io ''null:'' 0 0 (vfs_view ex_full) = Some (Inr 1, s)" by blast
  have full: "\<forall>fd\<in>{3..<OPEN_MAX}. fileTable (ex_proc\<lparr>p_cwd := None, fileTable := replicate OPEN_MAX (Some 0)\<rparr>) ! fd \<noteq> None"
    by (simp del: replicate.simps)
  have free: "1 < SYSTEM_OPEN_MAX" "of_vn (systemFileTable (kern ex_full) ! 1) = None"
    by (simp_all add: ex_full_table del: replicate.simps)
  from emfile_leaves_entry [OF ex_full_wf ex_full_cur full o free] show ?thesis by blast
qed

end
