(* ===== verification/Bitmap.thy ===== *)
theory Bitmap
  imports Prelude
begin

text \<open>
  \<open>kern/lib/bitmap.c\<close>: a fixed-size array of bits kept in bytes. Bits past the size are marked in
  use at creation, which is why the assertion of \<open>bitmap_alloc\<close> holds. The contract of a storage
  allocator over numbered units is the locale \<open>unit_allocator\<close>; the file system's freemap uses
  it through its interpretation. A \<open>kmalloc\<close> that fails is a parameter of \<open>bitmap_create\<close>.
\<close>

section \<open>Operations\<close>

abbreviation BITS_PER_WORD :: nat where "BITS_PER_WORD \<equiv> 8"
abbreviation WORD_ALLBITS :: u8 where "WORD_ALLBITS \<equiv> 0xff"

record bitmap =
  nbits :: nat
  bv :: "u8 list"

definition DIVROUNDUP :: "nat \<Rightarrow> nat \<Rightarrow> nat" where
  "DIVROUNDUP a b = (a + b - 1) div b"

text \<open>The loop that marks bits \<open>js\<close> of word \<open>ix\<close>.\<close>

fun mark_leftover :: "nat list \<Rightarrow> nat \<Rightarrow> u8 list \<Rightarrow> u8 list" where
  "mark_leftover [] ix v = v"
| "mark_leftover (j # js) ix v = mark_leftover js ix (v[ix := v ! ix OR push_bit j 1])"

text \<open>The two parameters say whether each \<open>kmalloc\<close> succeeds; \<open>Some None\<close> is the null result.\<close>

definition bitmap_create :: "bool \<Rightarrow> bool \<Rightarrow> nat \<Rightarrow> bitmap option option" where
  "bitmap_create km1 km2 n =
     (let words = DIVROUNDUP n BITS_PER_WORD
      in if \<not> km1 then Some None
         else if \<not> km2 then Some None
         else let v = replicate words 0
         in if words > n div BITS_PER_WORD then do {
              let ix = words - 1;
              let overbits = n - ix * BITS_PER_WORD;
              kassert (n div BITS_PER_WORD = words - 1);
              kassert (overbits > 0 \<and> overbits < BITS_PER_WORD);
              Some (Some \<lparr>nbits = n, bv = mark_leftover [overbits..<BITS_PER_WORD] ix v\<rparr>) }
            else Some (Some \<lparr>nbits = n, bv = v\<rparr>))"

definition bitmap_getdata :: "bitmap \<Rightarrow> u8 list" where
  "bitmap_getdata b = bv b"

definition bitmap_alloc :: "bitmap \<Rightarrow> ((errno + nat) \<times> bitmap) option" where
  "bitmap_alloc b =
     (let maxix = DIVROUNDUP (nbits b) BITS_PER_WORD
      in case find_from (\<lambda>w. w \<noteq> WORD_ALLBITS) 0 (take maxix (bv b)) of
           None \<Rightarrow> Some (Inl ENOSPC, b)
         | Some ix \<Rightarrow>
             (case find_from (\<lambda>off. bv b ! ix AND push_bit off 1 = 0) 0 [0..<BITS_PER_WORD] of
                None \<Rightarrow> None
              | Some off \<Rightarrow> do {
                  let b' = b\<lparr>bv := (bv b)[ix := bv b ! ix OR push_bit off 1]\<rparr>;
                  let index = ix * BITS_PER_WORD + off;
                  kassert (index < nbits b);
                  Some (Inr index, b') }))"

definition bitmap_translate :: "nat \<Rightarrow> nat \<times> u8" where
  "bitmap_translate bitno = (bitno div BITS_PER_WORD, push_bit (bitno mod BITS_PER_WORD) 1)"

definition bitmap_mark :: "bitmap \<Rightarrow> nat \<Rightarrow> bitmap option" where
  "bitmap_mark b index = do {
     kassert (index < nbits b);
     let (ix, m) = bitmap_translate index;
     kassert (bv b ! ix AND m = 0);
     Some (b\<lparr>bv := (bv b)[ix := bv b ! ix OR m]\<rparr>) }"

definition bitmap_unmark :: "bitmap \<Rightarrow> nat \<Rightarrow> bitmap option" where
  "bitmap_unmark b index = do {
     kassert (index < nbits b);
     let (ix, m) = bitmap_translate index;
     kassert (bv b ! ix AND m \<noteq> 0);
     Some (b\<lparr>bv := (bv b)[ix := bv b ! ix AND NOT m]\<rparr>) }"

definition bitmap_isset :: "bitmap \<Rightarrow> nat \<Rightarrow> u8" where
  "bitmap_isset b index = (let (ix, m) = bitmap_translate index in bv b ! ix AND m)"

section \<open>The set of marked bits\<close>

definition bit_at :: "u8 list \<Rightarrow> nat \<Rightarrow> bool" where
  "bit_at v i = bit (v ! (i div 8)) (i mod 8)"

definition bitmap_wf :: "bitmap \<Rightarrow> bool" where
  "bitmap_wf b \<longleftrightarrow> length (bv b) = DIVROUNDUP (nbits b) 8 \<and>
     (\<forall>i. nbits b \<le> i \<longrightarrow> i < length (bv b) * 8 \<longrightarrow> bit_at (bv b) i)"

definition bm_used :: "bitmap \<Rightarrow> nat \<Rightarrow> bool" where
  "bm_used b i \<longleftrightarrow> i < nbits b \<and> bit_at (bv b) i"

lemma mask_bit: "j < 8 \<Longrightarrow> (w::u8) AND push_bit j 1 = 0 \<longleftrightarrow> \<not> bit w j"
proof -
  assume j: "j < 8"
  have "bit (w AND push_bit j 1) i \<longleftrightarrow> bit w i \<and> i = j" for i
    using j by (auto simp: bit_simps)
  then show ?thesis by (metis bit_eqI bit_0_eq bot_apply bot_bool_def)
qed

lemma all_bits: "(w::u8) = 0xff \<longleftrightarrow> (\<forall>j<8. bit w j)"
proof -
  have "(0xff :: u8) = mask 8" by (simp add: mask_eq_exp_minus_1)
  moreover have "w = mask 8 \<longleftrightarrow> (\<forall>j<8. bit w j)"
    by (auto simp: bit_eq_iff bit_mask_iff dest: bit_imp_le_length)
  ultimately show ?thesis by simp
qed

lemma bit_at_set:
  assumes "i div 8 < length v"
  shows "bit_at (v[i div 8 := v ! (i div 8) OR push_bit (i mod 8) 1]) j \<longleftrightarrow> j = i \<or> bit_at v j"
proof (cases "j div 8 = i div 8")
  case True
  then have "j = i \<longleftrightarrow> j mod 8 = i mod 8" by (metis div_mult_mod_eq)
  with True assms show ?thesis by (auto simp: bit_at_def bit_simps)
next
  case False
  then show ?thesis by (auto simp: bit_at_def)
qed

lemma bit_at_clear:
  assumes "i div 8 < length v"
  shows "bit_at (v[i div 8 := v ! (i div 8) AND NOT (push_bit (i mod 8) 1)]) j \<longleftrightarrow> j \<noteq> i \<and> bit_at v j"
proof (cases "j div 8 = i div 8")
  case True
  then have "j = i \<longleftrightarrow> j mod 8 = i mod 8" by (metis div_mult_mod_eq)
  with True assms show ?thesis by (auto simp: bit_at_def bit_simps)
next
  case False
  then show ?thesis by (auto simp: bit_at_def)
qed

lemma same_word: "i div 8 = n div 8 \<Longrightarrow> n mod 8 \<le> i mod 8 \<longleftrightarrow> n \<le> (i::nat)"
  by (metis add_le_cancel_left div_mult_mod_eq)

lemma words_bound: "i < n \<longleftrightarrow> i < n \<and> i div 8 < DIVROUNDUP n 8"
  unfolding DIVROUNDUP_def by auto

lemma words_cover: "i div 8 < DIVROUNDUP n 8 \<longleftrightarrow> i < DIVROUNDUP n 8 * 8"
  by linarith

lemma mark_leftover_bits:
  assumes "ix < length v" and "\<forall>j\<in>set js. j < 8"
  shows "length (mark_leftover js ix v) = length v"
    and "bit_at (mark_leftover js ix v) i \<longleftrightarrow> (i div 8 = ix \<and> i mod 8 \<in> set js) \<or> bit_at v i"
proof -
  have "length (mark_leftover js ix v) = length v \<and>
    (bit_at (mark_leftover js ix v) i \<longleftrightarrow> (i div 8 = ix \<and> i mod 8 \<in> set js) \<or> bit_at v i)"
    using assms
  proof (induction js arbitrary: v)
    case (Cons j js)
    have "(ix * 8 + j) div 8 = ix" "(ix * 8 + j) mod 8 = j" using Cons.prems by auto
    with bit_at_set [of "ix * 8 + j" v i] Cons.prems(1)
    have "bit_at (v[ix := v ! ix OR push_bit j 1]) i \<longleftrightarrow> i = ix * 8 + j \<or> bit_at v i" by simp
    moreover have "i = ix * 8 + j \<longleftrightarrow> i div 8 = ix \<and> i mod 8 = j" using Cons.prems(2) by auto
    ultimately show ?case using Cons.IH [of "v[ix := v ! ix OR push_bit j 1]"] Cons.prems by auto
  qed simp
  then show "length (mark_leftover js ix v) = length v"
    "bit_at (mark_leftover js ix v) i \<longleftrightarrow> (i div 8 = ix \<and> i mod 8 \<in> set js) \<or> bit_at v i" by auto
qed

lemma bitmap_create_ok:
  "\<exists>b. bitmap_create True True n = Some (Some b) \<and> bitmap_wf b \<and> nbits b = n \<and> (\<forall>i. \<not> bm_used b i)"
proof (cases "n mod 8 = 0")
  case True
  then have w: "DIVROUNDUP n 8 = n div 8" "n div 8 * 8 = n" unfolding DIVROUNDUP_def by auto
  have "bitmap_create True True n = Some (Some \<lparr>nbits = n, bv = replicate (n div 8) 0\<rparr>)"
    by (simp add: bitmap_create_def w)
  moreover have "bitmap_wf \<lparr>nbits = n, bv = replicate (n div 8) 0\<rparr>" using w by (auto simp: bitmap_wf_def)
  moreover have "i div 8 < n div 8" if "i < n" for i using that w(2) by linarith
  ultimately show ?thesis by (auto simp: bm_used_def bit_at_def)
next
  case False
  then have "n + 8 - 1 = (n mod 8 - 1) + (n div 8 + 1) * 8"
    using div_mult_mod_eq [of n 8] by simp
  moreover have "n mod 8 - 1 < 8" using mod_less_divisor [of 8 n] by linarith
  ultimately have w: "DIVROUNDUP n 8 = n div 8 + 1"
    unfolding DIVROUNDUP_def by (simp only: div_mult_self1) simp
  have over: "n - n div 8 * 8 = n mod 8" by (simp add: minus_div_mult_eq_mod)
  let ?v = "mark_leftover [n mod 8..<8] (n div 8) (replicate (n div 8 + 1) 0)"
  have pre: "n div 8 < length (replicate (n div 8 + 1) (0::u8))" "\<forall>j\<in>set [n mod 8..<8]. j < 8"
    by (simp_all del: replicate_Suc)
  note ml = mark_leftover_bits [OF pre]
  have zero: "\<not> bit_at (replicate (n div 8 + 1) 0) i" if "i < (n div 8 + 1) * 8" for i
  proof -
    have "i div 8 < n div 8 + 1" using that by (simp add: less_mult_imp_div_less)
    then show ?thesis by (simp add: bit_at_def del: replicate_Suc)
  qed
  have "bitmap_create True True n = Some (Some \<lparr>nbits = n, bv = ?v\<rparr>)"
  proof -
    have "n div 8 * 8 < n" using False div_mult_mod_eq [of n 8] by linarith
    then show ?thesis using False by (simp add: bitmap_create_def w over Let_def)
  qed
  moreover have "bitmap_wf \<lparr>nbits = n, bv = ?v\<rparr>"
  proof -
    have "bit_at ?v i" if "n \<le> i" "i < (n div 8 + 1) * 8" for i
    proof -
      have "n div 8 \<le> i div 8" "i div 8 < n div 8 + 1"
        using that by (simp_all add: div_le_mono less_mult_imp_div_less)
      then have "i div 8 = n div 8" by simp
      moreover from this have "n mod 8 \<le> i mod 8" using that(1) by (simp add: same_word)
      ultimately show ?thesis unfolding ml(2) using mod_less_divisor [of 8 i] by simp
    qed
    then show ?thesis using ml(1) w by (simp add: bitmap_wf_def)
  qed
  moreover have "\<not> bm_used \<lparr>nbits = n, bv = ?v\<rparr> i" for i
  proof (cases "i < n")
    case True
    then have "\<not> (i div 8 = n div 8 \<and> i mod 8 \<ge> n mod 8)" "i < (n div 8 + 1) * 8"
      using same_word [of i n] by (auto simp: dividend_less_div_times)
    with zero show ?thesis using mod_less_divisor [of 8 i] unfolding bm_used_def bitmap.simps ml(2) by simp
  qed (simp add: bm_used_def)
  ultimately show ?thesis by auto
qed

section \<open>The operations on the set of marked bits\<close>

lemma bm_word: "bitmap_wf b \<Longrightarrow> i < nbits b \<Longrightarrow> i div 8 < length (bv b)"
  unfolding bitmap_wf_def using words_bound by metis

lemma bm_used_upd:
  assumes wf: "bitmap_wf b" and i: "i < nbits b"
  shows "bitmap_wf (b\<lparr>bv := (bv b)[i div 8 := bv b ! (i div 8) OR push_bit (i mod 8) 1]\<rparr>)"
    and "bm_used (b\<lparr>bv := (bv b)[i div 8 := bv b ! (i div 8) OR push_bit (i mod 8) 1]\<rparr>) = (bm_used b)(i := True)"
    and "bitmap_wf (b\<lparr>bv := (bv b)[i div 8 := bv b ! (i div 8) AND NOT (push_bit (i mod 8) 1)]\<rparr>)"
    and "bm_used (b\<lparr>bv := (bv b)[i div 8 := bv b ! (i div 8) AND NOT (push_bit (i mod 8) 1)]\<rparr>) = (bm_used b)(i := False)"
  using wf i bit_at_set [OF bm_word [OF wf i]] bit_at_clear [OF bm_word [OF wf i]]
  by (auto simp: bitmap_wf_def bm_used_def fun_eq_iff)

lemma bitmap_mark_eq:
  assumes "bitmap_wf b"
  shows "bitmap_mark b i = (if i < nbits b \<and> \<not> bm_used b i
     then Some (b\<lparr>bv := (bv b)[i div 8 := bv b ! (i div 8) OR push_bit (i mod 8) 1]\<rparr>) else None)"
  using mask_bit [of "i mod 8" "bv b ! (i div 8)"]
  by (auto simp: bitmap_mark_def bitmap_translate_def kassert_bind_if bm_used_def bit_at_def Let_def)

lemma bitmap_unmark_eq:
  assumes "bitmap_wf b"
  shows "bitmap_unmark b i = (if bm_used b i
     then Some (b\<lparr>bv := (bv b)[i div 8 := bv b ! (i div 8) AND NOT (push_bit (i mod 8) 1)]\<rparr>) else None)"
  using mask_bit [of "i mod 8" "bv b ! (i div 8)"]
  by (auto simp: bitmap_unmark_def bitmap_translate_def kassert_bind_if bm_used_def bit_at_def Let_def)

lemma bitmap_isset_iff: "i < nbits b \<Longrightarrow> bitmap_isset b i \<noteq> 0 \<longleftrightarrow> bm_used b i"
  using mask_bit [of "i mod 8" "bv b ! (i div 8)"]
  by (simp add: bitmap_isset_def bitmap_translate_def bm_used_def bit_at_def)

text \<open>Allocation marks the first free bit, and reports an error exactly when there is none.\<close>

lemma bitmap_alloc_eq:
  assumes wf: "bitmap_wf b"
  shows "(\<forall>i<nbits b. bm_used b i) \<Longrightarrow> bitmap_alloc b = Some (Inl ENOSPC, b)"
    and "i < nbits b \<Longrightarrow> \<not> bm_used b i \<Longrightarrow> (\<And>j. j < i \<Longrightarrow> bm_used b j) \<Longrightarrow>
      bitmap_alloc b = Some (Inr i, b\<lparr>bv := (bv b)[i div 8 := bv b ! (i div 8) OR push_bit (i mod 8) 1]\<rparr>)"
proof -
  have len: "length (bv b) = DIVROUNDUP (nbits b) 8" using wf by (simp add: bitmap_wf_def)
  show "bitmap_alloc b = Some (Inl ENOSPC, b)" if all: "\<forall>i<nbits b. bm_used b i"
  proof -
    have "w = 0xff" if "w \<in> set (bv b)" for w
    proof -
      from that obtain k where k: "k < length (bv b)" "w = bv b ! k" by (auto simp: in_set_conv_nth)
      have "bit w j" if j: "j < 8" for j
      proof -
        have "(k * 8 + j) div 8 = k" "(k * 8 + j) mod 8 = j" "k * 8 + j < length (bv b) * 8" using j k by auto
        with wf all have "bit_at (bv b) (k * 8 + j)"
          by (cases "k * 8 + j < nbits b") (auto simp: bitmap_wf_def bm_used_def)
        then show ?thesis using k \<open>_ div 8 = k\<close> \<open>_ mod 8 = j\<close> by (simp add: bit_at_def)
      qed
      then show ?thesis by (simp add: all_bits)
    qed
    then have "find_from (\<lambda>w. w \<noteq> WORD_ALLBITS) 0 (bv b) = None" by (auto simp: find_from_None_iff)
    then show ?thesis by (simp add: bitmap_alloc_def len [symmetric])
  qed
  assume i: "i < nbits b" "\<not> bm_used b i" and first: "\<And>j. j < i \<Longrightarrow> bm_used b j"
  have ib: "i div 8 < length (bv b)" using bm_word [OF wf i(1)] .
  have clear: "\<not> bit (bv b ! (i div 8)) (i mod 8)" using i by (simp add: bm_used_def bit_at_def)
  then have "bv b ! (i div 8) \<noteq> 0xff" unfolding all_bits by (metis mod_less_divisor zero_less_numeral)
  then have "find_from (\<lambda>w. w \<noteq> WORD_ALLBITS) 0 (bv b) \<noteq> None"
    using ib by (auto simp: find_from_None_iff)
  then obtain ix where ix: "find_from (\<lambda>w. w \<noteq> WORD_ALLBITS) 0 (bv b) = Some ix" by blast
  from find_from_SomeD [OF ix] have ix': "ix < length (bv b)" "bv b ! ix \<noteq> 0xff" "\<forall>k<ix. bv b ! k = 0xff" by auto
  have "ix = i div 8"
  proof (rule ccontr)
    assume "ix \<noteq> i div 8"
    with ix'(3) \<open>bv b ! (i div 8) \<noteq> 0xff\<close> have lt: "ix < i div 8" by (metis linorder_neqE_nat)
    have "bit (bv b ! ix) j" if "j < 8" for j
    proof -
      have "(ix * 8 + j) div 8 = ix" "(ix * 8 + j) mod 8 = j" using that by auto
      moreover have "ix * 8 + j < i" using lt that by linarith
      ultimately show ?thesis using first [of "ix * 8 + j"] by (simp add: bm_used_def bit_at_def)
    qed
    with ix'(2) show False by (simp add: all_bits)
  qed
  have "find_from (\<lambda>off. bv b ! ix AND push_bit off 1 = 0) 0 [0..<8] \<noteq> None"
    using clear mask_bit [of "i mod 8" "bv b ! ix"] \<open>ix = i div 8\<close> by (auto simp: find_from_None_iff intro!: bexI [of _ "i mod 8"])
  then obtain off where off: "find_from (\<lambda>off. bv b ! ix AND push_bit off 1 = 0) 0 [0..<8] = Some off" by blast
  from find_from_SomeD [OF off] have off': "off < 8" "bv b ! ix AND push_bit off 1 = 0"
    "\<forall>k<off. \<not> bv b ! ix AND push_bit k 1 = 0" by (auto simp del: upt_Suc)
  have "off = i mod 8"
  proof (rule ccontr)
    assume "off \<noteq> i mod 8"
    then have lt: "off < i mod 8"
      using off'(3) mask_bit [of "i mod 8" "bv b ! ix"] clear \<open>ix = i div 8\<close> by (metis linorder_neqE_nat mod_less_divisor zero_less_numeral)
    then have "ix * 8 + off < i" "(ix * 8 + off) div 8 = ix" "(ix * 8 + off) mod 8 = off"
      using \<open>ix = i div 8\<close> off'(1) by (auto simp: div_mult_mod_eq) presburger
    with first [of "ix * 8 + off"] have "bit (bv b ! ix) off" by (simp add: bm_used_def bit_at_def)
    with off' mask_bit show False by blast
  qed
  with \<open>ix = i div 8\<close> ix off i show "bitmap_alloc b =
      Some (Inr i, b\<lparr>bv := (bv b)[i div 8 := bv b ! (i div 8) OR push_bit (i mod 8) 1]\<rparr>)"
    by (simp add: bitmap_alloc_def len [symmetric] Let_def)
qed

lemma first_unused:
  fixes n :: nat
  assumes "\<not> (\<forall>i<n. P i)"
  obtains i where "i < n" "\<not> P i" "\<And>j. j < i \<Longrightarrow> P j"
proof -
  from assms obtain k where k: "k < n \<and> \<not> P k" by blast
  let ?i = "LEAST k. k < n \<and> \<not> P k"
  have "?i < n \<and> \<not> P ?i" by (rule LeastI [of _ k]) (rule k)
  moreover have "P j" if "j < ?i" for j using not_less_Least [OF that] that calculation by auto
  ultimately show thesis using that by blast
qed

section \<open>The interface\<close>

locale unit_allocator =
  fixes wf :: "'s \<Rightarrow> bool"
    and capacity :: "'s \<Rightarrow> nat"
    and used :: "'s \<Rightarrow> nat \<Rightarrow> bool"
    and alloc :: "'s \<Rightarrow> ((errno + nat) \<times> 's) option"
    and release :: "'s \<Rightarrow> nat \<Rightarrow> 's option"
  assumes alloc_full: "wf s \<Longrightarrow> (\<forall>i<capacity s. used s i) \<Longrightarrow> alloc s = Some (Inl ENOSPC, s)"
    and alloc_unit: "wf s \<Longrightarrow> \<not> (\<forall>i<capacity s. used s i) \<Longrightarrow>
      \<exists>i s'. alloc s = Some (Inr i, s') \<and> i < capacity s \<and> \<not> used s i \<and> wf s' \<and>
        capacity s' = capacity s \<and> used s' = (used s)(i := True)"
    and release_unit: "wf s \<Longrightarrow> used s i \<Longrightarrow>
      \<exists>s'. release s i = Some s' \<and> wf s' \<and> capacity s' = capacity s \<and> used s' = (used s)(i := False)"
    and release_unused: "wf s \<Longrightarrow> \<not> used s i \<Longrightarrow> release s i = None"
begin

lemma alloc_SomeD:
  assumes "wf s" and "alloc s = Some (r, s')"
  shows "(r = Inl ENOSPC \<and> s' = s \<and> (\<forall>i<capacity s. used s i)) \<or>
    (\<exists>i. r = Inr i \<and> i < capacity s \<and> \<not> used s i \<and> wf s' \<and> capacity s' = capacity s \<and>
         used s' = (used s)(i := True))"
  using assms alloc_full [OF assms(1)] alloc_unit [OF assms(1)]
  by (cases "\<forall>i<capacity s. used s i") auto

lemma alloc_total: "wf s \<Longrightarrow> \<exists>r s'. alloc s = Some (r, s') \<and> wf s'"
  using alloc_full alloc_unit by metis

lemma alloc_release:
  assumes "wf s" and "alloc s = Some (Inr i, s1)"
  obtains s2 where "release s1 i = Some s2" "wf s2" "used s2 = used s"
proof -
  from alloc_SomeD [OF assms] have i: "\<not> used s i" "wf s1" "used s1 = (used s)(i := True)" by auto
  from release_unit [OF i(2), of i] i show thesis
    by (auto simp: fun_upd_idem intro: that)
qed

lemma alloc_twice:
  assumes "wf s" and "alloc s = Some (Inr i, s1)" and "alloc s1 = Some (Inr j, s2)"
  shows "i \<noteq> j"
  using alloc_SomeD [OF assms(1,2)] alloc_SomeD [of s1 "Inr j" s2] assms(3) by auto

end

interpretation bitmap: unit_allocator bitmap_wf nbits bm_used bitmap_alloc bitmap_unmark
proof unfold_locales
  fix b i
  assume wf: "bitmap_wf b"
  show "\<forall>i<nbits b. bm_used b i \<Longrightarrow> bitmap_alloc b = Some (Inl ENOSPC, b)"
    by (rule bitmap_alloc_eq(1) [OF wf])
  show "\<not> (\<forall>i<nbits b. bm_used b i) \<Longrightarrow> \<exists>i b'. bitmap_alloc b = Some (Inr i, b') \<and> i < nbits b \<and> \<not> bm_used b i \<and>
      bitmap_wf b' \<and> nbits b' = nbits b \<and> bm_used b' = (bm_used b)(i := True)"
  proof (erule first_unused)
    fix i assume i: "i < nbits b" "\<not> bm_used b i" and first: "\<And>j. j < i \<Longrightarrow> bm_used b j"
    show ?thesis
      using bitmap_alloc_eq(2) [OF wf i first] bm_used_upd(1,2) [OF wf i(1)] i by auto
  qed
  show "bm_used b i \<Longrightarrow> \<exists>b'. bitmap_unmark b i = Some b' \<and> bitmap_wf b' \<and> nbits b' = nbits b \<and>
      bm_used b' = (bm_used b)(i := False)"
    using bm_used_upd(3,4) [OF wf, of i] by (auto simp: bitmap_unmark_eq [OF wf] bm_used_def)
  show "\<not> bm_used b i \<Longrightarrow> bitmap_unmark b i = None" by (simp add: bitmap_unmark_eq [OF wf])
qed

section \<open>Allocation and release\<close>

text \<open>C18: A bitmap allocates units: \<open>bitmap_alloc\<close> of a well-formed bitmap always returns; it
  reports \<open>ENOSPC\<close>, unchanged, exactly when every unit is in use, and otherwise a unit inside the
  bitmap that was free, which it marks and leaves every other as it was; \<open>bitmap_unmark\<close> of that
  unit brings back the set of used units.\<close>

theorem bitmap_allocates:
  assumes "bitmap_wf b"
  shows "(\<forall>i<nbits b. bm_used b i) \<and> bitmap_alloc b = Some (Inl ENOSPC, b) \<or>
    (\<exists>i b' b''. bitmap_alloc b = Some (Inr i, b') \<and> i < nbits b \<and> \<not> bm_used b i \<and> bitmap_wf b' \<and>
       nbits b' = nbits b \<and> bm_used b' = (bm_used b)(i := True) \<and>
       bitmap_unmark b' i = Some b'' \<and> bm_used b'' = bm_used b)"
proof (cases "\<forall>i<nbits b. bm_used b i")
  case True
  with bitmap.alloc_full [OF assms] show ?thesis by blast
next
  case False
  from bitmap.alloc_unit [OF assms False] obtain i b' where
    a: "bitmap_alloc b = Some (Inr i, b')" "i < nbits b" "\<not> bm_used b i" "bitmap_wf b'" "nbits b' = nbits b"
      "bm_used b' = (bm_used b)(i := True)" by blast
  from bitmap.alloc_release [OF assms a(1)] a show ?thesis by metis
qed

theorem bitmap_allocates_witness:
  "\<exists>b b'. bitmap_create True True 13 = Some (Some b) \<and> bitmap_alloc b = Some (Inr 0, b') \<and> bm_used b' 0"
proof -
  from bitmap_create_ok [of 13] obtain b where b: "bitmap_create True True 13 = Some (Some b)" "bitmap_wf b"
    "nbits b = 13" "\<forall>i. \<not> bm_used b i" by blast
  from bitmap_allocates [OF b(2)] b(3,4) have "\<exists>i b'. bitmap_alloc b = Some (Inr i, b') \<and> bm_used b' i" by fastforce
  moreover have "\<exists>b'. bitmap_alloc b = Some (Inr 0, b')"
    using bitmap_alloc_eq(2) [OF b(2), of 0] b(3,4) by auto
  ultimately show ?thesis using b(1) by auto
qed

end
