(* ===== verification/Lhd.thy ===== *)
theory Lhd
  imports Uio "HOL-Library.Signed_Division"
begin

text \<open>
  The disk driver \<open>kern/dev/lamebus/lhd.c\<close>. The disk is an array of sectors of 512 bytes and the status
  codes it gives to the requests to come, reads and writes apart: the environment. Once a list is used up the disk
  gives success. A command is started and waited for in one step, as the semaphores of the driver allow one at
  a time; the interrupt handler is the conversion of its status code. A command that fails leaves disk and
  on-card buffer alone.
\<close>

section \<open>State\<close>

abbreviation LHD_SECTSIZE :: nat where "LHD_SECTSIZE \<equiv> 512"
abbreviation LHD_IDLE :: u32 where "LHD_IDLE \<equiv> 0"
abbreviation LHD_WORKING :: u32 where "LHD_WORKING \<equiv> 1"
abbreviation LHD_OK :: u32 where "LHD_OK \<equiv> 4"
abbreviation LHD_INVSECT :: u32 where "LHD_INVSECT \<equiv> 12"
abbreviation LHD_MEDIA :: u32 where "LHD_MEDIA \<equiv> 20"
abbreviation LHD_STATEMASK :: u32 where "LHD_STATEMASK \<equiv> 0x1d"

type_synonym block = "u8 list"

record lhd = memories +
  disk :: "nat \<Rightarrow> block"
  d_nblocks :: u32
  rd_codes :: "u32 list"
  wr_codes :: "u32 list"

section \<open>Operations\<close>

definition lhd_code_to_errno :: "u32 \<Rightarrow> errno option" where
  "lhd_code_to_errno code =
     (let st = code AND LHD_STATEMASK in
      if st = LHD_OK then None else if st = LHD_INVSECT then Some EINVAL else if st = LHD_MEDIA then Some EIO
      else Some EAGAIN)"

text \<open>The interrupt handler: the result it records for the waiting driver, if the disk is done. Reading the
  register clears it.\<close>

definition lhd_irq :: "u32 \<Rightarrow> errno option option \<times> u32" where
  "lhd_irq val =
     (let st = val AND LHD_STATEMASK in
      if st = LHD_OK \<or> st = LHD_INVSECT \<or> st = LHD_MEDIA then (Some (lhd_code_to_errno val), 0) else (None, val))"

definition next_code :: "u32 list \<Rightarrow> u32" where
  "next_code codes = (case codes of [] \<Rightarrow> LHD_OK | c # _ \<Rightarrow> c)"

text \<open>The loop of \<open>lhd_io\<close> over the sectors.\<close>

fun lhd_sectors :: "nat option \<Rightarrow> nat \<Rightarrow> u32 \<Rightarrow> uiov \<Rightarrow> 'a lhd_scheme \<Rightarrow> (errno option \<times> uiov \<times> 'a lhd_scheme) option" where
  "lhd_sectors cur 0 sector u s = Some (None, u, s)"
| "lhd_sectors cur (Suc n) sector u s =
     (case uio_rw u of
        UIO_WRITE \<Rightarrow> do {
          (result, buf, u, s) \<leftarrow> uiomove cur (replicate LHD_SECTSIZE 0) u s;
          (case result of
             Some e \<Rightarrow> Some (Some e, u, s)
           | None \<Rightarrow>
               let result = lhd_code_to_errno (next_code (wr_codes s));
                   s = s\<lparr>wr_codes := tl (wr_codes s)\<rparr>
               in (case result of
                     Some e \<Rightarrow> Some (Some e, u, s)
                   | None \<Rightarrow> lhd_sectors cur n (sector + 1) u (s\<lparr>disk := (disk s)(unat sector := buf)\<rparr>))) }
      | UIO_READ \<Rightarrow>
          let result = lhd_code_to_errno (next_code (rd_codes s));
              s = s\<lparr>rd_codes := tl (rd_codes s)\<rparr>
          in (case result of
                Some e \<Rightarrow> Some (Some e, u, s)
              | None \<Rightarrow> do {
                  (result, buf, u, s) \<leftarrow> uiomove cur (disk s (unat sector)) u s;
                  (case result of
                     Some e \<Rightarrow> Some (Some e, u, s)
                   | None \<Rightarrow> lhd_sectors cur n (sector + 1) u s) }))"

definition lhd_io :: "nat option \<Rightarrow> uiov \<Rightarrow> 'a lhd_scheme \<Rightarrow> (errno option \<times> uiov \<times> 'a lhd_scheme) option" where
  "lhd_io cur u s =
     (let sector = (word_of_int (uio_offset u sdiv int LHD_SECTSIZE) :: u32);
          sectoff = (word_of_int (uio_offset u smod int LHD_SECTSIZE) :: u32);
          len = unat (uio_resid u) div LHD_SECTSIZE;
          lenoff = unat (uio_resid u) mod LHD_SECTSIZE
      in if sectoff \<noteq> 0 \<or> lenoff \<noteq> 0 then Some (Some EINVAL, u, s)
         else if sector + word_of_nat len > d_nblocks s then Some (Some EINVAL, u, s)
         else lhd_sectors cur len sector u s)"

definition lhd_eachopen :: "u32 \<Rightarrow> errno option" where
  "lhd_eachopen openflags = None"

definition lhd_ioctl :: "errno option" where
  "lhd_ioctl = Some EIOCTL"

section \<open>One block\<close>

lemma same_rest_lhd:
  assumes "same_rest s (s' :: 'a lhd_scheme)"
  shows "disk s' = disk s" and "d_nblocks s' = d_nblocks s" and "rd_codes s' = rd_codes s" and "wr_codes s' = wr_codes s"
    and "lhd.more s' = lhd.more s" and "accessible s' = accessible s"
  using assms by (auto simp: same_rest_def)

lemma moved_rest: "moved bs u s u' s' \<Longrightarrow> same_rest s s'"
  by (simp add: moved_def)

text \<open>A request for block \<open>b\<close>.\<close>

definition block_request :: "nat option \<Rightarrow> uiov \<Rightarrow> u32 \<Rightarrow> 'a lhd_scheme \<Rightarrow> bool" where
  "block_request cur u b s \<longleftrightarrow> uio_ready cur u \<and> uio_resid u = word_of_nat LHD_SECTSIZE \<and>
     uio_offset u = int (unat b) * int LHD_SECTSIZE \<and> unat b < unat (d_nblocks s)"

lemma block_offset: "(int n * 512) sdiv 512 = int n" "(int n * 512) smod 512 = 0"
  by (cases "n = 0"; simp add: signed_divide_int_def signed_modulo_int_def sgn_mult)+

lemma lhd_block:
  assumes "block_request cur u b s"
  shows "lhd_io cur u s = lhd_sectors cur 1 b u s"
proof -
  have off: "uio_offset u = int (unat b) * 512" and res: "unat (uio_resid u) = 512" and b: "unat b < unat (d_nblocks s)"
    using assms by (simp_all add: block_request_def)
  have "unat (b + 1) = unat b + 1" using b unat_add_lem [of b 1] unat_lt_32 [of "d_nblocks s"] by simp
  then have "\<not> b + 1 > d_nblocks s" using b by (simp add: word_less_nat_alt)
  moreover have "uio_offset u sdiv 512 = int (unat b)" "uio_offset u smod 512 = 0"
    unfolding off by (rule block_offset)+
  ultimately show ?thesis by (simp add: lhd_io_def Let_def res)
qed

lemma lhd_read_block:
  assumes req: "block_request cur u b s" and rd: "uio_rw u = UIO_READ" and len: "length (disk s (unat b)) = LHD_SECTSIZE"
  shows "\<exists>r u' s'. lhd_io cur u s = Some (r, u', s') \<and> uio_ready cur u' \<and>
    (case r of
       None \<Rightarrow> moved (disk s (unat b)) u (s\<lparr>rd_codes := tl (rd_codes s)\<rparr>) u' s'
     | Some e \<Rightarrow> u' = u \<and> same_rest (s\<lparr>rd_codes := tl (rd_codes s)\<rparr>) s' \<and>
         (e = EFAULT \<and> uio_segflg u \<noteq> UIO_SYSSPACE \<or>
          lhd_code_to_errno (next_code (rd_codes s)) = Some e \<and> s' = s\<lparr>rd_codes := tl (rd_codes s)\<rparr>))"
proof (cases "lhd_code_to_errno (next_code (rd_codes s))")
  case (Some e)
  with req rd have "lhd_io cur u s = Some (Some e, u, s\<lparr>rd_codes := tl (rd_codes s)\<rparr>)"
    by (simp add: lhd_block [OF req] Let_def)
  with Some req show ?thesis by (simp add: block_request_def)
next
  case None
  let ?s = "s\<lparr>rd_codes := tl (rd_codes s)\<rparr>"
  have ready: "uio_ready cur u" and fits: "length (disk s (unat b)) \<le> unat (uio_resid u)" using req len by (simp_all add: block_request_def)
  from uiomove_ok [OF ready fits, of ?s] rd obtain r buf u' and s' :: "'a lhd_scheme" where
    "uiomove cur (disk s (unat b)) u ?s = Some (r, buf, u', s')" "uio_ready cur u'"
    "case r of None \<Rightarrow> moved (disk s (unat b)) u ?s u' s' | Some e \<Rightarrow> e = EFAULT \<and> u' = u \<and> same_rest ?s s' \<and> uio_segflg u \<noteq> UIO_SYSSPACE"
    by (auto split: option.splits)
  then have "lhd_io cur u s = Some (r, u', s')" "uio_ready cur u'" "case r of None \<Rightarrow> moved (disk s (unat b)) u ?s u' s'
    | Some e \<Rightarrow> e = EFAULT \<and> u' = u \<and> same_rest ?s s' \<and> uio_segflg u \<noteq> UIO_SYSSPACE"
    using None rd by (simp_all add: lhd_block [OF req] Let_def split: option.splits)
  then show ?thesis by (intro exI [of _ r] exI [of _ u'] exI [of _ s']) (auto split: option.splits)
qed

lemma lhd_write_block:
  assumes req: "block_request cur u b s" and wr: "uio_rw u = UIO_WRITE"
  shows "\<exists>r u' s'. lhd_io cur u s = Some (r, u', s') \<and> uio_ready cur u' \<and>
    (if r = Some EFAULT \<and> u' = u then same_rest s s' \<and> umem s' = umem s \<and> uio_segflg u \<noteq> UIO_SYSSPACE
     else \<exists>bs s1. length bs = LHD_SECTSIZE \<and> moved bs u s u' s1 \<and> r = lhd_code_to_errno (next_code (wr_codes s)) \<and>
       s' = s1\<lparr>wr_codes := tl (wr_codes s), disk := (if r = None then (disk s)(unat b := bs) else disk s)\<rparr>)"
proof -
  have ready: "uio_ready cur u" and fits: "length (replicate LHD_SECTSIZE (0::u8)) \<le> unat (uio_resid u)" using req by (simp_all add: block_request_def)
  from uiomove_ok [OF ready fits, of s] wr obtain r bs u1 and s1 :: "'a lhd_scheme" where
    mv: "uiomove cur (replicate LHD_SECTSIZE 0) u s = Some (r, bs, u1, s1)" "uio_ready cur u1" "length bs = LHD_SECTSIZE"
    "case r of None \<Rightarrow> moved bs u s u1 s1
     | Some e \<Rightarrow> e = EFAULT \<and> u1 = u \<and> same_rest s s1 \<and> uio_segflg u \<noteq> UIO_SYSSPACE \<and> umem s1 = umem s" by (auto split: option.splits)
  show ?thesis
  proof (cases r)
    case (Some e)
    with mv wr have "lhd_io cur u s = Some (r, u, s1)" by (simp add: lhd_block [OF req])
    with Some mv show ?thesis by (intro exI [of _ r] exI [of _ u] exI [of _ s1]) simp
  next
    case None
    let ?r = "lhd_code_to_errno (next_code (wr_codes s))"
    let ?s = "s1\<lparr>wr_codes := tl (wr_codes s), disk := (if ?r = None then (disk s)(unat b := bs) else disk s)\<rparr>"
    from None mv(4) have m: "moved bs u s u1 s1" by simp
    note same = same_rest_lhd [OF moved_rest [OF m]]
    have "lhd_io cur u s = Some (?r, u1, ?s)"
    proof (cases ?r)
      case None
      with mv(1) \<open>r = None\<close> wr same show ?thesis by (simp add: lhd_block [OF req] Let_def)
    next
      case (Some e)
      have "s1\<lparr>wr_codes := c, disk := disk s\<rparr> = s1\<lparr>wr_codes := c\<rparr>" for c using same(1) by simp
      with Some mv(1) \<open>r = None\<close> wr same show ?thesis by (simp add: lhd_block [OF req] Let_def)
    qed
    moreover have "u1 \<noteq> u" using m mv(3) unfolding moved_def by force
    ultimately show ?thesis using m mv(2,3) by (intro exI [of _ ?r] exI [of _ u1] exI [of _ ?s]) auto
  qed
qed

end
