(* ===== verification/SfsBlocks.thy ===== *)
theory SfsBlocks
  imports Bitmap Lhd
begin

text \<open>
  The disk blocks of the simple file system: \<open>kern/fs/sfs/sfs_balloc.c\<close>, \<open>sfs_bmap.c\<close> and the block
  transfers of \<open>sfs_io.c\<close>, with the structures of \<open>kern/include/kern/sfs.h\<close> and
  \<open>kern/include/sfs.h\<close>. A block is a list of 512 bytes; a buffer of block numbers is read and
  written as such a list, most significant byte first, the order of the machine. The callers hold
  the big lock, which the assertions here ask for.

  The file system extends the state of the disk it is mounted on, and that the memories of a transfer. The
  buffers of the code are static; here they are values, and the buffer of a read starts with zeros.
\<close>

section \<open>State\<close>

abbreviation SFS_BLOCKSIZE :: nat where "SFS_BLOCKSIZE \<equiv> 512"
abbreviation SFS_NDIRECT :: nat where "SFS_NDIRECT \<equiv> 15"
abbreviation SFS_NINDIRECT :: nat where "SFS_NINDIRECT \<equiv> 1"
abbreviation SFS_DBPERIDB :: nat where "SFS_DBPERIDB \<equiv> 128"
abbreviation SFS_NOINO :: u32 where "SFS_NOINO \<equiv> 0"
abbreviation SFS_ROOTDIR_INO :: u32 where "SFS_ROOTDIR_INO \<equiv> 1"
abbreviation SFS_TYPE_INVAL :: u16 where "SFS_TYPE_INVAL \<equiv> 0"
abbreviation SFS_TYPE_FILE :: u16 where "SFS_TYPE_FILE \<equiv> 1"
abbreviation SFS_TYPE_DIR :: u16 where "SFS_TYPE_DIR \<equiv> 2"

record sfs_dinode =
  sfi_size :: u32
  sfi_type :: u16
  sfi_linkcount :: u16
  sfi_direct :: "u32 list"
  sfi_indirect :: u32
  sfi_waste :: "u32 list"

record sfs_vnode =
  sv_i :: sfs_dinode
  sv_ino :: u32
  sv_dirty :: bool

record sfs_fs = lhd +
  sb_nblocks :: u32
  sfs_superdirty :: bool
  sfs_freemap :: bitmap
  sfs_freemapdirty :: bool

section \<open>Words in blocks\<close>

definition word_bytes :: "u32 \<Rightarrow> u8 list" where
  "word_bytes w = [ucast (drop_bit 24 w), ucast (drop_bit 16 w), ucast (drop_bit 8 w), ucast w]"

definition bytes_word :: "u8 \<Rightarrow> u8 \<Rightarrow> u8 \<Rightarrow> u8 \<Rightarrow> u32" where
  "bytes_word a b c d = push_bit 24 (ucast a) OR push_bit 16 (ucast b) OR push_bit 8 (ucast c) OR ucast d"

fun words_of :: "u8 list \<Rightarrow> u32 list" where
  "words_of (a # b # c # d # bs) = bytes_word a b c d # words_of bs"
| "words_of _ = []"

definition bytes_of :: "u32 list \<Rightarrow> u8 list" where
  "bytes_of ws = concat (map word_bytes ws)"

lemma bytes_word_bytes: "bytes_word (ucast (drop_bit 24 w)) (ucast (drop_bit 16 w)) (ucast (drop_bit 8 w)) (ucast w) = w"
proof (rule bit_word_eqI)
  fix n assume "n < LENGTH(32)"
  then consider "n < 8" | "8 \<le> n" "n < 16" | "16 \<le> n" "n < 24" | "24 \<le> n" "n < 32" by fastforce
  then show "bit (bytes_word (ucast (drop_bit 24 w)) (ucast (drop_bit 16 w)) (ucast (drop_bit 8 w)) (ucast w)) n = bit w n"
    by cases (auto simp: bytes_word_def bit_simps)
qed

lemma words_of_bytes_of [simp]: "words_of (bytes_of ws) = ws"
  by (induction ws) (simp_all add: bytes_of_def word_bytes_def bytes_word_bytes)

lemma length_bytes_of [simp]: "length (bytes_of ws) = 4 * length ws"
  by (induction ws) (simp_all add: bytes_of_def word_bytes_def)

lemma length_words_of [simp]: "length (words_of bs) = length bs div 4"
  by (induction bs rule: words_of.induct) simp_all

lemma words_of_zeros: "words_of (replicate (4 * n) 0) = replicate n 0"
proof (induction n)
  case (Suc n)
  have "replicate (4 * Suc n) (0::u8) = 0 # 0 # 0 # 0 # replicate (4 * n) 0"
    by (simp add: numeral_eq_Suc)
  with Suc show ?case by (simp add: bytes_word_def)
qed simp

section \<open>Block transfers\<close>

text \<open>Ten retries.\<close>

fun sfs_rwblock :: "nat \<Rightarrow> nat option \<Rightarrow> uiov \<Rightarrow> sfs_fs \<Rightarrow> (errno option \<times> uiov \<times> sfs_fs) option" where
  "sfs_rwblock 0 cur u s = do {
     (result, u, s) \<leftarrow> lhd_io cur u s;
     if result = Some EINVAL then None else Some (result, u, s) }"
| "sfs_rwblock (Suc tries) cur u s = do {
     (result, u, s) \<leftarrow> lhd_io cur u s;
     if result = Some EINVAL then None
     else if result = Some EIO then sfs_rwblock tries cur u s
     else Some (result, u, s) }"

definition SFSUIO :: "block \<Rightarrow> u32 \<Rightarrow> uio_rw \<Rightarrow> uiov" where
  "SFSUIO ptr blk rw = uio_kinit ptr (int (unat blk) * int SFS_BLOCKSIZE) rw"

definition kbuffer :: "uiov \<Rightarrow> u8 list" where
  "kbuffer u = (let iov = hd (uio_iov u) in iov_kpast iov @ iov_kbase iov)"

definition sfs_readblock :: "u32 \<Rightarrow> sfs_fs \<Rightarrow> ((errno + block) \<times> sfs_fs) option" where
  "sfs_readblock blk s = do {
     (result, u, s) \<leftarrow> sfs_rwblock 10 None (SFSUIO (replicate SFS_BLOCKSIZE 0) blk UIO_READ) s;
     Some (case result of Some e \<Rightarrow> Inl e | None \<Rightarrow> Inr (kbuffer u), s) }"

definition sfs_writeblock :: "u32 \<Rightarrow> block \<Rightarrow> sfs_fs \<Rightarrow> (errno option \<times> sfs_fs) option" where
  "sfs_writeblock blk data s = do {
     kassert (length data = SFS_BLOCKSIZE);
     (result, u, s) \<leftarrow> sfs_rwblock 10 None (SFSUIO data blk UIO_WRITE) s;
     Some (result, s) }"

section \<open>Allocation\<close>

definition zeros :: block where
  "zeros = replicate SFS_BLOCKSIZE 0"

definition sfs_clearblock :: "u32 \<Rightarrow> sfs_fs \<Rightarrow> (errno option \<times> sfs_fs) option" where
  "sfs_clearblock blk s = sfs_writeblock blk zeros s"

definition sfs_balloc :: "sfs_fs \<Rightarrow> ((errno + u32) \<times> sfs_fs) option" where
  "sfs_balloc s = do {
     (result, fm) \<leftarrow> bitmap_alloc (sfs_freemap s);
     (case result of
        Inl e \<Rightarrow> Some (Inl e, s\<lparr>sfs_freemap := fm\<rparr>)
      | Inr n \<Rightarrow> do {
          let s = s\<lparr>sfs_freemap := fm, sfs_freemapdirty := True\<rparr>;
          let diskblock = word_of_nat n;
          kassert (\<not> diskblock \<ge> sb_nblocks s);
          (result, s) \<leftarrow> sfs_clearblock diskblock s;
          (case result of
             Some e \<Rightarrow> do {
               fm \<leftarrow> bitmap_unmark (sfs_freemap s) (unat diskblock);
               Some (Inl e, s\<lparr>sfs_freemap := fm\<rparr>) }
           | None \<Rightarrow> Some (Inr diskblock, s)) }) }"

definition sfs_bfree :: "u32 \<Rightarrow> sfs_fs \<Rightarrow> sfs_fs option" where
  "sfs_bfree diskblock s = do {
     fm \<leftarrow> bitmap_unmark (sfs_freemap s) (unat diskblock);
     Some (s\<lparr>sfs_freemap := fm, sfs_freemapdirty := True\<rparr>) }"

definition sfs_bused :: "u32 \<Rightarrow> sfs_fs \<Rightarrow> bool option" where
  "sfs_bused diskblock s = do {
     kassert (\<not> diskblock \<ge> sb_nblocks s);
     Some (bitmap_isset (sfs_freemap s) (unat diskblock) \<noteq> 0) }"

section \<open>The map of a file\<close>

text \<open>The check both ends of \<open>sfs_bmap\<close> make.\<close>

definition bmap_done :: "u32 \<Rightarrow> sfs_vnode \<Rightarrow> sfs_fs \<Rightarrow> ((errno + u32) \<times> sfs_vnode \<times> sfs_fs) option" where
  "bmap_done block sv s =
     (if block \<noteq> 0 then do {
        used \<leftarrow> sfs_bused block s;
        kassert used;
        Some (Inr block, sv, s) }
      else Some (Inr block, sv, s))"

definition set_direct :: "nat \<Rightarrow> u32 \<Rightarrow> sfs_vnode \<Rightarrow> sfs_vnode" where
  "set_direct i b sv = sv\<lparr>sv_i := (sv_i sv)\<lparr>sfi_direct := (sfi_direct (sv_i sv))[i := b]\<rparr>, sv_dirty := True\<rparr>"

definition set_indirect :: "u32 \<Rightarrow> sfs_vnode \<Rightarrow> sfs_vnode" where
  "set_indirect b sv = sv\<lparr>sv_i := (sv_i sv)\<lparr>sfi_indirect := b\<rparr>, sv_dirty := True\<rparr>"

text \<open>The end of \<open>sfs_bmap\<close>, with the indirect block in its buffer.\<close>

definition bmap_indirect :: "nat \<Rightarrow> bool \<Rightarrow> u32 \<Rightarrow> u32 list \<Rightarrow> sfs_vnode \<Rightarrow> sfs_fs \<Rightarrow> ((errno + u32) \<times> sfs_vnode \<times> sfs_fs) option" where
  "bmap_indirect idoff doalloc idblock idbuf sv s =
     (let block = idbuf ! idoff in
      if block = 0 \<and> doalloc then do {
        (result, s) \<leftarrow> sfs_balloc s;
        (case result of
           Inl e \<Rightarrow> Some (Inl e, sv, s)
         | Inr block \<Rightarrow> do {
             (result, s) \<leftarrow> sfs_writeblock idblock (bytes_of (idbuf[idoff := block])) s;
             (case result of
                Some e \<Rightarrow> Some (Inl e, sv, s)
              | None \<Rightarrow> bmap_done block sv s) }) }
      else bmap_done block sv s)"

definition sfs_bmap :: "sfs_vnode \<Rightarrow> u32 \<Rightarrow> bool \<Rightarrow> sfs_fs \<Rightarrow> ((errno + u32) \<times> sfs_vnode \<times> sfs_fs) option" where
  "sfs_bmap sv fileblock doalloc s =
     (if unat fileblock < SFS_NDIRECT then
        (let block = sfi_direct (sv_i sv) ! unat fileblock in
         if block = 0 \<and> doalloc then do {
           (result, s) \<leftarrow> sfs_balloc s;
           (case result of
              Inl e \<Rightarrow> Some (Inl e, sv, s)
            | Inr block \<Rightarrow> bmap_done block (set_direct (unat fileblock) block sv) s) }
         else bmap_done block sv s)
      else
        (let idx = unat fileblock - SFS_NDIRECT;
             idnum = idx div SFS_DBPERIDB;
             idoff = idx mod SFS_DBPERIDB;
             idblock = sfi_indirect (sv_i sv)
         in if idnum \<ge> SFS_NINDIRECT then Some (Inl EFBIG, sv, s)
            else if idblock = 0 \<and> \<not> doalloc then Some (Inr 0, sv, s)
            else if idblock = 0 then do {
              (result, s) \<leftarrow> sfs_balloc s;
              (case result of
                 Inl e \<Rightarrow> Some (Inl e, sv, s)
               | Inr idblock \<Rightarrow>
                   bmap_indirect idoff doalloc idblock (replicate SFS_DBPERIDB 0) (set_indirect idblock sv) s) }
            else do {
              (result, s) \<leftarrow> sfs_readblock idblock s;
              (case result of
                 Inl e \<Rightarrow> Some (Inl e, sv, s)
               | Inr b \<Rightarrow> bmap_indirect idoff doalloc idblock (words_of b) sv s) }))"

section \<open>Truncation\<close>

fun trunc_direct :: "u32 \<Rightarrow> nat list \<Rightarrow> sfs_vnode \<Rightarrow> sfs_fs \<Rightarrow> (sfs_vnode \<times> sfs_fs) option" where
  "trunc_direct blocklen [] sv s = Some (sv, s)"
| "trunc_direct blocklen (i # is) sv s =
     (let block = sfi_direct (sv_i sv) ! i in
      if i \<ge> unat blocklen \<and> block \<noteq> 0 then do {
        s \<leftarrow> sfs_bfree block s;
        trunc_direct blocklen is (set_direct i 0 sv) s }
      else trunc_direct blocklen is sv s)"

text \<open>The loop over the indirect block from file block \<open>b\<close> on: the entries left, and whether one was
  dropped.\<close>

fun trunc_indirect :: "u32 \<Rightarrow> nat \<Rightarrow> u32 list \<Rightarrow> sfs_fs \<Rightarrow> (u32 list \<times> bool \<times> sfs_fs) option" where
  "trunc_indirect blocklen b [] s = Some ([], False, s)"
| "trunc_indirect blocklen b (x # xs) s =
     (if unat blocklen < b \<and> x \<noteq> 0 then do {
        s \<leftarrow> sfs_bfree x s;
        (xs, iddirty, s) \<leftarrow> trunc_indirect blocklen (b + 1) xs s;
        Some (0 # xs, True, s) }
      else do {
        (xs, iddirty, s) \<leftarrow> trunc_indirect blocklen (b + 1) xs s;
        Some (x # xs, iddirty, s) })"

definition trunc_done :: "int \<Rightarrow> sfs_vnode \<Rightarrow> sfs_vnode" where
  "trunc_done len sv = sv\<lparr>sv_i := (sv_i sv)\<lparr>sfi_size := word_of_int len\<rparr>, sv_dirty := True\<rparr>"

definition sfs_itrunc :: "sfs_vnode \<Rightarrow> int \<Rightarrow> sfs_fs \<Rightarrow> (errno option \<times> sfs_vnode \<times> sfs_fs) option" where
  "sfs_itrunc sv len s = do {
     let blocklen = (word_of_int ((len + int SFS_BLOCKSIZE - 1) sdiv int SFS_BLOCKSIZE) :: u32);
     (sv, s) \<leftarrow> trunc_direct blocklen [0..<SFS_NDIRECT] sv s;
     let idblock = sfi_indirect (sv_i sv);
     let baseblock = SFS_NDIRECT;
     let highblock = baseblock + SFS_DBPERIDB - 1;
     if unat blocklen < highblock \<and> idblock \<noteq> 0 then do {
       (result, s) \<leftarrow> sfs_readblock idblock s;
       (case result of
          Inl e \<Rightarrow> Some (Some e, sv, s)
        | Inr b \<Rightarrow> do {
            (idbuf, iddirty, s) \<leftarrow> trunc_indirect blocklen baseblock (words_of b) s;
            if \<forall>x\<in>set idbuf. x = 0 then do {
              s \<leftarrow> sfs_bfree idblock s;
              Some (None, trunc_done len (set_indirect 0 sv), s) }
            else if iddirty then do {
              (result, s) \<leftarrow> sfs_writeblock idblock (bytes_of idbuf) s;
              (case result of
                 Some e \<Rightarrow> Some (Some e, sv, s)
               | None \<Rightarrow> Some (None, trunc_done len sv, s)) }
            else Some (None, trunc_done len sv, s) }) }
     else Some (None, trunc_done len sv, s) }"

end
