(* ===== verification/SfsBmap.thy ===== *)
theory SfsBmap
  imports SfsBlocks
begin

text \<open>
  The map from the blocks of a file to disk blocks: its invariant (every block once, marked in use),
  what \<open>sfs_bmap\<close> and \<open>sfs_itrunc\<close> make of it, and of the bytes of the file. Read errors of the disk are allowed
  everywhere, except the one that says that a request was out of range; writes must succeed, because the
  file system does not notice when one fails (theory SfsProperties).
\<close>

section \<open>Invariants\<close>

text \<open>Blocks the freemap has beyond the volume are marked in use, and so is the superblock.\<close>

definition fs_ok :: "sfs_fs \<Rightarrow> bool" where
  "fs_ok s \<longleftrightarrow> bitmap_wf (sfs_freemap s) \<and> unat (sb_nblocks s) \<le> unat (d_nblocks s) \<and> unat (sb_nblocks s) \<le> nbits (sfs_freemap s) \<and>
     (\<forall>i<nbits (sfs_freemap s). \<not> bm_used (sfs_freemap s) i \<longrightarrow> i < unat (sb_nblocks s)) \<and> bm_used (sfs_freemap s) 0 \<and>
     (\<forall>b. length (disk s b) = SFS_BLOCKSIZE) \<and> Some EINVAL \<notin> lhd_code_to_errno ` set (rd_codes s) \<and> wr_codes s = []"

abbreviation in_use :: "sfs_fs \<Rightarrow> u32 \<Rightarrow> bool" where
  "in_use s b \<equiv> bm_used (sfs_freemap s) (unat b)"

text \<open>The same volume, and a device that gave no more errors gives none now.\<close>

definition same_volume :: "sfs_fs \<Rightarrow> sfs_fs \<Rightarrow> bool" where
  "same_volume s s' \<longleftrightarrow> sb_nblocks s' = sb_nblocks s \<and> d_nblocks s' = d_nblocks s \<and>
     wr_codes s' = wr_codes s \<and> umem s' = umem s \<and> (rd_codes s = [] \<longrightarrow> rd_codes s' = [])"

definition idwords :: "u32 \<Rightarrow> sfs_fs \<Rightarrow> u32 list" where
  "idwords ib s = (if ib = 0 then replicate SFS_DBPERIDB 0 else words_of (disk s (unat ib)))"

text \<open>The disk block of a file block, 0 for none.\<close>

definition file_map :: "sfs_vnode \<Rightarrow> sfs_fs \<Rightarrow> nat \<Rightarrow> u32" where
  "file_map sv s i = (if i < SFS_NDIRECT then sfi_direct (sv_i sv) ! i
     else if i < SFS_NDIRECT + SFS_DBPERIDB then idwords (sfi_indirect (sv_i sv)) s ! (i - SFS_NDIRECT)
     else 0)"

text \<open>The volume is sound; the file's blocks are different, in use, on the volume and not in \<open>R\<close>, the
  blocks in use for something else.\<close>

definition owned :: "u32 set \<Rightarrow> sfs_fs \<Rightarrow> u32 \<Rightarrow> bool" where
  "owned R s b \<longleftrightarrow> in_use s b \<and> unat b < unat (sb_nblocks s) \<and> b \<notin> R"

definition file_ok :: "u32 set \<Rightarrow> sfs_vnode \<Rightarrow> sfs_fs \<Rightarrow> bool" where
  "file_ok R sv s \<longleftrightarrow> fs_ok s \<and> length (sfi_direct (sv_i sv)) = SFS_NDIRECT \<and>
     (\<forall>i j. file_map sv s i \<noteq> 0 \<longrightarrow> file_map sv s i = file_map sv s j \<longrightarrow> i = j) \<and>
     (\<forall>i. file_map sv s i \<noteq> 0 \<longrightarrow> owned R s (file_map sv s i) \<and> file_map sv s i \<noteq> sfi_indirect (sv_i sv)) \<and>
     (sfi_indirect (sv_i sv) \<noteq> 0 \<longrightarrow> owned R s (sfi_indirect (sv_i sv))) \<and> (\<forall>b\<in>R. in_use s b)"

definition file_byte :: "sfs_vnode \<Rightarrow> sfs_fs \<Rightarrow> nat \<Rightarrow> u8" where
  "file_byte sv s off = (let b = file_map sv s (off div SFS_BLOCKSIZE) in
     if b = 0 then 0 else disk s (unat b) ! (off mod SFS_BLOCKSIZE))"

section \<open>Transfers and allocation\<close>

lemma fs_ok_codes: "fs_ok s \<Longrightarrow> set rs \<subseteq> set (rd_codes s) \<Longrightarrow> fs_ok (s\<lparr>rd_codes := rs\<rparr>)"
  by (auto simp: fs_ok_def)

lemma code_ok: "fs_ok s \<Longrightarrow> lhd_code_to_errno (next_code (rd_codes s)) \<noteq> Some EINVAL"
  by (cases "rd_codes s") (auto simp: fs_ok_def next_code_def lhd_code_to_errno_def Let_def)

lemma next_code_OK [simp]: "lhd_code_to_errno (next_code []) = None"
  by (simp add: next_code_def lhd_code_to_errno_def)

text \<open>Errors of the disk are retried; what comes out in the end is one transfer.\<close>

lemma rwblock_read_ok:
  assumes "fs_ok s" and "block_request cur u b s" and "uio_rw u = UIO_READ"
  shows "\<exists>r u' s' rs. sfs_rwblock n cur u s = Some (r, u', s') \<and> uio_ready cur u' \<and> set rs \<subseteq> set (rd_codes s) \<and>
    (rd_codes s = [] \<longrightarrow> rs = []) \<and>
    (case r of
       None \<Rightarrow> moved (disk s (unat b)) u (s\<lparr>rd_codes := rs\<rparr>) u' s'
     | Some e \<Rightarrow> u' = u \<and> same_rest (s\<lparr>rd_codes := rs\<rparr>) s' \<and> (e = EFAULT \<and> uio_segflg u \<noteq> UIO_SYSSPACE \<or> rd_codes s \<noteq> [] \<and> s' = s\<lparr>rd_codes := rs\<rparr>))"
  using assms
proof (induction n arbitrary: s)
  case 0
  have "length (disk s (unat b)) = LHD_SECTSIZE" using 0(1) by (simp add: fs_ok_def)
  from lhd_read_block [OF 0(2,3) this] obtain r u' and s' :: sfs_fs where
    r: "lhd_io cur u s = Some (r, u', s')" "uio_ready cur u'" and res: "case r of
      None \<Rightarrow> moved (disk s (unat b)) u (s\<lparr>rd_codes := tl (rd_codes s)\<rparr>) u' s'
    | Some e \<Rightarrow> u' = u \<and> same_rest (s\<lparr>rd_codes := tl (rd_codes s)\<rparr>) s' \<and> (e = EFAULT \<and> uio_segflg u \<noteq> UIO_SYSSPACE \<or>
        lhd_code_to_errno (next_code (rd_codes s)) = Some e \<and> s' = s\<lparr>rd_codes := tl (rd_codes s)\<rparr>)" by blast
  have "r \<noteq> Some EINVAL" using res code_ok [OF 0(1)] by auto
  moreover have "set (tl (rd_codes s)) \<subseteq> set (rd_codes s)" by (cases "rd_codes s") auto
  moreover have "rd_codes s \<noteq> []" if "lhd_code_to_errno (next_code (rd_codes s)) = Some e" for e using that by auto
  ultimately show ?case using r res
    by (intro exI [of _ r] exI [of _ u'] exI [of _ s'] exI [of _ "tl (rd_codes s)"]) (auto split: option.splits)
next
  case (Suc n)
  let ?s = "s\<lparr>rd_codes := tl (rd_codes s)\<rparr>"
  have "length (disk s (unat b)) = LHD_SECTSIZE" using Suc.prems(1) by (simp add: fs_ok_def)
  from lhd_read_block [OF Suc.prems(2,3) this] obtain r u' and s' :: sfs_fs where
    r: "lhd_io cur u s = Some (r, u', s')" "uio_ready cur u'" and res: "case r of
      None \<Rightarrow> moved (disk s (unat b)) u ?s u' s'
    | Some e \<Rightarrow> u' = u \<and> same_rest ?s s' \<and> (e = EFAULT \<and> uio_segflg u \<noteq> UIO_SYSSPACE \<or>
        lhd_code_to_errno (next_code (rd_codes s)) = Some e \<and> s' = ?s)" by blast
  have inval: "r \<noteq> Some EINVAL" using res code_ok [OF Suc.prems(1)] by auto
  have sub: "set (tl (rd_codes s)) \<subseteq> set (rd_codes s)" by (cases "rd_codes s") auto
  have codes: "rd_codes s \<noteq> []" if "lhd_code_to_errno (next_code (rd_codes s)) = Some e" for e using that by auto
  show ?case
  proof (cases "r = Some EIO")
    case True
    with res have e: "u' = u" "s' = ?s" "rd_codes s \<noteq> []" using codes by auto
    with r True have run: "sfs_rwblock (Suc n) cur u s = sfs_rwblock n cur u ?s" by simp
    have "block_request cur u b ?s" using Suc.prems(2) by (simp add: block_request_def)
    from Suc.IH [OF fs_ok_codes [OF Suc.prems(1) sub] this Suc.prems(3)] obtain r1 u1 rs and s1 :: sfs_fs where
      io: "sfs_rwblock n cur u ?s = Some (r1, u1, s1)" "uio_ready cur u1" "set rs \<subseteq> set (rd_codes ?s)"
      and res1: "case r1 of None \<Rightarrow> moved (disk ?s (unat b)) u (?s\<lparr>rd_codes := rs\<rparr>) u1 s1
     | Some e \<Rightarrow> u1 = u \<and> same_rest (?s\<lparr>rd_codes := rs\<rparr>) s1 \<and> (e = EFAULT \<and> uio_segflg u \<noteq> UIO_SYSSPACE \<or> rd_codes ?s \<noteq> [] \<and> s1 = ?s\<lparr>rd_codes := rs\<rparr>)"
      by blast
    from res1 have "case r1 of None \<Rightarrow> moved (disk s (unat b)) u (s\<lparr>rd_codes := rs\<rparr>) u1 s1
     | Some e \<Rightarrow> u1 = u \<and> same_rest (s\<lparr>rd_codes := rs\<rparr>) s1 \<and> (e = EFAULT \<and> uio_segflg u \<noteq> UIO_SYSSPACE \<or> rd_codes s \<noteq> [] \<and> s1 = s\<lparr>rd_codes := rs\<rparr>)"
      using e(3) by (cases r1) auto
    moreover have "set rs \<subseteq> set (rd_codes s)" using io(3) sub by auto
    ultimately show ?thesis unfolding run using io(1,2) e(3) by blast
  next
    case False
    with r inval have "sfs_rwblock (Suc n) cur u s = Some (r, u', s')" by simp
    then show ?thesis using r res codes sub
      by (intro exI [of _ r] exI [of _ u'] exI [of _ s'] exI [of _ "tl (rd_codes s)"]) (auto split: option.splits)
  qed
qed

lemma rwblock_write_ok:
  assumes ok: "fs_ok s" and req: "block_request cur u b s" and wr: "uio_rw u = UIO_WRITE"
  shows "\<exists>r u' s'. sfs_rwblock n cur u s = Some (r, u', s') \<and> uio_ready cur u' \<and>
    (case r of
       None \<Rightarrow> (\<exists>bs s1. length bs = SFS_BLOCKSIZE \<and> moved bs u s u' s1 \<and> s' = s1\<lparr>disk := (disk s)(unat b := bs)\<rparr>)
     | Some e \<Rightarrow> e = EFAULT \<and> uio_segflg u \<noteq> UIO_SYSSPACE \<and> u' = u \<and> same_rest s s' \<and> umem s' = umem s)"
proof -
  have codes: "wr_codes s = []" using ok by (simp add: fs_ok_def)
  from lhd_write_block [OF req wr] obtain r u' and s' :: sfs_fs where run: "lhd_io cur u s = Some (r, u', s')" "uio_ready cur u'"
    and res: "if r = Some EFAULT \<and> u' = u then same_rest s s' \<and> umem s' = umem s \<and> uio_segflg u \<noteq> UIO_SYSSPACE
     else \<exists>bs s1. length bs = LHD_SECTSIZE \<and> moved bs u s u' s1 \<and> r = lhd_code_to_errno (next_code (wr_codes s)) \<and>
       s' = s1\<lparr>wr_codes := tl (wr_codes s), disk := (if r = None then (disk s)(unat b := bs) else disk s)\<rparr>" by blast
  show ?thesis
  proof (cases "r = Some EFAULT \<and> u' = u")
    case True
    with run have "sfs_rwblock n cur u s = Some (Some EFAULT, u, s')" by (cases n) simp_all
    with True run(2) res show ?thesis by simp
  next
    case False
    with res obtain bs and s1 :: sfs_fs where b: "length bs = LHD_SECTSIZE" "moved bs u s u' s1" "r = None"
      "s' = s1\<lparr>wr_codes := [], disk := (disk s)(unat b := bs)\<rparr>" unfolding codes by auto
    have "s1\<lparr>wr_codes := []\<rparr> = s1" using same_rest_lhd(4) [OF moved_rest [OF b(2)]] codes by simp
    then have "s' = s1\<lparr>disk := (disk s)(unat b := bs)\<rparr>" using b(4) by simp
    moreover have "sfs_rwblock n cur u s = Some (None, u', s')" using run b(3) by (cases n) simp_all
    ultimately show ?thesis using run(2) b(1,2) by auto
  qed
qed

lemma SFSUIO_request:
  assumes "fs_ok s" and "unat blk < unat (sb_nblocks s)" and "length buf = SFS_BLOCKSIZE"
  shows "block_request None (SFSUIO buf blk rw) blk s"
  using assms by (simp add: block_request_def SFSUIO_def uio_kinit_def uio_ready_def fs_ok_def)

lemma SFSUIO_sel:
  "uio_rw (SFSUIO buf blk rw) = rw" "uio_segflg (SFSUIO buf blk rw) = UIO_SYSSPACE"
  "uio_iov (SFSUIO buf blk rw) = [\<lparr>iov_ubase = 0, iov_kpast = [], iov_kbase = buf, iov_len = word_of_nat (length buf)\<rparr>]"
  by (simp_all add: SFSUIO_def uio_kinit_def)

lemma readblock_ok:
  assumes ok: "fs_ok s" and range: "unat blk < unat (sb_nblocks s)"
  obtains r rs where "sfs_readblock blk s = Some (r, s\<lparr>rd_codes := rs\<rparr>)" "fs_ok (s\<lparr>rd_codes := rs\<rparr>)"
    "r = Inr (disk s (unat blk)) \<or> (\<exists>e. r = Inl e) \<and> rd_codes s \<noteq> []" "rd_codes s = [] \<longrightarrow> rs = []"
proof -
  let ?u = "SFSUIO (replicate SFS_BLOCKSIZE 0) blk UIO_READ"
  have len: "length (disk s (unat blk)) = SFS_BLOCKSIZE" using ok by (simp add: fs_ok_def)
  have "block_request None ?u blk s" by (rule SFSUIO_request [OF ok range]) simp
  from rwblock_read_ok [OF ok this SFSUIO_sel(1), of 10] obtain r u' rs and s' :: sfs_fs where
    run: "sfs_rwblock 10 None ?u s = Some (r, u', s')" "set rs \<subseteq> set (rd_codes s)" "rd_codes s = [] \<longrightarrow> rs = []"
    and res: "case r of None \<Rightarrow> moved (disk s (unat blk)) ?u (s\<lparr>rd_codes := rs\<rparr>) u' s'
      | Some e \<Rightarrow> u' = ?u \<and> same_rest (s\<lparr>rd_codes := rs\<rparr>) s' \<and> (e = EFAULT \<and> uio_segflg ?u \<noteq> UIO_SYSSPACE \<or> rd_codes s \<noteq> [] \<and> s' = s\<lparr>rd_codes := rs\<rparr>)"
    by blast
  have "s' = s\<lparr>rd_codes := rs\<rparr>" using res SFSUIO_sel(2) by (cases r) (auto simp: moved_def Let_def)
  moreover have "kbuffer u' = disk s (unat blk)" if "r = None"
    using res that len by (simp add: kbuffer_def moved_def Let_def SFSUIO_sel)
  moreover have "rd_codes s \<noteq> []" if "r \<noteq> None" using res that SFSUIO_sel(2) by auto
  ultimately show ?thesis using run ok
    by (intro that [of "case r of Some e \<Rightarrow> Inl e | None \<Rightarrow> Inr (kbuffer u')" rs])
      (auto simp: sfs_readblock_def split: option.split intro: fs_ok_codes)
qed

lemma writeblock_ok:
  assumes ok: "fs_ok s" and range: "unat blk < unat (sb_nblocks s)" and len: "length data = SFS_BLOCKSIZE"
  shows "sfs_writeblock blk data s = Some (None, s\<lparr>disk := (disk s)(unat blk := data)\<rparr>)"
    and "fs_ok (s\<lparr>disk := (disk s)(unat blk := data)\<rparr>)"
proof -
  let ?u = "SFSUIO data blk UIO_WRITE"
  have "block_request None ?u blk s" by (rule SFSUIO_request [OF ok range len])
  from rwblock_write_ok [OF ok this SFSUIO_sel(1), of 10] obtain r u' and s' :: sfs_fs where
    run: "sfs_rwblock 10 None ?u s = Some (r, u', s')" and res: "case r of
       None \<Rightarrow> (\<exists>bs s1. length bs = SFS_BLOCKSIZE \<and> moved bs ?u s u' s1 \<and> s' = s1\<lparr>disk := (disk s)(unat blk := bs)\<rparr>)
     | Some e \<Rightarrow> e = EFAULT \<and> uio_segflg ?u \<noteq> UIO_SYSSPACE \<and> u' = ?u \<and> same_rest s s' \<and> umem s' = umem s" by blast
  from res SFSUIO_sel(2) have "r = None" by (cases r) simp_all
  with res obtain bs and s1 :: sfs_fs where b: "length bs = SFS_BLOCKSIZE" "moved bs ?u s u' s1" "s' = s1\<lparr>disk := (disk s)(unat blk := bs)\<rparr>" by auto
  from b(2) have "s1 = s" and "take (length bs) data = bs" by (simp_all add: moved_def Let_def SFSUIO_sel source_def)
  with b(1,3) len have "s' = s\<lparr>disk := (disk s)(unat blk := data)\<rparr>" by simp
  with run \<open>r = None\<close> len show "sfs_writeblock blk data s = Some (None, s\<lparr>disk := (disk s)(unat blk := data)\<rparr>)"
    by (simp add: sfs_writeblock_def)
  show "fs_ok (s\<lparr>disk := (disk s)(unat blk := data)\<rparr>)" using ok len by (simp add: fs_ok_def)
qed

lemma same_volume_simps [simp]:
  "same_volume s s" "same_volume s (s'\<lparr>disk := dk\<rparr>) = same_volume s s'"
  "same_volume s (s'\<lparr>sfs_freemap := fm\<rparr>) = same_volume s s'" "same_volume s (s'\<lparr>sfs_freemapdirty := f\<rparr>) = same_volume s s'"
  by (simp_all add: same_volume_def)

lemma same_volume_results: "same_volume s s' \<Longrightarrow> (rd_codes s = [] \<Longrightarrow> rs = []) \<Longrightarrow> same_volume s (s'\<lparr>rd_codes := rs\<rparr>)"
  by (simp add: same_volume_def)

lemma length_zeros [simp]: "length zeros = SFS_BLOCKSIZE"
  by (simp add: zeros_def)

lemma unat_eq_iff: "unat (a::u32) = unat b \<longleftrightarrow> a = b"
  by (simp add: word_unat_eq_iff)

text \<open>An allocated block was free, is now in use and holds zeros; nothing else changes. On an error
  nothing changes at all.\<close>

lemma balloc_ok:
  assumes ok: "fs_ok s"
  obtains r s' where "sfs_balloc s = Some (r, s')" "fs_ok s'" "same_volume s s'"
    "case r of Inl e \<Rightarrow> bm_used (sfs_freemap s') = bm_used (sfs_freemap s) \<and> disk s' = disk s \<and> (rd_codes s = [] \<longrightarrow> e = ENOSPC)
      | Inr b \<Rightarrow> b \<noteq> 0 \<and> unat b < unat (sb_nblocks s) \<and> \<not> in_use s b \<and>
          bm_used (sfs_freemap s') = (bm_used (sfs_freemap s))(unat b := True) \<and> disk s' = (disk s)(unat b := zeros)"
proof -
  let ?fm = "sfs_freemap s"
  have wf: "bitmap_wf ?fm" using ok by (simp add: fs_ok_def)
  show thesis
  proof (cases "\<forall>i<nbits ?fm. bm_used ?fm i")
    case True
    with bitmap.alloc_full [OF wf] have "sfs_balloc s = Some (Inl ENOSPC, s\<lparr>sfs_freemap := ?fm\<rparr>)" by (simp add: sfs_balloc_def)
    then show thesis using ok by (intro that [of "Inl ENOSPC" s]) simp_all
  next
    case False
    from bitmap.alloc_unit [OF wf False] obtain n fm where n: "bitmap_alloc ?fm = Some (Inr n, fm)" "n < nbits ?fm"
      "\<not> bm_used ?fm n" "bitmap_wf fm" "nbits fm = nbits ?fm" "bm_used fm = (bm_used ?fm)(n := True)" by blast
    define b :: u32 where "b = word_of_nat n"
    have lt: "n < unat (sb_nblocks s)" using ok n(2,3) by (simp add: fs_ok_def)
    then have b: "unat b = n" unfolding b_def by (intro unat_word_of_nat_32) (use unat_lt_32 [of "sb_nblocks s"] in linarith)
    have n0: "n \<noteq> 0" using ok n(3) unfolding fs_ok_def by metis
    then have "b \<noteq> 0" using b by auto
    let ?s = "s\<lparr>sfs_freemap := fm, sfs_freemapdirty := True\<rparr>"
    have ok1: "fs_ok ?s" using ok n by (auto simp: fs_ok_def)
    have lt': "unat b < unat (sb_nblocks ?s)" using lt b by simp
    note w = writeblock_ok [OF ok1 lt' length_zeros]
    have "\<not> b \<ge> sb_nblocks s" using lt b by (simp add: word_le_nat_alt)
    with w(1) n have "sfs_balloc s = Some (Inr b, ?s\<lparr>disk := (disk s)(unat b := zeros)\<rparr>)"
      by (simp add: sfs_balloc_def b_def [symmetric] sfs_clearblock_def)
    then show thesis using w(2) n b lt \<open>b \<noteq> 0\<close>
      by (intro that [of "Inr b" "?s\<lparr>disk := (disk s)(unat b := zeros)\<rparr>"]) simp_all
  qed
qed

section \<open>The map\<close>

lemma file_okD:
  assumes "file_ok R sv s"
  shows "fs_ok s" and "length (sfi_direct (sv_i sv)) = SFS_NDIRECT"
    and "file_map sv s i \<noteq> 0 \<Longrightarrow> file_map sv s i = file_map sv s j \<Longrightarrow> i = j"
    and "file_map sv s i \<noteq> 0 \<Longrightarrow> owned R s (file_map sv s i)"
    and "file_map sv s i \<noteq> 0 \<Longrightarrow> file_map sv s i \<noteq> sfi_indirect (sv_i sv)"
    and "sfi_indirect (sv_i sv) \<noteq> 0 \<Longrightarrow> owned R s (sfi_indirect (sv_i sv))" and "b \<in> R \<Longrightarrow> in_use s b"
  using assms unfolding file_ok_def by blast+

lemma bmap_done_ok:
  assumes "block \<noteq> 0 \<Longrightarrow> in_use s block \<and> unat block < unat (sb_nblocks s)" and "fs_ok s"
  shows "bmap_done block sv s = Some (Inr block, sv, s)"
proof (cases "block = 0")
  case False
  then have "unat block < unat (sb_nblocks s)" "in_use s block" using assms(1) by auto
  moreover from this have "unat block < nbits (sfs_freemap s)" using assms(2) by (simp add: fs_ok_def)
  ultimately show ?thesis
    using bitmap_isset_iff [of "unat block" "sfs_freemap s"]
    by (simp add: bmap_done_def sfs_bused_def word_le_nat_alt)
qed (simp add: bmap_done_def)

lemma idwords_cong: "(ib \<noteq> 0 \<Longrightarrow> disk s' (unat ib) = disk s (unat ib)) \<Longrightarrow> idwords ib s' = idwords ib s"
  by (simp add: idwords_def)

lemma length_idwords: "fs_ok s \<Longrightarrow> length (idwords ib s) = SFS_DBPERIDB"
  by (simp add: idwords_def fs_ok_def)

lemma set_simps [simp]:
  "sfi_indirect (sv_i (set_direct i b sv)) = sfi_indirect (sv_i sv)" "sfi_direct (sv_i (set_indirect b sv)) = sfi_direct (sv_i sv)"
  "sfi_indirect (sv_i (set_indirect b sv)) = b" "sfi_direct (sv_i (set_direct i b sv)) = (sfi_direct (sv_i sv))[i := b]"
  "sfi_size (sv_i (set_direct i b sv)) = sfi_size (sv_i sv)" "sfi_size (sv_i (set_indirect b sv)) = sfi_size (sv_i sv)"
  "sv_ino (set_direct i b sv) = sv_ino sv" "sv_ino (set_indirect b sv) = sv_ino sv"
  by (simp_all add: set_direct_def set_indirect_def)

text \<open>A fresh block enters the map of a file: at file block \<open>i\<close>, or as its indirect block.\<close>

lemma file_ok_add:
  assumes ok: "file_ok R sv s" and fs: "fs_ok s'" and vol: "same_volume s s'"
    and used: "bm_used (sfs_freemap s') = (bm_used (sfs_freemap s))(unat b := True)"
    and b: "b \<noteq> 0" "\<not> in_use s b" "unat b < unat (sb_nblocks s)" and len: "length (sfi_direct (sv_i sv')) = SFS_NDIRECT"
    and m: "file_map sv' s' = (file_map sv s)(i := b) \<and> sfi_indirect (sv_i sv') = sfi_indirect (sv_i sv) \<or>
      file_map sv' s' = file_map sv s \<and> sfi_indirect (sv_i sv') = b \<and> sfi_indirect (sv_i sv) = 0"
  shows "file_ok R sv' s'"
proof -
  note f = file_okD [OF ok]
  have own: "owned R s c \<Longrightarrow> owned R s' c" for c using vol by (simp add: owned_def used same_volume_def)
  have fresh: "owned R s' b" using b f(7) vol by (auto simp: owned_def used same_volume_def)
  have ne: "owned R s c \<Longrightarrow> c \<noteq> b" for c using b(2) by (auto simp: owned_def)
  have R: "\<forall>c\<in>R. in_use s' c" using f(7) by (simp add: used)
  from m show ?thesis
  proof
    assume m: "file_map sv' s' = (file_map sv s)(i := b) \<and> sfi_indirect (sv_i sv') = sfi_indirect (sv_i sv)"
    have "j = k" if "file_map sv' s' j \<noteq> 0" "file_map sv' s' j = file_map sv' s' k" for j k
    proof (cases "j = i \<or> k = i")
      case True
      show ?thesis
      proof (rule ccontr)
        assume "j \<noteq> k"
        with True that m obtain l where "file_map sv s l = b" by (metis fun_upd_apply)
        with f(4) [of l] ne b(1) show False by blast
      qed
    next
      case False
      with that m f(3) [of j k] show ?thesis by simp
    qed
    moreover have "owned R s' (file_map sv' s' j) \<and> file_map sv' s' j \<noteq> sfi_indirect (sv_i sv')" if "file_map sv' s' j \<noteq> 0" for j
    proof (cases "j = i")
      case True
      with m fresh f(6) ne b(1) show ?thesis by (metis fun_upd_same)
    next
      case False
      with that m f(4) [of j] f(5) [of j] own show ?thesis by simp
    qed
    moreover have "sfi_indirect (sv_i sv') \<noteq> 0 \<longrightarrow> owned R s' (sfi_indirect (sv_i sv'))" using m f(6) own by metis
    ultimately show ?thesis unfolding file_ok_def by (intro conjI allI impI fs len R) blast+
  next
    assume m: "file_map sv' s' = file_map sv s \<and> sfi_indirect (sv_i sv') = b \<and> sfi_indirect (sv_i sv) = 0"
    have "owned R s' (file_map sv s j) \<and> file_map sv s j \<noteq> b" if "file_map sv s j \<noteq> 0" for j
      using f(4) [OF that] own ne by blast
    then show ?thesis using fs len R m f(3) fresh by (simp add: file_ok_def)
  qed
qed

text \<open>Only the results of the device to come have changed.\<close>

lemma file_ok_results [simp]:
  "file_map sv (s\<lparr>rd_codes := rs\<rparr>) = file_map sv s" "file_byte sv (s\<lparr>rd_codes := rs\<rparr>) = file_byte sv s"
  "owned R (s\<lparr>rd_codes := rs\<rparr>) b = owned R s b"
  by (simp_all add: file_map_def file_byte_def idwords_def owned_def fun_eq_iff Let_def)

lemma file_ok_quiet: "file_ok R sv s \<Longrightarrow> fs_ok (s\<lparr>rd_codes := rs\<rparr>) \<Longrightarrow> file_ok R sv (s\<lparr>rd_codes := rs\<rparr>)"
  by (simp add: file_ok_def)

text \<open>What a call to \<open>sfs_bmap\<close> may do: nothing another file or the content of this one would notice.\<close>

definition bmapped :: "u32 set \<Rightarrow> sfs_vnode \<Rightarrow> sfs_fs \<Rightarrow> nat \<Rightarrow> bool \<Rightarrow> (errno + u32) \<times> sfs_vnode \<times> sfs_fs \<Rightarrow> bool" where
  "bmapped R sv s i doalloc = (\<lambda>(r, sv', s'). file_ok R sv' s' \<and> same_volume s s' \<and>
     (\<forall>b. in_use s b \<longrightarrow> in_use s' b) \<and> (\<forall>b\<in>R. disk s' (unat b) = disk s (unat b)) \<and>
     sv_ino sv' = sv_ino sv \<and> sfi_size (sv_i sv') = sfi_size (sv_i sv) \<and>
     file_byte sv' s' = file_byte sv s \<and> (\<forall>j. j \<noteq> i \<longrightarrow> file_map sv' s' j = file_map sv s j) \<and>
     (case r of Inl e \<Rightarrow> file_map sv' s' i = file_map sv s i \<and> (rd_codes s = [] \<longrightarrow> doalloc \<and> e = ENOSPC)
      | Inr b \<Rightarrow> file_map sv' s' i = b \<and> (doalloc \<longrightarrow> b \<noteq> 0) \<and> (file_map sv s i \<noteq> 0 \<longrightarrow> b = file_map sv s i)) \<and>
     (\<not> doalloc \<longrightarrow> sv' = sv \<and> (\<exists>rs. s' = s\<lparr>rd_codes := rs\<rparr>)))"

text \<open>Blocks that were in use keep their data, a new one holds zeros.\<close>

lemma file_byte_keep:
  assumes ok: "file_ok R sv s"
    and data: "\<And>i. file_map sv s i \<noteq> 0 \<Longrightarrow> disk s' (unat (file_map sv s i)) = disk s (unat (file_map sv s i))"
    and m: "file_map sv' s' = file_map sv s \<or> file_map sv' s' = (file_map sv s)(i := b) \<and> file_map sv s i = 0 \<and> disk s' (unat b) = zeros"
  shows "file_byte sv' s' = file_byte sv s"
proof
  fix off
  have z: "zeros ! (off mod SFS_BLOCKSIZE) = 0" by (simp add: zeros_def)
  show "file_byte sv' s' off = file_byte sv s off"
    using m data [of "off div SFS_BLOCKSIZE"] z
    by (cases "off div SFS_BLOCKSIZE = i") (auto simp: file_byte_def Let_def)
qed

lemma map_of_direct:
  assumes "i < SFS_NDIRECT" and "length (sfi_direct (sv_i sv)) = SFS_NDIRECT"
    and "idwords (sfi_indirect (sv_i sv)) s' = idwords (sfi_indirect (sv_i sv)) s"
  shows "file_map (set_direct i b sv) s' = (file_map sv s)(i := b)"
  using assms by (auto simp: file_map_def fun_eq_iff nth_list_update)

lemma map_of_indirect:
  assumes "k < SFS_DBPERIDB" and "idwords (sfi_indirect (sv_i sv')) s' = (idwords (sfi_indirect (sv_i sv)) s)[k := b]"
    and "sfi_direct (sv_i sv') = sfi_direct (sv_i sv)" and "fs_ok s"
  shows "file_map sv' s' = (file_map sv s)(SFS_NDIRECT + k := b)"
  using assms length_idwords [OF assms(4)] by (auto simp: file_map_def fun_eq_iff nth_list_update)

lemma map_done:
  assumes ok: "file_ok R sv s"
  shows "bmap_done (file_map sv s i) sv s = Some (Inr (file_map sv s i), sv, s)"
  using file_okD(1,4) [OF ok] by (intro bmap_done_ok) (simp_all add: owned_def)

lemma file_ok_grow:
  assumes ok: "file_ok R sv s" and "fs_ok s'" and vol: "same_volume s s'" and used: "\<And>b. in_use s b \<Longrightarrow> in_use s' b"
    and m: "file_map sv s' = file_map sv s"
  shows "file_ok R sv s'"
proof -
  have own: "owned R s b \<Longrightarrow> owned R s' b" for b using vol used by (simp add: owned_def same_volume_def)
  note f = file_okD [OF ok]
  show ?thesis unfolding file_ok_def m using f own used assms(2) by (intro conjI allI impI) blast+
qed

text \<open>Steps that leave the map alone compose.\<close>

definition kept :: "u32 set \<Rightarrow> sfs_vnode \<Rightarrow> sfs_fs \<Rightarrow> sfs_vnode \<Rightarrow> sfs_fs \<Rightarrow> bool" where
  "kept R sv s sv' s' \<longleftrightarrow> file_ok R sv' s' \<and> same_volume s s' \<and> (\<forall>b. in_use s b \<longrightarrow> in_use s' b) \<and>
     (\<forall>b\<in>R. disk s' (unat b) = disk s (unat b)) \<and> sv_ino sv' = sv_ino sv \<and> sfi_size (sv_i sv') = sfi_size (sv_i sv) \<and>
     file_byte sv' s' = file_byte sv s \<and> file_map sv' s' = file_map sv s"

lemma bmapped_kept:
  assumes "kept R sv s sv1 s1" and "bmapped R sv1 s1 i True r"
  shows "bmapped R sv s i True r"
proof -
  obtain x and sv' :: sfs_vnode and s' :: sfs_fs where r: "r = (x, sv', s')" by (cases r)
  from assms show ?thesis unfolding r kept_def bmapped_def prod.case same_volume_def by (cases x) (simp_all, blast?)
qed

lemma bmapped_quiet:
  assumes "bmapped R sv (s\<lparr>rd_codes := rs\<rparr>) i doalloc r" and rs: "rd_codes s = [] \<Longrightarrow> rs = []"
  shows "bmapped R sv s i doalloc r"
proof -
  obtain x and sv' :: sfs_vnode and s' :: sfs_fs where r: "r = (x, sv', s')" by (cases r)
  have "same_volume s s'" if "same_volume (s\<lparr>rd_codes := rs\<rparr>) s'" using that rs by (simp add: same_volume_def)
  with assms show ?thesis unfolding r bmapped_def prod.case by (auto split: sum.splits)
qed

text \<open>Allocations for a file that holds \<open>sv\<close>, before the new block is entered.\<close>

lemma balloc_for_file:
  assumes ok: "file_ok R sv s"
  obtains r s' where "sfs_balloc s = Some (r, s')" "kept R sv s sv s'" "fs_ok s'" "same_volume s s'"
    "\<And>e. r = Inl e \<Longrightarrow> rd_codes s = [] \<Longrightarrow> e = ENOSPC"
    "\<And>b. r = Inr b \<Longrightarrow> b \<noteq> 0 \<and> unat b < unat (sb_nblocks s) \<and> \<not> in_use s b \<and>
       bm_used (sfs_freemap s') = (bm_used (sfs_freemap s))(unat b := True) \<and> disk s' = (disk s)(unat b := zeros)"
proof -
  note f = file_okD [OF ok]
  obtain r s' where a: "sfs_balloc s = Some (r, s')" "fs_ok s'" "same_volume s s'"
    and res: "case r of Inl e \<Rightarrow> bm_used (sfs_freemap s') = bm_used (sfs_freemap s) \<and> disk s' = disk s \<and> (rd_codes s = [] \<longrightarrow> e = ENOSPC)
      | Inr b \<Rightarrow> b \<noteq> 0 \<and> unat b < unat (sb_nblocks s) \<and> \<not> in_use s b \<and>
          bm_used (sfs_freemap s') = (bm_used (sfs_freemap s))(unat b := True) \<and> disk s' = (disk s)(unat b := zeros)"
    by (rule balloc_ok [OF f(1)])
  have used: "in_use s' c" if "in_use s c" for c using that res by (cases r) auto
  have old: "disk s' (unat c) = disk s (unat c)" if "in_use s c" for c
    using that res by (cases r) (auto simp: unat_eq_iff)
  have ind: "idwords (sfi_indirect (sv_i sv)) s' = idwords (sfi_indirect (sv_i sv)) s"
    using f(6) old by (intro idwords_cong) (simp add: owned_def)
  then have m: "file_map sv s' = file_map sv s" by (simp add: file_map_def fun_eq_iff)
  have "file_byte sv s' = file_byte sv s" using m old f(4) by (intro file_byte_keep [OF ok]) (auto simp: owned_def)
  then have "kept R sv s sv s'" using file_ok_grow [OF ok a(2,3) used m] a(3) used old f(7) m by (simp add: kept_def)
  with a res show thesis by (intro that [of r s']) auto
qed

lemma bmapped_error: "kept R sv s sv s' \<Longrightarrow> (rd_codes s = [] \<Longrightarrow> e = ENOSPC) \<Longrightarrow> bmapped R sv s i True (Inl e, sv, s')"
  by (simp add: bmapped_def kept_def)

lemma bmapped_hit:
  assumes "file_ok R sv s" and "doalloc \<Longrightarrow> file_map sv s i \<noteq> 0"
  shows "bmapped R sv s i doalloc (Inr (file_map sv s i), sv, s)"
proof -
  have "\<exists>rs. s = s\<lparr>rd_codes := rs\<rparr>" by (rule exI [of _ "rd_codes s"]) simp
  then show ?thesis using assms by (auto simp: bmapped_def)
qed

text \<open>Direct blocks.\<close>

lemma bmap_direct_ok:
  assumes ok: "file_ok R sv s" and i: "unat fb < SFS_NDIRECT"
  shows "\<exists>r. sfs_bmap sv fb doalloc s = Some r \<and> bmapped R sv s (unat fb) doalloc r"
proof -
  note f = file_okD [OF ok]
  have cur: "sfi_direct (sv_i sv) ! unat fb = file_map sv s (unat fb)" using i by (simp add: file_map_def)
  show ?thesis
  proof (cases "file_map sv s (unat fb) = 0 \<and> doalloc")
    case False
    then have "sfs_bmap sv fb doalloc s = Some (Inr (file_map sv s (unat fb)), sv, s)"
      using i map_done [OF ok] by (auto simp: sfs_bmap_def cur)
    with bmapped_hit [OF ok] False show ?thesis by blast
  next
    case True
    then have run: "sfs_bmap sv fb doalloc s = sfs_balloc s \<bind> (\<lambda>(result, s). case result of Inl e \<Rightarrow> Some (Inl e, sv, s)
        | Inr block \<Rightarrow> bmap_done block (set_direct (unat fb) block sv) s)" using i by (simp add: sfs_bmap_def cur)
    obtain r s' where a: "sfs_balloc s = Some (r, s')" "kept R sv s sv s'" "fs_ok s'" "same_volume s s'"
      "\<And>e. r = Inl e \<Longrightarrow> rd_codes s = [] \<Longrightarrow> e = ENOSPC"
      and res: "\<And>b. r = Inr b \<Longrightarrow> b \<noteq> 0 \<and> unat b < unat (sb_nblocks s) \<and> \<not> in_use s b \<and>
       bm_used (sfs_freemap s') = (bm_used (sfs_freemap s))(unat b := True) \<and> disk s' = (disk s)(unat b := zeros)"
      using balloc_for_file [OF ok] by blast
    show ?thesis
    proof (cases r)
      case (Inl e)
      then show ?thesis using bmapped_error [OF a(2)] True run a(1,5) by simp
    next
      case (Inr b)
      from res [OF this] have b: "b \<noteq> 0" "unat b < unat (sb_nblocks s)" "\<not> in_use s b"
        and used: "bm_used (sfs_freemap s') = (bm_used (sfs_freemap s))(unat b := True)" and dk: "disk s' = (disk s)(unat b := zeros)"
        by simp_all
      have old: "disk s' (unat c) = disk s (unat c)" if "in_use s c" for c using that b(3) dk by (auto simp: unat_eq_iff)
      have ind: "idwords (sfi_indirect (sv_i sv)) s' = idwords (sfi_indirect (sv_i sv)) s"
        using f(6) old by (intro idwords_cong) (simp add: owned_def)
      let ?sv = "set_direct (unat fb) b sv"
      have m: "file_map ?sv s' = (file_map sv s)(unat fb := b)" by (rule map_of_direct [OF i f(2) ind])
      have ok': "file_ok R ?sv s'"
        by (rule file_ok_add [OF ok a(3,4) used b(1,3,2)]) (use f(2) m in auto)
      have "file_byte ?sv s' = file_byte sv s"
        using m True dk old f(4) by (intro file_byte_keep [OF ok]) (auto simp: owned_def)
      moreover have "bmap_done b ?sv s' = Some (Inr b, ?sv, s')" using map_done [OF ok', of "unat fb"] by (simp add: m)
      ultimately show ?thesis using Inr True run a m ok' used old f(7) b(1) by (simp add: bmapped_def)
    qed
  qed
qed

text \<open>Blocks in the indirect block.\<close>

lemma bmap_indirect_ok:
  assumes ok: "file_ok R sv s" and ib: "sfi_indirect (sv_i sv) \<noteq> 0" and k: "k < SFS_DBPERIDB"
    and buf: "idbuf = words_of (disk s (unat (sfi_indirect (sv_i sv))))"
  shows "\<exists>r. bmap_indirect k doalloc (sfi_indirect (sv_i sv)) idbuf sv s = Some r \<and> bmapped R sv s (SFS_NDIRECT + k) doalloc r"
proof -
  note f = file_okD [OF ok]
  let ?ib = "sfi_indirect (sv_i sv)" and ?i = "SFS_NDIRECT + k"
  have words: "idwords ?ib s = idbuf" using ib by (simp add: idwords_def buf)
  then have cur: "idbuf ! k = file_map sv s ?i" using k by (simp add: file_map_def)
  have len: "length idbuf = SFS_DBPERIDB" using length_idwords [OF f(1), of ?ib] words by simp
  show ?thesis
  proof (cases "file_map sv s ?i = 0 \<and> doalloc")
    case False
    then have "bmap_indirect k doalloc ?ib idbuf sv s = Some (Inr (file_map sv s ?i), sv, s)"
      using map_done [OF ok] by (auto simp: bmap_indirect_def cur)
    with bmapped_hit [OF ok] False show ?thesis by blast
  next
    case True
    obtain r s1 where a: "sfs_balloc s = Some (r, s1)" "kept R sv s sv s1" "fs_ok s1" "same_volume s s1"
      "\<And>e. r = Inl e \<Longrightarrow> rd_codes s = [] \<Longrightarrow> e = ENOSPC"
      and res: "\<And>b. r = Inr b \<Longrightarrow> b \<noteq> 0 \<and> unat b < unat (sb_nblocks s) \<and> \<not> in_use s b \<and>
       bm_used (sfs_freemap s1) = (bm_used (sfs_freemap s))(unat b := True) \<and> disk s1 = (disk s)(unat b := zeros)"
      using balloc_for_file [OF ok] by blast
    show ?thesis
    proof (cases r)
      case (Inl e)
      then show ?thesis using bmapped_error [OF a(2)] True a(1,5) by (simp add: bmap_indirect_def cur)
    next
      case (Inr b)
      from res [OF this] have b: "b \<noteq> 0" "unat b < unat (sb_nblocks s)" "\<not> in_use s b"
        and used: "bm_used (sfs_freemap s1) = (bm_used (sfs_freemap s))(unat b := True)" and dk: "disk s1 = (disk s)(unat b := zeros)"
        by simp_all
      have own: "in_use s ?ib" "unat ?ib < unat (sb_nblocks s1)" "?ib \<notin> R"
        using f(6) [OF ib] a(4) by (simp_all add: owned_def same_volume_def)
      have bl: "length (bytes_of (idbuf[k := b])) = SFS_BLOCKSIZE" by (simp add: len)
      note w = writeblock_ok [OF a(3) own(2) bl]
      let ?s2 = "s1\<lparr>disk := (disk s1)(unat ?ib := bytes_of (idbuf[k := b]))\<rparr>"
      have run: "bmap_indirect k doalloc ?ib idbuf sv s = bmap_done b sv ?s2"
        using True a(1) Inr w(1) by (simp add: bmap_indirect_def cur)
      have old: "disk ?s2 (unat c) = disk s (unat c)" if "in_use s c" "c \<noteq> ?ib" for c
        using that b(3) dk by (auto simp: unat_eq_iff)
      have "idwords ?ib ?s2 = (idwords ?ib s)[k := b]" using ib by (simp add: idwords_def buf)
      then have m: "file_map sv ?s2 = (file_map sv s)(?i := b)" by (intro map_of_indirect [OF k _ _ f(1)]) simp_all
      have used2: "bm_used (sfs_freemap ?s2) = (bm_used (sfs_freemap s))(unat b := True)" using used by simp
      have vol: "same_volume s ?s2" using a(4) by simp
      have ok': "file_ok R sv ?s2"
        by (rule file_ok_add [OF ok w(2) vol used2 b(1,3,2) f(2)]) (use m in auto)
      have "b \<noteq> ?ib" using own(1) b(3) by auto
      then have z: "disk ?s2 (unat b) = zeros" using dk by (simp add: unat_eq_iff)
      have "file_byte sv ?s2 = file_byte sv s"
        using m True z old f(4,5) by (intro file_byte_keep [OF ok]) (auto simp: owned_def)
      moreover have "bmap_done b sv ?s2 = Some (Inr b, sv, ?s2)" using map_done [OF ok', of ?i] unfolding m by simp
      moreover have "disk ?s2 (unat c) = disk s (unat c)" if "c \<in> R" for c using that f(7) old own(3) by metis
      moreover have "in_use s c \<Longrightarrow> in_use ?s2 c" for c using used by simp
      ultimately show ?thesis using True run m ok' vol b(1) by (simp add: bmapped_def)
    qed
  qed
qed

lemma sfs_bmap_ok:
  assumes ok: "file_ok R sv s" and i: "unat fb < SFS_NDIRECT + SFS_DBPERIDB"
  shows "\<exists>r. sfs_bmap sv fb doalloc s = Some r \<and> bmapped R sv s (unat fb) doalloc r"
proof (cases "unat fb < SFS_NDIRECT")
  case True
  then show ?thesis by (rule bmap_direct_ok [OF ok])
next
  case False
  note f = file_okD [OF ok]
  define k where "k = unat fb - SFS_NDIRECT"
  have k: "k < SFS_DBPERIDB" "unat fb = SFS_NDIRECT + k" "k div SFS_DBPERIDB = 0" "k mod SFS_DBPERIDB = k"
    using i False by (simp_all add: k_def)
  let ?ib = "sfi_indirect (sv_i sv)"
  show ?thesis
  proof (cases "?ib = 0")
    case False
    with f(6) have own: "unat ?ib < unat (sb_nblocks s)" by (simp add: owned_def)
    obtain r rs where r: "sfs_readblock ?ib s = Some (r, s\<lparr>rd_codes := rs\<rparr>)" "fs_ok (s\<lparr>rd_codes := rs\<rparr>)"
      "r = Inr (disk s (unat ?ib)) \<or> (\<exists>e. r = Inl e) \<and> rd_codes s \<noteq> []" "rd_codes s = [] \<longrightarrow> rs = []"
      by (rule readblock_ok [OF f(1) own])
    let ?s = "s\<lparr>rd_codes := rs\<rparr>"
    have ok1: "file_ok R sv ?s" by (rule file_ok_quiet [OF ok r(2)])
    from r(3) show ?thesis
    proof
      assume "r = Inr (disk s (unat ?ib))"
      then have "sfs_bmap sv fb doalloc s = bmap_indirect k doalloc ?ib (words_of (disk ?s (unat ?ib))) sv ?s"
        using k False r(1) \<open>\<not> unat fb < SFS_NDIRECT\<close> by (simp add: sfs_bmap_def Let_def)
      moreover from bmap_indirect_ok [OF ok1 False k(1) refl, of doalloc] obtain x where
        x: "bmap_indirect k doalloc ?ib (words_of (disk ?s (unat ?ib))) sv ?s = Some x" "bmapped R sv ?s (SFS_NDIRECT + k) doalloc x" by blast
      moreover have "bmapped R sv s (SFS_NDIRECT + k) doalloc x" using bmapped_quiet [OF x(2)] r(4) by blast
      ultimately show ?thesis by (simp add: k(2))
    next
      assume "(\<exists>e. r = Inl e) \<and> rd_codes s \<noteq> []"
      then obtain e where "r = Inl e" and err: "rd_codes s \<noteq> []" by blast
      then have "sfs_bmap sv fb doalloc s = Some (Inl e, sv, ?s)"
        using k False r(1) \<open>\<not> unat fb < SFS_NDIRECT\<close> by (simp add: sfs_bmap_def Let_def)
      moreover have "bmapped R sv s (unat fb) doalloc (Inl e, sv, ?s)"
        using ok1 err by (auto simp: bmapped_def intro: same_volume_results)
      ultimately show ?thesis by blast
    qed
  next
    case True
    have zero: "file_map sv s (SFS_NDIRECT + k) = 0" using True k by (simp add: file_map_def idwords_def)
    show ?thesis
    proof (cases doalloc)
      case False
      then have "sfs_bmap sv fb doalloc s = Some (Inr (file_map sv s (unat fb)), sv, s)"
        using k True zero \<open>\<not> unat fb < SFS_NDIRECT\<close> by (simp add: sfs_bmap_def)
      with bmapped_hit [OF ok] False show ?thesis by blast
    next
      case alloc: True
      obtain r s1 where a: "sfs_balloc s = Some (r, s1)" "kept R sv s sv s1" "fs_ok s1" "same_volume s s1"
        "\<And>e. r = Inl e \<Longrightarrow> rd_codes s = [] \<Longrightarrow> e = ENOSPC"
        and res: "\<And>b. r = Inr b \<Longrightarrow> b \<noteq> 0 \<and> unat b < unat (sb_nblocks s) \<and> \<not> in_use s b \<and>
         bm_used (sfs_freemap s1) = (bm_used (sfs_freemap s))(unat b := True) \<and> disk s1 = (disk s)(unat b := zeros)"
        using balloc_for_file [OF ok] by blast
      have run: "sfs_bmap sv fb doalloc s = (case r of Inl e \<Rightarrow> Some (Inl e, sv, s1)
          | Inr b \<Rightarrow> bmap_indirect k True b (replicate SFS_DBPERIDB 0) (set_indirect b sv) s1)"
        using k True alloc a(1) \<open>\<not> unat fb < SFS_NDIRECT\<close> by (simp add: sfs_bmap_def)
      show ?thesis
      proof (cases r)
        case (Inl e)
        with run bmapped_error [OF a(2)] alloc a(5) show ?thesis by simp
      next
        case (Inr b)
        from res [OF this] have b: "b \<noteq> 0" "unat b < unat (sb_nblocks s)" "\<not> in_use s b"
          and used: "bm_used (sfs_freemap s1) = (bm_used (sfs_freemap s))(unat b := True)" and dk: "disk s1 = (disk s)(unat b := zeros)"
          by simp_all
        let ?sv = "set_indirect b sv"
        have wz: "words_of zeros = replicate SFS_DBPERIDB 0" using words_of_zeros [of 128] by (simp add: zeros_def)
        have "idwords b s1 = idwords ?ib s" using b(1) dk wz by (simp add: idwords_def True)
        then have m: "file_map ?sv s1 = file_map sv s" by (simp add: file_map_def fun_eq_iff)
        have ok1: "file_ok R ?sv s1"
          by (rule file_ok_add [OF ok a(3,4) used b(1,3,2)]) (use f(2) m True in auto)
        have old: "disk s1 (unat c) = disk s (unat c)" if "in_use s c" for c using that b(3) dk by (auto simp: unat_eq_iff)
        have "file_byte ?sv s1 = file_byte sv s" using m old f(4) by (intro file_byte_keep [OF ok]) (auto simp: owned_def)
        then have "kept R sv s ?sv s1" using ok1 a(4) used m old f(7) by (simp add: kept_def)
        moreover have "replicate SFS_DBPERIDB 0 = words_of (disk s1 (unat (sfi_indirect (sv_i ?sv))))" using dk wz by simp
        from bmap_indirect_ok [OF ok1 _ k(1) this, of True] b(1) obtain r' where
          "bmap_indirect k True b (replicate SFS_DBPERIDB 0) ?sv s1 = Some r'" "bmapped R ?sv s1 (SFS_NDIRECT + k) True r'" by auto
        ultimately show ?thesis using run Inr bmapped_kept alloc by (auto simp: k(2))
      qed
    qed
  qed
qed

lemma sfs_bmap_big:
  assumes "SFS_NDIRECT + SFS_DBPERIDB \<le> unat fb"
  shows "sfs_bmap sv fb doalloc s = Some (Inl EFBIG, sv, s)"
proof -
  have "(unat fb - SFS_NDIRECT) div SFS_DBPERIDB \<ge> 1" using div_le_mono [of 128 "unat fb - 15" 128] assms by simp
  then show ?thesis using assms by (simp add: sfs_bmap_def Let_def)
qed

section \<open>Truncation\<close>

text \<open>The blocks \<open>F\<close> have become free, and nothing else has changed.\<close>

definition frees :: "sfs_fs \<Rightarrow> sfs_fs \<Rightarrow> nat set \<Rightarrow> bool" where
  "frees s s' F \<longleftrightarrow> (\<exists>fm d. s' = s\<lparr>sfs_freemap := fm, sfs_freemapdirty := d\<rparr> \<and> bitmap_wf fm \<and> nbits fm = nbits (sfs_freemap s) \<and>
     bm_used fm = (\<lambda>n. bm_used (sfs_freemap s) n \<and> n \<notin> F))"

lemma frees_none: "bitmap_wf (sfs_freemap s) \<Longrightarrow> frees s s {}"
  unfolding frees_def by (rule exI [of _ "sfs_freemap s"], rule exI [of _ "sfs_freemapdirty s"]) simp

lemma frees_trans: "frees s s1 F \<Longrightarrow> frees s1 s2 G \<Longrightarrow> frees s s2 (F \<union> G)"
  unfolding frees_def by (elim exE conjE) (intro exI conjI, auto)

lemma freesD:
  assumes "frees s s' F"
  shows "bitmap_wf (sfs_freemap s')" and "bm_used (sfs_freemap s') n \<longleftrightarrow> bm_used (sfs_freemap s) n \<and> n \<notin> F"
    and "disk s' = disk s" and "rd_codes s' = rd_codes s" and "same_volume s s'" and "nbits (sfs_freemap s') = nbits (sfs_freemap s)"
  using assms by (auto simp: frees_def same_volume_def)

lemma bfree_ok:
  assumes "bitmap_wf (sfs_freemap s)" and "in_use s b"
  obtains s' where "sfs_bfree b s = Some s'" "frees s s' {unat b}"
proof -
  from bitmap.release_unit [OF assms] obtain fm where "bitmap_unmark (sfs_freemap s) (unat b) = Some fm" "bitmap_wf fm"
    "nbits fm = nbits (sfs_freemap s)" "bm_used fm = (bm_used (sfs_freemap s))(unat b := False)" by blast
  then have "sfs_bfree b s = Some (s\<lparr>sfs_freemap := fm, sfs_freemapdirty := True\<rparr>)" and "bitmap_wf fm"
    "nbits fm = nbits (sfs_freemap s)" "bm_used fm = (\<lambda>n. bm_used (sfs_freemap s) n \<and> n \<notin> {unat b})"
    by (auto simp: sfs_bfree_def fun_eq_iff)
  then show ?thesis by (intro that) (simp, unfold frees_def, intro exI conjI, auto)
qed

lemma frees_fs_ok:
  assumes "fs_ok s" and "frees s s' F" and "\<And>n. n \<in> F \<Longrightarrow> 0 < n \<and> n < unat (sb_nblocks s)"
  shows "fs_ok s'"
  using assms(1) freesD [OF assms(2)] assms(3) unfolding fs_ok_def same_volume_def by (auto simp: freesD)

text \<open>The numbers of the nonzero entries of a list at positions that satisfy \<open>Q\<close>.\<close>

definition entries_at :: "(nat \<Rightarrow> bool) \<Rightarrow> u32 list \<Rightarrow> nat set" where
  "entries_at Q xs = {unat (xs ! i) |i. i < length xs \<and> Q i \<and> xs ! i \<noteq> 0}"

lemma entries_at_image: "entries_at Q xs = (\<lambda>i. unat (xs ! i)) ` {i. i < length xs \<and> Q i \<and> xs ! i \<noteq> 0}"
  unfolding entries_at_def by blast

lemma entries_at_cong:
  assumes "length xs = length ys" and "\<And>i. Q i \<Longrightarrow> xs ! i = ys ! i"
  shows "entries_at Q xs = entries_at Q ys"
proof -
  have "(i < length xs \<and> Q i \<and> xs ! i \<noteq> 0 \<and> n = unat (xs ! i)) = (i < length ys \<and> Q i \<and> ys ! i \<noteq> 0 \<and> n = unat (ys ! i))" for i n
    using assms by (cases "Q i") simp_all
  then show ?thesis unfolding entries_at_def by blast
qed

lemma entries_at_Cons:
  "entries_at Q (x # xs) = (if Q 0 \<and> x \<noteq> 0 then {unat x} else {}) \<union> entries_at (\<lambda>i. Q (Suc i)) xs"
proof -
  have "(\<exists>i. n = unat ((x # xs) ! i) \<and> i < Suc (length xs) \<and> Q i \<and> (x # xs) ! i \<noteq> 0) \<longleftrightarrow>
    (Q 0 \<and> x \<noteq> 0 \<and> n = unat x) \<or> (\<exists>i. n = unat (xs ! i) \<and> i < length xs \<and> Q (Suc i) \<and> xs ! i \<noteq> 0)"
    (is "(\<exists>i. ?P i) \<longleftrightarrow> ?R") for n
  proof
    assume "\<exists>i. ?P i"
    then obtain i where "?P i" by blast
    then show ?R by (cases i) auto
  next
    assume ?R
    then show "\<exists>i. ?P i" by (auto intro: exI [of _ 0] exI [of _ "Suc i" for i])
  qed
  then show ?thesis by (auto simp: entries_at_def)
qed

lemma trunc_indirect_ok:
  assumes "bitmap_wf (sfs_freemap s)" and "\<And>j. j < length xs \<Longrightarrow> xs ! j \<noteq> 0 \<Longrightarrow> in_use s (xs ! j)"
    and "\<And>j k. j < length xs \<Longrightarrow> k < length xs \<Longrightarrow> xs ! j \<noteq> 0 \<Longrightarrow> xs ! j = xs ! k \<Longrightarrow> j = k"
  shows "\<exists>xs' d s'. trunc_indirect B b xs s = Some (xs', d, s') \<and> length xs' = length xs \<and>
    (\<forall>j<length xs. xs' ! j = (if unat B < b + j then 0 else xs ! j)) \<and> (\<not> d \<longrightarrow> xs' = xs) \<and>
    frees s s' (entries_at (\<lambda>j. unat B < b + j) xs)"
  using assms
proof (induction xs arbitrary: b s)
  case Nil
  then show ?case using frees_none [OF Nil(1)] by (auto simp: entries_at_def)
next
  case (Cons x xs)
  have tail: "xs ! j = xs ! k \<Longrightarrow> j < length xs \<Longrightarrow> k < length xs \<Longrightarrow> xs ! j \<noteq> 0 \<Longrightarrow> j = k" for j k
    using Cons.prems(3) [of "Suc j" "Suc k"] by simp
  show ?case
  proof (cases "unat B < b \<and> x \<noteq> 0")
    case True
    from Cons.prems(2) [of 0] True have "in_use s x" by simp
    from bfree_ok [OF Cons.prems(1) this] obtain s1 where s1: "sfs_bfree x s = Some s1" "frees s s1 {unat x}" .
    have used: "in_use s1 (xs ! j)" if "j < length xs" "xs ! j \<noteq> 0" for j
      using that Cons.prems(2) [of "Suc j"] Cons.prems(3) [of 0 "Suc j"] True freesD(2) [OF s1(2)] by (auto simp: unat_eq_iff)
    from Cons.IH [OF freesD(1) [OF s1(2)] used tail, of "b + 1"] obtain xs' d s' where
      r: "trunc_indirect B (b + 1) xs s1 = Some (xs', d, s')" "length xs' = length xs"
      "\<forall>j<length xs. xs' ! j = (if unat B < b + 1 + j then 0 else xs ! j)"
      "frees s1 s' (entries_at (\<lambda>j. unat B < b + 1 + j) xs)" by blast
    have "trunc_indirect B b (x # xs) s = Some (0 # xs', True, s')" using True s1(1) r(1) by simp
    moreover have "(0 # xs') ! j = (if unat B < b + j then 0 else (x # xs) ! j)" if "j < length (x # xs)" for j
      using that True r(3) by (cases j) auto
    moreover have "frees s s' (entries_at (\<lambda>j. unat B < b + j) (x # xs))"
      using frees_trans [OF s1(2) r(4)] True by (simp add: entries_at_Cons)
    ultimately show ?thesis using r(2) by auto
  next
    case False
    have used: "in_use s (xs ! j)" if "j < length xs" "xs ! j \<noteq> 0" for j using that Cons.prems(2) [of "Suc j"] by simp
    from Cons.IH [OF Cons.prems(1) used tail, of "b + 1"] obtain xs' d s' where
      r: "trunc_indirect B (b + 1) xs s = Some (xs', d, s')" "length xs' = length xs"
      "\<forall>j<length xs. xs' ! j = (if unat B < b + 1 + j then 0 else xs ! j)" "\<not> d \<longrightarrow> xs' = xs"
      "frees s s' (entries_at (\<lambda>j. unat B < b + 1 + j) xs)" by blast
    have "trunc_indirect B b (x # xs) s = Some (x # xs', d, s')" using False r(1) by auto
    moreover have "(x # xs') ! j = (if unat B < b + j then 0 else (x # xs) ! j)" if "j < length (x # xs)" for j
      using that False r(3) by (cases j) auto
    moreover have "frees s s' (entries_at (\<lambda>j. unat B < b + j) (x # xs))"
      using r(5) False by (auto simp: entries_at_Cons)
    ultimately show ?thesis using r(2,4) by auto
  qed
qed

lemma trunc_direct_ok:
  assumes "bitmap_wf (sfs_freemap s)" and "distinct is" and "\<And>i. i \<in> set is \<Longrightarrow> i < length (sfi_direct (sv_i sv))"
    and "\<And>i. i \<in> set is \<Longrightarrow> sfi_direct (sv_i sv) ! i \<noteq> 0 \<Longrightarrow> in_use s (sfi_direct (sv_i sv) ! i)"
    and "\<And>i j. i \<in> set is \<Longrightarrow> j \<in> set is \<Longrightarrow> sfi_direct (sv_i sv) ! i \<noteq> 0 \<Longrightarrow> sfi_direct (sv_i sv) ! i = sfi_direct (sv_i sv) ! j \<Longrightarrow> i = j"
  shows "\<exists>D d s'. trunc_direct B is sv s = Some (sv\<lparr>sv_i := (sv_i sv)\<lparr>sfi_direct := D\<rparr>, sv_dirty := d\<rparr>, s') \<and>
    length D = length (sfi_direct (sv_i sv)) \<and>
    (\<forall>i<length D. D ! i = (if i \<in> set is \<and> unat B \<le> i then 0 else sfi_direct (sv_i sv) ! i)) \<and>
    frees s s' (entries_at (\<lambda>i. i \<in> set is \<and> unat B \<le> i) (sfi_direct (sv_i sv)))"
  using assms
proof (induction "is" arbitrary: sv s)
  case Nil
  have "sv = sv\<lparr>sv_i := (sv_i sv)\<lparr>sfi_direct := sfi_direct (sv_i sv)\<rparr>, sv_dirty := sv_dirty sv\<rparr>" by simp
  then have "trunc_direct B [] sv s = Some (sv\<lparr>sv_i := (sv_i sv)\<lparr>sfi_direct := sfi_direct (sv_i sv)\<rparr>, sv_dirty := sv_dirty sv\<rparr>, s)" by simp
  moreover have "frees s s (entries_at (\<lambda>i. i \<in> set [] \<and> unat B \<le> i) (sfi_direct (sv_i sv)))"
    using frees_none [OF Nil(1)] by (simp add: entries_at_def)
  ultimately show ?case
    by (intro exI [of _ "sfi_direct (sv_i sv)"] exI [of _ "sv_dirty sv"] exI [of _ s] conjI) simp_all
next
  case (Cons k "is")
  let ?D = "sfi_direct (sv_i sv)"
  have k: "k < length ?D" "k \<notin> set is" "distinct is" using Cons.prems by auto
  show ?case
  proof (cases "unat B \<le> k \<and> ?D ! k \<noteq> 0")
    case True
    from Cons.prems(4) [of k] True have "in_use s (?D ! k)" by simp
    from bfree_ok [OF Cons.prems(1) this] obtain s1 where s1: "sfs_bfree (?D ! k) s = Some s1" "frees s s1 {unat (?D ! k)}" .
    let ?sv = "set_direct k 0 sv"
    have same: "sfi_direct (sv_i ?sv) ! i = ?D ! i" if "i \<in> set is" for i
      using that k(2) by (cases "i = k") simp_all
    have used: "in_use s1 (sfi_direct (sv_i ?sv) ! i)" if i: "i \<in> set is" and nz: "sfi_direct (sv_i ?sv) ! i \<noteq> 0" for i
    proof -
      have "in_use s (?D ! i)" using Cons.prems(4) [of i] i nz same [OF i] by simp
      moreover have "?D ! k \<noteq> ?D ! i" using Cons.prems(5) [of k i] True i k(2) by fastforce
      ultimately show ?thesis unfolding same [OF i] freesD(2) [OF s1(2)] by (simp add: unat_eq_iff)
    qed
    have inj: "i = j" if "i \<in> set is" "j \<in> set is" "sfi_direct (sv_i ?sv) ! i \<noteq> 0" "sfi_direct (sv_i ?sv) ! i = sfi_direct (sv_i ?sv) ! j" for i j
      using that Cons.prems(5) [of i j] same by simp
    have range: "i < length (sfi_direct (sv_i ?sv))" if "i \<in> set is" for i using that Cons.prems(3) by simp
    from Cons.IH [OF freesD(1) [OF s1(2)] k(3) range used inj] obtain D d s' where
      r: "trunc_direct B is ?sv s1 = Some (?sv\<lparr>sv_i := (sv_i ?sv)\<lparr>sfi_direct := D\<rparr>, sv_dirty := d\<rparr>, s')" "length D = length ?D"
      "\<forall>i<length D. D ! i = (if i \<in> set is \<and> unat B \<le> i then 0 else ?D[k := 0] ! i)"
      "frees s1 s' (entries_at (\<lambda>i. i \<in> set is \<and> unat B \<le> i) (?D[k := 0]))" by auto
    have "trunc_direct B (k # is) sv s = Some (sv\<lparr>sv_i := (sv_i sv)\<lparr>sfi_direct := D\<rparr>, sv_dirty := d\<rparr>, s')"
      using True s1(1) r(1) by (simp add: set_direct_def)
    moreover have "D ! i = (if i \<in> set (k # is) \<and> unat B \<le> i then 0 else ?D ! i)" if "i < length D" for i
      using that r(2,3) True by (cases "i = k") auto
    moreover have "{unat (?D ! k)} \<union> entries_at (\<lambda>i. i \<in> set is \<and> unat B \<le> i) (?D[k := 0]) =
        entries_at (\<lambda>i. i \<in> set (k # is) \<and> unat B \<le> i) ?D"
    proof -
      have "?D[k := 0] ! i = ?D ! i" if "i \<in> set is \<and> unat B \<le> i" for i using that k(2) by (cases "i = k") simp_all
      then have "entries_at (\<lambda>i. i \<in> set is \<and> unat B \<le> i) (?D[k := 0]) = entries_at (\<lambda>i. i \<in> set is \<and> unat B \<le> i) ?D"
        by (intro entries_at_cong) simp_all
      moreover have "entries_at (\<lambda>i. i \<in> set (k # is) \<and> unat B \<le> i) ?D =
          {unat (?D ! k)} \<union> entries_at (\<lambda>i. i \<in> set is \<and> unat B \<le> i) ?D"
      proof -
        have "{i. i < length ?D \<and> (i \<in> set (k # is) \<and> unat B \<le> i) \<and> ?D ! i \<noteq> 0} =
            insert k {i. i < length ?D \<and> (i \<in> set is \<and> unat B \<le> i) \<and> ?D ! i \<noteq> 0}"
          using True k(1) by (intro set_eqI iffI) (auto simp del: length_0_conv)
        then show ?thesis unfolding entries_at_image by simp
      qed
      ultimately show ?thesis by simp
    qed
    then have "frees s s' (entries_at (\<lambda>i. i \<in> set (k # is) \<and> unat B \<le> i) ?D)"
      using frees_trans [OF s1(2) r(4)] by simp
    ultimately show ?thesis using r(2) by (intro exI [of _ D] exI [of _ d] exI [of _ s'] conjI) simp_all
  next
    case False
    have "\<exists>D d s'. trunc_direct B is sv s = Some (sv\<lparr>sv_i := (sv_i sv)\<lparr>sfi_direct := D\<rparr>, sv_dirty := d\<rparr>, s') \<and>
      length D = length ?D \<and> (\<forall>i<length D. D ! i = (if i \<in> set is \<and> unat B \<le> i then 0 else ?D ! i)) \<and>
      frees s s' (entries_at (\<lambda>i. i \<in> set is \<and> unat B \<le> i) ?D)"
      using Cons.prems by (intro Cons.IH) auto
    then obtain D d s' where r: "trunc_direct B is sv s = Some (sv\<lparr>sv_i := (sv_i sv)\<lparr>sfi_direct := D\<rparr>, sv_dirty := d\<rparr>, s')"
      "length D = length ?D" "\<forall>i<length D. D ! i = (if i \<in> set is \<and> unat B \<le> i then 0 else ?D ! i)"
      "frees s s' (entries_at (\<lambda>i. i \<in> set is \<and> unat B \<le> i) ?D)" by blast
    have "trunc_direct B (k # is) sv s = Some (sv\<lparr>sv_i := (sv_i sv)\<lparr>sfi_direct := D\<rparr>, sv_dirty := d\<rparr>, s')"
      using False r(1) by auto
    moreover have "D ! i = (if i \<in> set (k # is) \<and> unat B \<le> i then 0 else ?D ! i)" if "i < length D" for i
      using that r(2,3) False by (cases "i = k") auto
    moreover have "entries_at (\<lambda>i. i \<in> set is \<and> unat B \<le> i) ?D = entries_at (\<lambda>i. i \<in> set (k # is) \<and> unat B \<le> i) ?D"
      using False by (auto simp: entries_at_def)
    ultimately show ?thesis using r(2,4) by (intro exI [of _ D] exI [of _ d] exI [of _ s'] conjI) simp_all
  qed
qed

text \<open>The file blocks \<open>K\<close> are left of a file: the others are free, with the indirect block when it is gone.\<close>

definition truncated :: "u32 set \<Rightarrow> sfs_vnode \<Rightarrow> sfs_fs \<Rightarrow> (nat \<Rightarrow> bool) \<Rightarrow> sfs_vnode \<Rightarrow> sfs_fs \<Rightarrow> bool" where
  "truncated R sv s K sv' s' \<longleftrightarrow> file_ok R sv' s' \<and> same_volume s s' \<and>
     (\<forall>i. file_map sv' s' i = (if K i then file_map sv s i else 0)) \<and>
     (\<forall>off. file_byte sv' s' off = (if K (off div SFS_BLOCKSIZE) then file_byte sv s off else 0)) \<and>
     (\<forall>b. b \<noteq> 0 \<longrightarrow> (in_use s' b \<longleftrightarrow> in_use s b \<and> (\<forall>i. file_map sv s i = b \<longrightarrow> K i) \<and>
        (sfi_indirect (sv_i sv) = b \<longrightarrow> sfi_indirect (sv_i sv') = b))) \<and>
     (\<forall>b\<in>R. disk s' (unat b) = disk s (unat b))"

lemma truncatedI:
  assumes ok: "file_ok R sv s" and fs: "fs_ok s'" and vol: "same_volume s s'" and len: "length (sfi_direct (sv_i sv')) = SFS_NDIRECT"
    and m: "\<And>i. file_map sv' s' i = (if K i then file_map sv s i else 0)"
    and ind: "sfi_indirect (sv_i sv') = sfi_indirect (sv_i sv) \<or> sfi_indirect (sv_i sv') = 0"
    and used: "\<And>b. b \<noteq> 0 \<Longrightarrow> in_use s' b \<longleftrightarrow> in_use s b \<and> (\<forall>i. file_map sv s i = b \<longrightarrow> K i) \<and>
        (sfi_indirect (sv_i sv) = b \<longrightarrow> sfi_indirect (sv_i sv') = b)"
    and dk: "\<And>b. b \<noteq> sfi_indirect (sv_i sv) \<or> b = 0 \<Longrightarrow> disk s' (unat b) = disk s (unat b)"
  shows "truncated R sv s K sv' s'"
proof -
  note f = file_okD [OF ok]
  have zero: "in_use s' 0" using fs by (simp add: fs_ok_def)
  have keep: "owned R s' b" if "owned R s b" "b \<noteq> 0" "\<forall>i. file_map sv s i = b \<longrightarrow> K i"
    "sfi_indirect (sv_i sv) = b \<longrightarrow> sfi_indirect (sv_i sv') = b" for b
    using that used [OF that(2)] vol by (simp add: owned_def same_volume_def)
  have R: "in_use s' b \<and> disk s' (unat b) = disk s (unat b)" if b: "b \<in> R" for b
  proof (cases "b = 0")
    case True
    then show ?thesis using zero dk [of 0] by simp
  next
    case False
    have "file_map sv s i \<noteq> b" for i using f(4) [of i] False b by (auto simp: owned_def)
    moreover have "sfi_indirect (sv_i sv) \<noteq> b" using f(6) False b by (auto simp: owned_def)
    ultimately show ?thesis using used [OF False] f(7) [OF b] dk by simp
  qed
  have inj: "i = j" if "file_map sv' s' i \<noteq> 0" "file_map sv' s' i = file_map sv' s' j" for i j
    using that m [of i] m [of j] f(3) [of i j] by (auto split: if_splits)
  have own: "owned R s' (file_map sv' s' i) \<and> file_map sv' s' i \<noteq> sfi_indirect (sv_i sv')" if nz: "file_map sv' s' i \<noteq> 0" for i
  proof -
    from nz m [of i] have i: "K i" "file_map sv' s' i = file_map sv s i" "file_map sv s i \<noteq> 0" by (auto split: if_splits)
    have "\<forall>j. file_map sv s j = file_map sv s i \<longrightarrow> K j" using f(3) [of i] i by metis
    then show ?thesis using keep [OF f(4) [OF i(3)] i(3)] f(5) [OF i(3)] ind i by auto
  qed
  have indo: "owned R s' (sfi_indirect (sv_i sv'))" if nz: "sfi_indirect (sv_i sv') \<noteq> 0"
  proof -
    from nz ind have same: "sfi_indirect (sv_i sv') = sfi_indirect (sv_i sv)" by auto
    with nz f(5) have "\<forall>i. file_map sv s i = sfi_indirect (sv_i sv) \<longrightarrow> K i" by metis
    with keep [OF f(6)] same nz show ?thesis by simp
  qed
  have "file_ok R sv' s'" unfolding file_ok_def using fs len inj own indo R by blast
  moreover have "file_byte sv' s' off = (if K (off div SFS_BLOCKSIZE) then file_byte sv s off else 0)" for off
    using m [of "off div SFS_BLOCKSIZE"] dk f(5) [of "off div SFS_BLOCKSIZE"] by (auto simp: file_byte_def Let_def)
  ultimately show ?thesis using vol m used R by (simp add: truncated_def)
qed

text \<open>The file blocks a truncation to \<open>B\<close> blocks leaves: in the indirect block, one too many.\<close>

definition kept_blocks :: "nat \<Rightarrow> nat \<Rightarrow> bool" where
  "kept_blocks B i \<longleftrightarrow> (if i < SFS_NDIRECT then i < B else i \<le> B)"

lemma trunc_done_simps [simp]:
  "sfi_direct (sv_i (trunc_done len sv)) = sfi_direct (sv_i sv)" "sfi_indirect (sv_i (trunc_done len sv)) = sfi_indirect (sv_i sv)"
  "file_map (trunc_done len sv) s = file_map sv s" "sfi_size (sv_i (trunc_done len sv)) = word_of_int len"
  by (simp_all add: trunc_done_def file_map_def fun_eq_iff)

lemma entries_at_iff: "unat b \<in> entries_at Q xs \<longleftrightarrow> b \<noteq> 0 \<and> (\<exists>i<length xs. Q i \<and> xs ! i = b)"
  by (auto simp: entries_at_def unat_eq_iff)

text \<open>After the loop over the direct blocks: what is left of them, and the freemap.\<close>

definition direct_cut :: "sfs_vnode \<Rightarrow> sfs_fs \<Rightarrow> nat \<Rightarrow> u32 list \<Rightarrow> sfs_fs \<Rightarrow> bool" where
  "direct_cut sv s B D s1 \<longleftrightarrow> fs_ok s1 \<and> same_volume s s1 \<and> disk s1 = disk s \<and> rd_codes s1 = rd_codes s \<and>
     length D = SFS_NDIRECT \<and> (\<forall>i<SFS_NDIRECT. D ! i = (if kept_blocks B i then file_map sv s i else 0)) \<and>
     (\<forall>b. b \<noteq> 0 \<longrightarrow> (in_use s1 b \<longleftrightarrow> in_use s b \<and> (\<forall>i<SFS_NDIRECT. file_map sv s i = b \<longrightarrow> kept_blocks B i)))"

lemma entries_range:
  assumes "n \<in> entries_at Q xs" and "\<And>i. i < length xs \<Longrightarrow> xs ! i \<noteq> 0 \<Longrightarrow> owned R s (xs ! i)"
  shows "0 < n \<and> n < unat (sb_nblocks s)"
  using assms by (auto simp: entries_at_def owned_def word_gt_0 [symmetric] unat_gt_0)

lemma trunc_direct_file:
  assumes ok: "file_ok R sv s" and B: "unat Bw = B"
  obtains D d s1 where "trunc_direct Bw [0..<SFS_NDIRECT] sv s = Some (sv\<lparr>sv_i := (sv_i sv)\<lparr>sfi_direct := D\<rparr>, sv_dirty := d\<rparr>, s1)"
    "direct_cut sv s B D s1"
proof -
  note f = file_okD [OF ok]
  let ?D = "sfi_direct (sv_i sv)" and ?F = "entries_at (\<lambda>i. i < SFS_NDIRECT \<and> B \<le> i) (sfi_direct (sv_i sv))"
  have dmap: "?D ! i = file_map sv s i" if "i < SFS_NDIRECT" for i using that by (simp add: file_map_def)
  have bw: "bitmap_wf (sfs_freemap s)" using f(1) by (simp add: fs_ok_def)
  have set15: "set [0..<SFS_NDIRECT] = {..<SFS_NDIRECT}" by auto
  have "\<exists>D d s1. trunc_direct Bw [0..<SFS_NDIRECT] sv s = Some (sv\<lparr>sv_i := (sv_i sv)\<lparr>sfi_direct := D\<rparr>, sv_dirty := d\<rparr>, s1) \<and>
    length D = length ?D \<and> (\<forall>i<length D. D ! i = (if i \<in> set [0..<SFS_NDIRECT] \<and> unat Bw \<le> i then 0 else ?D ! i)) \<and>
    frees s s1 (entries_at (\<lambda>i. i \<in> set [0..<SFS_NDIRECT] \<and> unat Bw \<le> i) ?D)"
  proof (rule trunc_direct_ok [OF bw distinct_upt])
    fix i j assume "i \<in> set [0..<SFS_NDIRECT]"
    then have i: "i < SFS_NDIRECT" by (simp only: set15 lessThan_iff)
    then show "i < length ?D" by (simp add: f(2))
    show "in_use s (?D ! i)" if "?D ! i \<noteq> 0" using that f(4) [of i] by (simp add: dmap [OF i] owned_def)
    assume "j \<in> set [0..<SFS_NDIRECT]"
    then have j: "j < SFS_NDIRECT" by (simp only: set15 lessThan_iff)
    show "i = j" if "?D ! i \<noteq> 0" "?D ! i = ?D ! j" using that f(3) [of i j] by (simp add: dmap [OF i] dmap [OF j])
  qed
  then obtain D d s1 where tr: "trunc_direct Bw [0..<SFS_NDIRECT] sv s = Some (sv\<lparr>sv_i := (sv_i sv)\<lparr>sfi_direct := D\<rparr>, sv_dirty := d\<rparr>, s1)"
    and D: "length D = SFS_NDIRECT" "\<And>i. i < SFS_NDIRECT \<Longrightarrow> D ! i = (if kept_blocks B i then file_map sv s i else 0)"
    and fr: "frees s s1 ?F" unfolding set15 B lessThan_iff by (auto simp: f(2) dmap kept_blocks_def)
  have freed: "unat b \<in> ?F \<longleftrightarrow> b \<noteq> 0 \<and> (\<exists>i<SFS_NDIRECT. \<not> kept_blocks B i \<and> file_map sv s i = b)" for b
  proof -
    have "(i < length ?D \<and> (i < SFS_NDIRECT \<and> B \<le> i) \<and> ?D ! i = b) = (i < SFS_NDIRECT \<and> \<not> kept_blocks B i \<and> file_map sv s i = b)" for i
      by (cases "i < SFS_NDIRECT") (auto simp: f(2) dmap kept_blocks_def)
    then show ?thesis unfolding entries_at_iff by metis
  qed
  note g = freesD [OF fr]
  have "fs_ok s1" by (rule frees_fs_ok [OF f(1) fr]) (rule entries_range [where R = R], assumption, metis dmap f(2,4))
  moreover have "in_use s1 b \<longleftrightarrow> in_use s b \<and> (\<forall>i<SFS_NDIRECT. file_map sv s i = b \<longrightarrow> kept_blocks B i)" if "b \<noteq> 0" for b
    using that unfolding g(2) freed by blast
  ultimately have "direct_cut sv s B D s1" using D g(3-5) unfolding direct_cut_def by blast
  with tr show thesis by (rule that)
qed

text \<open>After the loop over the indirect block.\<close>

definition indirect_cut :: "sfs_vnode \<Rightarrow> sfs_fs \<Rightarrow> nat \<Rightarrow> u32 list \<Rightarrow> sfs_fs \<Rightarrow> bool" where
  "indirect_cut sv s B xs s2 \<longleftrightarrow> fs_ok s2 \<and> same_volume s s2 \<and> disk s2 = disk s \<and> length xs = SFS_DBPERIDB \<and>
     (\<forall>j<SFS_DBPERIDB. xs ! j = (if kept_blocks B (SFS_NDIRECT + j) then file_map sv s (SFS_NDIRECT + j) else 0)) \<and>
     (\<forall>b. b \<noteq> 0 \<longrightarrow> (in_use s2 b \<longleftrightarrow> in_use s b \<and> (\<forall>i. file_map sv s i = b \<longrightarrow> kept_blocks B i)))"

lemma map_index_cases:
  assumes "file_map sv s i \<noteq> 0"
  obtains "i < SFS_NDIRECT" | j where "i = SFS_NDIRECT + j" "j < SFS_DBPERIDB"
  using assms by (cases "i < SFS_NDIRECT"; cases "i < SFS_NDIRECT + SFS_DBPERIDB")
    (auto simp: file_map_def intro: that(2) [of "i - SFS_NDIRECT"] split: if_splits)

lemma trunc_indirect_file:
  assumes ok: "file_ok R sv s" and cut: "direct_cut sv s B D s1" and B: "unat Bw = B"
    and ib: "sfi_indirect (sv_i sv) \<noteq> 0" and rs: "fs_ok (s1\<lparr>rd_codes := rs\<rparr>)" "rd_codes s1 = [] \<longrightarrow> rs = []"
    and xs: "xs = words_of (disk s (unat (sfi_indirect (sv_i sv))))"
  obtains xs' dd s2 where "trunc_indirect Bw SFS_NDIRECT xs (s1\<lparr>rd_codes := rs\<rparr>) = Some (xs', dd, s2)"
    "indirect_cut sv s B xs' s2" "\<not> dd \<longrightarrow> xs' = xs"
proof -
  note f = file_okD [OF ok]
  let ?s1 = "s1\<lparr>rd_codes := rs\<rparr>" and ?ib = "sfi_indirect (sv_i sv)" and ?F = "entries_at (\<lambda>j. B < SFS_NDIRECT + j) xs"
  from cut have vol1: "same_volume s s1" and dk1: "disk s1 = disk s" and used1: "\<And>b. b \<noteq> 0 \<Longrightarrow> in_use s1 b \<longleftrightarrow>
      in_use s b \<and> (\<forall>i<SFS_NDIRECT. file_map sv s i = b \<longrightarrow> kept_blocks B i)" by (simp_all add: direct_cut_def)
  have xs': "xs = idwords ?ib s" using ib by (simp add: xs idwords_def)
  have lenx: "length xs = SFS_DBPERIDB" unfolding xs' by (rule length_idwords [OF f(1)])
  have xmap: "xs ! j = file_map sv s (SFS_NDIRECT + j)" if "j < SFS_DBPERIDB" for j using that by (simp add: file_map_def xs')
  have unf: "in_use ?s1 (xs ! j)" if "j < length xs" "xs ! j \<noteq> 0" for j
  proof -
    have j: "j < SFS_DBPERIDB" using that lenx by simp
    have nz: "file_map sv s (SFS_NDIRECT + j) \<noteq> 0" using that(2) unfolding xmap [OF j] .
    have "file_map sv s i \<noteq> xs ! j" if i: "i < SFS_NDIRECT" for i
    proof
      assume "file_map sv s i = xs ! j"
      then have "file_map sv s (SFS_NDIRECT + j) = file_map sv s i" by (simp only: xmap [OF j])
      from f(3) [OF nz this] i show False by simp
    qed
    moreover have "in_use s (xs ! j)" using f(4) [OF nz] unfolding xmap [OF j] owned_def by blast
    ultimately show ?thesis using used1 [OF that(2)] by simp
  qed
  have "\<exists>xs' d s'. trunc_indirect Bw SFS_NDIRECT xs ?s1 = Some (xs', d, s') \<and> length xs' = length xs \<and>
      (\<forall>j<length xs. xs' ! j = (if unat Bw < SFS_NDIRECT + j then 0 else xs ! j)) \<and> (\<not> d \<longrightarrow> xs' = xs) \<and>
      frees ?s1 s' (entries_at (\<lambda>j. unat Bw < SFS_NDIRECT + j) xs)"
  proof (rule trunc_indirect_ok [OF _ unf])
    show "bitmap_wf (sfs_freemap ?s1)" using rs(1) by (simp add: fs_ok_def)
    show "j = k" if "j < length xs" "k < length xs" "xs ! j \<noteq> 0" "xs ! j = xs ! k" for j k
      using that f(3) [of "SFS_NDIRECT + j" "SFS_NDIRECT + k"] by (simp add: lenx xmap)
  qed
  then obtain ys dd s2 where ti: "trunc_indirect Bw SFS_NDIRECT xs ?s1 = Some (ys, dd, s2)"
    and len: "length ys = length xs" and y: "\<forall>j<length xs. ys ! j = (if B < SFS_NDIRECT + j then 0 else xs ! j)"
    and clean: "\<not> dd \<longrightarrow> ys = xs" and fr: "frees ?s1 s2 ?F" unfolding B by blast
  note g = freesD [OF fr]
  have fs2: "fs_ok s2"
  proof (rule frees_fs_ok [OF rs(1) fr])
    fix n assume "n \<in> ?F"
    then have "0 < n \<and> n < unat (sb_nblocks s)" by (rule entries_range [where R = R]) (metis xmap lenx f(4))
    then show "0 < n \<and> n < unat (sb_nblocks ?s1)" using vol1 by (simp add: same_volume_def)
  qed
  have used: "in_use s2 b \<longleftrightarrow> in_use s b \<and> (\<forall>i. file_map sv s i = b \<longrightarrow> kept_blocks B i)" if nz: "b \<noteq> 0" for b
  proof -
    have "(j < length xs \<and> B < SFS_NDIRECT + j \<and> xs ! j = b) = (j < SFS_DBPERIDB \<and> \<not> kept_blocks B (SFS_NDIRECT + j) \<and> file_map sv s (SFS_NDIRECT + j) = b)" for j
      by (cases "j < SFS_DBPERIDB") (auto simp: lenx xmap kept_blocks_def)
    then have "unat b \<in> ?F \<longleftrightarrow> (\<exists>j<SFS_DBPERIDB. \<not> kept_blocks B (SFS_NDIRECT + j) \<and> file_map sv s (SFS_NDIRECT + j) = b)"
      unfolding entries_at_iff using nz by metis
    moreover have "(\<exists>i. \<not> kept_blocks B i \<and> file_map sv s i = b) \<longleftrightarrow> (\<exists>i<SFS_NDIRECT. \<not> kept_blocks B i \<and> file_map sv s i = b) \<or>
        (\<exists>j<SFS_DBPERIDB. \<not> kept_blocks B (SFS_NDIRECT + j) \<and> file_map sv s (SFS_NDIRECT + j) = b)"
      using map_index_cases nz by metis
    moreover have "in_use s2 b \<longleftrightarrow> in_use s1 b \<and> unat b \<notin> ?F" by (simp add: g(2))
    ultimately show ?thesis using used1 [OF nz] by blast
  qed
  have "same_volume s s2" using vol1 g(5) rs(2) by (auto simp: same_volume_def)
  then have "indirect_cut sv s B ys s2" using fs2 used len lenx y g(3) dk1
    by (simp add: indirect_cut_def xmap kept_blocks_def not_less)
  with ti show thesis using clean by (rule that)
qed

text \<open>The inode and the indirect block after the loops make up the map of the shorter file.\<close>

lemma cut_map:
  assumes "direct_cut sv s B D s1" and "indirect_cut sv s B xs s2"
    and "sfi_direct (sv_i sv') = D" and "idwords (sfi_indirect (sv_i sv')) s' = xs"
  shows "file_map sv' s' i = (if kept_blocks B i then file_map sv s i else 0)"
proof -
  consider "i < SFS_NDIRECT" | j where "i = SFS_NDIRECT + j" "j < SFS_DBPERIDB" | "SFS_NDIRECT + SFS_DBPERIDB \<le> i"
    by (metis le_add_diff_inverse less_diff_conv2 not_less add.commute)
  then show ?thesis using assms by cases (auto simp: file_map_def direct_cut_def indirect_cut_def)
qed

lemma cut_drops_indirect:
  assumes ok: "file_ok R sv s" and cut: "direct_cut sv s B D s1" "indirect_cut sv s B xs s2" and ib: "sfi_indirect (sv_i sv) \<noteq> 0"
    and zero: "\<forall>x\<in>set xs. x = 0" and sv': "sfi_direct (sv_i sv') = D" "sfi_indirect (sv_i sv') = 0"
  obtains s3 where "sfs_bfree (sfi_indirect (sv_i sv)) s2 = Some s3" "truncated R sv s (kept_blocks B) sv' s3"
proof -
  note f = file_okD [OF ok]
  let ?ib = "sfi_indirect (sv_i sv)"
  from cut(2) have c: "fs_ok s2" "same_volume s s2" "disk s2 = disk s" "length xs = SFS_DBPERIDB"
    and used: "\<And>b. b \<noteq> 0 \<Longrightarrow> in_use s2 b \<longleftrightarrow> in_use s b \<and> (\<forall>i. file_map sv s i = b \<longrightarrow> kept_blocks B i)"
    by (simp_all add: indirect_cut_def)
  have own: "in_use s ?ib" "unat ?ib < unat (sb_nblocks s2)" using f(6) [OF ib] c(2) by (simp_all add: owned_def same_volume_def)
  have "\<forall>i. file_map sv s i = ?ib \<longrightarrow> kept_blocks B i" using f(5) ib by metis
  then have ib2: "in_use s2 ?ib" using used [OF ib] own(1) by blast
  have bw: "bitmap_wf (sfs_freemap s2)" using c(1) by (simp add: fs_ok_def)
  from bfree_ok [OF bw ib2] obtain s3 where s3: "sfs_bfree ?ib s2 = Some s3" "frees s2 s3 {unat ?ib}" .
  note g = freesD [OF s3(2)]
  have "truncated R sv s (kept_blocks B) sv' s3"
  proof (rule truncatedI [OF ok])
    show "fs_ok s3" by (rule frees_fs_ok [OF c(1) s3(2)]) (use own(2) ib in \<open>auto simp: unat_gt_0\<close>)
    show "same_volume s s3" using c(2) g(5) by (auto simp: same_volume_def)
    have "xs = replicate SFS_DBPERIDB 0" using zero c(4) by (intro replicate_eqI) auto
    then show "file_map sv' s3 i = (if kept_blocks B i then file_map sv s i else 0)" for i
      by (intro cut_map [OF cut sv'(1)]) (simp add: idwords_def sv'(2))
    show "in_use s3 b \<longleftrightarrow> in_use s b \<and> (\<forall>i. file_map sv s i = b \<longrightarrow> kept_blocks B i) \<and> (?ib = b \<longrightarrow> sfi_indirect (sv_i sv') = b)"
      if "b \<noteq> 0" for b using that used [OF that] sv'(2) by (auto simp: g(2) unat_eq_iff)
    show "length (sfi_direct (sv_i sv')) = SFS_NDIRECT" using cut(1) sv'(1) by (simp add: direct_cut_def)
  qed (simp_all add: sv' g(3) c(3))
  with s3(1) show thesis by (rule that)
qed

lemma cut_keeps_indirect:
  assumes ok: "file_ok R sv s" and cut: "direct_cut sv s B D s1" "indirect_cut sv s B xs s2" and ib: "sfi_indirect (sv_i sv) \<noteq> 0"
    and sv': "sfi_direct (sv_i sv') = D" "sfi_indirect (sv_i sv') = sfi_indirect (sv_i sv)"
    and s3: "fs_ok s3" "same_volume s s3" "sfs_freemap s3 = sfs_freemap s2" "words_of (disk s3 (unat (sfi_indirect (sv_i sv)))) = xs"
      "\<And>b. b \<noteq> sfi_indirect (sv_i sv) \<Longrightarrow> disk s3 (unat b) = disk s (unat b)"
  shows "truncated R sv s (kept_blocks B) sv' s3"
proof (rule truncatedI [OF ok s3(1,2)])
  show "file_map sv' s3 i = (if kept_blocks B i then file_map sv s i else 0)" for i
    using ib s3(4) by (intro cut_map [OF cut sv'(1)]) (simp add: idwords_def sv'(2))
  show "in_use s3 b \<longleftrightarrow> in_use s b \<and> (\<forall>i. file_map sv s i = b \<longrightarrow> kept_blocks B i) \<and>
      (sfi_indirect (sv_i sv) = b \<longrightarrow> sfi_indirect (sv_i sv') = b)" if "b \<noteq> 0" for b
    using that cut(2) by (simp add: indirect_cut_def s3(3) sv'(2))
  show "length (sfi_direct (sv_i sv')) = SFS_NDIRECT" using cut(1) sv'(1) by (simp add: direct_cut_def)
  show "disk s3 (unat b) = disk s (unat b)" if "b \<noteq> sfi_indirect (sv_i sv) \<or> b = 0" for b using that s3(5) [of b] ib by (cases "b = sfi_indirect (sv_i sv)") auto
qed (simp add: sv')

lemma cut_without_indirect:
  assumes ok: "file_ok R sv s" and cut: "direct_cut sv s B D s1"
    and no: "\<not> B < SFS_NDIRECT + SFS_DBPERIDB - 1 \<or> sfi_indirect (sv_i sv) = 0"
    and sv': "sfi_direct (sv_i sv') = D" "sfi_indirect (sv_i sv') = sfi_indirect (sv_i sv)"
  shows "truncated R sv s (kept_blocks B) sv' s1"
proof (rule truncatedI [OF ok])
  from cut have c: "fs_ok s1" "same_volume s s1" "disk s1 = disk s" "length D = SFS_NDIRECT"
    "\<And>i. i < SFS_NDIRECT \<Longrightarrow> D ! i = (if kept_blocks B i then file_map sv s i else 0)"
    and used: "\<And>b. b \<noteq> 0 \<Longrightarrow> in_use s1 b \<longleftrightarrow> in_use s b \<and> (\<forall>i<SFS_NDIRECT. file_map sv s i = b \<longrightarrow> kept_blocks B i)"
    by (simp_all add: direct_cut_def)
  show "fs_ok s1" "same_volume s s1" "length (sfi_direct (sv_i sv')) = SFS_NDIRECT" using c sv'(1) by simp_all
  have keep: "file_map sv s i = 0 \<or> kept_blocks B i" if "\<not> i < SFS_NDIRECT" for i
    using no that by (auto simp: file_map_def kept_blocks_def idwords_def)
  have "idwords (sfi_indirect (sv_i sv')) s1 = idwords (sfi_indirect (sv_i sv)) s" by (simp add: sv'(2) idwords_def c(3))
  then show "file_map sv' s1 i = (if kept_blocks B i then file_map sv s i else 0)" for i
    using c(5) keep [of i] by (cases "i < SFS_NDIRECT") (auto simp: file_map_def sv')
  show "in_use s1 b \<longleftrightarrow> in_use s b \<and> (\<forall>i. file_map sv s i = b \<longrightarrow> kept_blocks B i) \<and>
      (sfi_indirect (sv_i sv) = b \<longrightarrow> sfi_indirect (sv_i sv') = b)" if "b \<noteq> 0" for b
    unfolding used [OF that] sv'(2) using that keep by metis
qed (simp_all add: sv' cut [unfolded direct_cut_def])

lemma cut_direct_only:
  assumes ok: "file_ok R sv s" and cut: "direct_cut sv s B D s1" and ib: "sfi_indirect (sv_i sv) \<noteq> 0"
    and s2: "fs_ok s2" "s2 = s1\<lparr>rd_codes := rs\<rparr>" "rd_codes s1 = [] \<longrightarrow> rs = []"
    and sv1: "sfi_direct (sv_i sv1) = D" "sfi_indirect (sv_i sv1) = sfi_indirect (sv_i sv)"
  shows "truncated R sv s (\<lambda>i. SFS_NDIRECT \<le> i \<or> kept_blocks B i) sv1 s2"
proof (rule truncatedI [OF ok s2(1)])
  note f = file_okD [OF ok]
  from cut have c: "same_volume s s1" "disk s1 = disk s" "length D = SFS_NDIRECT"
    "\<And>i. i < SFS_NDIRECT \<Longrightarrow> D ! i = (if kept_blocks B i then file_map sv s i else 0)"
    "\<And>b. b \<noteq> 0 \<Longrightarrow> in_use s1 b \<longleftrightarrow> in_use s b \<and> (\<forall>i<SFS_NDIRECT. file_map sv s i = b \<longrightarrow> kept_blocks B i)"
    by (simp_all add: direct_cut_def)
  show "same_volume s s2" using c(1) s2(3) by (simp add: same_volume_def s2(2))
  show "length (sfi_direct (sv_i sv1)) = SFS_NDIRECT" by (simp add: sv1 c(3))
  show "file_map sv1 s2 i = (if SFS_NDIRECT \<le> i \<or> kept_blocks B i then file_map sv s i else 0)" for i
    using c(4) [of i] by (auto simp: file_map_def sv1 idwords_def s2(2) c(2))
  show "sfi_indirect (sv_i sv1) = sfi_indirect (sv_i sv) \<or> sfi_indirect (sv_i sv1) = 0" by (simp add: sv1)
  show "in_use s2 b \<longleftrightarrow> in_use s b \<and> (\<forall>i. file_map sv s i = b \<longrightarrow> SFS_NDIRECT \<le> i \<or> kept_blocks B i) \<and>
      (sfi_indirect (sv_i sv) = b \<longrightarrow> sfi_indirect (sv_i sv1) = b)" if "b \<noteq> 0" for b
    using c(5) [OF that] by (simp add: s2(2) sv1) (metis not_le)
  show "disk s2 (unat b) = disk s (unat b)" for b :: u32 by (simp add: s2(2) c(2))
qed

lemma sfs_itrunc_ok:
  assumes ok: "file_ok R sv s" and len: "0 \<le> len" "len < 2 ^ 32"
  shows "\<exists>r sv' s'. sfs_itrunc sv len s = Some (r, sv', s') \<and> (rd_codes s = [] \<longrightarrow> r = None) \<and>
    (\<exists>K. truncated R sv s K sv' s' \<and> (r = None \<longrightarrow> K = kept_blocks (nat ((len + 511) div 512)) \<and> sfi_size (sv_i sv') = word_of_int len))"
proof -
  note f = file_okD [OF ok]
  let ?B = "word_of_int ((len + int SFS_BLOCKSIZE - 1) sdiv int SFS_BLOCKSIZE) :: u32" and ?ib = "sfi_indirect (sv_i sv)"
  define B where "B = nat ((len + 511) div 512)"
  have "(len + int SFS_BLOCKSIZE - 1) sdiv int SFS_BLOCKSIZE = int B"
    using len by (simp add: signed_divide_int_def B_def pos_imp_zdiv_nonneg_iff)
  then have "?B = word_of_nat B" by simp
  moreover have "B < 4294967296" using len by (simp add: B_def nat_less_iff)
  ultimately have B: "unat ?B = B" using unat_word_of_nat_32 by simp
  obtain D d s1 where tr: "trunc_direct ?B [0..<SFS_NDIRECT] sv s = Some (sv\<lparr>sv_i := (sv_i sv)\<lparr>sfi_direct := D\<rparr>, sv_dirty := d\<rparr>, s1)"
    and cut: "direct_cut sv s B D s1" by (rule trunc_direct_file [OF ok B])
  from cut have s1: "fs_ok s1" "same_volume s s1" "disk s1 = disk s" "rd_codes s1 = rd_codes s" by (simp_all add: direct_cut_def)
  let ?sv1 = "sv\<lparr>sv_i := (sv_i sv)\<lparr>sfi_direct := D\<rparr>, sv_dirty := d\<rparr>"
  show ?thesis unfolding B_def [symmetric]
  proof (cases "B < SFS_NDIRECT + SFS_DBPERIDB - 1 \<and> ?ib \<noteq> 0")
    case False
    then have "sfs_itrunc sv len s = Some (None, trunc_done len ?sv1, s1)" using tr B by (auto simp: sfs_itrunc_def Let_def)
    moreover have "truncated R sv s (kept_blocks B) (trunc_done len ?sv1) s1"
      using False by (intro cut_without_indirect [OF ok cut]) auto
    ultimately show "\<exists>r sv' s'. sfs_itrunc sv len s = Some (r, sv', s') \<and> (rd_codes s = [] \<longrightarrow> r = None) \<and>
      (\<exists>K. truncated R sv s K sv' s' \<and> (r = None \<longrightarrow> K = kept_blocks B \<and> sfi_size (sv_i sv') = word_of_int len))" by simp
  next
    case True
    then have ib: "?ib \<noteq> 0" by simp
    have own: "unat ?ib < unat (sb_nblocks s1)" using f(6) [OF ib] s1(2) by (simp add: owned_def same_volume_def)
    obtain r rs where rd: "sfs_readblock ?ib s1 = Some (r, s1\<lparr>rd_codes := rs\<rparr>)" "fs_ok (s1\<lparr>rd_codes := rs\<rparr>)"
      "r = Inr (disk s1 (unat ?ib)) \<or> (\<exists>e. r = Inl e) \<and> rd_codes s1 \<noteq> []" "rd_codes s1 = [] \<longrightarrow> rs = []"
      by (rule readblock_ok [OF s1(1) own])
    show "\<exists>r sv' s'. sfs_itrunc sv len s = Some (r, sv', s') \<and> (rd_codes s = [] \<longrightarrow> r = None) \<and>
      (\<exists>K. truncated R sv s K sv' s' \<and> (r = None \<longrightarrow> K = kept_blocks B \<and> sfi_size (sv_i sv') = word_of_int len))"
    proof (cases r)
      case (Inl e)
      then have "sfs_itrunc sv len s = Some (Some e, ?sv1, s1\<lparr>rd_codes := rs\<rparr>)" using tr B True rd(1) by (simp add: sfs_itrunc_def Let_def)
      moreover have "truncated R sv s (\<lambda>i. SFS_NDIRECT \<le> i \<or> kept_blocks B i) ?sv1 (s1\<lparr>rd_codes := rs\<rparr>)"
        using cut rd(2,4) by (intro cut_direct_only [OF ok cut ib]) simp_all
      moreover have "rd_codes s \<noteq> []" using Inl rd(3) s1(4) by simp
      ultimately show ?thesis by (intro exI [of _ "Some e"] exI [of _ ?sv1] exI [of _ "s1\<lparr>rd_codes := rs\<rparr>"]) blast
    next
      case (Inr b0)
      with rd(3) have b0: "b0 = disk s (unat ?ib)" by (simp add: s1(3))
      obtain xs dd s2 where ti: "trunc_indirect ?B SFS_NDIRECT (words_of b0) (s1\<lparr>rd_codes := rs\<rparr>) = Some (xs, dd, s2)"
        and icut: "indirect_cut sv s B xs s2" and clean: "\<not> dd \<longrightarrow> xs = words_of b0"
        by (rule trunc_indirect_file [OF ok cut B ib rd(2,4) refl]) (simp add: b0)
      from icut have s2: "fs_ok s2" "same_volume s s2" "disk s2 = disk s" "length xs = SFS_DBPERIDB" by (simp_all add: indirect_cut_def)
      have start: "sfs_itrunc sv len s = (if \<forall>x\<in>set xs. x = 0 then sfs_bfree ?ib s2 \<bind> (\<lambda>s. Some (None, trunc_done len (set_indirect 0 ?sv1), s))
          else if dd then sfs_writeblock ?ib (bytes_of xs) s2 \<bind> (\<lambda>(w, s). case w of Some e \<Rightarrow> Some (Some e, ?sv1, s) | None \<Rightarrow> Some (None, trunc_done len ?sv1, s))
          else Some (None, trunc_done len ?sv1, s2))"
        using tr B True rd(1) Inr ti by (simp add: sfs_itrunc_def Let_def)
      consider "\<forall>x\<in>set xs. x = 0" | "\<not> (\<forall>x\<in>set xs. x = 0)" dd | "\<not> (\<forall>x\<in>set xs. x = 0)" "\<not> dd" by blast
      then show ?thesis
      proof cases
        case 1
        have sv1: "sfi_direct (sv_i (trunc_done len (set_indirect 0 ?sv1))) = D" "sfi_indirect (sv_i (trunc_done len (set_indirect 0 ?sv1))) = 0" by simp_all
        from cut_drops_indirect [OF ok cut icut ib 1 sv1] obtain s3 where "sfs_bfree ?ib s2 = Some s3"
          "truncated R sv s (kept_blocks B) (trunc_done len (set_indirect 0 ?sv1)) s3" .
        with 1 show ?thesis unfolding start by simp
      next
        case 2
        have own2: "unat ?ib < unat (sb_nblocks s2)" using f(6) [OF ib] s2(2) by (simp add: owned_def same_volume_def)
        have wd: "length (bytes_of xs) = SFS_BLOCKSIZE" by (simp add: s2(4))
        note w = writeblock_ok [OF s2(1) own2 wd]
        let ?s3 = "s2\<lparr>disk := (disk s2)(unat ?ib := bytes_of xs)\<rparr>"
        have "truncated R sv s (kept_blocks B) (trunc_done len ?sv1) ?s3"
          using w s2(2,3) by (intro cut_keeps_indirect [OF ok cut icut ib]) (auto simp: unat_eq_iff)
        with w(1) 2(2) show ?thesis unfolding start if_not_P [OF 2(1)] by simp
      next
        case 3
        have "truncated R sv s (kept_blocks B) (trunc_done len ?sv1) s2"
          using clean 3(2) s2 b0 by (intro cut_keeps_indirect [OF ok cut icut ib]) simp_all
        with 3(2) show ?thesis unfolding start if_not_P [OF 3(1)] by simp
      qed
    qed
  qed
qed

end
