(* ===== verification/SfsIo.thy ===== *)
theory SfsIo
  imports SfsBmap
begin

text \<open>
  Reading and writing files: \<open>sfs_partialio\<close>, \<open>sfs_blockio\<close>, \<open>sfs_io\<close> and \<open>sfs_metaio\<close> of
  \<open>kern/fs/sfs/sfs_io.c\<close>, on the requests of theory Uio. Offsets are integers (\<open>off_t\<close>) that are not negative, block numbers 32-bit
  words; the byte offset of a block on the disk is computed by \<open>sfs_blockio\<close> with 32 bits, and wraps.
\<close>

section \<open>Operations\<close>

definition sfs_partialio :: "nat option \<Rightarrow> sfs_vnode \<Rightarrow> uiov \<Rightarrow> nat \<Rightarrow> nat \<Rightarrow> sfs_fs \<Rightarrow> (errno option \<times> sfs_vnode \<times> uiov \<times> sfs_fs) option" where
  "sfs_partialio cur sv u skipstart len s = do {
     let doalloc = (uio_rw u = UIO_WRITE);
     kassert (skipstart + len \<le> SFS_BLOCKSIZE);
     let fileblock = word_of_int (uio_offset u sdiv int SFS_BLOCKSIZE);
     (result, sv, s) \<leftarrow> sfs_bmap sv fileblock doalloc s;
     (case result of
        Inl e \<Rightarrow> Some (Some e, sv, u, s)
      | Inr diskblock \<Rightarrow> do {
          (result, s) \<leftarrow> (if diskblock = 0 then do { kassert (uio_rw u = UIO_READ); Some (Inr (replicate SFS_BLOCKSIZE 0), s) }
                         else sfs_readblock diskblock s);
          (case result of
             Inl e \<Rightarrow> Some (Some e, sv, u, s)
           | Inr iobuf \<Rightarrow> do {
               (result, part, u, s) \<leftarrow> uiomove cur (take len (drop skipstart iobuf)) u s;
               (case result of
                  Some e \<Rightarrow> Some (Some e, sv, u, s)
                | None \<Rightarrow>
                    if uio_rw u = UIO_WRITE then do {
                      (result, s) \<leftarrow> sfs_writeblock diskblock (take skipstart iobuf @ part @ drop (skipstart + len) iobuf) s;
                      Some (result, sv, u, s) }
                    else Some (None, sv, u, s)) }) }) }"

definition sfs_blockio :: "nat option \<Rightarrow> sfs_vnode \<Rightarrow> uiov \<Rightarrow> sfs_fs \<Rightarrow> (errno option \<times> sfs_vnode \<times> uiov \<times> sfs_fs) option" where
  "sfs_blockio cur sv u s = do {
     let doalloc = (uio_rw u = UIO_WRITE);
     let fileblock = word_of_int (uio_offset u sdiv int SFS_BLOCKSIZE);
     (result, sv, s) \<leftarrow> sfs_bmap sv fileblock doalloc s;
     (case result of
        Inl e \<Rightarrow> Some (Some e, sv, u, s)
      | Inr diskblock \<Rightarrow>
          if diskblock = 0 then do {
            kassert (uio_rw u = UIO_READ);
            (result, u, s) \<leftarrow> uiomovezeros cur SFS_BLOCKSIZE u s;
            Some (result, sv, u, s) }
          else do {
            let saveoff = uio_offset u;
            let diskoff = int (unat (diskblock * word_of_nat SFS_BLOCKSIZE));
            kassert (uio_resid u \<ge> word_of_nat SFS_BLOCKSIZE);
            let saveres = uio_resid u;
            let diskres = word_of_nat SFS_BLOCKSIZE;
            (result, u, s) \<leftarrow> sfs_rwblock 10 cur (u\<lparr>uio_offset := diskoff, uio_resid := diskres\<rparr>) s;
            Some (result, sv, u\<lparr>uio_offset := (uio_offset u - diskoff) + saveoff, uio_resid := (uio_resid u - diskres) + saveres\<rparr>, s) }) }"

text \<open>The loop over the whole blocks.\<close>

fun io_blocks :: "nat option \<Rightarrow> nat \<Rightarrow> sfs_vnode \<Rightarrow> uiov \<Rightarrow> sfs_fs \<Rightarrow> (errno option \<times> sfs_vnode \<times> uiov \<times> sfs_fs) option" where
  "io_blocks cur 0 sv u s = Some (None, sv, u, s)"
| "io_blocks cur (Suc n) sv u s = do {
     (result, sv, u, s) \<leftarrow> sfs_blockio cur sv u s;
     (case result of
        Some e \<Rightarrow> Some (Some e, sv, u, s)
      | None \<Rightarrow> io_blocks cur n sv u s) }"

text \<open>Whole blocks and the rest.\<close>

definition io_aligned :: "nat option \<Rightarrow> sfs_vnode \<Rightarrow> uiov \<Rightarrow> sfs_fs \<Rightarrow> (errno option \<times> sfs_vnode \<times> uiov \<times> sfs_fs) option" where
  "io_aligned cur sv u s = do {
     (result, sv, u, s) \<leftarrow> io_blocks cur (unat (uio_resid u) div SFS_BLOCKSIZE) sv u s;
     (case result of
        Some e \<Rightarrow> Some (Some e, sv, u, s)
      | None \<Rightarrow> do {
          kassert (unat (uio_resid u) < SFS_BLOCKSIZE);
          if uio_resid u > 0 then sfs_partialio cur sv u 0 (unat (uio_resid u)) s
          else Some (None, sv, u, s) }) }"

text \<open>From the first, perhaps partial, block to the label \<open>out\<close>.\<close>

definition io_transfer :: "nat option \<Rightarrow> sfs_vnode \<Rightarrow> uiov \<Rightarrow> sfs_fs \<Rightarrow> (errno option \<times> sfs_vnode \<times> uiov \<times> sfs_fs) option" where
  "io_transfer cur sv u s = do {
     let blkoff = nat (uio_offset u smod int SFS_BLOCKSIZE);
     (result, sv, u, s) \<leftarrow>
       (if blkoff \<noteq> 0 then sfs_partialio cur sv u blkoff (min (SFS_BLOCKSIZE - blkoff) (unat (uio_resid u))) s
        else Some (None, sv, u, s));
     (case result of
        Some e \<Rightarrow> Some (Some e, sv, u, s)
      | None \<Rightarrow>
          if uio_resid u = 0 then Some (None, sv, u, s)
          else do {
            kassert (uio_offset u smod int SFS_BLOCKSIZE = 0);
            io_aligned cur sv u s }) }"

definition set_size :: "int \<Rightarrow> sfs_vnode \<Rightarrow> sfs_vnode" where
  "set_size n sv = sv\<lparr>sv_i := (sv_i sv)\<lparr>sfi_size := word_of_int n\<rparr>, sv_dirty := True\<rparr>"

definition sfs_io :: "nat option \<Rightarrow> sfs_vnode \<Rightarrow> uiov \<Rightarrow> sfs_fs \<Rightarrow> (errno option \<times> sfs_vnode \<times> uiov \<times> sfs_fs) option" where
  "sfs_io cur sv u s = do {
     let origresid = uio_resid u;
     let size = int (unat (sfi_size (sv_i sv)));
     let endpos = uio_offset u + int (unat (uio_resid u));
     if uio_rw u = UIO_READ \<and> uio_offset u \<ge> size then Some (None, sv, u, s)
     else do {
       let extraresid = (if uio_rw u = UIO_READ \<and> endpos > size then word_of_int (endpos - size) else 0);
       kassert (uio_rw u = UIO_READ \<and> endpos > size \<longrightarrow> uio_resid u > extraresid);
       let u = u\<lparr>uio_resid := uio_resid u - extraresid\<rparr>;
       (result, sv, u, s) \<leftarrow> io_transfer cur sv u s;
       let sv = (if uio_resid u \<noteq> origresid \<and> uio_rw u = UIO_WRITE \<and> uio_offset u > int (unat (sfi_size (sv_i sv)))
                 then set_size (uio_offset u) sv else sv);
       Some (result, sv, u\<lparr>uio_resid := uio_resid u + extraresid\<rparr>, s) } }"

text \<open>Objects within a block: \<open>data\<close> is the buffer, returned as the call leaves it.\<close>

definition sfs_metaio :: "sfs_vnode \<Rightarrow> int \<Rightarrow> u8 list \<Rightarrow> uio_rw \<Rightarrow> sfs_fs \<Rightarrow> (errno option \<times> u8 list \<times> sfs_vnode \<times> sfs_fs) option" where
  "sfs_metaio sv actualpos data rw s = do {
     let vnblock = word_of_int (actualpos sdiv int SFS_BLOCKSIZE);
     let blockoffset = nat (actualpos smod int SFS_BLOCKSIZE);
     let doalloc = (rw = UIO_WRITE);
     (result, sv, s) \<leftarrow> sfs_bmap sv vnblock doalloc s;
     (case result of
        Inl e \<Rightarrow> Some (Some e, data, sv, s)
      | Inr diskblock \<Rightarrow>
          if diskblock = 0 then do {
            kassert (rw = UIO_READ);
            Some (None, replicate (length data) 0, sv, s) }
          else do {
            (result, s) \<leftarrow> sfs_readblock diskblock s;
            (case result of
               Inl e \<Rightarrow> Some (Some e, data, sv, s)
             | Inr metaiobuf \<Rightarrow>
                 if rw = UIO_READ then Some (None, take (length data) (drop blockoffset metaiobuf), sv, s)
                 else do {
                   (result, s) \<leftarrow> sfs_writeblock diskblock
                     (take blockoffset metaiobuf @ data @ drop (blockoffset + length data) metaiobuf) s;
                   (case result of
                      Some e \<Rightarrow> Some (Some e, data, sv, s)
                    | None \<Rightarrow>
                        let endpos = actualpos + int (length data) in
                        Some (None, data, if endpos > int (unat (sfi_size (sv_i sv))) then set_size endpos sv else sv, s)) }) }) }"

section \<open>Bytes that pass\<close>

text \<open>What \<open>moved\<close> says about the request and the memory of the program, without the rest of the state.\<close>

definition memory :: "bytes \<Rightarrow> memories" where
  "memory w = \<lparr>kmem = (\<lambda>_. 0), umem = w, accessible = (\<lambda>_. False)\<rparr>"

definition passed :: "u8 list \<Rightarrow> uiov \<Rightarrow> bytes \<Rightarrow> uiov \<Rightarrow> bytes \<Rightarrow> bool" where
  "passed bs u w u' w' \<longleftrightarrow> moved bs u (memory w) u' (memory w')"

lemma source_memory: "source u m = source u (memory (umem m))"
  by (simp add: source_def memory_def)

lemma moved_passed: "moved bs u m u' m' \<Longrightarrow> passed bs u (umem m) u' (umem m')"
  unfolding passed_def moved_def source_memory [of u m] Let_def
  by (auto simp: memory_def same_rest_def)

lemma passed_nothing: "passed [] u w u w"
  unfolding passed_def by (rule moved_nothing)

lemma passed_trans: "passed bs u w u1 w1 \<Longrightarrow> passed cs u1 w1 u2 w2 \<Longrightarrow> passed (bs @ cs) u w u2 w2"
  unfolding passed_def by (rule moved_trans)

lemma passedD:
  assumes "passed bs u w u' w'"
  shows "uio_rw u' = uio_rw u" and "uio_segflg u' = uio_segflg u" and "uio_offset u' = uio_offset u + int (length bs)"
    and "unat (uio_resid u) = length bs + unat (uio_resid u')" and "uio_rw u = UIO_WRITE \<Longrightarrow> w' = w"
    and "uio_rw u = UIO_WRITE \<Longrightarrow> take (length bs) (source u (memory w)) = bs"
  using assms by (auto simp: passed_def moved_def Let_def memory_def split: if_splits)

section \<open>Steps of a file\<close>

lemma file_ok_memory [simp]:
  "fs_ok (s\<lparr>kmem := k\<rparr>) = fs_ok s" "fs_ok (s\<lparr>umem := w\<rparr>) = fs_ok s"
  "file_map sv (s\<lparr>kmem := k\<rparr>) = file_map sv s" "file_map sv (s\<lparr>umem := w\<rparr>) = file_map sv s"
  "file_byte sv (s\<lparr>kmem := k\<rparr>) = file_byte sv s" "file_byte sv (s\<lparr>umem := w\<rparr>) = file_byte sv s"
  "file_ok R sv (s\<lparr>kmem := k\<rparr>) = file_ok R sv s" "file_ok R sv (s\<lparr>umem := w\<rparr>) = file_ok R sv s"
  by (simp_all add: fs_ok_def file_map_def file_byte_def file_ok_def owned_def idwords_def Let_def fun_eq_iff)

text \<open>The file stays sound, its size is kept, other blocks in use are left alone.\<close>

definition carried :: "u32 set \<Rightarrow> sfs_vnode \<Rightarrow> sfs_fs \<Rightarrow> sfs_vnode \<Rightarrow> sfs_fs \<Rightarrow> bool" where
  "carried R sv s sv' s' \<longleftrightarrow> file_ok R sv' s' \<and> sb_nblocks s' = sb_nblocks s \<and> d_nblocks s' = d_nblocks s \<and>
     (rd_codes s = [] \<longrightarrow> rd_codes s' = []) \<and> (\<forall>b. in_use s b \<longrightarrow> in_use s' b) \<and>
     (\<forall>b\<in>R. disk s' (unat b) = disk s (unat b)) \<and> sv_ino sv' = sv_ino sv \<and> sfi_size (sv_i sv') = sfi_size (sv_i sv)"

lemma carried_refl: "file_ok R sv s \<Longrightarrow> carried R sv s sv s"
  by (simp add: carried_def)

lemma carried_trans: "carried R sv s sv1 s1 \<Longrightarrow> carried R sv1 s1 sv2 s2 \<Longrightarrow> carried R sv s sv2 s2"
  unfolding carried_def by simp

lemma carried_rest:
  assumes "carried R sv s sv' s1" and "same_rest s1 s2"
  shows "carried R sv s sv' s2" and "file_byte sv' s2 = file_byte sv' s1"
  using assms by (auto simp: carried_def same_rest_def)

text \<open>A call of \<open>sfs_bmap\<close> for any block number.\<close>

lemma bmap_step:
  assumes ok: "file_ok R sv s"
  obtains r sv1 s1 where "sfs_bmap sv fb doalloc s = Some (r, sv1, s1)" "carried R sv s sv1 s1" "file_byte sv1 s1 = file_byte sv s"
    "umem s1 = umem s" "case r of Inl e \<Rightarrow> rd_codes s = [] \<longrightarrow> e = ENOSPC \<or> e = EFBIG
      | Inr b \<Rightarrow> file_map sv1 s1 (unat fb) = b \<and> (doalloc \<longrightarrow> b \<noteq> 0)"
proof (cases "unat fb < SFS_NDIRECT + SFS_DBPERIDB")
  case True
  from sfs_bmap_ok [OF ok True, of doalloc] obtain r and sv1 :: sfs_vnode and s1 :: sfs_fs where
    run: "sfs_bmap sv fb doalloc s = Some (r, sv1, s1)" and b: "bmapped R sv s (unat fb) doalloc (r, sv1, s1)" by (metis prod_cases3)
  from b have "carried R sv s sv1 s1" and "file_byte sv1 s1 = file_byte sv s" and "umem s1 = umem s"
    by (simp_all add: bmapped_def carried_def same_volume_def)
  moreover have "case r of Inl e \<Rightarrow> rd_codes s = [] \<longrightarrow> e = ENOSPC \<or> e = EFBIG | Inr b \<Rightarrow> file_map sv1 s1 (unat fb) = b \<and> (doalloc \<longrightarrow> b \<noteq> 0)"
    using b by (cases r) (simp_all add: bmapped_def)
  ultimately show ?thesis using run by (intro that)
next
  case False
  then have "sfs_bmap sv fb doalloc s = Some (Inl EFBIG, sv, s)" by (intro sfs_bmap_big) simp
  then show ?thesis using carried_refl [OF ok] by (rule that) simp_all
qed

definition block_of :: "sfs_vnode \<Rightarrow> sfs_fs \<Rightarrow> nat \<Rightarrow> block" where
  "block_of sv s i = (if file_map sv s i = 0 then zeros else disk s (unat (file_map sv s i)))"

lemma length_block_of: "fs_ok s \<Longrightarrow> length (block_of sv s i) = SFS_BLOCKSIZE"
  by (simp add: block_of_def fs_ok_def)

lemma file_byte_block: "file_byte sv s off = block_of sv s (off div SFS_BLOCKSIZE) ! (off mod SFS_BLOCKSIZE)"
  by (simp add: file_byte_def block_of_def Let_def zeros_def)

text \<open>A part of one block, as bytes of the file.\<close>

lemma part_of_block:
  assumes "fs_ok s" and "off mod SFS_BLOCKSIZE + n \<le> SFS_BLOCKSIZE"
  shows "take n (drop (off mod SFS_BLOCKSIZE) (block_of sv s (off div SFS_BLOCKSIZE))) = map (file_byte sv s) [off..<off + n]"
proof (rule nth_equalityI)
  show "length (take n (drop (off mod 512) (block_of sv s (off div 512)))) = length (map (file_byte sv s) [off..<off + n])"
    using assms length_block_of [OF assms(1)] by simp
  fix i assume "i < length (take n (drop (off mod 512) (block_of sv s (off div 512))))"
  then have i: "i < n" by simp
  have "off + i = off div 512 * 512 + (off mod 512 + i)" by simp
  moreover have "off mod 512 + i < 512" using i assms(2) by simp
  ultimately have "(off + i) div 512 = off div 512" "(off + i) mod 512 = off mod 512 + i" by (metis div_mult_self3 div_less add_cancel_right_right zero_neq_numeral, metis mod_mult_self3 mod_less)
  then show "take n (drop (off mod 512) (block_of sv s (off div 512))) ! i = map (file_byte sv s) [off..<off + n] ! i"
    using i assms length_block_of [OF assms(1), of sv "off div 512"] by (simp add: file_byte_block)
qed

text \<open>A block of the file is written.\<close>

lemma write_block:
  assumes ok: "file_ok R sv s" and b: "file_map sv s i = b" "b \<noteq> 0" and len: "length data = SFS_BLOCKSIZE"
  defines "s' \<equiv> s\<lparr>disk := (disk s)(unat b := data)\<rparr>"
  shows "carried R sv s sv s'" and "block_of sv s' j = (if j = i then data else block_of sv s j)"
proof -
  note f = file_okD [OF ok]
  have own: "owned R s b" and ind: "b \<noteq> sfi_indirect (sv_i sv)" using f(4,5) [of i] b by auto
  have m: "file_map sv s' = file_map sv s"
    using ind by (auto simp: file_map_def fun_eq_iff s'_def idwords_def unat_eq_iff)
  have fs: "fs_ok s'" using f(1) len by (simp add: fs_ok_def s'_def)
  have "owned R s' c = owned R s c" for c by (simp add: owned_def s'_def)
  moreover have "in_use s' c = in_use s c" for c by (simp add: s'_def)
  ultimately have "file_ok R sv s'" using f fs unfolding file_ok_def m by blast
  moreover have "disk s' (unat c) = disk s (unat c)" if "c \<in> R" for c
    using own that by (auto simp: s'_def owned_def unat_eq_iff)
  ultimately show "carried R sv s sv s'" by (simp add: carried_def s'_def)
  show "block_of sv s' j = (if j = i then data else block_of sv s j)"
  proof (cases "j = i")
    case True
    then show ?thesis using b by (simp add: block_of_def m) (simp add: s'_def)
  next
    case False
    then have "file_map sv s j = 0 \<or> unat (file_map sv s j) \<noteq> unat b" using f(3) [of j i] b by (auto simp: unat_eq_iff)
    with False show ?thesis unfolding block_of_def m by (auto simp: s'_def)
  qed
qed

text \<open>\<open>n\<close> bytes have been transferred between the request and the file.\<close>

definition io_moved :: "u32 set \<Rightarrow> nat option \<Rightarrow> nat \<Rightarrow> sfs_vnode \<Rightarrow> uiov \<Rightarrow> sfs_fs \<Rightarrow> sfs_vnode \<Rightarrow> uiov \<Rightarrow> sfs_fs \<Rightarrow> bool" where
  "io_moved R cur n sv u s sv' u' s' \<longleftrightarrow> carried R sv s sv' s' \<and> uio_ready cur u' \<and>
     (\<exists>bs. length bs = n \<and> passed bs u (umem s) u' (umem s') \<and>
       (if uio_rw u = UIO_READ
        then bs = map (file_byte sv s) [nat (uio_offset u)..<nat (uio_offset u) + n] \<and> file_byte sv' s' = file_byte sv s
        else file_byte sv' s' = store (file_byte sv s) (nat (uio_offset u)) bs))"

text \<open>A step has failed and left the file alone.\<close>

definition io_failed :: "u32 set \<Rightarrow> nat option \<Rightarrow> errno \<Rightarrow> sfs_vnode \<Rightarrow> uiov \<Rightarrow> sfs_fs \<Rightarrow> sfs_vnode \<Rightarrow> uiov \<Rightarrow> sfs_fs \<Rightarrow> bool" where
  "io_failed R cur e sv u s sv' u' s' \<longleftrightarrow> carried R sv s sv' s' \<and> uio_ready cur u' \<and> uio_rw u' = uio_rw u \<and>
     file_byte sv' s' = file_byte sv s \<and> (uio_rw u = UIO_WRITE \<longrightarrow> u' = u \<and> umem s' = umem s) \<and>
     (rd_codes s = [] \<longrightarrow> e = EFAULT \<or> e = ENOSPC \<or> e = EFBIG)"

lemma io_failed_here:
  assumes "carried R sv s sv' s'" and "file_byte sv' s' = file_byte sv s" and "umem s' = umem s" and "uio_ready cur u"
    and "rd_codes s = [] \<longrightarrow> e = EFAULT \<or> e = ENOSPC \<or> e = EFBIG"
  shows "io_failed R cur e sv u s sv' u s'"
  using assms by (simp add: io_failed_def)

lemma file_block_number:
  assumes "0 \<le> off" and "nat off div SFS_BLOCKSIZE < 4294967296"
  shows "unat (word_of_int (off sdiv int SFS_BLOCKSIZE) :: u32) = nat off div SFS_BLOCKSIZE"
    and "nat (off smod int SFS_BLOCKSIZE) = nat off mod SFS_BLOCKSIZE" and "off smod int SFS_BLOCKSIZE = 0 \<longleftrightarrow> nat off mod SFS_BLOCKSIZE = 0"
proof -
  have "off sdiv int 512 = int (nat off div 512)" using assms(1) by (simp add: signed_divide_int_def zdiv_int sgn_if)
  then show "unat (word_of_int (off sdiv int SFS_BLOCKSIZE) :: u32) = nat off div SFS_BLOCKSIZE"
    using unat_word_of_nat_32 [OF assms(2)] by simp
  have m: "off smod int 512 = int (nat off mod 512)" using assms(1) by (simp add: signed_modulo_int_def zmod_int sgn_if)
  then show "nat (off smod int SFS_BLOCKSIZE) = nat off mod SFS_BLOCKSIZE" by simp
  show "off smod int SFS_BLOCKSIZE = 0 \<longleftrightarrow> nat off mod SFS_BLOCKSIZE = 0" unfolding m by simp
qed

text \<open>The bytes of a block after a part of it has been replaced.\<close>

lemma store_part:
  assumes old: "\<And>off. f off = blk (off div SFS_BLOCKSIZE) ! (off mod SFS_BLOCKSIZE)" and len: "length (blk i) = SFS_BLOCKSIZE"
    and new: "\<And>off. g off = (if off div SFS_BLOCKSIZE = i then (take k (blk i) @ bs @ drop (k + length bs) (blk i)) ! (off mod SFS_BLOCKSIZE)
      else blk (off div SFS_BLOCKSIZE) ! (off mod SFS_BLOCKSIZE))"
    and at: "start = i * SFS_BLOCKSIZE + k" "k + length bs \<le> SFS_BLOCKSIZE"
  shows "g = store f start bs"
proof
  fix off :: nat
  have split: "off = off div 512 * 512 + off mod 512" by simp
  show "g off = store f start bs off"
  proof (cases "off div 512 = i")
    case True
    then have "off = i * 512 + off mod 512" using split by simp
    then have "start \<le> off \<longleftrightarrow> k \<le> off mod 512" "off < start + length bs \<longleftrightarrow> off mod 512 < k + length bs" "off - start = off mod 512 - k"
      unfolding at(1) by linarith+
    moreover have "min 512 k = k" using at(2) by simp
    ultimately show ?thesis using True at(2) len by (auto simp: new old store_def nth_append)
  next
    case False
    then have "off div 512 < i \<or> i < off div 512" by linarith
    then have "\<not> (start \<le> off \<and> off < start + length bs)"
    proof
      assume "off div 512 < i"
      then have "off < i * 512" by (simp add: div_less_iff_less_mult)
      then show ?thesis using at(1) by simp
    next
      assume "i < off div 512"
      then have "Suc i * 512 \<le> off div 512 * 512" by (intro mult_le_mono1) simp
      then have "Suc i * 512 \<le> off" using split by linarith
      then show ?thesis using at by simp
    qed
    then show ?thesis using False by (auto simp: new old store_def)
  qed
qed

lemma part_written:
  assumes ok: "file_ok R sv s" and b: "file_map sv s i = b" "b \<noteq> 0" and fit: "k + length bs \<le> SFS_BLOCKSIZE"
  defines "s' \<equiv> s\<lparr>disk := (disk s)(unat b := take k (block_of sv s i) @ bs @ drop (k + length bs) (block_of sv s i))\<rparr>"
  shows "carried R sv s sv s'" and "file_byte sv s' = store (file_byte sv s) (i * SFS_BLOCKSIZE + k) bs"
proof -
  have len: "length (block_of sv s i) = SFS_BLOCKSIZE" using file_okD(1) [OF ok] by (rule length_block_of)
  have "length (take k (block_of sv s i) @ bs @ drop (k + length bs) (block_of sv s i)) = SFS_BLOCKSIZE"
    using len fit by simp
  note w = write_block [OF ok b this, folded s'_def]
  show "carried R sv s sv s'" by (rule w(1))
  show "file_byte sv s' = store (file_byte sv s) (i * SFS_BLOCKSIZE + k) bs"
    by (rule store_part [where blk = "block_of sv s" and i = i and k = k]) (simp_all add: file_byte_block w(2) len fit)
qed

lemma disk_block:
  assumes "file_ok R sv s" and "file_map sv s i = b" and "b \<noteq> 0"
  shows "disk s (unat b) = block_of sv s i" and "unat b < unat (sb_nblocks s)"
  using file_okD(4) [OF assms(1), of i] assms by (auto simp: block_of_def owned_def)

lemma carried_ok: "carried R sv s sv' s' \<Longrightarrow> file_ok R sv' s'"
  by (simp add: carried_def)

lemma block_of_codes [simp]: "block_of sv (s\<lparr>rd_codes := rs\<rparr>) = block_of sv s"
  by (simp add: block_of_def fun_eq_iff)

lemma carried_codes:
  assumes "carried R sv s sv' s1" and "fs_ok (s1\<lparr>rd_codes := rs\<rparr>)" and "rd_codes s1 = [] \<longrightarrow> rs = []"
  shows "carried R sv s sv' (s1\<lparr>rd_codes := rs\<rparr>)" and "file_byte sv' (s1\<lparr>rd_codes := rs\<rparr>) = file_byte sv' s1"
  using assms file_ok_quiet [of R sv' s1 rs] by (auto simp: carried_def file_byte_def Let_def fun_eq_iff)

text \<open>The content of a block, from the disk or as zeros.\<close>

lemma load_block:
  assumes ok: "file_ok R sv s" and b: "file_map sv s i = b"
  obtains r s2 where "(if b = 0 then Some (Inr (replicate SFS_BLOCKSIZE 0), s) else sfs_readblock b s) = Some (r, s2)"
    "carried R sv s sv s2" "file_byte sv s2 = file_byte sv s" "umem s2 = umem s" "file_map sv s2 = file_map sv s"
    "block_of sv s2 = block_of sv s" "r = Inr (block_of sv s i) \<or> (\<exists>e. r = Inl e) \<and> rd_codes s \<noteq> []"
proof (cases "b = 0")
  case True
  then show ?thesis using b carried_refl [OF ok] by (intro that [of "Inr (replicate SFS_BLOCKSIZE 0)" s]) (simp_all add: block_of_def zeros_def)
next
  case False
  note d = disk_block [OF ok b False]
  obtain r rs where rd: "sfs_readblock b s = Some (r, s\<lparr>rd_codes := rs\<rparr>)" "fs_ok (s\<lparr>rd_codes := rs\<rparr>)"
    "r = Inr (disk s (unat b)) \<or> (\<exists>e. r = Inl e) \<and> rd_codes s \<noteq> []" "rd_codes s = [] \<longrightarrow> rs = []"
    by (rule readblock_ok [OF file_okD(1) [OF ok] d(2)])
  note c = carried_codes [OF carried_refl [OF ok] rd(2,4)]
  have "file_map sv (s\<lparr>rd_codes := rs\<rparr>) = file_map sv s" by (simp add: file_map_def idwords_def fun_eq_iff)
  then show ?thesis using False rd d(1) c by (intro that [of r "s\<lparr>rd_codes := rs\<rparr>"]) simp_all
qed

lemma partialio_ok:
  assumes ok: "file_ok R sv s" and ready: "uio_ready cur u" and off: "0 \<le> uio_offset u" "nat (uio_offset u) div SFS_BLOCKSIZE < 4294967296"
    and skip: "skip = nat (uio_offset u) mod SFS_BLOCKSIZE" and len: "skip + len \<le> SFS_BLOCKSIZE" "len \<le> unat (uio_resid u)"
  shows "\<exists>r sv' u' s'. sfs_partialio cur sv u skip len s = Some (r, sv', u', s') \<and>
    (case r of None \<Rightarrow> io_moved R cur len sv u s sv' u' s' | Some e \<Rightarrow> io_failed R cur e sv u s sv' u' s')"
proof -
  let ?i = "nat (uio_offset u) div SFS_BLOCKSIZE" and ?fb = "word_of_int (uio_offset u sdiv int SFS_BLOCKSIZE) :: u32"
    and ?da = "uio_rw u = UIO_WRITE"
  note i = file_block_number(1) [OF off]
  obtain r sv1 s1 where bm: "sfs_bmap sv ?fb ?da s = Some (r, sv1, s1)" "carried R sv s sv1 s1" "file_byte sv1 s1 = file_byte sv s"
    "umem s1 = umem s" and res: "case r of Inl e \<Rightarrow> rd_codes s = [] \<longrightarrow> e = ENOSPC \<or> e = EFBIG
      | Inr b \<Rightarrow> file_map sv1 s1 (unat ?fb) = b \<and> (?da \<longrightarrow> b \<noteq> 0)" by (rule bmap_step [OF ok])
  show ?thesis
  proof (cases r)
    case (Inl e)
    with bm(1) len have "sfs_partialio cur sv u skip len s = Some (Some e, sv1, u, s1)" by (simp add: sfs_partialio_def)
    moreover have "io_failed R cur e sv u s sv1 u s1" using bm res Inl ready by (intro io_failed_here) auto
    ultimately show ?thesis by simp
  next
    case (Inr b)
    with res i have b: "file_map sv1 s1 ?i = b" "?da \<Longrightarrow> b \<noteq> 0" by simp_all
    have ok1: "file_ok R sv1 s1" using bm(2) by (rule carried_ok)
    obtain r2 s2 where ld: "(if b = 0 then Some (Inr (replicate SFS_BLOCKSIZE 0), s1) else sfs_readblock b s1) = Some (r2, s2)"
      "carried R sv1 s1 sv1 s2" "file_byte sv1 s2 = file_byte sv1 s1" "umem s2 = umem s1" "file_map sv1 s2 = file_map sv1 s1"
      "block_of sv1 s2 = block_of sv1 s1" "r2 = Inr (block_of sv1 s1 ?i) \<or> (\<exists>e. r2 = Inl e) \<and> rd_codes s1 \<noteq> []"
      by (rule load_block [OF ok1 b(1)])
    have c2: "carried R sv s sv1 s2" by (rule carried_trans [OF bm(2) ld(2)])
    have read: "(if b = 0 then do { kassert (uio_rw u = UIO_READ); Some (Inr (replicate SFS_BLOCKSIZE 0), s1) } else sfs_readblock b s1) = Some (r2, s2)"
      using ld(1) b(2) by (cases "uio_rw u") auto
    show ?thesis
    proof (cases r2)
      case (Inl e)
      with bm(1) Inr len read have "sfs_partialio cur sv u skip len s = Some (Some e, sv1, u, s2)" by (simp add: sfs_partialio_def)
      moreover have "rd_codes s \<noteq> []" using ld(7) Inl bm(2) by (auto simp: carried_def)
      then have "io_failed R cur e sv u s sv1 u s2" using c2 bm ld ready by (intro io_failed_here) auto
      ultimately show ?thesis by simp
    next
      case buf: (Inr iobuf)
      with ld(7) have iobuf: "iobuf = block_of sv1 s2 ?i" by (simp add: ld(6))
      have ok2: "file_ok R sv1 s2" using c2 by (rule carried_ok)
      have lb: "length iobuf = SFS_BLOCKSIZE" unfolding iobuf by (rule length_block_of [OF file_okD(1) [OF ok2]])
      let ?part = "take len (drop skip iobuf)"
      have lp: "length ?part = len" using lb len(1) by simp
      then have "length ?part \<le> unat (uio_resid u)" using len(2) by simp
      from uiomove_ok [OF ready this, of s2] obtain r3 part u' and s3 :: sfs_fs where
        mv: "uiomove cur ?part u s2 = Some (r3, part, u', s3)" "length part = length ?part" "uio_ready cur u'" and res3: "case r3 of
         None \<Rightarrow> moved part u s2 u' s3 \<and> (uio_rw u = UIO_READ \<longrightarrow> part = ?part)
       | Some e \<Rightarrow> e = EFAULT \<and> u' = u \<and> same_rest s2 s3 \<and> uio_segflg u \<noteq> UIO_SYSSPACE \<and> (uio_rw u = UIO_WRITE \<longrightarrow> umem s3 = umem s2)" by blast
      have "same_rest s2 s3" using res3 by (cases r3) (auto intro: moved_rest)
      note c3 = carried_rest [OF c2 this]
      show ?thesis
      proof (cases r3)
        case (Some e)
        with bm(1) Inr buf len read mv res3 have "sfs_partialio cur sv u skip len s = Some (Some EFAULT, sv1, u, s3)" by (simp add: sfs_partialio_def)
        moreover have "io_failed R cur EFAULT sv u s sv1 u s3" using c3 Some res3 bm(3,4) ld(3,4) ready by (simp add: io_failed_def)
        ultimately show ?thesis by simp
      next
        case None
        with res3 have m: "moved part u s2 u' s3" and rd: "uio_rw u = UIO_READ \<longrightarrow> part = ?part" by simp_all
        have p: "passed part u (umem s) u' (umem s3)" using moved_passed [OF m] ld(4) bm(4) by simp
        note rw = passedD(1) [OF p]
        have bytes: "file_byte sv1 s3 = file_byte sv s" using c3(2) ld(3) bm(3) by simp
        show ?thesis
        proof (cases "uio_rw u")
          case UIO_READ
          with bm(1) Inr buf len read mv None rw have "sfs_partialio cur sv u skip len s = Some (None, sv1, u', s3)" by (simp add: sfs_partialio_def)
          moreover have "part = map (file_byte sv s) [nat (uio_offset u)..<nat (uio_offset u) + len]"
            using rd UIO_READ part_of_block [OF file_okD(1) [OF ok2], of "nat (uio_offset u)" len sv1] len(1) bm(3) ld(3)
            by (simp add: iobuf skip)
          then have "io_moved R cur len sv u s sv1 u' s3" using c3(1) mv(2,3) lp p bytes UIO_READ by (auto simp: io_moved_def)
          ultimately show ?thesis by simp
        next
          case UIO_WRITE
          let ?data = "take skip iobuf @ part @ drop (skip + len) iobuf"
          let ?s4 = "s3\<lparr>disk := (disk s3)(unat b := ?data)\<rparr>"
          have b0: "b \<noteq> 0" using b(2) UIO_WRITE by simp
          have ok3: "file_ok R sv1 s3" using c3(1) by (rule carried_ok)
          have s3: "\<exists>k w. s3 = s2\<lparr>kmem := k, umem := w\<rparr>" using \<open>same_rest s2 s3\<close> by (simp add: same_rest_def)
          then have map3: "file_map sv1 s3 ?i = b" using b(1) ld(5) by auto
          have "block_of sv1 s3 ?i = iobuf" using s3 unfolding iobuf by (auto simp: block_of_def)
          with part_written [OF ok3 map3 b0, of skip part] mv(2) lp len(1)
          have w: "carried R sv1 s3 sv1 ?s4" "file_byte sv1 ?s4 = store (file_byte sv1 s3) (?i * SFS_BLOCKSIZE + skip) part" by simp_all
          have "length ?data = SFS_BLOCKSIZE" using lb mv(2) lp len(1) by simp
          from writeblock_ok(1) [OF file_okD(1) [OF ok3] disk_block(2) [OF ok3 map3 b0] this]
          have "sfs_partialio cur sv u skip len s = Some (None, sv1, u', ?s4)"
            using bm(1) Inr buf len read mv None rw UIO_WRITE by (simp add: sfs_partialio_def)
          moreover have "io_moved R cur len sv u s sv1 u' ?s4"
            using carried_trans [OF c3(1) w(1)] mv(2,3) lp p bytes w(2) UIO_WRITE by (auto simp: io_moved_def skip)
          ultimately show ?thesis by simp
        qed
      qed
    qed
  qed
qed

text \<open>The detour of \<open>sfs_blockio\<close> over the offset on the disk.\<close>

abbreviation at_disk :: "int \<Rightarrow> uiov \<Rightarrow> uiov" where
  "at_disk d u \<equiv> u\<lparr>uio_offset := d, uio_resid := 512\<rparr>"

abbreviation back_from :: "int \<Rightarrow> uiov \<Rightarrow> uiov \<Rightarrow> uiov" where
  "back_from d u u' \<equiv> u'\<lparr>uio_offset := (uio_offset u' - d) + uio_offset u, uio_resid := (uio_resid u' - 512) + uio_resid u\<rparr>"

lemma back_unmoved [simp]: "back_from d u (at_disk d u) = u"
  by simp

lemma back_moved:
  assumes ready: "uio_ready cur u" "uio_ready cur u'" and m: "moved bs (at_disk d u) m u' m'"
    and len: "length bs = 512" "512 \<le> unat (uio_resid u)"
  shows "moved bs u m (back_from d u u') m'" and "uio_ready cur (back_from d u u')"
proof -
  have "unat (uio_resid u') = 0" using m len(1) by (simp add: moved_def)
  then have "(uio_resid u' - 512) + uio_resid u = uio_resid u - word_of_nat 512" by (simp add: unat_eq_zero)
  then have res: "unat ((uio_resid u' - 512) + uio_resid u) = unat (uio_resid u) - 512" using sub_size [OF len(2)] by simp
  have src: "source (at_disk d u) m = source u m" by (simp add: source_def)
  show "moved bs u m (back_from d u u') m'" using m len unfolding moved_def src by (simp add: res Let_def)
  obtain iov iov' where iov: "uio_iov u = [iov]" "uio_iov u' = [iov']" using ready by (auto simp: uio_ready_def)
  have "unat (iov_len iov) = 512 + unat (iov_len iov')" using m len(1) iov by (simp add: moved_def Let_def)
  moreover have "unat (uio_resid u) \<le> unat (iov_len iov)" using ready(1) iov by (simp add: uio_ready_def)
  ultimately have "unat (uio_resid u) - 512 \<le> unat (iov_len iov')" by linarith
  then show "uio_ready cur (back_from d u u')" using ready(2) iov by (simp add: uio_ready_def res)
qed

lemma whole_block:
  assumes "fs_ok s" and "off mod SFS_BLOCKSIZE = 0"
  shows "block_of sv s (off div SFS_BLOCKSIZE) = map (file_byte sv s) [off..<off + SFS_BLOCKSIZE]"
  using part_of_block [OF assms(1), of off SFS_BLOCKSIZE sv] assms(2) length_block_of [OF assms(1)] by simp

lemma disk_request:
  assumes ok: "file_ok R sv s" and b: "file_map sv s i = b" "b \<noteq> 0" and small: "unat (sb_nblocks s) \<le> 2 ^ 23"
    and ready: "uio_ready cur u" "512 \<le> unat (uio_resid u)"
  shows "block_request cur (at_disk (int (unat (b * 512))) u) b s"
proof -
  have lt: "unat b < unat (sb_nblocks s)" by (rule disk_block(2) [OF ok b])
  with small have "unat b * unat (512 :: u32) < 2 ^ LENGTH(32)" by simp
  then have "unat (b * 512) = unat b * 512" using unat_mult_lem [of b 512] by simp
  moreover have "unat b < unat (d_nblocks s)" using lt file_okD(1) [OF ok] by (simp add: fs_ok_def)
  ultimately show ?thesis using ready by (auto simp: block_request_def uio_ready_def)
qed

lemma blockio_read_ok:
  assumes ok: "file_ok R sv s" and b: "file_map sv s i = b" "b \<noteq> 0" and small: "unat (sb_nblocks s) \<le> 2 ^ 23"
    and ready: "uio_ready cur u" "512 \<le> unat (uio_resid u)" and rd: "uio_rw u = UIO_READ"
    and off: "nat (uio_offset u) div SFS_BLOCKSIZE = i" "nat (uio_offset u) mod SFS_BLOCKSIZE = 0"
  obtains r u' s' where "sfs_rwblock 10 cur (at_disk (int (unat (b * 512))) u) s = Some (r, u', s')"
    "case r of None \<Rightarrow> io_moved R cur 512 sv u s sv (back_from (int (unat (b * 512))) u u') s'
     | Some e \<Rightarrow> io_failed R cur e sv u s sv (back_from (int (unat (b * 512))) u u') s'"
proof -
  let ?d = "int (unat (b * 512))"
  have fs: "fs_ok s" using ok by (rule file_okD)
  have rd': "uio_rw (at_disk ?d u) = UIO_READ" using rd by simp
  from rwblock_read_ok [OF fs disk_request [OF ok b small ready] rd', of 10] obtain r u' rs and s' :: sfs_fs where
    run: "sfs_rwblock 10 cur (at_disk ?d u) s = Some (r, u', s')" "uio_ready cur u'" "set rs \<subseteq> set (rd_codes s)" "rd_codes s = [] \<longrightarrow> rs = []"
    and res: "case r of None \<Rightarrow> moved (disk s (unat b)) (at_disk ?d u) (s\<lparr>rd_codes := rs\<rparr>) u' s'
     | Some e \<Rightarrow> u' = at_disk ?d u \<and> same_rest (s\<lparr>rd_codes := rs\<rparr>) s' \<and>
         (e = EFAULT \<and> uio_segflg (at_disk ?d u) \<noteq> UIO_SYSSPACE \<or> rd_codes s \<noteq> [] \<and> s' = s\<lparr>rd_codes := rs\<rparr>)" by blast
  have rest: "same_rest (s\<lparr>rd_codes := rs\<rparr>) s'" using res by (cases r) (auto intro: moved_rest)
  note c1 = carried_codes [OF carried_refl [OF ok] fs_ok_codes [OF fs run(3)] run(4)]
  note c = carried_rest [OF c1(1) rest]
  have "case r of None \<Rightarrow> io_moved R cur 512 sv u s sv (back_from ?d u u') s' | Some e \<Rightarrow> io_failed R cur e sv u s sv (back_from ?d u u') s'"
  proof (cases r)
    case (Some e)
    with res have u': "u' = at_disk ?d u" by simp
    have "io_failed R cur e sv u s sv u s'" using c c1(2) res Some ready rd by (auto simp: io_failed_def)
    then show ?thesis unfolding Some u' back_unmoved by simp
  next
    case None
    with res have m: "moved (disk s (unat b)) (at_disk ?d u) (s\<lparr>rd_codes := rs\<rparr>) u' s'" by simp
    have len: "length (disk s (unat b)) = 512" using fs by (simp add: fs_ok_def)
    note bk = back_moved [OF ready(1) run(2) m len ready(2)]
    have "disk s (unat b) = map (file_byte sv s) [nat (uio_offset u)..<nat (uio_offset u) + 512]"
      using disk_block(1) [OF ok b] whole_block [OF fs off(2), of sv] off(1) by simp
    moreover have "passed (disk s (unat b)) u (umem s) (back_from ?d u u') (umem s')" using moved_passed [OF bk(1)] by simp
    ultimately have "io_moved R cur 512 sv u s sv (back_from ?d u u') s'"
      using c c1(2) bk(2) len rd unfolding io_moved_def by auto
    then show ?thesis unfolding None by simp
  qed
  with run(1) show ?thesis by (intro that) (auto split: option.splits)
qed

lemma blockio_write_ok:
  assumes ok: "file_ok R sv s" and b: "file_map sv s i = b" "b \<noteq> 0" and small: "unat (sb_nblocks s) \<le> 2 ^ 23"
    and ready: "uio_ready cur u" "512 \<le> unat (uio_resid u)" and wr: "uio_rw u = UIO_WRITE"
    and off: "nat (uio_offset u) div SFS_BLOCKSIZE = i" "nat (uio_offset u) mod SFS_BLOCKSIZE = 0"
  obtains r u' s' where "sfs_rwblock 10 cur (at_disk (int (unat (b * 512))) u) s = Some (r, u', s')"
    "case r of None \<Rightarrow> io_moved R cur 512 sv u s sv (back_from (int (unat (b * 512))) u u') s'
     | Some e \<Rightarrow> io_failed R cur e sv u s sv (back_from (int (unat (b * 512))) u u') s'"
proof -
  let ?d = "int (unat (b * 512))"
  have fs: "fs_ok s" using ok by (rule file_okD)
  have wr': "uio_rw (at_disk ?d u) = UIO_WRITE" using wr by simp
  from rwblock_write_ok [OF fs disk_request [OF ok b small ready] wr', of 10] obtain r u' and s' :: sfs_fs where
    run: "sfs_rwblock 10 cur (at_disk ?d u) s = Some (r, u', s')" "uio_ready cur u'"
    and res: "case r of None \<Rightarrow> (\<exists>bs s1. length bs = SFS_BLOCKSIZE \<and> moved bs (at_disk ?d u) s u' s1 \<and> s' = s1\<lparr>disk := (disk s)(unat b := bs)\<rparr>)
     | Some e \<Rightarrow> e = EFAULT \<and> uio_segflg (at_disk ?d u) \<noteq> UIO_SYSSPACE \<and> u' = at_disk ?d u \<and> same_rest s s' \<and> umem s' = umem s" by blast
  have "case r of None \<Rightarrow> io_moved R cur 512 sv u s sv (back_from ?d u u') s' | Some e \<Rightarrow> io_failed R cur e sv u s sv (back_from ?d u u') s'"
  proof (cases r)
    case (Some e)
    with res have u': "u' = at_disk ?d u" and "same_rest s s'" "umem s' = umem s" "e = EFAULT" by simp_all
    then have "io_failed R cur e sv u s sv u s'"
      using carried_rest [OF carried_refl [OF ok], of s'] ready by (intro io_failed_here) simp_all
    then show ?thesis unfolding Some u' back_unmoved by simp
  next
    case None
    with res obtain bs and s1 :: sfs_fs where bs: "length bs = SFS_BLOCKSIZE" and m: "moved bs (at_disk ?d u) s u' s1"
      and s': "s' = s1\<lparr>disk := (disk s)(unat b := bs)\<rparr>" by auto
    note rest = moved_rest [OF m]
    note c1 = carried_rest [OF carried_refl [OF ok] rest]
    have ok1: "file_ok R sv s1" using c1(1) by (rule carried_ok)
    have map1: "file_map sv s1 i = b" using rest b(1) by (auto simp: same_rest_def)
    have s'': "s' = s1\<lparr>disk := (disk s1)(unat b := bs)\<rparr>" unfolding s' same_rest_lhd(1) [OF rest] ..
    from part_written [OF ok1 map1 b(2), of 0 bs] bs length_block_of [OF file_okD(1) [OF ok1]]
    have w: "carried R sv s1 sv s'" "file_byte sv s' = store (file_byte sv s1) (i * SFS_BLOCKSIZE) bs" by (simp_all add: s'')
    note bk = back_moved [OF ready(1) run(2) m bs ready(2)]
    have "passed bs u (umem s) (back_from ?d u u') (umem s')" using moved_passed [OF bk(1)] by (simp add: s'')
    moreover have "i * SFS_BLOCKSIZE = nat (uio_offset u)" using off div_mult_mod_eq [of "nat (uio_offset u)" 512] by simp
    ultimately have "io_moved R cur 512 sv u s sv (back_from ?d u u') s'"
      using carried_trans [OF c1(1) w(1)] bk(2) bs wr w(2) c1(2) unfolding io_moved_def by auto
    then show ?thesis unfolding None by simp
  qed
  with run(1) show ?thesis by (intro that) (auto split: option.splits)
qed

text \<open>A whole block that is not there reads as zeros.\<close>

lemma blockio_zeros_ok:
  assumes ok: "file_ok R sv s" and hole: "file_map sv s i = 0"
    and ready: "uio_ready cur u" "512 \<le> unat (uio_resid u)" and rd: "uio_rw u = UIO_READ"
    and off: "nat (uio_offset u) div SFS_BLOCKSIZE = i" "nat (uio_offset u) mod SFS_BLOCKSIZE = 0"
  obtains r u' s' where "uiomovezeros cur SFS_BLOCKSIZE u s = Some (r, u', s')"
    "case r of None \<Rightarrow> io_moved R cur 512 sv u s sv u' s' | Some e \<Rightarrow> io_failed R cur e sv u s sv u' s'"
proof -
  from zeros_ok [OF ready rd, of s] obtain r u' and s' :: sfs_fs where
    run: "zeros_loop cur 512 u s = Some (r, u', s')" "uio_ready cur u'" and res: "case r of None \<Rightarrow> moved (replicate 512 0) u s u' s'
     | Some e \<Rightarrow> e = EFAULT \<and> uio_segflg u \<noteq> UIO_SYSSPACE \<and> (\<exists>k m1. moved (replicate k 0) u s u' m1 \<and> same_rest m1 s')" by blast
  have "same_rest s s'" using res by (cases r) (auto intro: moved_rest same_rest_trans)
  note c = carried_rest [OF carried_refl [OF ok] this]
  have "case r of None \<Rightarrow> io_moved R cur 512 sv u s sv u' s' | Some e \<Rightarrow> io_failed R cur e sv u s sv u' s'"
  proof (cases r)
    case (Some e)
    with res obtain k and m1 :: sfs_fs where "e = EFAULT" "moved (replicate k 0) u s u' m1" by auto
    then show ?thesis using c run(2) rd Some by (auto simp: io_failed_def moved_def)
  next
    case None
    with res have m: "moved (replicate 512 0) u s u' s'" by simp
    have "replicate 512 0 = map (file_byte sv s) [nat (uio_offset u)..<nat (uio_offset u) + 512]"
      using whole_block [OF file_okD(1) [OF ok] off(2), of sv] hole off(1) by (simp add: block_of_def zeros_def)
    moreover note moved_passed [OF m]
    moreover have "length (replicate 512 (0::u8)) = 512" by (rule length_replicate)
    ultimately have "io_moved R cur 512 sv u s sv u' s'" using c run(2) rd unfolding io_moved_def by (simp only: if_True simp_thms) blast
    then show ?thesis unfolding None by simp
  qed
  with run(1) rd show ?thesis by (intro that) (auto simp: uiomovezeros_def split: option.splits)
qed

section \<open>Whole transfers\<close>

text \<open>All of \<open>n\<close> bytes are transferred, or a first part of them and then a step fails.\<close>

definition io_result :: "u32 set \<Rightarrow> nat option \<Rightarrow> nat \<Rightarrow> sfs_vnode \<Rightarrow> uiov \<Rightarrow> sfs_fs \<Rightarrow> errno option \<times> sfs_vnode \<times> uiov \<times> sfs_fs \<Rightarrow> bool" where
  "io_result R cur n sv u s = (\<lambda>(r, sv', u', s'). case r of
       None \<Rightarrow> io_moved R cur n sv u s sv' u' s'
     | Some e \<Rightarrow> \<exists>k\<le>n. \<exists>sv1 u1 s1. io_moved R cur k sv u s sv1 u1 s1 \<and> io_failed R cur e sv1 u1 s1 sv' u' s')"

lemma io_moved_trans:
  assumes m: "io_moved R cur a sv u s sv1 u1 s1" "io_moved R cur b sv1 u1 s1 sv2 u2 s2" and off: "0 \<le> uio_offset u"
  shows "io_moved R cur (a + b) sv u s sv2 u2 s2"
proof -
  from m(1) obtain bs where bs: "length bs = a" and pb: "passed bs u (umem s) u1 (umem s1)" and fb: "if uio_rw u = UIO_READ
      then bs = map (file_byte sv s) [nat (uio_offset u)..<nat (uio_offset u) + a] \<and> file_byte sv1 s1 = file_byte sv s
      else file_byte sv1 s1 = store (file_byte sv s) (nat (uio_offset u)) bs" by (auto simp: io_moved_def)
  from m(2) obtain cs where cs: "length cs = b" and pc: "passed cs u1 (umem s1) u2 (umem s2)" and fc: "if uio_rw u1 = UIO_READ
      then cs = map (file_byte sv1 s1) [nat (uio_offset u1)..<nat (uio_offset u1) + b] \<and> file_byte sv2 s2 = file_byte sv1 s1
      else file_byte sv2 s2 = store (file_byte sv1 s1) (nat (uio_offset u1)) cs" by (auto simp: io_moved_def)
  note d = passedD [OF pb]
  have at: "nat (uio_offset u1) = nat (uio_offset u) + a" using d(3) bs off by simp
  have "if uio_rw u = UIO_READ
      then bs @ cs = map (file_byte sv s) [nat (uio_offset u)..<nat (uio_offset u) + (a + b)] \<and> file_byte sv2 s2 = file_byte sv s
      else file_byte sv2 s2 = store (file_byte sv s) (nat (uio_offset u)) (bs @ cs)"
  proof (cases "uio_rw u")
    case UIO_READ
    with fb fc d(1) have "bs @ cs = map (file_byte sv s) ([nat (uio_offset u)..<nat (uio_offset u) + a] @
        [nat (uio_offset u) + a..<nat (uio_offset u) + a + b])" by (simp add: at)
    then show ?thesis using UIO_READ fb fc d(1) upt_add_eq_append [of "nat (uio_offset u)" "nat (uio_offset u) + a" b]
      by (simp add: add.assoc)
  next
    case UIO_WRITE
    with fb fc d(1) show ?thesis using store_append [of "file_byte sv s" "nat (uio_offset u)" bs cs] bs by (simp add: at)
  qed
  moreover have "carried R sv s sv2 s2" using m by (auto simp: io_moved_def intro: carried_trans)
  moreover have "passed (bs @ cs) u (umem s) u2 (umem s2)" using pb pc by (rule passed_trans)
  ultimately show ?thesis using m(2) bs cs unfolding io_moved_def by (metis length_append)
qed

lemma io_moved_none: "file_ok R sv s \<Longrightarrow> uio_ready cur u \<Longrightarrow> io_moved R cur 0 sv u s sv u s"
  unfolding io_moved_def using carried_refl passed_nothing by (intro conjI exI [of _ "[]"]) auto

lemma io_result_here:
  assumes "case r of None \<Rightarrow> io_moved R cur n sv u s sv' u' s' | Some e \<Rightarrow> io_failed R cur e sv u s sv' u' s'"
    and "file_ok R sv s" and "uio_ready cur u"
  shows "io_result R cur n sv u s (r, sv', u', s')"
  using assms io_moved_none [OF assms(2,3)] by (auto simp: io_result_def split: option.splits)

lemma io_result_mono: "io_result R cur n sv u s (Some e, sv', u', s') \<Longrightarrow> n \<le> m \<Longrightarrow> io_result R cur m sv u s (Some e, sv', u', s')"
  unfolding io_result_def by (auto dest: order_trans)

lemma io_result_later:
  assumes "io_moved R cur a sv u s sv1 u1 s1" and "io_result R cur b sv1 u1 s1 x" and "0 \<le> uio_offset u"
  shows "io_result R cur (a + b) sv u s x"
proof -
  obtain r sv' u' and s' :: sfs_fs where x: "x = (r, sv', u', s')" by (cases x)
  show ?thesis
  proof (cases r)
    case None
    with assms io_moved_trans [OF assms(1)] show ?thesis by (simp add: io_result_def x)
  next
    case (Some e)
    with assms(2) obtain k sv2 u2 and s2 :: sfs_fs where "k \<le> b" "io_moved R cur k sv1 u1 s1 sv2 u2 s2" "io_failed R cur e sv2 u2 s2 sv' u' s'"
      by (auto simp: io_result_def x)
    with io_moved_trans [OF assms(1) this(2) assms(3)] Some show ?thesis
      by (auto simp: io_result_def x intro!: exI [of _ "a + k"])
  qed
qed

text \<open>A request within 4 GB on a volume of at most 4 GB: the numbers of blocks and the byte offsets on the disk
  do not wrap.\<close>

definition in_reach :: "uiov \<Rightarrow> nat \<Rightarrow> sfs_fs \<Rightarrow> bool" where
  "in_reach u n s \<longleftrightarrow> 0 \<le> uio_offset u \<and> nat (uio_offset u) + n < 2 ^ 32 \<and> n \<le> unat (uio_resid u) \<and> unat (sb_nblocks s) \<le> 2 ^ 23"

lemma in_reach_later:
  assumes "io_moved R cur a sv u s sv1 u1 s1" and "in_reach u (a + b) s"
  shows "in_reach u1 b s1"
proof -
  from assms(1) obtain bs where bs: "length bs = a" "passed bs u (umem s) u1 (umem s1)" "sb_nblocks s1 = sb_nblocks s"
    by (auto simp: io_moved_def carried_def)
  from passedD(3,4) [OF bs(2)] bs(1,3) assms(2) show ?thesis by (auto simp: in_reach_def nat_add_distrib)
qed

lemma blockio_ok:
  assumes ok: "file_ok R sv s" and ready: "uio_ready cur u" and reach: "in_reach u SFS_BLOCKSIZE s"
    and aligned: "nat (uio_offset u) mod SFS_BLOCKSIZE = 0"
  shows "\<exists>r sv' u' s'. sfs_blockio cur sv u s = Some (r, sv', u', s') \<and> io_result R cur SFS_BLOCKSIZE sv u s (r, sv', u', s')"
proof -
  let ?i = "nat (uio_offset u) div SFS_BLOCKSIZE" and ?fb = "word_of_int (uio_offset u sdiv int SFS_BLOCKSIZE) :: u32"
    and ?da = "uio_rw u = UIO_WRITE"
  have r512: "512 \<le> unat (uio_resid u)" and small: "unat (sb_nblocks s) \<le> 2 ^ 23" and off: "0 \<le> uio_offset u" "?i < 4294967296"
    using reach by (auto simp: in_reach_def)
  note i = file_block_number(1) [OF off]
  obtain r sv1 s1 where bm: "sfs_bmap sv ?fb ?da s = Some (r, sv1, s1)" "carried R sv s sv1 s1" "file_byte sv1 s1 = file_byte sv s"
    "umem s1 = umem s" and res: "case r of Inl e \<Rightarrow> rd_codes s = [] \<longrightarrow> e = ENOSPC \<or> e = EFBIG
      | Inr b \<Rightarrow> file_map sv1 s1 (unat ?fb) = b \<and> (?da \<longrightarrow> b \<noteq> 0)" by (rule bmap_step [OF ok])
  show ?thesis
  proof (cases r)
    case (Inl e)
    with bm(1) have run: "sfs_blockio cur sv u s = Some (Some e, sv1, u, s1)" by (simp add: sfs_blockio_def)
    have "io_failed R cur e sv u s sv1 u s1" using bm res Inl ready by (intro io_failed_here) auto
    then have "io_result R cur SFS_BLOCKSIZE sv u s (Some e, sv1, u, s1)" by (intro io_result_here [OF _ ok ready]) simp
    with run show ?thesis by blast
  next
    case (Inr b)
    with res i have b: "file_map sv1 s1 ?i = b" "?da \<Longrightarrow> b \<noteq> 0" by simp_all
    have ok1: "file_ok R sv1 s1" using bm(2) by (rule carried_ok)
    have small1: "unat (sb_nblocks s1) \<le> 2 ^ 23" using small bm(2) by (simp add: carried_def)
    have first: "io_moved R cur 0 sv u s sv1 u s1"
      using bm ready passed_nothing [of u "umem s"] unfolding io_moved_def by (intro conjI exI [of _ "[]"]) auto
    have fin: "?thesis" if "sfs_blockio cur sv u s = Some (r', sv1, u', s')"
      and "case r' of None \<Rightarrow> io_moved R cur SFS_BLOCKSIZE sv1 u s1 sv1 u' s' | Some e \<Rightarrow> io_failed R cur e sv1 u s1 sv1 u' s'" for r' u' s'
      using io_result_later [OF first io_result_here [OF that(2) ok1 ready] off(1)] that(1) by auto
    show ?thesis
    proof (cases "b = 0")
      case True
      then have rd: "uio_rw u = UIO_READ" using b(2) by (cases "uio_rw u") auto
      obtain r' u' s' where io: "uiomovezeros cur SFS_BLOCKSIZE u s1 = Some (r', u', s')"
        and moved: "case r' of None \<Rightarrow> io_moved R cur 512 sv1 u s1 sv1 u' s' | Some e \<Rightarrow> io_failed R cur e sv1 u s1 sv1 u' s'"
        by (rule blockio_zeros_ok [OF ok1 _ ready r512 rd refl aligned]) (use b(1) True in auto)
      have "sfs_blockio cur sv u s = Some (r', sv1, u', s')" using bm(1) Inr True rd io by (simp add: sfs_blockio_def)
      then show ?thesis using moved by (rule fin)
    next
      case False
      have size: "uio_resid u \<ge> 512" using r512 by (simp add: word_le_nat_alt)
      obtain r' u' s' where io: "sfs_rwblock 10 cur (at_disk (int (unat (b * 512))) u) s1 = Some (r', u', s')"
        and moved: "case r' of None \<Rightarrow> io_moved R cur 512 sv1 u s1 sv1 (back_from (int (unat (b * 512))) u u') s'
         | Some e \<Rightarrow> io_failed R cur e sv1 u s1 sv1 (back_from (int (unat (b * 512))) u u') s'"
      proof (cases "uio_rw u")
        case UIO_READ
        show ?thesis by (rule blockio_read_ok [OF ok1 b(1) False small1 ready r512 UIO_READ refl aligned]) (rule that)
      next
        case UIO_WRITE
        show ?thesis by (rule blockio_write_ok [OF ok1 b(1) False small1 ready r512 UIO_WRITE refl aligned]) (rule that)
      qed
      have "sfs_blockio cur sv u s = Some (r', sv1, back_from (int (unat (b * 512))) u u', s')"
        using bm(1) Inr False size io by (simp add: sfs_blockio_def Let_def)
      then show ?thesis using moved by (rule fin)
    qed
  qed
qed

lemma io_blocks_ok:
  assumes "file_ok R sv s" and "uio_ready cur u" and "in_reach u (n * SFS_BLOCKSIZE) s" and "nat (uio_offset u) mod SFS_BLOCKSIZE = 0"
  shows "\<exists>r sv' u' s'. io_blocks cur n sv u s = Some (r, sv', u', s') \<and> io_result R cur (n * SFS_BLOCKSIZE) sv u s (r, sv', u', s')"
  using assms
proof (induction n arbitrary: sv u s)
  case 0
  then show ?case using io_moved_none by (simp add: io_result_def)
next
  case (Suc n)
  have off: "0 \<le> uio_offset u" using Suc.prems(3) by (simp add: in_reach_def)
  have "in_reach u SFS_BLOCKSIZE s" using Suc.prems(3) by (simp add: in_reach_def)
  from blockio_ok [OF Suc.prems(1,2) this Suc.prems(4)] obtain r sv1 u1 and s1 :: sfs_fs where
    b: "sfs_blockio cur sv u s = Some (r, sv1, u1, s1)" "io_result R cur SFS_BLOCKSIZE sv u s (r, sv1, u1, s1)" by blast
  show ?case
  proof (cases r)
    case (Some e)
    with b(2) have "io_result R cur (Suc n * SFS_BLOCKSIZE) sv u s (Some e, sv1, u1, s1)"
      by (auto intro: io_result_mono)
    with b(1) Some show ?thesis by simp
  next
    case None
    with b(2) have m: "io_moved R cur SFS_BLOCKSIZE sv u s sv1 u1 s1" by (simp add: io_result_def)
    from m obtain bs where bs: "length bs = SFS_BLOCKSIZE" "passed bs u (umem s) u1 (umem s1)" "carried R sv s sv1 s1" "uio_ready cur u1"
      by (auto simp: io_moved_def)
    have "in_reach u1 (n * SFS_BLOCKSIZE) s1" using in_reach_later [OF m, of "n * SFS_BLOCKSIZE"] Suc.prems(3) by simp
    moreover have "nat (uio_offset u1) mod SFS_BLOCKSIZE = 0" using passedD(3) [OF bs(2)] bs(1) off Suc.prems(4)
      by (simp add: nat_add_distrib)
    ultimately obtain r' sv' u' and s' :: sfs_fs where "io_blocks cur n sv1 u1 s1 = Some (r', sv', u', s')"
      "io_result R cur (n * SFS_BLOCKSIZE) sv1 u1 s1 (r', sv', u', s')" using Suc.IH [OF carried_ok [OF bs(3)] bs(4)] by metis
    with b(1) None io_result_later [OF m this(2) off] show ?thesis by simp
  qed
qed

lemma io_movedD:
  assumes "io_moved R cur n sv u s sv' u' s'"
  shows "file_ok R sv' s'" and "uio_ready cur u'" and "uio_offset u' = uio_offset u + int n" and "unat (uio_resid u) = n + unat (uio_resid u')"
    and "uio_rw u' = uio_rw u"
  using assms passedD by (auto simp: io_moved_def carried_def)

lemma partial_result:
  assumes "file_ok R sv s" and "uio_ready cur u" and "in_reach u n s" and "nat (uio_offset u) mod SFS_BLOCKSIZE + n \<le> SFS_BLOCKSIZE"
  shows "\<exists>r sv' u' s'. sfs_partialio cur sv u (nat (uio_offset u) mod SFS_BLOCKSIZE) n s = Some (r, sv', u', s') \<and>
    io_result R cur n sv u s (r, sv', u', s')"
proof -
  have reach: "0 \<le> uio_offset u" "nat (uio_offset u) div SFS_BLOCKSIZE < 4294967296" "n \<le> unat (uio_resid u)"
    using assms(3) by (auto simp: in_reach_def)
  from partialio_ok [OF assms(1,2) reach(1,2) refl assms(4) reach(3)] obtain r sv' u' and s' :: sfs_fs where
    "sfs_partialio cur sv u (nat (uio_offset u) mod SFS_BLOCKSIZE) n s = Some (r, sv', u', s')"
    "case r of None \<Rightarrow> io_moved R cur n sv u s sv' u' s' | Some e \<Rightarrow> io_failed R cur e sv u s sv' u' s'" by blast
  with io_result_here [OF this(2) assms(1,2)] show ?thesis by blast
qed

lemma io_aligned_ok:
  assumes ok: "file_ok R sv s" and ready: "uio_ready cur u" and reach: "in_reach u (unat (uio_resid u)) s"
    and aligned: "nat (uio_offset u) mod SFS_BLOCKSIZE = 0"
  shows "\<exists>r sv' u' s'. io_aligned cur sv u s = Some (r, sv', u', s') \<and> io_result R cur (unat (uio_resid u)) sv u s (r, sv', u', s')"
proof -
  let ?n = "unat (uio_resid u)" and ?off = "nat (uio_offset u)"
  have off: "0 \<le> uio_offset u" using reach by (simp add: in_reach_def)
  have split: "?n div SFS_BLOCKSIZE * SFS_BLOCKSIZE + ?n mod SFS_BLOCKSIZE = ?n" by simp
  then have "in_reach u (?n div SFS_BLOCKSIZE * SFS_BLOCKSIZE) s" using reach
    div_times_less_eq_dividend [of ?n 512] unfolding in_reach_def by linarith
  from io_blocks_ok [OF ok ready this aligned] obtain r sv1 u1 and s1 :: sfs_fs where
    b: "io_blocks cur (?n div SFS_BLOCKSIZE) sv u s = Some (r, sv1, u1, s1)"
    "io_result R cur (?n div SFS_BLOCKSIZE * SFS_BLOCKSIZE) sv u s (r, sv1, u1, s1)" by blast
  show ?thesis
  proof (cases r)
    case (Some e)
    with b(2) have "io_result R cur ?n sv u s (Some e, sv1, u1, s1)" using split by (auto intro: io_result_mono)
    with b(1) Some show ?thesis by (simp add: io_aligned_def)
  next
    case None
    with b(2) have m: "io_moved R cur (?n div SFS_BLOCKSIZE * SFS_BLOCKSIZE) sv u s sv1 u1 s1" by (simp add: io_result_def)
    note d = io_movedD [OF m]
    have left: "unat (uio_resid u1) = ?n mod SFS_BLOCKSIZE" using d(4) split by linarith
    have "nat (uio_offset u1) = ?off + ?n div SFS_BLOCKSIZE * SFS_BLOCKSIZE" unfolding d(3) nat_add_distrib [OF off of_nat_0_le_iff] nat_int ..
    then have at: "nat (uio_offset u1) mod SFS_BLOCKSIZE = 0" using aligned by (simp add: mod_add_eq [symmetric])
    have r1: "in_reach u1 (?n mod SFS_BLOCKSIZE) s1" using in_reach_later [OF m, of "?n mod SFS_BLOCKSIZE"] reach split by simp
    have small: "?n mod SFS_BLOCKSIZE < SFS_BLOCKSIZE" by simp
    show ?thesis
    proof (cases "uio_resid u1 = 0")
      case True
      with left m split have "io_result R cur ?n sv u s (None, sv1, u1, s1)" by (simp add: io_result_def)
      with b(1) None True show ?thesis by (simp add: io_aligned_def)
    next
      case False
      have "nat (uio_offset u1) mod SFS_BLOCKSIZE + ?n mod SFS_BLOCKSIZE \<le> SFS_BLOCKSIZE" using at small by linarith
      from partial_result [OF d(1,2) r1 this] obtain r' sv' u' and s' :: sfs_fs where
        p: "sfs_partialio cur sv1 u1 0 (?n mod SFS_BLOCKSIZE) s1 = Some (r', sv', u', s')"
        "io_result R cur (?n mod SFS_BLOCKSIZE) sv1 u1 s1 (r', sv', u', s')" unfolding at by blast
      have "io_result R cur ?n sv u s (r', sv', u', s')" using io_result_later [OF m p(2) off] split by simp
      moreover have "uio_resid u1 > 0" using False by (simp add: word_gt_0)
      ultimately show ?thesis using b(1) None p(1) left small by (simp add: io_aligned_def)
    qed
  qed
qed

lemma io_transfer_ok:
  assumes ok: "file_ok R sv s" and ready: "uio_ready cur u" and reach: "in_reach u (unat (uio_resid u)) s"
  shows "\<exists>r sv' u' s'. io_transfer cur sv u s = Some (r, sv', u', s') \<and> io_result R cur (unat (uio_resid u)) sv u s (r, sv', u', s')"
proof -
  let ?n = "unat (uio_resid u)" and ?off = "nat (uio_offset u)"
  have off: "0 \<le> uio_offset u" "?off div SFS_BLOCKSIZE < 4294967296" using reach by (auto simp: in_reach_def)
  note blkoff = file_block_number(2) [OF off]
  define k where "k = (if ?off mod SFS_BLOCKSIZE \<noteq> 0 then min (SFS_BLOCKSIZE - ?off mod SFS_BLOCKSIZE) ?n else 0)"
  have k: "k \<le> ?n" "?off mod SFS_BLOCKSIZE + k \<le> SFS_BLOCKSIZE" using mod_less_divisor [of 512 ?off] by (auto simp: k_def)
  have rk: "in_reach u k s" using reach k(1) by (simp add: in_reach_def)
  have tail: "io_transfer cur sv u s = (if ?off mod SFS_BLOCKSIZE \<noteq> 0 then sfs_partialio cur sv u (?off mod SFS_BLOCKSIZE) k s
      else Some (None, sv, u, s)) \<bind> (\<lambda>(r, sv, u, s). case r of Some e \<Rightarrow> Some (Some e, sv, u, s)
      | None \<Rightarrow> if uio_resid u = 0 then Some (None, sv, u, s)
          else kassert (uio_offset u smod int SFS_BLOCKSIZE = 0) \<bind> (\<lambda>_. io_aligned cur sv u s))"
    unfolding io_transfer_def blkoff k_def by (simp add: Let_def cong: if_cong)
  have "\<exists>r sv1 u1 s1. (if ?off mod SFS_BLOCKSIZE \<noteq> 0 then sfs_partialio cur sv u (?off mod SFS_BLOCKSIZE) k s
      else Some (None, sv, u, s)) = Some (r, sv1, u1, s1) \<and> io_result R cur k sv u s (r, sv1, u1, s1)"
  proof (cases "?off mod SFS_BLOCKSIZE = 0")
    case True
    then show ?thesis using io_moved_none [OF ok ready] by (simp add: io_result_def k_def)
  next
    case False
    from partial_result [OF ok ready rk k(2)] show ?thesis unfolding if_P [OF False] .
  qed
  then obtain r sv1 u1 and s1 :: sfs_fs where lead: "(if ?off mod SFS_BLOCKSIZE \<noteq> 0 then sfs_partialio cur sv u (?off mod SFS_BLOCKSIZE) k s
      else Some (None, sv, u, s)) = Some (r, sv1, u1, s1)" and res: "io_result R cur k sv u s (r, sv1, u1, s1)" by blast
  show ?thesis
  proof (cases r)
    case (Some e)
    with res k(1) have "io_result R cur ?n sv u s (Some e, sv1, u1, s1)" by (auto intro: io_result_mono)
    with Some show ?thesis unfolding tail lead by simp
  next
    case None
    with res have m: "io_moved R cur k sv u s sv1 u1 s1" by (simp add: io_result_def)
    note d = io_movedD [OF m]
    show ?thesis
    proof (cases "uio_resid u1 = 0")
      case True
      with m d(4) have "io_result R cur ?n sv u s (None, sv1, u1, s1)" by (simp add: io_result_def)
      with None True show ?thesis unfolding tail lead by simp
    next
      case False
      have r1: "in_reach u1 (unat (uio_resid u1)) s1" using in_reach_later [OF m, of "unat (uio_resid u1)"] reach d(4) by simp
      have "unat (uio_resid u1) \<noteq> 0" using False by (simp add: unat_eq_zero)
      then have "k < ?n" using d(4) by linarith
      then have "(?off + k) mod SFS_BLOCKSIZE = 0"
      proof (cases "?off mod SFS_BLOCKSIZE = 0")
        case False
        with \<open>k < ?n\<close> have "k = SFS_BLOCKSIZE - ?off mod SFS_BLOCKSIZE" by (simp add: k_def)
        then have "?off + k = ?off div SFS_BLOCKSIZE * SFS_BLOCKSIZE + SFS_BLOCKSIZE"
          using div_mult_mod_eq [of ?off 512] mod_less_divisor [of 512 ?off] by linarith
        then show ?thesis by simp
      qed (simp add: k_def)
      then have at: "nat (uio_offset u1) mod SFS_BLOCKSIZE = 0" using d(3) off(1) by (simp add: nat_add_distrib)
      from r1 have "0 \<le> uio_offset u1" "nat (uio_offset u1) div SFS_BLOCKSIZE < 4294967296" by (auto simp: in_reach_def)
      from file_block_number(3) [OF this] at have z: "uio_offset u1 smod int SFS_BLOCKSIZE = 0" by simp
      from io_aligned_ok [OF d(1,2) r1 at] obtain r' sv' u' and s' :: sfs_fs where
        p: "io_aligned cur sv1 u1 s1 = Some (r', sv', u', s')" "io_result R cur (unat (uio_resid u1)) sv1 u1 s1 (r', sv', u', s')" by blast
      have "io_result R cur ?n sv u s (r', sv', u', s')" using io_result_later [OF m p(2) off(1)] d(4) by simp
      with None False p(1) z show ?thesis unfolding tail lead by simp
    qed
  qed
qed

section \<open>\<open>sfs_io\<close>\<close>

lemma set_size_simps [simp]:
  "file_ok R (set_size n sv) s = file_ok R sv s" "file_byte (set_size n sv) s = file_byte sv s"
  "sfi_size (sv_i (set_size n sv)) = word_of_int n" "sv_ino (set_size n sv) = sv_ino sv"
  "sfi_type (sv_i (set_size n sv)) = sfi_type (sv_i sv)"
proof -
  have m: "file_map (set_size n sv) s = file_map sv s" by (simp add: set_size_def file_map_def fun_eq_iff)
  have i: "sfi_indirect (sv_i (set_size n sv)) = sfi_indirect (sv_i sv)" "sfi_direct (sv_i (set_size n sv)) = sfi_direct (sv_i sv)"
    by (simp_all add: set_size_def)
  show "file_ok R (set_size n sv) s = file_ok R sv s" by (simp add: file_ok_def m i)
  show "file_byte (set_size n sv) s = file_byte sv s" by (simp add: file_byte_def m fun_eq_iff)
  show "sfi_size (sv_i (set_size n sv)) = word_of_int n" "sv_ino (set_size n sv) = sv_ino sv"
    "sfi_type (sv_i (set_size n sv)) = sfi_type (sv_i sv)" by (simp_all add: set_size_def)
qed

text \<open>What has happened to file and request, whether a step failed or not.\<close>

lemma io_result_write:
  assumes res: "io_result R cur n sv u s (r, sv', u', s')" and wr: "uio_rw u = UIO_WRITE"
  obtains bs where "length bs \<le> n" "r = None \<longrightarrow> length bs = n" "take (length bs) (source u (memory (umem s))) = bs"
    "uio_offset u' = uio_offset u + int (length bs)" "unat (uio_resid u) = length bs + unat (uio_resid u')" "uio_rw u' = UIO_WRITE"
    "file_byte sv' s' = store (file_byte sv s) (nat (uio_offset u)) bs" "carried R sv s sv' s'" "uio_ready cur u'"
    "umem s' = umem s" "case r of None \<Rightarrow> True | Some e \<Rightarrow> rd_codes s = [] \<longrightarrow> e = EFAULT \<or> e = ENOSPC \<or> e = EFBIG"
proof -
  from res obtain k sv1 u1 and s1 :: sfs_fs where k: "k \<le> n" "r = None \<longrightarrow> k = n" and m: "io_moved R cur k sv u s sv1 u1 s1"
    and last: "case r of None \<Rightarrow> sv1 = sv' \<and> u1 = u' \<and> s1 = s' | Some e \<Rightarrow> io_failed R cur e sv1 u1 s1 sv' u' s'"
    by (cases r) (auto simp: io_result_def)
  from m obtain bs where bs: "length bs = k" and p: "passed bs u (umem s) u1 (umem s1)" and c: "carried R sv s sv1 s1" "uio_ready cur u1"
    and fb: "file_byte sv1 s1 = store (file_byte sv s) (nat (uio_offset u)) bs" using wr by (auto simp: io_moved_def)
  note d = passedD [OF p]
  have "carried R sv s sv' s' \<and> uio_ready cur u' \<and> u' = u1 \<and> umem s' = umem s1 \<and> file_byte sv' s' = file_byte sv1 s1 \<and>
    (case r of None \<Rightarrow> True | Some e \<Rightarrow> rd_codes s = [] \<longrightarrow> e = EFAULT \<or> e = ENOSPC \<or> e = EFBIG)"
  proof (cases r)
    case None
    with last c show ?thesis by simp
  next
    case (Some e)
    with last have "io_failed R cur e sv1 u1 s1 sv' u' s'" by simp
    then show ?thesis using Some c d(1) wr carried_trans [OF c(1)] unfolding io_failed_def by (auto simp: carried_def)
  qed
  with bs k d wr fb show thesis by (intro that [of bs]) auto
qed

lemma io_result_read:
  assumes res: "io_result R cur n sv u s (r, sv', u', s')" and rd: "uio_rw u = UIO_READ"
  shows "carried R sv s sv' s'" and "uio_ready cur u'" and "file_byte sv' s' = file_byte sv s" and "uio_rw u' = UIO_READ"
    and "r = None \<Longrightarrow> passed (map (file_byte sv s) [nat (uio_offset u)..<nat (uio_offset u) + n]) u (umem s) u' (umem s')"
proof -
  have "carried R sv s sv' s' \<and> uio_ready cur u' \<and> file_byte sv' s' = file_byte sv s \<and> uio_rw u' = UIO_READ \<and>
    (r = None \<longrightarrow> passed (map (file_byte sv s) [nat (uio_offset u)..<nat (uio_offset u) + n]) u (umem s) u' (umem s'))"
  proof (cases r)
    case None
    with res have m: "io_moved R cur n sv u s sv' u' s'" by (simp add: io_result_def)
    from io_movedD(5) [OF m] show ?thesis using m rd by (auto simp: io_moved_def)
  next
    case (Some e)
    with res obtain k sv1 u1 and s1 :: sfs_fs where m: "io_moved R cur k sv u s sv1 u1 s1" and f: "io_failed R cur e sv1 u1 s1 sv' u' s'"
      by (auto simp: io_result_def)
    have "carried R sv s sv' s'" using m f by (auto simp: io_moved_def io_failed_def intro: carried_trans)
    moreover have "file_byte sv1 s1 = file_byte sv s" using m rd by (auto simp: io_moved_def)
    ultimately show ?thesis using f io_movedD(5) [OF m] rd Some by (simp add: io_failed_def)
  qed
  then show "carried R sv s sv' s'" and "uio_ready cur u'" and "file_byte sv' s' = file_byte sv s" and "uio_rw u' = UIO_READ"
    and "r = None \<Longrightarrow> passed (map (file_byte sv s) [nat (uio_offset u)..<nat (uio_offset u) + n]) u (umem s) u' (umem s')" by auto
qed

text \<open>The size after a write.\<close>

definition new_size :: "nat \<Rightarrow> int \<Rightarrow> nat \<Rightarrow> nat" where
  "new_size old off n = (if n = 0 then old else max old (nat off + n))"

lemma sfs_io_write:
  assumes ok: "file_ok R sv s" and ready: "uio_ready cur u" and reach: "in_reach u (unat (uio_resid u)) s" and wr: "uio_rw u = UIO_WRITE"
  shows "\<exists>r sv' u' s' bs. sfs_io cur sv u s = Some (r, sv', u', s') \<and> file_ok R sv' s' \<and> (\<forall>b\<in>R. disk s' (unat b) = disk s (unat b)) \<and>
    take (length bs) (source u s) = bs \<and> uio_offset u' = uio_offset u + int (length bs) \<and> unat (uio_resid u) = length bs + unat (uio_resid u') \<and>
    file_byte sv' s' = store (file_byte sv s) (nat (uio_offset u)) bs \<and>
    unat (sfi_size (sv_i sv')) = new_size (unat (sfi_size (sv_i sv))) (uio_offset u) (length bs) \<and>
    (case r of None \<Rightarrow> uio_resid u' = 0 | Some e \<Rightarrow> rd_codes s = [] \<longrightarrow> e = EFAULT \<or> e = ENOSPC \<or> e = EFBIG)"
proof -
  from io_transfer_ok [OF ok ready reach] obtain r sv' u' and s' :: sfs_fs where
    run: "io_transfer cur sv u s = Some (r, sv', u', s')" and res: "io_result R cur (unat (uio_resid u)) sv u s (r, sv', u', s')" by blast
  obtain bs where bs: "length bs \<le> unat (uio_resid u)" "r = None \<longrightarrow> length bs = unat (uio_resid u)" "take (length bs) (source u (memory (umem s))) = bs"
    "uio_offset u' = uio_offset u + int (length bs)" "unat (uio_resid u) = length bs + unat (uio_resid u')" "uio_rw u' = UIO_WRITE"
    and fb: "file_byte sv' s' = store (file_byte sv s) (nat (uio_offset u)) bs" and c: "carried R sv s sv' s'"
    and err: "case r of None \<Rightarrow> True | Some e \<Rightarrow> rd_codes s = [] \<longrightarrow> e = EFAULT \<or> e = ENOSPC \<or> e = EFBIG"
    by (rule io_result_write [OF res wr])
  let ?sv = "if uio_resid u' \<noteq> uio_resid u \<and> uio_offset u' > int (unat (sfi_size (sv_i sv'))) then set_size (uio_offset u') sv' else sv'"
  have off: "0 \<le> uio_offset u" "nat (uio_offset u) + length bs < 4294967296" using reach bs(1) by (auto simp: in_reach_def)
  have eq: "uio_resid u' = uio_resid u \<longleftrightarrow> bs = []" using bs(5) by (auto simp flip: unat_eq_iff)
  have at: "uio_offset u' = int (nat (uio_offset u) + length bs)" using bs(4) off(1) by simp
  have size: "sfi_size (sv_i sv') = sfi_size (sv_i sv)" using c by (simp add: carried_def)
  have "unat (sfi_size (sv_i ?sv)) = new_size (unat (sfi_size (sv_i sv))) (uio_offset u) (length bs)"
  proof -
    have lt: "uio_offset u' > int (unat (sfi_size (sv_i sv'))) \<longleftrightarrow> unat (sfi_size (sv_i sv)) < nat (uio_offset u) + length bs"
      unfolding at size by (rule of_nat_less_iff)
    have "unat (word_of_int (uio_offset u') :: u32) = nat (uio_offset u) + length bs"
      unfolding at using unat_word_of_nat_32 [OF off(2)] by (simp del: of_nat_add)
    then show ?thesis unfolding eq lt new_size_def by (auto simp: size max_def)
  qed
  moreover have "sfs_io cur sv u s = Some (r, ?sv, u', s')"
    using wr run bs(6) by (simp add: sfs_io_def Let_def)
  moreover have "file_ok R ?sv s'" "file_byte ?sv s' = file_byte sv' s'" using c by (simp_all add: carried_def)
  moreover have "case r of None \<Rightarrow> uio_resid u' = 0 | Some e \<Rightarrow> rd_codes s = [] \<longrightarrow> e = EFAULT \<or> e = ENOSPC \<or> e = EFBIG"
    using err bs(2,5) by (cases r) (simp_all add: unat_eq_zero)
  moreover have "\<forall>b\<in>R. disk s' (unat b) = disk s (unat b)" using c by (simp add: carried_def)
  moreover have "take (length bs) (source u s) = bs" using bs(3) by (simp add: source_memory [of u s])
  ultimately show ?thesis using bs(4,5) fb by (intro exI [of _ r] exI [of _ ?sv] exI [of _ u'] exI [of _ s'] exI [of _ bs] conjI) simp_all
qed

lemma passed_shorter:
  assumes "passed bs (u\<lparr>uio_resid := uio_resid u - x\<rparr>) w u' w'" and "unat x \<le> unat (uio_resid u)"
  shows "passed bs u w (u'\<lparr>uio_resid := uio_resid u' + x\<rparr>) w'"
proof -
  have src: "source (u\<lparr>uio_resid := y\<rparr>) m = source u m" for y and m :: memories by (simp add: source_def)
  have sub: "unat (uio_resid u - x) = unat (uio_resid u) - unat x" using assms(2) by (simp add: unat_sub word_le_nat_alt)
  have n: "unat (uio_resid u - x) = length bs + unat (uio_resid u')" using passedD(4) [OF assms(1)] by simp
  then have "unat (uio_resid u') + unat x < 4294967296" using sub assms(2) unat_lt_32 [of "uio_resid u"] by linarith
  then have "unat (uio_resid u' + x) = unat (uio_resid u') + unat x" using unat_add_lem [of "uio_resid u'" x] by simp
  then have "unat (uio_resid u) = length bs + unat (uio_resid u' + x)" using n sub assms(2) by linarith
  then show ?thesis using assms(1) unfolding passed_def moved_def src by (simp add: Let_def)
qed

lemma sfs_io_read:
  assumes ok: "file_ok R sv s" and ready: "uio_ready cur u" and reach: "in_reach u (unat (uio_resid u)) s" and rd: "uio_rw u = UIO_READ"
  defines "n \<equiv> min (unat (uio_resid u)) (unat (sfi_size (sv_i sv)) - nat (uio_offset u))"
  shows "\<exists>r sv' u' s'. sfs_io cur sv u s = Some (r, sv', u', s') \<and> carried R sv s sv' s' \<and> file_byte sv' s' = file_byte sv s \<and>
    (r = None \<longrightarrow> passed (map (file_byte sv s) [nat (uio_offset u)..<nat (uio_offset u) + n]) u (umem s) u' (umem s'))"
proof -
  let ?size = "int (unat (sfi_size (sv_i sv)))"
  have off: "0 \<le> uio_offset u" using reach by (simp add: in_reach_def)
  show ?thesis
  proof (cases "uio_offset u \<ge> ?size")
    case True
    then have "n = 0" using off unfolding n_def by linarith
    then have "passed (map (file_byte sv s) [nat (uio_offset u)..<nat (uio_offset u) + n]) u (umem s) u (umem s)"
      using passed_nothing by simp
    moreover have "sfs_io cur sv u s = Some (None, sv, u, s)" using True rd by (simp add: sfs_io_def)
    ultimately show ?thesis using carried_refl [OF ok] by blast
  next
    case False
    define x :: u32 where "x = (if uio_rw u = UIO_READ \<and> uio_offset u + int (unat (uio_resid u)) > ?size then word_of_int (uio_offset u + int (unat (uio_resid u)) - ?size) else 0)"
    have x: "unat x = unat (uio_resid u) - n"
    proof (cases "uio_offset u + int (unat (uio_resid u)) > ?size")
      case True
      define k where "k = nat (uio_offset u + int (unat (uio_resid u)) - ?size)"
      have k: "k = unat (uio_resid u) - n" "k \<le> unat (uio_resid u)" using True False off unfolding k_def n_def by linarith+
      then have "k < 4294967296" using unat_lt_32 [of "uio_resid u"] by linarith
      moreover have "x = word_of_nat k" using True rd by (simp add: x_def k_def)
      ultimately show ?thesis using k(1) unat_word_of_nat_32 by simp
    next
      case False
      then have "n = unat (uio_resid u)" using off unfolding n_def by linarith
      then show ?thesis using False by (simp add: x_def)
    qed
    have n: "n \<le> unat (uio_resid u)" by (simp add: n_def)
    let ?u = "u\<lparr>uio_resid := uio_resid u - x\<rparr>"
    have le: "unat x \<le> unat (uio_resid u)" using x by simp
    have res: "unat (uio_resid u - x) = n" using x n le by (simp add: unat_sub word_le_nat_alt)
    have ready': "uio_ready cur ?u" using ready n res by (auto simp: uio_ready_def)
    have reach': "in_reach ?u (unat (uio_resid ?u)) s" using reach n by (simp add: in_reach_def res)
    from io_transfer_ok [OF ok ready' reach'] obtain r sv' u' and s' :: sfs_fs where
      run: "io_transfer cur sv ?u s = Some (r, sv', u', s')" and io: "io_result R cur (unat (uio_resid ?u)) sv ?u s (r, sv', u', s')" by blast
    have rd': "uio_rw ?u = UIO_READ" using rd by simp
    note d = io_result_read [OF io rd']
    have "passed (map (file_byte sv s) [nat (uio_offset u)..<nat (uio_offset u) + n]) u (umem s) (u'\<lparr>uio_resid := uio_resid u' + x\<rparr>) (umem s')"
      if "r = None" using passed_shorter [OF d(5) [OF that] le] by (simp add: res)
    moreover have "x < uio_resid u" if "uio_offset u + int (unat (uio_resid u)) > ?size"
    proof -
      have "0 < n" using that False off unfolding n_def by linarith
      then show ?thesis using x n by (simp add: word_less_nat_alt)
    qed
    then have "sfs_io cur sv u s = Some (r, sv', u'\<lparr>uio_resid := uio_resid u' + x\<rparr>, s')"
      unfolding sfs_io_def Let_def x_def [symmetric] using False rd run d(4) by (simp add: kassert_bind_if)
    ultimately show ?thesis using d(1,3) by blast
  qed
qed

end
