(* ===== verification/SfsDir.thy ===== *)
theory SfsDir
  imports SfsIo
begin

text \<open>
  Directories: \<open>kern/fs/sfs/sfs_dir.c\<close>. A directory is a file of entries of 64 bytes, an inode number and
  a name that ends with a zero byte. Names of callers are the bytes before the terminator, none of them zero.
  Results handed back through pointers are results here; a free slot is handed back only with a search that is not
  broken off by an error. The second half shows that a directory is a map from names to
  inode numbers, and what the operations do to it.
\<close>

section \<open>Operations\<close>

abbreviation SFS_NAMELEN :: nat where "SFS_NAMELEN \<equiv> 60"
abbreviation DIRENTRY_SIZE :: nat where "DIRENTRY_SIZE \<equiv> 64"

type_synonym cstring = "u8 list"

record sfs_direntry =
  sfd_ino :: u32
  sfd_name :: "u8 list"

definition direntry_bytes :: "sfs_direntry \<Rightarrow> u8 list" where
  "direntry_bytes sd = word_bytes (sfd_ino sd) @ sfd_name sd"

definition bytes_direntry :: "u8 list \<Rightarrow> sfs_direntry" where
  "bytes_direntry bs = \<lparr>sfd_ino = hd (words_of bs), sfd_name = drop 4 bs\<rparr>"

definition sfs_readdir :: "sfs_vnode \<Rightarrow> nat \<Rightarrow> sfs_fs \<Rightarrow> ((errno + sfs_direntry) \<times> sfs_vnode \<times> sfs_fs) option" where
  "sfs_readdir sv slot s = do {
     let actualpos = int (unat (word_of_nat slot * word_of_nat DIRENTRY_SIZE :: u32));
     (result, data, sv, s) \<leftarrow> sfs_metaio sv actualpos (replicate DIRENTRY_SIZE 0) UIO_READ s;
     Some (case result of Some e \<Rightarrow> Inl e | None \<Rightarrow> Inr (bytes_direntry data), sv, s) }"

definition sfs_writedir :: "sfs_vnode \<Rightarrow> nat \<Rightarrow> sfs_direntry \<Rightarrow> sfs_fs \<Rightarrow> (errno option \<times> sfs_vnode \<times> sfs_fs) option" where
  "sfs_writedir sv slot sd s = do {
     let actualpos = int (unat (word_of_nat slot * word_of_nat DIRENTRY_SIZE :: u32));
     (result, data, sv, s) \<leftarrow> sfs_metaio sv actualpos (direntry_bytes sd) UIO_WRITE s;
     Some (result, sv, s) }"

definition sfs_dir_nentries :: "sfs_vnode \<Rightarrow> nat option" where
  "sfs_dir_nentries sv = do {
     kassert (sfi_type (sv_i sv) = SFS_TYPE_DIR);
     kassert (unat (sfi_size (sv_i sv)) mod DIRENTRY_SIZE = 0);
     Some (unat (sfi_size (sv_i sv)) div DIRENTRY_SIZE) }"

text \<open>A name as the entry holds it, with a terminator forced into its last byte.\<close>

definition entry_name :: "sfs_direntry \<Rightarrow> cstring" where
  "entry_name sd = takeWhile (\<lambda>c. c \<noteq> 0) (take (SFS_NAMELEN - 1) (sfd_name sd))"

text \<open>The loop of the search, over the slots left, with what has been found and the free slot seen last.\<close>

fun findname_loop :: "sfs_vnode \<Rightarrow> cstring \<Rightarrow> nat list \<Rightarrow> (u32 \<times> nat) option \<Rightarrow> nat option \<Rightarrow> sfs_fs \<Rightarrow>
    ((errno + u32 \<times> nat) \<times> nat option \<times> sfs_vnode \<times> sfs_fs) option" where
  "findname_loop sv name [] found emptyslot s =
     Some (case found of None \<Rightarrow> Inl ENOENT | Some f \<Rightarrow> Inr f, emptyslot, sv, s)"
| "findname_loop sv name (i # is) found emptyslot s = do {
     (result, sv, s) \<leftarrow> sfs_readdir sv i s;
     (case result of
        Inl e \<Rightarrow> Some (Inl e, emptyslot, sv, s)
      | Inr tsd \<Rightarrow>
          if sfd_ino tsd = SFS_NOINO then findname_loop sv name is found (Some i) s
          else if entry_name tsd = name then do {
            kassert (found = None);
            findname_loop sv name is (Some (sfd_ino tsd, i)) emptyslot s }
          else findname_loop sv name is found emptyslot s) }"

definition sfs_dir_findname :: "sfs_vnode \<Rightarrow> cstring \<Rightarrow> sfs_fs \<Rightarrow> ((errno + u32 \<times> nat) \<times> nat option \<times> sfs_vnode \<times> sfs_fs) option" where
  "sfs_dir_findname sv name s = do {
     nentries \<leftarrow> sfs_dir_nentries sv;
     findname_loop sv name [0..<nentries] None None s }"

definition sfs_dir_link :: "sfs_vnode \<Rightarrow> cstring \<Rightarrow> u32 \<Rightarrow> sfs_fs \<Rightarrow> ((errno + nat) \<times> sfs_vnode \<times> sfs_fs) option" where
  "sfs_dir_link sv name ino s = do {
     (result, emptyslot, sv, s) \<leftarrow> sfs_dir_findname sv name s;
     (case result of
        Inr f \<Rightarrow> Some (Inl EEXIST, sv, s)
      | Inl e \<Rightarrow>
          if e \<noteq> ENOENT then Some (Inl e, sv, s)
          else if length name + 1 > SFS_NAMELEN then Some (Inl ENAMETOOLONG, sv, s)
          else do {
            nentries \<leftarrow> sfs_dir_nentries sv;
            let slot = (case emptyslot of Some i \<Rightarrow> i | None \<Rightarrow> nentries);
            let sd = \<lparr>sfd_ino = ino, sfd_name = name @ replicate (SFS_NAMELEN - length name) 0\<rparr>;
            (result, sv, s) \<leftarrow> sfs_writedir sv slot sd s;
            Some (case result of Some e \<Rightarrow> Inl e | None \<Rightarrow> Inr slot, sv, s) }) }"

definition sfs_dir_unlink :: "sfs_vnode \<Rightarrow> nat \<Rightarrow> sfs_fs \<Rightarrow> (errno option \<times> sfs_vnode \<times> sfs_fs) option" where
  "sfs_dir_unlink sv slot s = sfs_writedir sv slot \<lparr>sfd_ino = SFS_NOINO, sfd_name = replicate SFS_NAMELEN 0\<rparr> s"

section \<open>Objects in blocks\<close>

lemma file_map_codes [simp]: "file_map sv (s\<lparr>rd_codes := rs\<rparr>) = file_map sv s"
  by (simp add: file_map_def idwords_def fun_eq_iff)

lemma bmap_read:
  assumes ok: "file_ok R sv s" and i: "unat fb < SFS_NDIRECT + SFS_DBPERIDB"
  obtains r rs where "sfs_bmap sv fb False s = Some (r, sv, s\<lparr>rd_codes := rs\<rparr>)" "carried R sv s sv (s\<lparr>rd_codes := rs\<rparr>)"
    "r = Inr (file_map sv s (unat fb)) \<or> (\<exists>e. r = Inl e) \<and> rd_codes s \<noteq> []"
proof -
  from sfs_bmap_ok [OF ok i, of False] obtain r and sv1 :: sfs_vnode and s1 :: sfs_fs where
    bm: "sfs_bmap sv fb False s = Some (r, sv1, s1)" and b: "bmapped R sv s (unat fb) False (r, sv1, s1)" by (metis prod_cases3)
  from b obtain rs where s1: "sv1 = sv" "s1 = s\<lparr>rd_codes := rs\<rparr>" by (auto simp: bmapped_def)
  have "carried R sv s sv s1" using b s1(1) by (simp add: bmapped_def carried_def same_volume_def)
  moreover have "r = Inr (file_map sv s (unat fb)) \<or> (\<exists>e. r = Inl e) \<and> rd_codes s \<noteq> []" using b s1 by (cases r) (simp_all add: bmapped_def)
  ultimately show thesis using bm unfolding s1 by (intro that)
qed

lemma metaio_read_ok:
  assumes ok: "file_ok R sv s" and fit: "pos div SFS_BLOCKSIZE < SFS_NDIRECT + SFS_DBPERIDB" "pos mod SFS_BLOCKSIZE + length data \<le> SFS_BLOCKSIZE"
  obtains r data' s' where "sfs_metaio sv (int pos) data UIO_READ s = Some (r, data', sv, s')" "carried R sv s sv s'" "file_byte sv s' = file_byte sv s"
    "r = None \<longrightarrow> data' = map (file_byte sv s) [pos..<pos + length data]" "r \<noteq> None \<longrightarrow> rd_codes s \<noteq> []"
proof -
  let ?i = "pos div SFS_BLOCKSIZE" and ?fb = "word_of_int (int pos sdiv int SFS_BLOCKSIZE) :: u32"
  have off: "0 \<le> int pos" "nat (int pos) div SFS_BLOCKSIZE < 4294967296" using fit(1) by simp_all
  have i: "unat ?fb = ?i" "nat (int pos smod int SFS_BLOCKSIZE) = pos mod SFS_BLOCKSIZE"
    using file_block_number(1,2) [OF off] by simp_all
  with fit(1) have i': "unat ?fb < SFS_NDIRECT + SFS_DBPERIDB" by simp
  obtain r0 rs where bm: "sfs_bmap sv ?fb False s = Some (r0, sv, s\<lparr>rd_codes := rs\<rparr>)" "carried R sv s sv (s\<lparr>rd_codes := rs\<rparr>)"
    and res: "r0 = Inr (file_map sv s (unat ?fb)) \<or> (\<exists>e. r0 = Inl e) \<and> rd_codes s \<noteq> []" by (rule bmap_read [OF ok i'])
  let ?s = "s\<lparr>rd_codes := rs\<rparr>"
  have bytes: "file_byte sv ?s = file_byte sv s" by (simp add: file_byte_def fun_eq_iff Let_def)
  show thesis
  proof (cases r0)
    case (Inl e)
    then show thesis using bm bytes res by (intro that [of "Some e" data ?s]) (simp_all add: sfs_metaio_def)
  next
    case (Inr b)
    with res i have b: "file_map sv ?s ?i = b" by simp
    have ok1: "file_ok R sv ?s" using bm(2) by (rule carried_ok)
    obtain r2 s2 where ld: "(if b = 0 then Some (Inr (replicate SFS_BLOCKSIZE 0), ?s) else sfs_readblock b ?s) = Some (r2, s2)"
      "carried R sv ?s sv s2" "file_byte sv s2 = file_byte sv ?s" "block_of sv s2 = block_of sv ?s"
      "r2 = Inr (block_of sv ?s ?i) \<or> (\<exists>e. r2 = Inl e) \<and> rd_codes ?s \<noteq> []"
      by (rule load_block [OF ok1 b]) (rule that; assumption)
    have c: "carried R sv s sv s2" by (rule carried_trans [OF bm(2) ld(2)])
    have codes: "rd_codes ?s \<noteq> [] \<Longrightarrow> rd_codes s \<noteq> []" using bm(2) by (auto simp: carried_def)
    have part: "take (length data) (drop (pos mod SFS_BLOCKSIZE) (block_of sv s ?i)) = map (file_byte sv s) [pos..<pos + length data]"
      by (rule part_of_block [OF file_okD(1) [OF ok] fit(2)])
    show thesis
    proof (cases "b = 0")
      case True
      then have "block_of sv s ?i = zeros" using b by (simp add: block_of_def)
      then have "replicate (length data) 0 = map (file_byte sv s) [pos..<pos + length data]"
        using part fit(2) by (simp add: zeros_def)
      moreover have "s2 = ?s" using ld(1) True by simp
      moreover have "sfs_metaio sv (int pos) data UIO_READ s = Some (None, replicate (length data) 0, sv, ?s)"
        using bm(1) Inr True by (simp add: sfs_metaio_def)
      ultimately show thesis using bm(2) bytes by (intro that [of None "replicate (length data) 0" ?s]) simp_all
    next
      case False
      with ld(1) have rd: "sfs_readblock b ?s = Some (r2, s2)" by simp
      show thesis
      proof (cases r2)
        case (Inl e)
        then show thesis using bm(1) Inr False rd c ld(3,5) bytes codes by (intro that [of "Some e" data s2]) (auto simp: sfs_metaio_def)
      next
        case blk: (Inr blk)
        have "blk = block_of sv s ?i" using ld(5) blk by auto
        then have run: "sfs_metaio sv (int pos) data UIO_READ s = Some (None, map (file_byte sv s) [pos..<pos + length data], sv, s2)"
          using bm(1) Inr False rd blk part i(2) by (simp add: sfs_metaio_def)
        show thesis by (rule that [OF run c]) (simp_all add: ld(3) bytes)
      qed
    qed
  qed
qed

lemma case_eq_Some:
  "(case r of Inl e \<Rightarrow> f e | Inr b \<Rightarrow> g b) = Some y \<longleftrightarrow> (\<exists>e. r = Inl e \<and> f e = Some y) \<or> (\<exists>b. r = Inr b \<and> g b = Some y)"
  "(case x of None \<Rightarrow> h | Some e \<Rightarrow> k e) = Some y \<longleftrightarrow> x = None \<and> h = Some y \<or> (\<exists>e. x = Some e \<and> k e = Some y)"
  by (cases r, simp_all) (cases x, simp_all)

lemma bmap_indirect_vnode: "bmap_indirect idoff doalloc idblock idbuf sv s = Some (r, sv', s') \<Longrightarrow> sv' = sv"
  by (auto simp: bmap_indirect_def bmap_done_def Let_def bind_eq_Some_conv case_eq_Some split: if_split_asm)

lemma sfs_bmap_type: "sfs_bmap sv fb doalloc s = Some (r, sv', s') \<Longrightarrow> sfi_type (sv_i sv') = sfi_type (sv_i sv)"
  by (auto simp: sfs_bmap_def bmap_done_def Let_def bind_eq_Some_conv set_direct_def set_indirect_def case_eq_Some
      dest!: bmap_indirect_vnode split: if_split_asm)

text \<open>What an object written to a file does; the size may grow, so the files are compared by the rest.\<close>

lemma metaio_write_ok:
  assumes ok: "file_ok R sv s" and fit: "pos div SFS_BLOCKSIZE < 8388608" "pos mod SFS_BLOCKSIZE + length data \<le> SFS_BLOCKSIZE"
  obtains r sv' s' where "sfs_metaio sv (int pos) data UIO_WRITE s = Some (r, data, sv', s')" "file_ok R sv' s'"
    "\<forall>b\<in>R. disk s' (unat b) = disk s (unat b)" "sv_ino sv' = sv_ino sv" "rd_codes s = [] \<longrightarrow> rd_codes s' = []"
    "sfi_type (sv_i sv') = sfi_type (sv_i sv)"
    "case r of None \<Rightarrow> pos div SFS_BLOCKSIZE < SFS_NDIRECT + SFS_DBPERIDB \<and> file_byte sv' s' = store (file_byte sv s) pos data \<and>
        sfi_size (sv_i sv') = (if unat (sfi_size (sv_i sv)) < pos + length data then word_of_nat (pos + length data) else sfi_size (sv_i sv))
      | Some e \<Rightarrow> file_byte sv' s' = file_byte sv s \<and> sfi_size (sv_i sv') = sfi_size (sv_i sv) \<and> (rd_codes s = [] \<longrightarrow> e = ENOSPC \<or> e = EFBIG)"
proof -
  let ?i = "pos div SFS_BLOCKSIZE" and ?fb = "word_of_int (int pos sdiv int SFS_BLOCKSIZE) :: u32"
  have off: "0 \<le> int pos" "nat (int pos) div SFS_BLOCKSIZE < 4294967296" using fit(1) by simp_all
  have i: "unat ?fb = ?i" "nat (int pos smod int SFS_BLOCKSIZE) = pos mod SFS_BLOCKSIZE"
    using file_block_number(1,2) [OF off] by simp_all
  obtain r0 sv1 s1 where bm: "sfs_bmap sv ?fb True s = Some (r0, sv1, s1)" "carried R sv s sv1 s1" "file_byte sv1 s1 = file_byte sv s"
    "umem s1 = umem s" and res: "case r0 of Inl e \<Rightarrow> rd_codes s = [] \<longrightarrow> e = ENOSPC \<or> e = EFBIG
      | Inr b \<Rightarrow> file_map sv1 s1 (unat ?fb) = b \<and> (True \<longrightarrow> b \<noteq> 0)" by (rule bmap_step [OF ok])
  have type: "sfi_type (sv_i sv1) = sfi_type (sv_i sv)" using bm(1) by (rule sfs_bmap_type)
  show thesis
  proof (cases r0)
    case (Inl e)
    then show thesis using bm res type by (intro that [of "Some e" sv1 s1]) (simp_all add: sfs_metaio_def carried_def)
  next
    case (Inr b)
    with res i have b: "file_map sv1 s1 ?i = b" "b \<noteq> 0" by simp_all
    have ok1: "file_ok R sv1 s1" using bm(2) by (rule carried_ok)
    obtain r2 s2 where ld: "(if b = 0 then Some (Inr (replicate SFS_BLOCKSIZE 0), s1) else sfs_readblock b s1) = Some (r2, s2)"
      "carried R sv1 s1 sv1 s2" "file_byte sv1 s2 = file_byte sv1 s1" "umem s2 = umem s1" "file_map sv1 s2 = file_map sv1 s1"
      "block_of sv1 s2 = block_of sv1 s1" "r2 = Inr (block_of sv1 s1 ?i) \<or> (\<exists>e. r2 = Inl e) \<and> rd_codes s1 \<noteq> []"
      by (rule load_block [OF ok1 b(1)])
    have c: "carried R sv s sv1 s2" by (rule carried_trans [OF bm(2) ld(2)])
    have rd: "sfs_readblock b s1 = Some (r2, s2)" using ld(1) b(2) by simp
    show thesis
    proof (cases r2)
      case (Inl e)
      have "rd_codes s \<noteq> []" using ld(7) Inl bm(2) by (auto simp: carried_def)
      then show thesis using bm Inr b(2) Inl rd c ld(3) type by (intro that [of "Some e" sv1 s2]) (simp_all add: sfs_metaio_def carried_def)
    next
      case blk: (Inr blk)
      with ld(6,7) have blk': "blk = block_of sv1 s2 ?i" by simp
      have ok2: "file_ok R sv1 s2" and map2: "file_map sv1 s2 ?i = b" using c b ld(5) by (simp_all add: carried_def)
      let ?new = "take (pos mod SFS_BLOCKSIZE) blk @ data @ drop (pos mod SFS_BLOCKSIZE + length data) blk"
      let ?s3 = "s2\<lparr>disk := (disk s2)(unat b := ?new)\<rparr>"
      have w: "carried R sv1 s2 sv1 ?s3" "file_byte sv1 ?s3 = store (file_byte sv1 s2) (?i * SFS_BLOCKSIZE + pos mod SFS_BLOCKSIZE) data"
        using part_written [OF ok2 map2 b(2) fit(2)] by (simp_all add: blk')
      have len: "length ?new = SFS_BLOCKSIZE" using length_block_of [OF file_okD(1) [OF ok2]] fit(2) by (simp add: blk')
      have wr: "sfs_writeblock b ?new s2 = Some (None, ?s3)" by (rule writeblock_ok(1) [OF file_okD(1) [OF ok2] disk_block(2) [OF ok2 map2 b(2)] len])
      have c3: "carried R sv s sv1 ?s3" by (rule carried_trans [OF c w(1)])
      have bytes: "file_byte sv1 ?s3 = store (file_byte sv s) pos data" using w(2) ld(3) bm(3) div_mult_mod_eq [of pos 512] by simp
      have size: "sfi_size (sv_i sv1) = sfi_size (sv_i sv)" using c by (simp add: carried_def)
      let ?sv = "if int pos + int (length data) > int (unat (sfi_size (sv_i sv1))) then set_size (int pos + int (length data)) sv1 else sv1"
      have run: "sfs_metaio sv (int pos) data UIO_WRITE s = Some (None, data, ?sv, ?s3)"
        using bm(1) Inr b(2) rd blk wr i(2) by (simp add: sfs_metaio_def Let_def)
      have in_file: "?i < SFS_NDIRECT + SFS_DBPERIDB" using b by (auto simp: file_map_def split: if_splits)
      note rest = c3 bytes type in_file
      show thesis
      proof (cases "unat (sfi_size (sv_i sv)) < pos + length data")
        case True
        then have lt: "int pos + int (length data) > int (unat (sfi_size (sv_i sv1)))" unfolding size by linarith
        note run' = run [unfolded if_P [OF lt]]
        show thesis using rest True by (intro that [OF run']) (simp_all add: carried_def)
      next
        case False
        then have lt: "\<not> int pos + int (length data) > int (unat (sfi_size (sv_i sv1)))" unfolding size by linarith
        note run' = run [unfolded if_not_P [OF lt]]
        show thesis using rest False by (intro that [OF run']) (simp_all add: carried_def)
      qed
    qed
  qed
qed

section \<open>No entry, and errors of the disk\<close>

text \<open>No transfer fails with \<open>ENOENT\<close>, so that a search that fails with it has seen every entry.\<close>

lemma copycheck_error: "copycheck p len = Inl e \<Longrightarrow> e = EFAULT"
  by (auto simp: copycheck_def Let_def split: if_split_asm)

lemma move_part_EFAULT: "move_part u iov part m = Some (Some e, x) \<Longrightarrow> e = EFAULT"
  by (auto simp: move_part_def copyin_def copyout_def Let_def dest: copycheck_error
      split: uio_seg.splits uio_rw.splits prod.splits option.splits sum.splits if_splits)

lemma uiomove_loop_EFAULT: "uiomove_loop buf u m = Some (Some e, x) \<Longrightarrow> e = EFAULT"
proof (induction "length buf + length (uio_iov u)" arbitrary: buf u m x rule: less_induct)
  case less
  note run = less.prems [unfolded uiomove_loop.simps [of buf u m]]
  show ?case
  proof (cases "0 < length buf \<and> uio_resid u > 0")
    case True
    note run = run [unfolded if_P [OF True]]
    then obtain iov iovs where iov: "uio_iov u = iov # iovs" by (cases "uio_iov u") simp_all
    note run = run [unfolded iov list.case Let_def]
    let ?size = "min (unat (iov_len iov)) (length buf)"
    show ?thesis
    proof (cases "?size = 0")
      case True
      show ?thesis using run [unfolded if_P [OF True]] iov by (auto split: if_split_asm intro: less.hyps [rotated])
    next
      case False
      obtain result part iov' m' where part: "move_part u iov (take ?size buf) m = Some (result, part, iov', m')"
        using run [unfolded if_not_P [OF False]] by (cases "move_part u iov (take ?size buf) m") auto
      note run = run [unfolded if_not_P [OF False] part]
      show ?thesis
      proof (cases result)
        case None
        let ?u = "u\<lparr>uio_iov := iov'\<lparr>iov_len := iov_len iov' - word_of_nat ?size\<rparr> # iovs,
          uio_resid := uio_resid u - word_of_nat ?size, uio_offset := uio_offset u + int ?size\<rparr>"
        from run None obtain y where "uiomove_loop (drop ?size buf) ?u m' = Some (Some e, y)"
          by (auto simp: bind_eq_Some_conv)
        moreover have "length (drop ?size buf) + length (uio_iov ?u) < length buf + length (uio_iov u)" using iov False True by auto
        ultimately show ?thesis by (rule less.hyps [rotated])
      next
        case (Some e')
        with run have "e' = e" by simp
        with part Some show ?thesis by (auto dest: move_part_EFAULT)
      qed
    qed
  qed (use run in auto)
qed

lemma lhd_code_no_ENOENT: "lhd_code_to_errno c \<noteq> Some ENOENT"
  by (simp add: lhd_code_to_errno_def Let_def)

lemma uiomove_EFAULT: "uiomove cur buf u m = Some (Some e, x) \<Longrightarrow> e = EFAULT"
  by (auto simp: uiomove_def bind_eq_Some_conv dest: uiomove_loop_EFAULT)

lemma lhd_sectors_no_ENOENT: "lhd_sectors cur n sector u s \<noteq> Some (Some ENOENT, x)"
proof (induction n arbitrary: sector u s)
  case (Suc n)
  then show ?case
    by (cases "uio_rw u") (auto simp: Let_def bind_eq_Some_conv case_eq_Some lhd_code_no_ENOENT dest: uiomove_EFAULT)
qed simp

lemma rwblock_no_ENOENT: "sfs_rwblock n cur u s \<noteq> Some (Some ENOENT, x)"
proof (induction n arbitrary: u s)
  case 0
  then show ?case by (auto simp: lhd_io_def Let_def bind_eq_Some_conv lhd_sectors_no_ENOENT split: if_split_asm)
next
  case (Suc n)
  then show ?case by (auto simp: lhd_io_def Let_def bind_eq_Some_conv lhd_sectors_no_ENOENT split: if_split_asm)
qed

lemma readblock_no_ENOENT: "sfs_readblock b s \<noteq> Some (Inl ENOENT, x)"
  by (auto simp: sfs_readblock_def bind_eq_Some_conv rwblock_no_ENOENT split: option.splits)

lemma bmap_no_ENOENT: "sfs_bmap sv fb False s \<noteq> Some (Inl ENOENT, x)"
  by (auto simp: sfs_bmap_def bmap_indirect_def bmap_done_def Let_def bind_eq_Some_conv case_eq_Some readblock_no_ENOENT split: if_split_asm)

lemma metaio_no_ENOENT: "sfs_metaio sv pos data UIO_READ s \<noteq> Some (Some ENOENT, x)"
  by (auto simp: sfs_metaio_def Let_def bind_eq_Some_conv case_eq_Some readblock_no_ENOENT bmap_no_ENOENT split: if_split_asm)

section \<open>Entries as a map\<close>

abbreviation entry_used :: "sfs_direntry \<Rightarrow> bool" where "entry_used e \<equiv> sfd_ino e \<noteq> SFS_NOINO"

abbreviation entry_holds :: "cstring \<Rightarrow> sfs_direntry \<Rightarrow> bool" where "entry_holds name e \<equiv> entry_used e \<and> entry_name e = name"

definition entries_ok :: "sfs_direntry list \<Rightarrow> bool" where
  "entries_ok es \<longleftrightarrow> distinct (map entry_name (filter entry_used es))"

definition entries_map :: "sfs_direntry list \<Rightarrow> cstring \<rightharpoonup> u32" where
  "entries_map es = map_of (map (\<lambda>e. (entry_name e, sfd_ino e)) (filter entry_used es))"

lemma entries_map_append: "entries_map (xs @ ys) = entries_map ys ++ entries_map xs"
  by (simp add: entries_map_def)

lemma entries_map_Cons: "entries_map (e # es) = (if entry_used e then (entries_map es)(entry_name e \<mapsto> sfd_ino e) else entries_map es)"
  by (simp add: entries_map_def)

lemma dom_entries_map: "dom (entries_map es) = entry_name ` {e \<in> set es. entry_used e}"
  by (auto simp: entries_map_def dom_map_of_conv_image_fst image_image)

lemma entries_map_None: "entries_map es name = None \<longleftrightarrow> (\<forall>e\<in>set es. \<not> entry_holds name e)"
proof -
  have "entries_map es name = None \<longleftrightarrow> name \<notin> dom (entries_map es)" by (simp add: domIff)
  then show ?thesis by (auto simp: dom_entries_map)
qed

lemma split_nth: "i < length es \<Longrightarrow> es = take i es @ es ! i # drop (Suc i) es"
  by (simp add: id_take_nth_drop)

lemma entries_map_Some:
  assumes "entries_ok es" and "i < length es" and "entry_holds name (es ! i)"
  shows "entries_map es name = Some (sfd_ino (es ! i))"
proof -
  obtain xs e ys where es: "es = xs @ e # ys" and e: "es ! i = e" using split_nth [OF assms(2)] by blast
  have e': "entry_holds name e" using assms(3) e by simp
  then have "entry_name e \<notin> dom (entries_map xs)" using assms(1) by (auto simp: es dom_entries_map entries_ok_def)
  then show ?thesis using e' unfolding e by (auto simp: es entries_map_append entries_map_Cons map_add_def split: option.split)
qed

lemma entries_add:
  assumes ok: "entries_ok es" and new: "entries_map es (entry_name e) = None" "entry_used e"
    and slot: "i < length es \<and> \<not> entry_used (es ! i) \<and> es' = es[i := e] \<or> es' = es @ [e]"
  shows "entries_ok es'" and "entries_map es' = (entries_map es)(entry_name e \<mapsto> sfd_ino e)"
proof -
  obtain xs ys where es': "es' = xs @ e # ys" and es: "filter entry_used es = filter entry_used xs @ filter entry_used ys"
    using slot
  proof
    assume free: "i < length es \<and> \<not> entry_used (es ! i) \<and> es' = es[i := e]"
    then have "filter entry_used es = filter entry_used (take i es) @ filter entry_used (drop (Suc i) es)"
      using arg_cong [OF split_nth [of i es], of "filter entry_used"] by simp
    then show thesis using free by (intro that [of "take i es" "drop (Suc i) es"]) (simp_all add: upd_conv_take_nth_drop)
  next
    assume "es' = es @ [e]"
    then show thesis by (intro that [of es "[]"]) simp_all
  qed
  have m: "entries_map es = entries_map ys ++ entries_map xs" by (simp add: entries_map_def es)
  have "entry_name e \<notin> dom (entries_map xs)" "entry_name e \<notin> dom (entries_map ys)"
    using new(1) by (auto simp: m map_add_def split: option.splits)
  moreover have "distinct (map entry_name (filter entry_used xs @ filter entry_used ys))" using ok by (simp add: entries_ok_def es)
  ultimately show "entries_ok es'" and "entries_map es' = (entries_map es)(entry_name e \<mapsto> sfd_ino e)"
    using new(2) by (auto simp: es' entries_ok_def dom_entries_map entries_map_append entries_map_Cons m map_add_upd_left image_iff)
qed

lemma entries_remove:
  assumes ok: "entries_ok es" and i: "i < length es" "entry_holds name (es ! i)" and e: "\<not> entry_used e"
  shows "entries_ok (es[i := e])" and "entries_map (es[i := e]) = (entries_map es)(name := None)"
proof -
  obtain xs x ys where es: "es = xs @ x # ys" and upd: "es[i := e] = xs @ e # ys" and x: "entry_holds name x"
    using split_nth [OF i(1)] i by (metis upd_conv_take_nth_drop)
  have d: "name \<notin> dom (entries_map xs)" "name \<notin> dom (entries_map ys)"
    using ok x by (auto simp: es entries_ok_def dom_entries_map)
  show "entries_ok (es[i := e])" unfolding upd using ok x e by (simp add: es entries_ok_def)
  show "entries_map (es[i := e]) = (entries_map es)(name := None)"
    unfolding upd using d x e by (auto simp: es entries_map_append entries_map_Cons map_add_def dom_def fun_eq_iff split: option.split)
qed

section \<open>Directories\<close>

abbreviation dir_slots :: "sfs_vnode \<Rightarrow> nat" where "dir_slots sv \<equiv> unat (sfi_size (sv_i sv)) div DIRENTRY_SIZE"

definition dir_entry :: "sfs_vnode \<Rightarrow> sfs_fs \<Rightarrow> nat \<Rightarrow> sfs_direntry" where
  "dir_entry sv s i = bytes_direntry (map (file_byte sv s) [i * DIRENTRY_SIZE..<i * DIRENTRY_SIZE + DIRENTRY_SIZE])"

definition dir_entries :: "sfs_vnode \<Rightarrow> sfs_fs \<Rightarrow> sfs_direntry list" where
  "dir_entries sv s = map (dir_entry sv s) [0..<dir_slots sv]"

definition dir_map :: "sfs_vnode \<Rightarrow> sfs_fs \<Rightarrow> cstring \<rightharpoonup> u32" where
  "dir_map sv s = entries_map (dir_entries sv s)"

text \<open>A sound file of whole entries, no name in two of them.\<close>

definition dir_ok :: "u32 set \<Rightarrow> sfs_vnode \<Rightarrow> sfs_fs \<Rightarrow> bool" where
  "dir_ok R sv s \<longleftrightarrow> file_ok R sv s \<and> sfi_type (sv_i sv) = SFS_TYPE_DIR \<and>
     unat (sfi_size (sv_i sv)) mod DIRENTRY_SIZE = 0 \<and>
     unat (sfi_size (sv_i sv)) \<le> (SFS_NDIRECT + SFS_DBPERIDB) * SFS_BLOCKSIZE \<and> entries_ok (dir_entries sv s)"

lemma dir_okD:
  assumes "dir_ok R sv s"
  shows "file_ok R sv s" and "dir_slots sv * DIRENTRY_SIZE = unat (sfi_size (sv_i sv))" and "dir_slots sv \<le> 1144"
    and "entries_ok (dir_entries sv s)" and "sfs_dir_nentries sv = Some (dir_slots sv)"
proof -
  show "file_ok R sv s" "entries_ok (dir_entries sv s)" using assms by (simp_all add: dir_ok_def)
  have "unat (sfi_size (sv_i sv)) mod 64 = 0" "unat (sfi_size (sv_i sv)) \<le> 143 * 512" using assms by (simp_all add: dir_ok_def)
  then show "dir_slots sv * DIRENTRY_SIZE = unat (sfi_size (sv_i sv))" and "dir_slots sv \<le> 1144"
    using div_mult_mod_eq [of "unat (sfi_size (sv_i sv))" 64] by linarith+
  show "sfs_dir_nentries sv = Some (dir_slots sv)" using assms by (simp add: dir_ok_def sfs_dir_nentries_def)
qed

lemma length_dir_entries [simp]: "length (dir_entries sv s) = dir_slots sv"
  by (simp add: dir_entries_def)

lemma nth_dir_entries: "i < dir_slots sv \<Longrightarrow> dir_entries sv s ! i = dir_entry sv s i"
  by (simp add: dir_entries_def)

lemma same_bytes:
  assumes "file_byte sv' s' = file_byte sv s" and "sfi_size (sv_i sv') = sfi_size (sv_i sv)"
  shows "dir_entries sv' s' = dir_entries sv s" and "dir_map sv' s' = dir_map sv s"
proof -
  show "dir_entries sv' s' = dir_entries sv s" by (simp add: dir_entries_def dir_entry_def assms)
  then show "dir_map sv' s' = dir_map sv s" by (simp add: dir_map_def)
qed

lemma direntry_round [simp]: "bytes_direntry (direntry_bytes sd) = sd"
  by (simp add: bytes_direntry_def direntry_bytes_def word_bytes_def bytes_word_bytes)

lemma length_direntry: "length (direntry_bytes sd) = 4 + length (sfd_name sd)"
  by (simp add: direntry_bytes_def word_bytes_def)

lemma slot_offset:
  assumes "slot \<le> 1144"
  shows "int (unat (word_of_nat slot * word_of_nat DIRENTRY_SIZE :: u32)) = int (slot * DIRENTRY_SIZE)"
    and "slot * DIRENTRY_SIZE div SFS_BLOCKSIZE \<le> 143" and "slot * DIRENTRY_SIZE mod SFS_BLOCKSIZE + DIRENTRY_SIZE \<le> SFS_BLOCKSIZE"
    and "slot < 1144 \<Longrightarrow> slot * DIRENTRY_SIZE div SFS_BLOCKSIZE < 143"
proof -
  have "word_of_nat slot * word_of_nat DIRENTRY_SIZE = (word_of_nat (slot * DIRENTRY_SIZE) :: u32)" by simp
  moreover have "unat (word_of_nat (slot * DIRENTRY_SIZE) :: u32) = slot * DIRENTRY_SIZE" by (rule unat_word_of_nat_32) (use assms in simp)
  ultimately show "int (unat (word_of_nat slot * word_of_nat DIRENTRY_SIZE :: u32)) = int (slot * DIRENTRY_SIZE)" by presburger
  have eq: "slot * DIRENTRY_SIZE div SFS_BLOCKSIZE = slot div 8" "slot * DIRENTRY_SIZE mod SFS_BLOCKSIZE = slot mod 8 * 64"
    using div_mult_mult2 [of 64 slot 8] mult_mod_left [of slot 8 64] by simp_all
  show "slot * DIRENTRY_SIZE div SFS_BLOCKSIZE \<le> 143" and "slot < 1144 \<Longrightarrow> slot * DIRENTRY_SIZE div SFS_BLOCKSIZE < 143"
    unfolding eq using assms by linarith+
  have "slot mod 8 < 8" by simp
  then show "slot * DIRENTRY_SIZE mod SFS_BLOCKSIZE + DIRENTRY_SIZE \<le> SFS_BLOCKSIZE" unfolding eq by linarith
qed

text \<open>An entry is read.\<close>

lemma readdir_ok:
  assumes ok: "dir_ok R sv s" and i: "i < dir_slots sv"
  obtains r s' where "sfs_readdir sv i s = Some (r, sv, s')" "dir_ok R sv s'" "file_byte sv s' = file_byte sv s"
    "rd_codes s = [] \<longrightarrow> rd_codes s' = []" "\<forall>b\<in>R. disk s' (unat b) = disk s (unat b)"
    "r = Inr (dir_entries sv s ! i) \<or> (\<exists>e. r = Inl e \<and> e \<noteq> ENOENT) \<and> rd_codes s \<noteq> []"
proof -
  note d = dir_okD [OF ok]
  have i': "i \<le> 1144" "i < 1144" using i d(3) by simp_all
  note o = slot_offset [OF i'(1)]
  have fit: "i * DIRENTRY_SIZE div SFS_BLOCKSIZE < SFS_NDIRECT + SFS_DBPERIDB"
    "i * DIRENTRY_SIZE mod SFS_BLOCKSIZE + length (replicate DIRENTRY_SIZE (0::u8)) \<le> SFS_BLOCKSIZE" using o(3,4) i'(2) by simp_all
  obtain r data s' where io: "sfs_metaio sv (int (i * DIRENTRY_SIZE)) (replicate DIRENTRY_SIZE 0) UIO_READ s = Some (r, data, sv, s')"
    "carried R sv s sv s'" "file_byte sv s' = file_byte sv s"
    "r = None \<longrightarrow> data = map (file_byte sv s) [i * DIRENTRY_SIZE..<i * DIRENTRY_SIZE + length (replicate DIRENTRY_SIZE (0::u8))]"
    "r \<noteq> None \<longrightarrow> rd_codes s \<noteq> []" by (rule metaio_read_ok [OF d(1) fit])
  have "sfs_readdir sv i s = Some (case r of Some e \<Rightarrow> Inl e | None \<Rightarrow> Inr (bytes_direntry data), sv, s')"
    unfolding sfs_readdir_def Let_def o(1) io(1) by simp
  moreover have "dir_ok R sv s'" using ok io(2) same_bytes(1) [OF io(3) refl] by (simp add: dir_ok_def carried_def)
  moreover have "r \<noteq> Some ENOENT" using metaio_no_ENOENT [of sv "int (i * DIRENTRY_SIZE)" "replicate DIRENTRY_SIZE 0" s] io(1) by fastforce
  moreover from this have "(case r of Some e \<Rightarrow> Inl e | None \<Rightarrow> Inr (bytes_direntry data)) = Inr (dir_entries sv s ! i) \<or>
    (\<exists>e. (case r of Some e \<Rightarrow> Inl e | None \<Rightarrow> Inr (bytes_direntry data)) = Inl e \<and> e \<noteq> ENOENT) \<and> rd_codes s \<noteq> []"
    using io(4,5) nth_dir_entries [OF i, of s] by (cases r) (simp_all add: dir_entry_def)
  ultimately show thesis using io(2,3) that unfolding carried_def by blast
qed

text \<open>The search, over the entries from \<open>k\<close> on, when the \<open>k\<close> before gave \<open>found\<close> and \<open>emptyslot\<close>.\<close>

definition searched :: "sfs_direntry list \<Rightarrow> cstring \<Rightarrow> nat \<Rightarrow> (u32 \<times> nat) option \<Rightarrow> nat option \<Rightarrow> bool" where
  "searched es name k found emptyslot \<longleftrightarrow>
     (case found of None \<Rightarrow> \<forall>i<k. \<not> entry_holds name (es ! i) | Some (ino, i) \<Rightarrow> i < k \<and> entry_holds name (es ! i) \<and> ino = sfd_ino (es ! i)) \<and>
     (\<forall>i. emptyslot = Some i \<longrightarrow> i < k \<and> \<not> entry_used (es ! i))"

lemma entries_unique:
  assumes "entries_ok es" and "i < length es" "entry_holds name (es ! i)" and "j < length es" "entry_holds name (es ! j)"
  shows "i = j"
proof (rule ccontr)
  assume "i \<noteq> j"
  have *: False if "a < b" "b < length es" "entry_holds name (es ! a)" "entry_holds name (es ! b)" for a b
  proof -
    have es: "es = take b es @ es ! b # drop (Suc b) es" using that(2) by (rule split_nth)
    have "es ! a \<in> set (take b es)" using that(1,2) by (auto simp: in_set_conv_nth)
    then have "name \<in> entry_name ` {e \<in> set (take b es). entry_used e}" using that(3) by blast
    moreover have "distinct (map entry_name (filter entry_used (take b es @ es ! b # drop (Suc b) es)))"
      using assms(1) es unfolding entries_ok_def by simp
    ultimately show False using that(4) by (auto simp del: append_take_drop_id)
  qed
  show False using \<open>i \<noteq> j\<close> assms *[of i j] *[of j i] by linarith
qed

lemma findname_loop_ok:
  assumes "dir_ok R sv s" and "k + n = dir_slots sv" and "searched (dir_entries sv s) name k found emptyslot"
  shows "\<exists>r emp s'. findname_loop sv name [k..<k + n] found emptyslot s = Some (r, emp, sv, s') \<and> dir_ok R sv s' \<and>
    file_byte sv s' = file_byte sv s \<and> (rd_codes s = [] \<longrightarrow> rd_codes s' = []) \<and> (\<forall>b\<in>R. disk s' (unat b) = disk s (unat b)) \<and>
    (case r of Inl e \<Rightarrow> if e = ENOENT then searched (dir_entries sv s) name (dir_slots sv) None emp else rd_codes s \<noteq> []
      | Inr f \<Rightarrow> searched (dir_entries sv s) name (dir_slots sv) (Some f) emp)"
  using assms
proof (induction n arbitrary: k found emptyslot s)
  case 0
  then show ?case by (cases found) auto
next
  case (Suc n)
  let ?es = "dir_entries sv s"
  have k: "k < dir_slots sv" and next_k: "Suc k + n = dir_slots sv" using Suc.prems(2) by simp_all
  obtain r0 s1 where rd: "sfs_readdir sv k s = Some (r0, sv, s1)" "dir_ok R sv s1" "file_byte sv s1 = file_byte sv s"
    "rd_codes s = [] \<longrightarrow> rd_codes s1 = []" "\<forall>b\<in>R. disk s1 (unat b) = disk s (unat b)"
    and r0: "r0 = Inr (?es ! k) \<or> (\<exists>e. r0 = Inl e \<and> e \<noteq> ENOENT) \<and> rd_codes s \<noteq> []"
    by (rule readdir_ok [OF Suc.prems(1) k])
  have upt: "[k..<k + Suc n] = k # [Suc k..<Suc k + n]" by (simp add: upt_conv_Cons)
  have es: "dir_entries sv s1 = ?es" using same_bytes(1) [OF rd(3) refl] .
  note IH = Suc.IH [OF rd(2) next_k, unfolded es]
  show ?case
  proof (cases r0)
    case (Inl e)
    with r0 rd show ?thesis unfolding upt by (intro exI [of _ "Inl e"] exI [of _ emptyslot] exI [of _ s1]) auto
  next
    case (Inr tsd)
    with r0 have tsd: "tsd = ?es ! k" by auto
    consider "\<not> entry_used tsd" | "entry_holds name tsd" | "entry_used tsd" "\<not> entry_holds name tsd" by blast
    then obtain found' emptyslot' where step: "searched ?es name (Suc k) found' emptyslot'"
      "findname_loop sv name [k..<k + Suc n] found emptyslot s = findname_loop sv name [Suc k..<Suc k + n] found' emptyslot' s1"
    proof cases
      case 1
      then have "searched ?es name (Suc k) found (Some k)"
        using Suc.prems(3) by (auto simp: searched_def tsd less_Suc_eq split: option.splits)
      then show thesis by (rule that) (unfold upt, use 1 in \<open>simp add: rd(1) Inr del: upt_Suc\<close>)
    next
      case 2
      have "found = None"
      proof (rule ccontr)
        assume "found \<noteq> None"
        then obtain i where "i < k" "entry_holds name (?es ! i)" using Suc.prems(3) by (auto simp: searched_def)
        then show False using entries_unique [OF dir_okD(4) [OF Suc.prems(1)], of i name k] 2 k by (simp add: tsd)
      qed
      then have "findname_loop sv name (k # [Suc k..<Suc k + n]) found emptyslot s =
          findname_loop sv name [Suc k..<Suc k + n] (Some (sfd_ino tsd, k)) emptyslot s1"
        using 2 by (simp add: rd(1) Inr del: upt_Suc)
      moreover have "searched ?es name (Suc k) (Some (sfd_ino tsd, k)) emptyslot"
        using Suc.prems(3) 2 by (auto simp: searched_def tsd)
      ultimately show thesis using that unfolding upt by blast
    next
      case 3
      then have "searched ?es name (Suc k) found emptyslot"
        using Suc.prems(3) by (auto simp: searched_def tsd less_Suc_eq split: option.splits)
      then show thesis by (rule that) (unfold upt, use 3 in \<open>simp add: rd(1) Inr del: upt_Suc\<close>)
    qed
    from IH [OF step(1)] rd(3-5) show ?thesis unfolding step(2) by (fastforce split: sum.splits if_splits)
  qed
qed

lemma findname_ok:
  assumes "dir_ok R sv s"
  obtains r emp s' where "sfs_dir_findname sv name s = Some (r, emp, sv, s')" "dir_ok R sv s'"
    "file_byte sv s' = file_byte sv s" "rd_codes s = [] \<longrightarrow> rd_codes s' = []" "\<forall>b\<in>R. disk s' (unat b) = disk s (unat b)"
    "case r of Inl e \<Rightarrow> if e = ENOENT then searched (dir_entries sv s) name (dir_slots sv) None emp else rd_codes s \<noteq> []
      | Inr f \<Rightarrow> searched (dir_entries sv s) name (dir_slots sv) (Some f) emp"
proof -
  have "searched (dir_entries sv s) name 0 None None" by (simp add: searched_def)
  from findname_loop_ok [OF assms _ this, of "dir_slots sv"] show thesis
    by (auto simp: sfs_dir_findname_def dir_okD(5) [OF assms] intro: that)
qed

text \<open>An entry is written over an old one or at the end.\<close>

definition put_entry :: "sfs_direntry list \<Rightarrow> nat \<Rightarrow> sfs_direntry \<Rightarrow> sfs_direntry list" where
  "put_entry es i e = (if i < length es then es[i := e] else es @ [e])"

lemma map_store:
  "map (store f a bs) [a..<a + length bs] = bs"
  "b + n \<le> a \<or> a + length bs \<le> b \<Longrightarrow> map (store f a bs) [b..<b + n] = map f [b..<b + n]"
  by (rule nth_equalityI; simp add: store_def) (auto simp: store_def)

lemma dir_entry_written:
  assumes "length (direntry_bytes sd) = DIRENTRY_SIZE" and "file_byte sv' s' = store (file_byte sv s) (slot * DIRENTRY_SIZE) (direntry_bytes sd)"
  shows "dir_entry sv' s' j = (if j = slot then sd else dir_entry sv s j)"
proof (cases "j = slot")
  case True
  then show ?thesis using map_store(1) [of "file_byte sv s" "slot * DIRENTRY_SIZE" "direntry_bytes sd"] assms by (simp add: dir_entry_def)
next
  case False
  then have "j * 64 + 64 \<le> slot * 64 \<or> slot * 64 + 64 \<le> j * 64" by linarith
  then show ?thesis using False assms by (simp add: dir_entry_def map_store(2))
qed

lemma writedir_ok:
  assumes ok: "dir_ok R sv s" and slot: "slot \<le> dir_slots sv" and len: "length (sfd_name sd) = SFS_NAMELEN"
    and new: "entries_ok (put_entry (dir_entries sv s) slot sd)"
  obtains r sv' s' where "sfs_writedir sv slot sd s = Some (r, sv', s')" "dir_ok R sv' s'" "\<forall>b\<in>R. disk s' (unat b) = disk s (unat b)"
    "dir_entries sv' s' = (if r = None then put_entry (dir_entries sv s) slot sd else dir_entries sv s)"
    "\<forall>e. r = Some e \<and> rd_codes s = [] \<longrightarrow> e = ENOSPC \<or> e = EFBIG"
proof -
  note d = dir_okD [OF ok]
  have slot': "slot \<le> 1144" using slot d(3) by simp
  note o = slot_offset [OF slot']
  have bytes: "length (direntry_bytes sd) = DIRENTRY_SIZE" by (simp add: length_direntry len)
  have fit: "slot * DIRENTRY_SIZE div SFS_BLOCKSIZE < 8388608"
    "slot * DIRENTRY_SIZE mod SFS_BLOCKSIZE + length (direntry_bytes sd) \<le> SFS_BLOCKSIZE" using o(2,3) by (simp_all add: bytes)
  obtain r sv' s' where io: "sfs_metaio sv (int (slot * DIRENTRY_SIZE)) (direntry_bytes sd) UIO_WRITE s = Some (r, direntry_bytes sd, sv', s')"
    "file_ok R sv' s'" "\<forall>b\<in>R. disk s' (unat b) = disk s (unat b)" "sfi_type (sv_i sv') = sfi_type (sv_i sv)"
    and res: "case r of None \<Rightarrow> slot * DIRENTRY_SIZE div SFS_BLOCKSIZE < SFS_NDIRECT + SFS_DBPERIDB \<and>
        file_byte sv' s' = store (file_byte sv s) (slot * DIRENTRY_SIZE) (direntry_bytes sd) \<and>
        sfi_size (sv_i sv') = (if unat (sfi_size (sv_i sv)) < slot * DIRENTRY_SIZE + length (direntry_bytes sd)
          then word_of_nat (slot * DIRENTRY_SIZE + length (direntry_bytes sd)) else sfi_size (sv_i sv))
      | Some e \<Rightarrow> file_byte sv' s' = file_byte sv s \<and> sfi_size (sv_i sv') = sfi_size (sv_i sv) \<and> (rd_codes s = [] \<longrightarrow> e = ENOSPC \<or> e = EFBIG)"
    by (rule metaio_write_ok [OF d(1) fit])
  have run: "sfs_writedir sv slot sd s = Some (r, sv', s')" unfolding sfs_writedir_def Let_def o(1) io(1) by simp
  show thesis
  proof (cases r)
    case (Some e)
    with res have same: "dir_entries sv' s' = dir_entries sv s" and size: "sfi_size (sv_i sv') = sfi_size (sv_i sv)"
      by (auto intro: same_bytes)
    have "dir_ok R sv' s'" using ok io(2,4) same size by (simp add: dir_ok_def)
    then show thesis using run io(3) same res Some by (intro that [of r sv' s']) simp_all
  next
    case None
    let ?m = "(if slot < dir_slots sv then dir_slots sv else Suc slot) * DIRENTRY_SIZE"
    have wr: "file_byte sv' s' = store (file_byte sv s) (slot * DIRENTRY_SIZE) (direntry_bytes sd)"
      and blk: "slot div 8 < 143" using res None div_mult_mult2 [of 64 slot 8] by simp_all
    from blk have below: "slot < 1144" by linarith
    have size: "unat (sfi_size (sv_i sv')) = ?m"
    proof (cases "slot < dir_slots sv")
      case True
      then have "\<not> unat (sfi_size (sv_i sv)) < slot * 64 + 64" using d(2) by linarith
      then show ?thesis using res None True d(2) by (simp add: bytes)
    next
      case False
      then have "unat (sfi_size (sv_i sv)) < slot * 64 + 64" using d(2) slot by linarith
      then have "sfi_size (sv_i sv') = word_of_nat (slot * 64 + 64)" using res None by (simp add: bytes)
      moreover have "unat (word_of_nat (slot * 64 + 64) :: u32) = slot * 64 + 64" by (rule unat_word_of_nat_32) (use below in simp)
      ultimately show ?thesis using False by simp
    qed
    have slots: "dir_slots sv' = (if slot < dir_slots sv then dir_slots sv else Suc (dir_slots sv))" using slot by (simp add: size)
    have es: "dir_entries sv' s' = put_entry (dir_entries sv s) slot sd"
      by (rule nth_equalityI)
        (use slot in \<open>auto simp: put_entry_def slots nth_dir_entries dir_entry_written [OF bytes wr] nth_list_update nth_append less_Suc_eq\<close>)
    have "?m \<le> 143 * 512" using below d(3) by simp
    then have "dir_ok R sv' s'" using ok io(2,4) new es size by (simp add: dir_ok_def)
    then show thesis using run io(3) es None by (intro that [of r sv' s']) simp_all
  qed
qed

section \<open>A directory is a map\<close>

lemma findname_is_lookup:
  assumes ok: "dir_ok R sv s"
  obtains r emp s' where "sfs_dir_findname sv name s = Some (r, emp, sv, s')" "dir_ok R sv s'" "file_byte sv s' = file_byte sv s"
    "dir_map sv s' = dir_map sv s" "\<forall>b\<in>R. disk s' (unat b) = disk s (unat b)" "rd_codes s = [] \<longrightarrow> rd_codes s' = []"
    "case r of Inl e \<Rightarrow> if e = ENOENT then dir_map sv s name = None \<and> (\<forall>i. emp = Some i \<longrightarrow> i < dir_slots sv \<and> \<not> entry_used (dir_entries sv s ! i))
        else rd_codes s \<noteq> []
      | Inr (ino, i) \<Rightarrow> dir_map sv s name = Some ino \<and> i < dir_slots sv \<and> entry_holds name (dir_entries sv s ! i)"
proof -
  obtain r emp s' where f: "sfs_dir_findname sv name s = Some (r, emp, sv, s')" "dir_ok R sv s'"
    "file_byte sv s' = file_byte sv s" "rd_codes s = [] \<longrightarrow> rd_codes s' = []" "\<forall>b\<in>R. disk s' (unat b) = disk s (unat b)"
    and res: "case r of Inl e \<Rightarrow> if e = ENOENT then searched (dir_entries sv s) name (dir_slots sv) None emp else rd_codes s \<noteq> []
      | Inr f \<Rightarrow> searched (dir_entries sv s) name (dir_slots sv) (Some f) emp" by (rule findname_ok [OF ok])
  note es = dir_okD(4) [OF ok]
  have "case r of Inl e \<Rightarrow> if e = ENOENT then dir_map sv s name = None \<and> (\<forall>i. emp = Some i \<longrightarrow> i < dir_slots sv \<and> \<not> entry_used (dir_entries sv s ! i))
        else rd_codes s \<noteq> []
      | Inr (ino, i) \<Rightarrow> dir_map sv s name = Some ino \<and> i < dir_slots sv \<and> entry_holds name (dir_entries sv s ! i)"
  proof (cases r)
    case (Inl e)
    then show ?thesis using res by (auto simp: searched_def dir_map_def entries_map_None in_set_conv_nth split: if_splits)
  next
    case (Inr f)
    then show ?thesis using res entries_map_Some [OF es, of "snd f" name] by (cases f) (auto simp: searched_def dir_map_def)
  qed
  then show thesis using f same_bytes(2) [OF f(3) refl] by (intro that [of r emp s']) simp_all
qed

lemma entry_name_new:
  assumes "length name < SFS_NAMELEN" and "0 \<notin> set name"
  shows "entry_name \<lparr>sfd_ino = ino, sfd_name = name @ replicate n 0\<rparr> = name"
proof -
  have "takeWhile (\<lambda>c. c \<noteq> 0) (name @ replicate k 0) = name" for k
    using assms(2) by (cases k) (auto simp: takeWhile_append2 takeWhile_eq_all_conv takeWhile_tail)
  moreover have "take (SFS_NAMELEN - 1) (name @ replicate n 0) = name @ replicate (min (SFS_NAMELEN - 1 - length name) n) (0::u8)"
    using assms(1) by simp
  ultimately show ?thesis by (simp add: entry_name_def)
qed

lemma link_is_update:
  assumes ok: "dir_ok R sv s" and name: "0 \<notin> set name" and ino: "ino \<noteq> SFS_NOINO"
  obtains r sv' s' where "sfs_dir_link sv name ino s = Some (r, sv', s')" "dir_ok R sv' s'" "\<forall>b\<in>R. disk s' (unat b) = disk s (unat b)"
    "case r of Inr slot \<Rightarrow> dir_map sv s name = None \<and> dir_map sv' s' = (dir_map sv s)(name \<mapsto> ino)
     | Inl e \<Rightarrow> dir_map sv' s' = dir_map sv s \<and> (rd_codes s = [] \<longrightarrow>
         (if dir_map sv s name \<noteq> None then e = EEXIST else if length name \<ge> SFS_NAMELEN then e = ENAMETOOLONG else e = ENOSPC \<or> e = EFBIG))"
proof -
  obtain r emp s1 where f: "sfs_dir_findname sv name s = Some (r, emp, sv, s1)" "dir_ok R sv s1" "file_byte sv s1 = file_byte sv s"
    "dir_map sv s1 = dir_map sv s" "\<forall>b\<in>R. disk s1 (unat b) = disk s (unat b)" "rd_codes s = [] \<longrightarrow> rd_codes s1 = []"
    and res: "case r of Inl e \<Rightarrow> if e = ENOENT then dir_map sv s name = None \<and> (\<forall>i. emp = Some i \<longrightarrow> i < dir_slots sv \<and> \<not> entry_used (dir_entries sv s ! i))
        else rd_codes s \<noteq> []
      | Inr (ino, i) \<Rightarrow> dir_map sv s name = Some ino \<and> i < dir_slots sv \<and> entry_holds name (dir_entries sv s ! i)"
    by (rule findname_is_lookup [OF ok])
  have es: "dir_entries sv s1 = dir_entries sv s" using same_bytes(1) [OF f(3) refl] .
  show thesis
  proof (cases r)
    case (Inr x)
    then show thesis using f res by (intro that [of "Inl EEXIST" sv s1]) (auto simp: sfs_dir_link_def)
  next
    case (Inl e)
    consider "e \<noteq> ENOENT" | "e = ENOENT" "length name \<ge> SFS_NAMELEN" | "e = ENOENT" "length name < SFS_NAMELEN" by linarith
    then show thesis
    proof cases
      case 1
      then show thesis using f res Inl by (intro that [of "Inl e" sv s1]) (simp_all add: sfs_dir_link_def)
    next
      case 2
      then show thesis using f res Inl by (intro that [of "Inl ENAMETOOLONG" sv s1]) (simp_all add: sfs_dir_link_def)
    next
      case 3
      let ?slot = "case emp of Some i \<Rightarrow> i | None \<Rightarrow> dir_slots sv"
        and ?sd = "\<lparr>sfd_ino = ino, sfd_name = name @ replicate (SFS_NAMELEN - length name) 0\<rparr>"
      have free: "dir_map sv s name = None" and slot: "?slot \<le> dir_slots sv"
        and put: "?slot < length (dir_entries sv s) \<and> \<not> entry_used (dir_entries sv s ! ?slot) \<and>
            put_entry (dir_entries sv s) ?slot ?sd = (dir_entries sv s)[?slot := ?sd] \<or> put_entry (dir_entries sv s) ?slot ?sd = dir_entries sv s @ [?sd]"
        using res Inl 3 by (auto simp: put_entry_def split: option.split)
      have nm: "entry_name ?sd = name" using 3(2) name by (rule entry_name_new)
      have "entries_map (dir_entries sv s) (entry_name ?sd) = None" using free unfolding nm by (simp add: dir_map_def)
      note add = entries_add [OF dir_okD(4) [OF ok] this _ put, simplified, OF ino]
      have len: "length (sfd_name ?sd) = SFS_NAMELEN" using 3(2) by simp
      have ok': "entries_ok (put_entry (dir_entries sv s1) ?slot ?sd)" unfolding es by (rule add(1))
      obtain r' sv' s' where w: "sfs_writedir sv ?slot ?sd s1 = Some (r', sv', s')" "dir_ok R sv' s'"
        "\<forall>b\<in>R. disk s' (unat b) = disk s1 (unat b)"
        "dir_entries sv' s' = (if r' = None then put_entry (dir_entries sv s1) ?slot ?sd else dir_entries sv s1)"
        "\<forall>e. r' = Some e \<and> rd_codes s1 = [] \<longrightarrow> e = ENOSPC \<or> e = EFBIG" by (rule writedir_ok [OF f(2) slot len ok'])
      have run: "sfs_dir_link sv name ino s = Some (case r' of Some e \<Rightarrow> Inl e | None \<Rightarrow> Inr ?slot, sv', s')"
        using 3 by (simp add: sfs_dir_link_def f(1) Inl dir_okD(5) [OF ok] w(1) Let_def)
      show thesis
      proof (cases r')
        case None
        then have "dir_map sv' s' = (dir_map sv s)(name \<mapsto> ino)" using w(4) add(2) nm unfolding es by (simp add: dir_map_def)
        then show thesis using None run w(2,3) f(5) free by (intro that [of "Inr ?slot" sv' s']) simp_all
      next
        case (Some e')
        then have "dir_map sv' s' = dir_map sv s" using w(4) es by (simp add: dir_map_def)
        then show thesis using Some run w(2,3,5) f(5,6) free 3 by (intro that [of "Inl e'" sv' s']) simp_all
      qed
    qed
  qed
qed

lemma unlink_is_removal:
  assumes ok: "dir_ok R sv s" and slot: "slot < dir_slots sv" "entry_holds name (dir_entries sv s ! slot)"
  obtains r sv' s' where "sfs_dir_unlink sv slot s = Some (r, sv', s')" "dir_ok R sv' s'" "\<forall>b\<in>R. disk s' (unat b) = disk s (unat b)"
    "dir_map sv' s' = (if r = None then (dir_map sv s)(name := None) else dir_map sv s)"
proof -
  let ?sd = "\<lparr>sfd_ino = SFS_NOINO, sfd_name = replicate SFS_NAMELEN 0\<rparr>"
  have put: "put_entry (dir_entries sv s) slot ?sd = (dir_entries sv s)[slot := ?sd]" using slot(1) by (simp add: put_entry_def)
  have "slot < length (dir_entries sv s)" "\<not> entry_used ?sd" using slot(1) by simp_all
  note rem = entries_remove [OF dir_okD(4) [OF ok] this(1) slot(2) this(2)]
  have new: "entries_ok (put_entry (dir_entries sv s) slot ?sd)" unfolding put by (rule rem(1))
  have len: "length (sfd_name ?sd) = SFS_NAMELEN" "slot \<le> dir_slots sv" using slot(1) by simp_all
  obtain r sv' s' where w: "sfs_writedir sv slot ?sd s = Some (r, sv', s')" "dir_ok R sv' s'" "\<forall>b\<in>R. disk s' (unat b) = disk s (unat b)"
    "dir_entries sv' s' = (if r = None then put_entry (dir_entries sv s) slot ?sd else dir_entries sv s)"
    by (rule writedir_ok [OF ok len(2,1) new])
  have "dir_map sv' s' = (if r = None then (dir_map sv s)(name := None) else dir_map sv s)"
    using w(4) rem(2) unfolding put by (simp add: dir_map_def)
  then show thesis using w by (intro that [of r sv' s']) (simp_all add: sfs_dir_unlink_def)
qed

end
