(* ===== verification/SfsInode.thy ===== *)
theory SfsInode
  imports SfsDir Vnode
begin

text \<open>
  Inodes and the vnodes that hold them: \<open>kern/fs/sfs/sfs_inode.c\<close>, and \<open>sfs_lookonce\<close> of \<open>sfs_dir.c\<close>. A mounted
  volume is its blocks (\<open>sfs_fs\<close>), the rest of its superblock, the loaded vnodes at their addresses, split into the part of the file system
  and the abstract vnode with its reference count, and the table of the addresses. An inode is
  one block on the disk, as words most significant byte first. The first \<open>kmalloc\<close> of an operation gives the
  address \<open>km\<close>, if any, and \<open>room\<close> says whether the table can grow.
\<close>

section \<open>State\<close>

record sfs_state =
  sfs_absfs :: nat
  sb_magic :: u32
  sb_volname :: "u8 list"
  sb_reserved :: "u32 list"
  sfs_vol :: sfs_fs
  sfs_svs :: "nat \<rightharpoonup> sfs_vnode"
  sfs_absvns :: vnodes
  sfs_vnodes :: "nat list"

text \<open>A call on the vnode at \<open>p\<close> and the blocks.\<close>

definition on_sv :: "nat \<Rightarrow> (sfs_vnode \<Rightarrow> sfs_fs \<Rightarrow> ('a \<times> sfs_vnode \<times> sfs_fs) option) \<Rightarrow> sfs_state \<Rightarrow> ('a \<times> sfs_state) option" where
  "on_sv p f st = do {
     sv \<leftarrow> sfs_svs st p;
     (r, sv, s) \<leftarrow> f sv (sfs_vol st);
     Some (r, st\<lparr>sfs_svs := (sfs_svs st)(p \<mapsto> sv), sfs_vol := s\<rparr>) }"

section \<open>Inodes on the disk\<close>

abbreviation SFS_NWASTE :: nat where "SFS_NWASTE \<equiv> 110"

definition dinode_bytes :: "sfs_dinode \<Rightarrow> block" where
  "dinode_bytes d = bytes_of ([sfi_size d, push_bit 16 (ucast (sfi_type d)) OR ucast (sfi_linkcount d)] @
     sfi_direct d @ [sfi_indirect d] @ sfi_waste d)"

definition bytes_dinode :: "block \<Rightarrow> sfs_dinode" where
  "bytes_dinode b = (let ws = words_of b in
     \<lparr>sfi_size = ws ! 0, sfi_type = ucast (drop_bit 16 (ws ! 1)), sfi_linkcount = ucast (ws ! 1),
      sfi_direct = take SFS_NDIRECT (drop 2 ws), sfi_indirect = ws ! (2 + SFS_NDIRECT), sfi_waste = drop (3 + SFS_NDIRECT) ws\<rparr>)"

definition sfs_sync_inode :: "sfs_vnode \<Rightarrow> sfs_fs \<Rightarrow> (errno option \<times> sfs_vnode \<times> sfs_fs) option" where
  "sfs_sync_inode sv s =
     (if sv_dirty sv then do {
        (result, s) \<leftarrow> sfs_writeblock (sv_ino sv) (dinode_bytes (sv_i sv)) s;
        (case result of
           Some e \<Rightarrow> Some (Some e, sv, s)
         | None \<Rightarrow> Some (None, sv\<lparr>sv_dirty := False\<rparr>, s)) }
      else Some (None, sv, s))"

section \<open>Loading\<close>

text \<open>The search of the table.\<close>

fun find_loaded :: "u32 \<Rightarrow> u16 \<Rightarrow> nat list \<Rightarrow> sfs_state \<Rightarrow> nat option option" where
  "find_loaded ino forcetype [] st = Some None"
| "find_loaded ino forcetype (v # vs) st = do {
     sv \<leftarrow> sfs_svs st v;
     used \<leftarrow> sfs_bused (sv_ino sv) (sfs_vol st);
     kassert used;
     if sv_ino sv = ino then do {
       kassert (forcetype = SFS_TYPE_INVAL);
       Some (Some v) }
     else find_loaded ino forcetype vs st }"

text \<open>What follows the read of the inode's block \<open>b\<close>.\<close>

definition load_inode :: "nat \<Rightarrow> bool \<Rightarrow> u32 \<Rightarrow> u16 \<Rightarrow> block \<Rightarrow> sfs_state \<Rightarrow> ((errno + nat) \<times> sfs_state) option" where
  "load_inode sv room ino forcetype b st = do {
     let i = bytes_dinode b;
     kassert (forcetype \<noteq> SFS_TYPE_INVAL \<longrightarrow> sfi_type i = SFS_TYPE_INVAL);
     let dirty = (forcetype \<noteq> SFS_TYPE_INVAL);
     let i = (if dirty then i\<lparr>sfi_type := forcetype\<rparr> else i);
     kassert (sfi_type i = SFS_TYPE_FILE \<or> sfi_type i = SFS_TYPE_DIR);
     vs \<leftarrow> vnode_init sv True (Some (sfs_absfs st)) (sfs_absvns st);
     if \<not> room then do {
       vs \<leftarrow> vnode_cleanup sv vs;
       Some (Inl ENOMEM, st\<lparr>sfs_absvns := vs(sv := None)\<rparr>) }
     else Some (Inr sv, st\<lparr>sfs_svs := (sfs_svs st)(sv \<mapsto> \<lparr>sv_i = i, sv_ino = ino, sv_dirty = dirty\<rparr>),
       sfs_absvns := vs, sfs_vnodes := sfs_vnodes st @ [sv]\<rparr>) }"

definition sfs_loadvnode :: "nat option \<Rightarrow> bool \<Rightarrow> u32 \<Rightarrow> u16 \<Rightarrow> sfs_state \<Rightarrow> ((errno + nat) \<times> sfs_state) option" where
  "sfs_loadvnode km room ino forcetype st = do {
     found \<leftarrow> find_loaded ino forcetype (sfs_vnodes st) st;
     (case found of
        Some v \<Rightarrow> do {
          vs \<leftarrow> vnode_incref v (sfs_absvns st);
          Some (Inr v, st\<lparr>sfs_absvns := vs\<rparr>) }
      | None \<Rightarrow>
          (case km of
             None \<Rightarrow> Some (Inl ENOMEM, st)
           | Some sv \<Rightarrow> do {
               used \<leftarrow> sfs_bused ino (sfs_vol st);
               kassert used;
               (result, s) \<leftarrow> sfs_readblock ino (sfs_vol st);
               let st = st\<lparr>sfs_vol := s\<rparr>;
               (case result of
                  Inl e \<Rightarrow> Some (Inl e, st)
                | Inr b \<Rightarrow> load_inode sv room ino forcetype b st) })) }"

definition sfs_makeobj :: "nat option \<Rightarrow> bool \<Rightarrow> u16 \<Rightarrow> sfs_state \<Rightarrow> ((errno + nat) \<times> sfs_state) option" where
  "sfs_makeobj km room type st = do {
     (result, s) \<leftarrow> sfs_balloc (sfs_vol st);
     let st = st\<lparr>sfs_vol := s\<rparr>;
     (case result of
        Inl e \<Rightarrow> Some (Inl e, st)
      | Inr ino \<Rightarrow> do {
          (result, st) \<leftarrow> sfs_loadvnode km room ino type st;
          (case result of
             Inl e \<Rightarrow> do {
               s \<leftarrow> sfs_bfree ino (sfs_vol st);
               Some (Inl e, st\<lparr>sfs_vol := s\<rparr>) }
           | Inr sv \<Rightarrow> Some (Inr sv, st)) }) }"

definition sfs_getroot :: "nat option \<Rightarrow> bool \<Rightarrow> sfs_state \<Rightarrow> ((errno + nat) \<times> sfs_state) option" where
  "sfs_getroot km room st = do {
     (result, st) \<leftarrow> sfs_loadvnode km room SFS_ROOTDIR_INO SFS_TYPE_INVAL st;
     (case result of
        Inl e \<Rightarrow> Some (Inl e, st)
      | Inr v \<Rightarrow> do {
          sv \<leftarrow> sfs_svs st v;
          if sfi_type (sv_i sv) \<noteq> SFS_TYPE_DIR then Some (Inl EINVAL, st)
          else Some (Inr v, st) }) }"

section \<open>Reclaiming\<close>

text \<open>From the check of the reference count on.\<close>

definition reclaim_last :: "nat \<Rightarrow> sfs_state \<Rightarrow> (errno option \<times> sfs_state) option" where
  "reclaim_last v st = do {
     sv \<leftarrow> sfs_svs st v;
     (result, st) \<leftarrow> (if sfi_linkcount (sv_i sv) = 0 then on_sv v (\<lambda>sv. sfs_itrunc sv 0) st else Some (None, st));
     (case result of
        Some e \<Rightarrow> Some (Some e, st)
      | None \<Rightarrow> do {
          (result, st) \<leftarrow> on_sv v sfs_sync_inode st;
          (case result of
             Some e \<Rightarrow> Some (Some e, st)
           | None \<Rightarrow> do {
               s \<leftarrow> (if sfi_linkcount (sv_i sv) = 0 then sfs_bfree (sv_ino sv) (sfs_vol st) else Some (sfs_vol st));
               kassert (v \<in> set (sfs_vnodes st));
               vs \<leftarrow> vnode_cleanup v (sfs_absvns st);
               Some (None, st\<lparr>sfs_vol := s, sfs_vnodes := remove1 v (sfs_vnodes st), sfs_absvns := vs(v := None),
                 sfs_svs := (sfs_svs st)(v := None)\<rparr>) }) }) }"

definition sfs_reclaim :: "nat \<Rightarrow> sfs_state \<Rightarrow> (errno option \<times> sfs_state) option" where
  "sfs_reclaim v st = do {
     x \<leftarrow> sfs_absvns st v;
     if vn_refcount x \<noteq> 1 then do {
       kassert (vn_refcount x > 1);
       Some (Some EBUSY, st\<lparr>sfs_absvns := (sfs_absvns st)(v \<mapsto> x\<lparr>vn_refcount := vn_refcount x - 1\<rparr>)\<rparr>) }
     else reclaim_last v st }"

text \<open>\<open>VOP_DECREF\<close> on a vnode of the volume.\<close>

definition sfs_decref :: "nat \<Rightarrow> sfs_state \<Rightarrow> sfs_state option" where
  "sfs_decref v st = do {
     (destroy, vs) \<leftarrow> vnode_decref_count v (sfs_absvns st);
     let st = st\<lparr>sfs_absvns := vs\<rparr>;
     if destroy then do { (result, st) \<leftarrow> sfs_reclaim v st; Some st }
     else Some st }"

section \<open>Lookup\<close>

definition findname_at :: "nat \<Rightarrow> cstring \<Rightarrow> sfs_state \<Rightarrow> ((errno + u32 \<times> nat) \<times> sfs_state) option" where
  "findname_at dir name = on_sv dir (\<lambda>sv s. do {
     (result, emptyslot, sv, s) \<leftarrow> sfs_dir_findname sv name s;
     Some (result, sv, s) })"

definition sfs_lookonce :: "nat option \<Rightarrow> bool \<Rightarrow> nat \<Rightarrow> cstring \<Rightarrow> sfs_state \<Rightarrow> ((errno + nat \<times> nat) \<times> sfs_state) option" where
  "sfs_lookonce km room dir name st = do {
     (result, st) \<leftarrow> findname_at dir name st;
     (case result of
        Inl e \<Rightarrow> Some (Inl e, st)
      | Inr (ino, slot) \<Rightarrow> do {
          (result, st) \<leftarrow> sfs_loadvnode km room ino SFS_TYPE_INVAL st;
          (case result of
             Inl e \<Rightarrow> Some (Inl e, st)
           | Inr v \<Rightarrow> do {
               sv \<leftarrow> sfs_svs st v;
               kassert (sfi_linkcount (sv_i sv) \<noteq> 0);
               Some (Inr (v, slot), st) }) }) }"

end
