(* ===== verification/SfsVolume.thy ===== *)
theory SfsVolume
  imports SfsInode
begin

text \<open>
  A volume as a table of inodes: what every operation on one file keeps of the others, and
  that loading, writing back and reclaiming vnodes does not show in the table.
\<close>

section \<open>Edits of an inode\<close>

text \<open>What all operations on blocks leave of an inode; a change marks it dirty.\<close>

definition edited :: "sfs_vnode \<Rightarrow> sfs_vnode \<Rightarrow> bool" where
  "edited sv sv' \<longleftrightarrow> sv_ino sv' = sv_ino sv \<and> sfi_type (sv_i sv') = sfi_type (sv_i sv) \<and>
     sfi_linkcount (sv_i sv') = sfi_linkcount (sv_i sv) \<and> sfi_waste (sv_i sv') = sfi_waste (sv_i sv) \<and> (sv' = sv \<or> sv_dirty sv')"

lemma edited_refl [simp]: "edited sv sv"
  by (simp add: edited_def)

lemma edited_trans: "edited sv sv1 \<Longrightarrow> edited sv1 sv2 \<Longrightarrow> edited sv sv2"
  by (auto simp: edited_def)

lemma edited_set [simp]: "edited sv (set_direct i b sv)" "edited sv (set_indirect b sv)" "edited sv (set_size n sv)" "edited sv (trunc_done len sv)"
  by (simp_all add: edited_def set_direct_def set_indirect_def set_size_def trunc_done_def)

lemma edited_steps:
  "edited sv a \<Longrightarrow> edited sv (set_indirect b a)" "edited sv a \<Longrightarrow> edited sv (trunc_done len a)" "edited (set_direct i b sv) a \<Longrightarrow> edited sv a"
  by (erule edited_trans, simp)+ (rule edited_trans [OF edited_set(1)])

lemma bmap_edited:
  assumes "sfs_bmap sv fb doalloc s = Some (r, sv', s')"
  shows "edited sv sv'"
proof -
  have "sv' = sv \<or> (\<exists>b. sv' = set_direct (unat fb) b sv) \<or> (\<exists>b. sv' = set_indirect b sv)"
    using assms by (auto simp: sfs_bmap_def bmap_done_def Let_def bind_eq_Some_conv case_eq_Some
        dest!: bmap_indirect_vnode split: if_split_asm)
  then show ?thesis by auto
qed

lemma metaio_edited: "sfs_metaio sv pos data rw s = Some (r, d, sv', s') \<Longrightarrow> edited sv sv'"
  by (auto simp: sfs_metaio_def Let_def bind_eq_Some_conv case_eq_Some dest!: bmap_edited split: if_split_asm intro: edited_trans)

lemma partialio_edited: "sfs_partialio cur sv u k n s = Some (r, sv', u', s') \<Longrightarrow> edited sv sv'"
  by (auto simp: sfs_partialio_def Let_def bind_eq_Some_conv case_eq_Some dest!: bmap_edited split: if_split_asm)

lemma blockio_edited: "sfs_blockio cur sv u s = Some (r, sv', u', s') \<Longrightarrow> edited sv sv'"
  by (auto simp: sfs_blockio_def Let_def bind_eq_Some_conv case_eq_Some dest!: bmap_edited split: if_split_asm)

lemma io_blocks_edited: "io_blocks cur n sv u s = Some (r, sv', u', s') \<Longrightarrow> edited sv sv'"
  by (induction n arbitrary: sv u s) (auto simp: bind_eq_Some_conv case_eq_Some dest!: blockio_edited intro: edited_trans)

lemma io_transfer_edited: "io_transfer cur sv u s = Some (r, sv', u', s') \<Longrightarrow> edited sv sv'"
  by (auto simp: io_transfer_def io_aligned_def Let_def bind_eq_Some_conv case_eq_Some dest!: partialio_edited io_blocks_edited
      split: if_split_asm intro: edited_trans)

lemma sfs_io_edited: "sfs_io cur sv u s = Some (r, sv', u', s') \<Longrightarrow> edited sv sv'"
  by (auto simp: sfs_io_def Let_def bind_eq_Some_conv case_eq_Some dest!: io_transfer_edited split: if_split_asm intro: edited_trans)

lemma trunc_direct_edited: "trunc_direct B is sv s = Some (sv', s') \<Longrightarrow> edited sv sv'"
  by (induction "is" arbitrary: sv s) (auto simp: Let_def bind_eq_Some_conv split: if_split_asm intro: edited_steps(3))

lemma itrunc_edited: "sfs_itrunc sv len s = Some (r, sv', s') \<Longrightarrow> edited sv sv'"
  by (auto simp: sfs_itrunc_def Let_def bind_eq_Some_conv case_eq_Some dest!: trunc_direct_edited split: if_split_asm
      intro: edited_steps)

lemma readdir_edited: "sfs_readdir sv i s = Some (r, sv', s') \<Longrightarrow> edited sv sv'"
  by (auto simp: sfs_readdir_def Let_def bind_eq_Some_conv dest: metaio_edited)

lemma writedir_edited: "sfs_writedir sv i sd s = Some (r, sv', s') \<Longrightarrow> edited sv sv'"
  by (auto simp: sfs_writedir_def Let_def bind_eq_Some_conv dest: metaio_edited)

lemma findname_edited: "sfs_dir_findname sv name s = Some (r, emp, sv', s') \<Longrightarrow> edited sv sv'"
proof -
  have "findname_loop sv name is found es s = Some (r, emp, sv', s') \<Longrightarrow> edited sv sv'" for "is" found es
    by (induction "is" arbitrary: sv found es s)
      (auto simp: bind_eq_Some_conv case_eq_Some dest!: readdir_edited split: if_split_asm intro: edited_trans)
  then show "sfs_dir_findname sv name s = Some (r, emp, sv', s') \<Longrightarrow> edited sv sv'"
    by (auto simp: sfs_dir_findname_def bind_eq_Some_conv)
qed

lemma link_edited: "sfs_dir_link sv name ino s = Some (r, sv', s') \<Longrightarrow> edited sv sv'"
  by (auto simp: sfs_dir_link_def Let_def bind_eq_Some_conv case_eq_Some dest!: findname_edited writedir_edited split: if_split_asm intro: edited_trans)

lemma unlink_edited: "sfs_dir_unlink sv slot s = Some (r, sv', s') \<Longrightarrow> edited sv sv'"
  by (auto simp: sfs_dir_unlink_def dest: writedir_edited)

section \<open>Inodes on the disk\<close>

definition dinode_wf :: "sfs_dinode \<Rightarrow> bool" where
  "dinode_wf d \<longleftrightarrow> length (sfi_direct d) = SFS_NDIRECT \<and> length (sfi_waste d) = SFS_NWASTE"

lemma halves:
  "ucast (drop_bit 16 (push_bit 16 (ucast (t::u16)) OR ucast (l::u16) :: u32)) = t"
  "ucast (push_bit 16 (ucast (t::u16)) OR ucast (l::u16) :: u32) = l"
  by (rule bit_word_eqI; auto simp: bit_simps dest: bit_imp_le_length)+

lemma length_dinode_bytes: "dinode_wf d \<Longrightarrow> length (dinode_bytes d) = SFS_BLOCKSIZE"
  by (simp add: dinode_bytes_def dinode_wf_def)

lemma dinode_round: "dinode_wf d \<Longrightarrow> bytes_dinode (dinode_bytes d) = d"
  by (simp add: dinode_bytes_def bytes_dinode_def dinode_wf_def Let_def halves [simplified] nth_append nth_Cons')

section \<open>The volume\<close>

type_synonym itable = "u32 \<rightharpoonup> sfs_dinode"

definition file_at :: "u32 \<Rightarrow> sfs_dinode \<Rightarrow> sfs_vnode" where
  "file_at i d = \<lparr>sv_i = d, sv_ino = i, sv_dirty = False\<rparr>"

definition blocks_of :: "sfs_vnode \<Rightarrow> sfs_fs \<Rightarrow> u32 set" where
  "blocks_of sv s = {b. b \<noteq> 0 \<and> (sfi_indirect (sv_i sv) = b \<or> (\<exists>j. file_map sv s j = b))}"

text \<open>The blocks in use for something else.\<close>

definition rest :: "sfs_vnode \<Rightarrow> sfs_fs \<Rightarrow> u32 set" where
  "rest sv s = {b. in_use s b \<and> b \<notin> blocks_of sv s}"

text \<open>Every inode lies in a block in use on the volume and is sound; no block is used twice.\<close>

definition vol_ok :: "itable \<Rightarrow> sfs_fs \<Rightarrow> bool" where
  "vol_ok f s \<longleftrightarrow> fs_ok s \<and>
     (\<forall>i d. f i = Some d \<longrightarrow> i \<noteq> 0 \<and> in_use s i \<and> unat i < unat (sb_nblocks s) \<and> dinode_wf d \<and>
        (sfi_type d = SFS_TYPE_FILE \<or> sfi_type d = SFS_TYPE_DIR) \<and> file_ok {} (file_at i d) s) \<and>
     (\<forall>i d j. f i = Some d \<longrightarrow> f j \<noteq> None \<longrightarrow> j \<notin> blocks_of (file_at i d) s) \<and>
     (\<forall>i d j e. f i = Some d \<longrightarrow> f j = Some e \<longrightarrow> i \<noteq> j \<longrightarrow> blocks_of (file_at i d) s \<inter> blocks_of (file_at j e) s = {})"

lemma file_at_sel [simp]: "sv_i (file_at i d) = d" "sv_ino (file_at i d) = i"
  by (simp_all add: file_at_def)

lemma same_inode:
  assumes "sv_i sv = sv_i sv'"
  shows "file_map sv s = file_map sv' s" and "file_byte sv s = file_byte sv' s" and "file_ok R sv s = file_ok R sv' s"
    and "blocks_of sv s = blocks_of sv' s" and "rest sv s = rest sv' s"
proof -
  show m: "file_map sv s = file_map sv' s" by (simp add: file_map_def assms fun_eq_iff)
  then show "file_byte sv s = file_byte sv' s" "file_ok R sv s = file_ok R sv' s"
    and b: "blocks_of sv s = blocks_of sv' s" by (simp_all add: file_byte_def file_ok_def blocks_of_def assms fun_eq_iff)
  then show "rest sv s = rest sv' s" by (simp add: rest_def)
qed

lemma vol_okD:
  assumes "vol_ok f s"
  shows "fs_ok s" and "f i = Some d \<Longrightarrow> i \<noteq> 0" and "f i = Some d \<Longrightarrow> in_use s i" and "f i = Some d \<Longrightarrow> unat i < unat (sb_nblocks s)"
    and "f i = Some d \<Longrightarrow> dinode_wf d" and "f i = Some d \<Longrightarrow> sfi_type d = SFS_TYPE_FILE \<or> sfi_type d = SFS_TYPE_DIR"
    and "f i = Some d \<Longrightarrow> file_ok {} (file_at i d) s" and "f i = Some d \<Longrightarrow> f j = Some e \<Longrightarrow> j \<notin> blocks_of (file_at i d) s"
    and "f i = Some d \<Longrightarrow> f j = Some e \<Longrightarrow> i \<noteq> j \<Longrightarrow> blocks_of (file_at i d) s \<inter> blocks_of (file_at j e) s = {}"
  using assms unfolding vol_ok_def by blast+

lemma blocks_owned: "file_ok R sv s \<Longrightarrow> b \<in> blocks_of sv s \<Longrightarrow> owned R s b"
  using file_okD(4,6) by (fastforce simp: blocks_of_def)

lemma file_ok_weaken: "file_ok R sv s \<Longrightarrow> file_ok {} sv s"
  by (auto simp: file_ok_def owned_def)

lemma file_ok_rest: "file_ok R sv s \<Longrightarrow> file_ok (rest sv s) sv s"
proof -
  assume ok: "file_ok R sv s"
  have "owned (rest sv s) s b" if "b \<in> blocks_of sv s" for b
    using blocks_owned [OF ok that] that by (simp add: owned_def rest_def)
  with ok show ?thesis by (auto simp: file_ok_def rest_def blocks_of_def)
qed

text \<open>A file whose blocks have not been touched.\<close>

lemma untouched:
  assumes ok: "file_ok R sv s" and fs: "fs_ok s'" and nb: "sb_nblocks s' = sb_nblocks s"
    and keep: "\<And>b. b \<in> blocks_of sv s \<Longrightarrow> in_use s' b \<and> disk s' (unat b) = disk s (unat b)"
  shows "file_map sv s' = file_map sv s" and "file_byte sv s' = file_byte sv s" and "blocks_of sv s' = blocks_of sv s" and "file_ok {} sv s'"
proof -
  have "idwords (sfi_indirect (sv_i sv)) s' = idwords (sfi_indirect (sv_i sv)) s"
    using keep [of "sfi_indirect (sv_i sv)"] by (auto simp: idwords_def blocks_of_def)
  then show m: "file_map sv s' = file_map sv s" by (simp add: file_map_def fun_eq_iff)
  then show b: "blocks_of sv s' = blocks_of sv s" by (simp add: blocks_of_def)
  have "file_map sv s i = 0 \<or> file_map sv s i \<in> blocks_of sv s" for i by (auto simp: blocks_of_def)
  then show "file_byte sv s' = file_byte sv s" using keep by (fastforce simp: file_byte_def m Let_def fun_eq_iff)
  have "owned {} s' c" if "c \<in> blocks_of sv s" for c
    using keep [OF that] blocks_owned [OF ok that] nb by (simp add: owned_def)
  then show "file_ok {} sv s'" using file_okD [OF ok] fs unfolding file_ok_def m by (auto simp: blocks_of_def)
qed

text \<open>One file changes and leaves the rest alone.\<close>

lemma others_in_rest:
  assumes vol: "vol_ok f s" and i: "f i = Some (sv_i sv)" and j: "f j = Some e" "j \<noteq> i"
  shows "blocks_of (file_at j e) s \<subseteq> rest sv s"
proof
  fix b assume b: "b \<in> blocks_of (file_at j e) s"
  have "b \<notin> blocks_of sv s" using vol_okD(9) [OF vol j(1) i j(2)] b same_inode(4) [of sv "file_at i (sv_i sv)" s] by auto
  moreover have "in_use s b" using blocks_owned [OF vol_okD(7) [OF vol j(1)] b] by (simp add: owned_def)
  ultimately show "b \<in> rest sv s" by (simp add: rest_def)
qed

lemma inodes_in_rest:
  assumes vol: "vol_ok f s" and i: "f i = Some (sv_i sv)" and j: "f j = Some e"
  shows "j \<in> rest sv s"
  using vol_okD(3) [OF vol j] vol_okD(8) [OF vol i j] same_inode(4) [of sv "file_at i (sv_i sv)" s] by (simp add: rest_def)

lemma vol_step:
  assumes vol: "vol_ok f s" and i: "f i = Some (sv_i sv)" and new: "file_ok (rest sv s) sv' s'"
    and ed: "dinode_wf (sv_i sv')" "sfi_type (sv_i sv') = SFS_TYPE_FILE \<or> sfi_type (sv_i sv') = SFS_TYPE_DIR"
    and dk: "\<forall>b\<in>rest sv s. disk s' (unat b) = disk s (unat b)" and nb: "sb_nblocks s' = sb_nblocks s"
  shows "vol_ok (f(i \<mapsto> sv_i sv')) s'" and "f j = Some e \<Longrightarrow> disk s' (unat j) = disk s (unat j)"
    and "f j = Some e \<Longrightarrow> j \<noteq> i \<Longrightarrow> file_byte (file_at j e) s' = file_byte (file_at j e) s"
proof -
  have fs: "fs_ok s'" using new by (rule file_okD(1))
  have used: "in_use s' b" if "b \<in> rest sv s" for b using new that by (rule file_okD(7))
  have other: "file_ok {} (file_at j e) s'" "blocks_of (file_at j e) s' = blocks_of (file_at j e) s" "file_byte (file_at j e) s' = file_byte (file_at j e) s"
    if "f j = Some e" "j \<noteq> i" for j e
    using untouched [OF vol_okD(7) [OF vol that(1)] fs nb] used dk others_in_rest [of f s i sv, OF vol i that] by blast+
  then show "f j = Some e \<Longrightarrow> j \<noteq> i \<Longrightarrow> file_byte (file_at j e) s' = file_byte (file_at j e) s" by blast
  have inr: "j \<in> rest sv s" if "f j = Some e" for j e using inodes_in_rest [of f s i sv, OF vol i that] .
  then show "f j = Some e \<Longrightarrow> disk s' (unat j) = disk s (unat j)" using dk by blast
  let ?g = "f(i \<mapsto> sv_i sv')"
  have own: "b \<notin> rest sv s" if "b \<in> blocks_of sv' s'" for b using blocks_owned [OF new that] by (simp add: owned_def)
  have b': "blocks_of (file_at i (sv_i sv')) s' = blocks_of sv' s'" and ok': "file_ok {} (file_at i (sv_i sv')) s'"
    using same_inode(4) [of "file_at i (sv_i sv')" sv' s'] same_inode(3) [of "file_at i (sv_i sv')" sv'] file_ok_weaken [OF new] by simp_all
  have all: "j \<noteq> 0 \<and> in_use s' j \<and> unat j < unat (sb_nblocks s') \<and> dinode_wf e \<and> (sfi_type e = SFS_TYPE_FILE \<or> sfi_type e = SFS_TYPE_DIR) \<and>
      file_ok {} (file_at j e) s'" if g: "?g j = Some e" for j e
  proof -
    obtain e0 where e0: "f j = Some e0" using g i by (cases "j = i") auto
    have "dinode_wf e \<and> (sfi_type e = SFS_TYPE_FILE \<or> sfi_type e = SFS_TYPE_DIR)"
    proof (cases "j = i")
      case True
      then have "e = sv_i sv'" using g by simp
      then show ?thesis using ed by simp
    next
      case False
      then show ?thesis using g vol_okD(5,6) [OF vol e0] e0 by simp
    qed
    moreover have "file_ok {} (file_at j e) s'" using g ok' other by (cases "j = i") auto
    ultimately show ?thesis using vol_okD(2,4) [OF vol e0] used [OF inr [OF e0]] nb by simp
  qed
  have ino: "j \<notin> blocks_of (file_at k e) s'" if g: "?g k = Some e" "?g j \<noteq> None" for j k e
  proof -
    obtain e0 where e0: "f j = Some e0" using g(2) i by (cases "j = i") auto
    show ?thesis
    proof (cases "k = i")
      case True
      then have "e = sv_i sv'" using g by simp
      then show ?thesis using True b' own inr [OF e0] by auto
    next
      case False
      then show ?thesis using g other(2) [of k e] vol_okD(8) [OF vol _ e0, of k e] by simp
    qed
  qed
  have disj: "blocks_of (file_at j e) s' \<inter> blocks_of sv' s' = {}" if "f j = Some e" "j \<noteq> i" for j e
    using other(2) [OF that] others_in_rest [of f s i sv, OF vol i that] own by blast
  have "blocks_of (file_at j e) s' \<inter> blocks_of (file_at k e') s' = {}" if g: "?g j = Some e" "?g k = Some e'" "j \<noteq> k" for j e k e'
  proof -
    consider "j = i" | "k = i" | "j \<noteq> i" "k \<noteq> i" by blast
    then show ?thesis
    proof cases
      case 1
      then show ?thesis using g b' disj [of k e'] by auto
    next
      case 2
      then show ?thesis using g b' disj [of j e] by auto
    next
      case 3
      then show ?thesis using g other(2) [of j e] other(2) [of k e'] vol_okD(9) [OF vol, of j e k e'] by simp
    qed
  qed
  with fs all ino show "vol_ok ?g s'" unfolding vol_ok_def by blast
qed

lemma edited_inode:
  assumes "vol_ok f s" and "f i = Some (sv_i sv)" and "file_ok R sv' s'" and "edited sv sv'"
  shows "dinode_wf (sv_i sv')" and "sfi_type (sv_i sv') = SFS_TYPE_FILE \<or> sfi_type (sv_i sv') = SFS_TYPE_DIR"
  using vol_okD(5,6) [OF assms(1,2)] file_okD(2) [OF assms(3)] assms(4) by (simp_all add: edited_def dinode_wf_def)

definition same_files :: "itable \<Rightarrow> sfs_fs \<Rightarrow> sfs_fs \<Rightarrow> bool" where
  "same_files f s s' \<longleftrightarrow> (\<forall>i d. f i = Some d \<longrightarrow> file_byte (file_at i d) s' = file_byte (file_at i d) s)"

lemma same_files_refl [simp]: "same_files f s s"
  by (simp add: same_files_def)

lemma same_files_drop: "same_files (f(i := x)) s s' \<Longrightarrow> same_files (f(i := None)) s s'"
  by (auto simp: same_files_def split: if_splits)

lemma same_files_trans: "same_files f s s1 \<Longrightarrow> same_files f s1 s2 \<Longrightarrow> same_files f s s2"
  by (simp add: same_files_def)

text \<open>A change outside of all files, or of the blocks that hold the inodes.\<close>

lemma vol_frame:
  assumes vol: "vol_ok f s" and fs: "fs_ok s'" and nb: "sb_nblocks s' = sb_nblocks s"
    and ino: "\<And>j e. f j = Some e \<Longrightarrow> in_use s' j"
    and keep: "\<And>j e b. f j = Some e \<Longrightarrow> b \<in> blocks_of (file_at j e) s \<Longrightarrow> in_use s' b \<and> disk s' (unat b) = disk s (unat b)"
  shows "vol_ok f s'" and "same_files f s s'"
    and "f j = Some e \<Longrightarrow> blocks_of (file_at j e) s' = blocks_of (file_at j e) s"
proof -
  have u: "file_byte (file_at j e) s' = file_byte (file_at j e) s" "blocks_of (file_at j e) s' = blocks_of (file_at j e) s" "file_ok {} (file_at j e) s'"
    if "f j = Some e" for j e
    using untouched [OF vol_okD(7) [OF vol that] fs nb] keep [OF that] by blast+
  then show "same_files f s s'"
    and "f j = Some e \<Longrightarrow> blocks_of (file_at j e) s' = blocks_of (file_at j e) s" by (simp_all add: same_files_def)
  have ino': "j \<notin> blocks_of (file_at k e) s'" if "f k = Some e" "f j \<noteq> None" for j k e
    using vol_okD(8) [OF vol that(1)] that by (auto simp: u(2))
  have "blocks_of (file_at j e) s' \<inter> blocks_of (file_at k e') s' = {}" if "f j = Some e" "f k = Some e'" "j \<noteq> k" for j e k e'
    using vol_okD(9) [OF vol that] that by (simp add: u(2))
  with fs nb ino ino' u(3) vol show "vol_ok f s'" unfolding vol_ok_def by (simp (no_asm_simp))
qed

lemma vol_drop: "vol_ok f s \<Longrightarrow> vol_ok (f(i := None)) s"
  by (simp add: vol_ok_def)

lemma vol_add:
  assumes vol: "vol_ok f s" and new: "f i = None" "i \<noteq> 0" "in_use s i" "unat i < unat (sb_nblocks s)" "\<forall>j e. f j = Some e \<longrightarrow> i \<notin> blocks_of (file_at j e) s"
    and d: "dinode_wf d" "sfi_type d = SFS_TYPE_FILE \<or> sfi_type d = SFS_TYPE_DIR" "blocks_of (file_at i d) s = {}"
  shows "vol_ok (f(i \<mapsto> d)) s"
proof -
  have "file_map (file_at i d) s j = 0" "sfi_indirect d = 0" for j using d(3) by (auto simp: blocks_of_def)
  then have "file_ok {} (file_at i d) s" using d(1) vol_okD(1) [OF vol] by (simp add: file_ok_def dinode_wf_def)
  then show ?thesis using vol new d unfolding vol_ok_def by (auto split: if_splits)
qed

end
