(* ===== verification/SfsTable.thy ===== *)
theory SfsTable
  imports SfsVolume
begin

text \<open>
  The vnodes of a mounted volume as a cache of its table of inodes: \<open>mounted f st\<close> says that the table is
  \<open>f\<close>, whether an inode is on the disk, loaded, or loaded and changed. The operations of \<open>sfs_inode.c\<close>
  are those of a table: loading, writing back and dropping a vnode leave it as it is, \<open>sfs_makeobj\<close> adds
  an inode, and the last reference to a file without a name removes one.
\<close>

section \<open>The invariant\<close>

definition mounted :: "itable \<Rightarrow> sfs_state \<Rightarrow> bool" where
  "mounted f st \<longleftrightarrow> vol_ok f (sfs_vol st) \<and> distinct (sfs_vnodes st) \<and> dom (sfs_svs st) = set (sfs_vnodes st) \<and>
     dom (sfs_absvns st) = set (sfs_vnodes st) \<and> vnodes_ok (sfs_absvns st) \<and>
     (\<forall>v sv. sfs_svs st v = Some sv \<longrightarrow> f (sv_ino sv) = Some (sv_i sv)) \<and>
     (\<forall>v w sv sw. sfs_svs st v = Some sv \<longrightarrow> sfs_svs st w = Some sw \<longrightarrow> sv_ino sv = sv_ino sw \<longrightarrow> v = w) \<and>
     (\<forall>i d. f i = Some d \<longrightarrow> disk (sfs_vol st) (unat i) = dinode_bytes d \<or>
        (\<exists>v sv. sfs_svs st v = Some sv \<and> sv_ino sv = i \<and> sv_dirty sv))"

lemma mountedD:
  assumes "mounted f st"
  shows "vol_ok f (sfs_vol st)" and "distinct (sfs_vnodes st)" and "dom (sfs_svs st) = set (sfs_vnodes st)"
    and "dom (sfs_absvns st) = set (sfs_vnodes st)" and "vnodes_ok (sfs_absvns st)"
    and "sfs_svs st v = Some sv \<Longrightarrow> f (sv_ino sv) = Some (sv_i sv)"
    and "sfs_svs st v = Some sv \<Longrightarrow> sfs_svs st w = Some sw \<Longrightarrow> sv_ino sv = sv_ino sw \<Longrightarrow> v = w"
    and "f i = Some d \<Longrightarrow> disk (sfs_vol st) (unat i) \<noteq> dinode_bytes d \<Longrightarrow>
      \<exists>v sv. sfs_svs st v = Some sv \<and> sv_ino sv = i \<and> sv_dirty sv"
  using assms unfolding mounted_def by blast+

lemma mountedI:
  assumes "sfs_vol st = s" and "sfs_vnodes st = vs" and "sfs_absvns st = av"
    and "vol_ok f s" and "distinct vs" and "dom (sfs_svs st) = set vs" and "dom av = set vs" and "vnodes_ok av"
    and "\<And>v sv. sfs_svs st v = Some sv \<Longrightarrow> f (sv_ino sv) = Some (sv_i sv)"
    and "\<And>v w sv sw. sfs_svs st v = Some sv \<Longrightarrow> sfs_svs st w = Some sw \<Longrightarrow> sv_ino sv = sv_ino sw \<Longrightarrow> v = w"
    and "\<And>i d. f i = Some d \<Longrightarrow> disk s (unat i) = dinode_bytes d \<or> (\<exists>v sv. sfs_svs st v = Some sv \<and> sv_ino sv = i \<and> sv_dirty sv)"
  shows "mounted f st"
  using assms unfolding mounted_def by blast

text \<open>Reading makes the disk's next status codes known, nothing else.\<close>

lemma mounted_codes:
  assumes "mounted f st" and "fs_ok ((sfs_vol st)\<lparr>rd_codes := rs\<rparr>)"
  shows "mounted f (st\<lparr>sfs_vol := (sfs_vol st)\<lparr>rd_codes := rs\<rparr>\<rparr>)" and "same_files f (sfs_vol st) ((sfs_vol st)\<lparr>rd_codes := rs\<rparr>)"
proof -
  note m = mountedD [OF assms(1)]
  have "vol_ok f ((sfs_vol st)\<lparr>rd_codes := rs\<rparr>)"
    using vol_okD(3) [OF m(1)] blocks_owned [OF vol_okD(7) [OF m(1)]] by (intro vol_frame(1) [OF m(1) assms(2)]) (auto simp: owned_def)
  then show "mounted f (st\<lparr>sfs_vol := (sfs_vol st)\<lparr>rd_codes := rs\<rparr>\<rparr>)" using assms(1) by (simp add: mounted_def)
  show "same_files f (sfs_vol st) ((sfs_vol st)\<lparr>rd_codes := rs\<rparr>)" by (simp add: same_files_def file_byte_def Let_def fun_eq_iff)
qed

section \<open>A file is changed\<close>

lemma mounted_step:
  assumes m: "mounted f st" and v: "sfs_svs st v = Some sv" and new: "file_ok (rest sv (sfs_vol st)) sv' s'" and ed: "edited sv sv'"
    and dk: "\<forall>b\<in>rest sv (sfs_vol st). disk s' (unat b) = disk (sfs_vol st) (unat b)" and nb: "sb_nblocks s' = sb_nblocks (sfs_vol st)"
  defines "st' \<equiv> st\<lparr>sfs_svs := (sfs_svs st)(v \<mapsto> sv'), sfs_vol := s'\<rparr>" and "f' \<equiv> f(sv_ino sv \<mapsto> sv_i sv')"
  shows "mounted f' st'" and "j \<noteq> sv_ino sv \<Longrightarrow> f j = Some e \<Longrightarrow> file_byte (file_at j e) s' = file_byte (file_at j e) (sfs_vol st)"
proof -
  note d = mountedD [OF m]
  note vol = vol_step [OF d(1) d(6) [OF v] new edited_inode [OF d(1) d(6) [OF v] new ed] dk nb]
  show "j \<noteq> sv_ino sv \<Longrightarrow> f j = Some e \<Longrightarrow> file_byte (file_at j e) s' = file_byte (file_at j e) (sfs_vol st)" by (rule vol(3))
  have ino: "sv_ino sv' = sv_ino sv" and dirty: "sv' = sv \<or> sv_dirty sv'" using ed by (simp_all add: edited_def)
  have table: "f' (sv_ino sw) = Some (sv_i sw)" if "sfs_svs st' w = Some sw" for w sw
  proof (cases "w = v")
    case True
    then show ?thesis using that ino by (simp add: f'_def st'_def)
  next
    case False
    then have w: "sfs_svs st w = Some sw" using that by (simp add: st'_def)
    then have "sv_ino sw \<noteq> sv_ino sv" using d(7) [OF w v] False by blast
    then show ?thesis using d(6) [OF w] by (simp add: f'_def)
  qed
  have inj: "w = u" if "sfs_svs st' w = Some sw" "sfs_svs st' u = Some su" "sv_ino sw = sv_ino su" for w u sw su
  proof -
    have old: "\<exists>so. sfs_svs st x = Some so \<and> sv_ino so = sv_ino sx" if "sfs_svs st' x = Some sx" for x sx
      using that v ino by (auto simp: st'_def split: if_splits)
    show ?thesis using old [OF that(1)] old [OF that(2)] that(3) d(7) by metis
  qed
  have on_disk: "disk s' (unat i) = dinode_bytes e \<or> (\<exists>w sw. sfs_svs st' w = Some sw \<and> sv_ino sw = i \<and> sv_dirty sw)"
    if f': "f' i = Some e" for i e
  proof (cases "i = sv_ino sv")
    case True
    then have e: "e = sv_i sv'" using f' by (simp add: f'_def)
    show ?thesis
    proof (cases "sv_dirty sv'")
      case True
      then show ?thesis using \<open>i = sv_ino sv\<close> ino by (intro disjI2 exI [of _ v]) (simp add: st'_def)
    next
      case False
      then have "sv' = sv" using dirty by simp
      have "disk (sfs_vol st) (unat i) = dinode_bytes (sv_i sv)"
      proof (rule ccontr)
        assume "disk (sfs_vol st) (unat i) \<noteq> dinode_bytes (sv_i sv)"
        with d(8) [of i "sv_i sv"] d(6) [OF v] True obtain w sw where w: "sfs_svs st w = Some sw" "sv_ino sw = i" "sv_dirty sw" by auto
        then have "w = v" using d(7) [OF w(1) v] True by simp
        then show False using w(1,3) v False \<open>sv' = sv\<close> by simp
      qed
      then show ?thesis using vol(2) [OF d(6) [OF v]] True e \<open>sv' = sv\<close> by simp
    qed
  next
    case False
    then have fi: "f i = Some e" using f' by (simp add: f'_def)
    have "(\<exists>w sw. sfs_svs st' w = Some sw \<and> sv_ino sw = i \<and> sv_dirty sw)" if "sfs_svs st w = Some sw" "sv_ino sw = i" "sv_dirty sw" for w sw
      using that v False by (intro exI [of _ w]) (auto simp: st'_def)
    then show ?thesis using d(8) [OF fi] vol(2) [OF fi] by metis
  qed
  have same: "sfs_vol st' = s'" "sfs_vnodes st' = sfs_vnodes st" "sfs_absvns st' = sfs_absvns st" by (simp_all add: st'_def)
  have dom: "dom (sfs_svs st') = set (sfs_vnodes st)" using v d(3) by (auto simp: st'_def)
  have "vol_ok f' s'" using vol(1) by (simp add: f'_def)
  then show "mounted f' st'" by (rule mountedI [OF same _ d(2) dom d(4,5) table inj on_disk])
qed

section \<open>Inodes are written back\<close>

lemma clean_on_disk:
  assumes m: "mounted f st" and v: "sfs_svs st v = Some sv" and "\<not> sv_dirty sv"
  shows "disk (sfs_vol st) (unat (sv_ino sv)) = dinode_bytes (sv_i sv)"
proof (rule ccontr)
  note d = mountedD [OF m]
  assume "disk (sfs_vol st) (unat (sv_ino sv)) \<noteq> dinode_bytes (sv_i sv)"
  with d(8) [OF d(6) [OF v]] obtain w sw where w: "sfs_svs st w = Some sw" "sv_ino sw = sv_ino sv" "sv_dirty sw" by blast
  then have "w = v" using d(7) v by metis
  then show False using w v assms(3) by simp
qed

lemma sync_inode_ok:
  assumes m: "mounted f st" and v: "sfs_svs st v = Some sv"
  obtains s' where "on_sv v sfs_sync_inode st = Some (None, st\<lparr>sfs_svs := (sfs_svs st)(v \<mapsto> sv\<lparr>sv_dirty := False\<rparr>), sfs_vol := s'\<rparr>)"
    "mounted f (st\<lparr>sfs_svs := (sfs_svs st)(v \<mapsto> sv\<lparr>sv_dirty := False\<rparr>), sfs_vol := s'\<rparr>)" "same_files f (sfs_vol st) s'"
    "s' = (sfs_vol st)\<lparr>disk := disk s'\<rparr>" "\<forall>b. b \<noteq> sv_ino sv \<longrightarrow> disk s' (unat b) = disk (sfs_vol st) (unat b)"
proof -
  note d = mountedD [OF m]
  note fi = d(6) [OF v]
  let ?s = "sfs_vol st" and ?sv = "sv\<lparr>sv_dirty := False\<rparr>"
  let ?s' = "if sv_dirty sv then ?s\<lparr>disk := (disk ?s)(unat (sv_ino sv) := dinode_bytes (sv_i sv))\<rparr> else ?s"
  let ?st' = "st\<lparr>sfs_svs := (sfs_svs st)(v \<mapsto> ?sv), sfs_vol := ?s'\<rparr>"
  note w = writeblock_ok [OF vol_okD(1) [OF d(1)] vol_okD(4) [OF d(1) fi] length_dinode_bytes [OF vol_okD(5) [OF d(1) fi]]]
  have clean: "?sv = sv" if "\<not> sv_dirty sv" using that by (cases sv) simp
  have run: "on_sv v sfs_sync_inode st = Some (None, ?st')"
  proof (cases "sv_dirty sv")
    case False
    show ?thesis unfolding clean [OF False] using v False by (simp add: on_sv_def sfs_sync_inode_def)
  qed (use v w(1) in \<open>simp add: on_sv_def sfs_sync_inode_def\<close>)
  have fs: "fs_ok ?s'" using w(2) vol_okD(1) [OF d(1)] by simp
  have keep: "in_use ?s' b \<and> disk ?s' (unat b) = disk ?s (unat b)" if "f j = Some e" "b \<in> blocks_of (file_at j e) ?s" for j e b
    using vol_okD(8) [OF d(1) that(1) fi] that(2) blocks_owned [OF vol_okD(7) [OF d(1) that(1)] that(2)] by (auto simp: owned_def unat_eq_iff)
  have ino: "in_use ?s' j" if "f j = Some e" for j e using vol_okD(3) [OF d(1) that] by simp
  have old: "\<exists>so. sfs_svs st x = Some so \<and> sv_ino so = sv_ino sx \<and> sv_i so = sv_i sx" if "sfs_svs ?st' x = Some sx" for x sx
    using that v by (auto split: if_splits)
  have table: "f (sv_ino sx) = Some (sv_i sx)" if "sfs_svs ?st' x = Some sx" for x sx using old [OF that] d(6) by metis
  have inj: "x = y" if "sfs_svs ?st' x = Some sx" "sfs_svs ?st' y = Some sy" "sv_ino sx = sv_ino sy" for x y sx sy
    using old [OF that(1)] old [OF that(2)] that(3) d(7) by metis
  have on_disk: "disk ?s' (unat i) = dinode_bytes e \<or> (\<exists>x sx. sfs_svs ?st' x = Some sx \<and> sv_ino sx = i \<and> sv_dirty sx)" if e: "f i = Some e" for i e
  proof (cases "i = sv_ino sv")
    case True
    then show ?thesis using e fi clean_on_disk [OF m v] by auto
  next
    case False
    then have "disk ?s' (unat i) = disk ?s (unat i)" by (simp add: unat_eq_iff)
    then show ?thesis using d(8) [OF e] v False by (cases "disk ?s (unat i) = dinode_bytes e") (auto, metis option.inject)
  qed
  have dom: "dom (sfs_svs ?st') = set (sfs_vnodes st)" using v d(3) by auto
  have eqs: "sfs_vol ?st' = ?s'" "sfs_vnodes ?st' = sfs_vnodes st" "sfs_absvns ?st' = sfs_absvns st" by simp_all
  have "vol_ok f ?s'" by (rule vol_frame(1) [OF d(1) fs _ ino keep]) simp_all
  then have m': "mounted f ?st'" by (rule mountedI [OF eqs _ d(2) dom d(4,5) table inj on_disk])
  have same: "same_files f ?s ?s'" by (rule vol_frame(2) [OF d(1) fs _ ino keep]) simp_all
  have shape: "?s' = ?s\<lparr>disk := disk ?s'\<rparr>" by (cases "sv_dirty sv") simp_all
  have dk: "\<forall>b. b \<noteq> sv_ino sv \<longrightarrow> disk ?s' (unat b) = disk ?s (unat b)" by (simp add: unat_eq_iff)
  show thesis by (rule that [OF run m' same shape dk])
qed

section \<open>Loading\<close>

lemma bused_ok:
  assumes "fs_ok s" and "in_use s b" and "unat b < unat (sb_nblocks s)"
  shows "sfs_bused b s = Some True"
proof -
  have "unat b < nbits (sfs_freemap s)" using assms(1,3) by (simp add: fs_ok_def)
  then show ?thesis using bitmap_isset_iff [of "unat b" "sfs_freemap s"] assms(2,3) by (simp add: sfs_bused_def word_le_nat_alt)
qed

lemma find_loaded_ok:
  assumes m: "mounted f st" and "set vs \<subseteq> set (sfs_vnodes st)"
    and "forcetype = SFS_TYPE_INVAL \<or> (\<forall>v sv. sfs_svs st v = Some sv \<longrightarrow> sv_ino sv \<noteq> ino)"
  shows "\<exists>r. find_loaded ino forcetype vs st = Some r \<and>
    (case r of None \<Rightarrow> \<forall>v\<in>set vs. \<forall>sv. sfs_svs st v = Some sv \<longrightarrow> sv_ino sv \<noteq> ino
     | Some v \<Rightarrow> v \<in> set vs \<and> (\<exists>sv. sfs_svs st v = Some sv \<and> sv_ino sv = ino))"
  using assms(2)
proof (induction vs)
  case (Cons v vs)
  note d = mountedD [OF m]
  from Cons.prems d(3) obtain sv where v: "sfs_svs st v = Some sv" by fastforce
  note fi = d(6) [OF v]
  have used: "sfs_bused (sv_ino sv) (sfs_vol st) = Some True" by (rule bused_ok [OF vol_okD(1) [OF d(1)] vol_okD(3,4) [OF d(1) fi]])
  from Cons obtain r where r: "find_loaded ino forcetype vs st = Some r" "case r of None \<Rightarrow> \<forall>v\<in>set vs. \<forall>sv. sfs_svs st v = Some sv \<longrightarrow> sv_ino sv \<noteq> ino
     | Some v \<Rightarrow> v \<in> set vs \<and> (\<exists>sv. sfs_svs st v = Some sv \<and> sv_ino sv = ino)" by auto
  show ?case
  proof (cases "sv_ino sv = ino")
    case True
    then show ?thesis using v used assms(3) by auto
  next
    case False
    then show ?thesis using v used r by (intro exI [of _ r]) (auto split: option.splits)
  qed
qed simp

abbreviation refs :: "sfs_state \<Rightarrow> nat \<Rightarrow> int" where "refs st \<equiv> vn_refs (sfs_absvns st)"

text \<open>The inode \<open>ino\<close> is not loaded, and its block holds \<open>b\<close>.\<close>

lemma load_inode_ok:
  assumes m: "mounted (f(ino := None)) st" and vol: "vol_ok f (sfs_vol st)" and fi: "f ino = Some d" and p: "sfs_svs st p = None"
    and b: "bytes_dinode b = (if ft = SFS_TYPE_INVAL then d else d\<lparr>sfi_type := SFS_TYPE_INVAL\<rparr>)" "ft \<noteq> SFS_TYPE_INVAL \<longrightarrow> sfi_type d = ft"
    and dk: "ft = SFS_TYPE_INVAL \<longrightarrow> disk (sfs_vol st) (unat ino) = dinode_bytes d"
  obtains st' where "load_inode p room ino ft b st = (if room then Some (Inr p, st') else Some (Inl ENOMEM, st))"
    "mounted f st'" "sfs_vol st' = sfs_vol st" "sfs_svs st' = (sfs_svs st)(p \<mapsto> \<lparr>sv_i = d, sv_ino = ino, sv_dirty = (ft \<noteq> SFS_TYPE_INVAL)\<rparr>)"
    "refs st' = (refs st)(p := refs st p + 1)"
proof -
  note d = mountedD [OF m]
  define st' where "st' = st\<lparr>sfs_svs := (sfs_svs st)(p \<mapsto> \<lparr>sv_i = d, sv_ino = ino, sv_dirty = (ft \<noteq> SFS_TYPE_INVAL)\<rparr>),
    sfs_absvns := (sfs_absvns st)(p \<mapsto> \<lparr>vn_refcount = 1, vn_fs = Some (sfs_absfs st), vn_ops = True\<rparr>), sfs_vnodes := sfs_vnodes st @ [p]\<rparr>"
  have fresh: "p \<notin> set (sfs_vnodes st)" "sfs_absvns st p = None" using p d(3,4) by (auto simp: domIff)
  have "(if ft = SFS_TYPE_INVAL then d else d\<lparr>sfi_type := SFS_TYPE_INVAL\<rparr>)\<lparr>sfi_type := ft\<rparr> = d" if "ft \<noteq> SFS_TYPE_INVAL"
    using b(2) that by simp
  then have i: "(if ft \<noteq> SFS_TYPE_INVAL then (bytes_dinode b)\<lparr>sfi_type := ft\<rparr> else bytes_dinode b) = d"
    and t: "ft \<noteq> SFS_TYPE_INVAL \<longrightarrow> sfi_type (bytes_dinode b) = SFS_TYPE_INVAL" by (simp_all add: b(1))
  have triv: "(sfs_absvns st)(p := None) = sfs_absvns st" using fresh(2) by (simp add: fun_upd_idem)
  have run: "load_inode p room ino ft b st = (if room then Some (Inr p, st') else Some (Inl ENOMEM, st))"
    using vol_okD(6) [OF vol fi] t by (simp add: load_inode_def Let_def i vnode_init_def vnode_cleanup_def st'_def triv)
  have other: "\<exists>sx. sfs_svs st x = Some sx \<and> sv_ino sx \<noteq> ino" if "sfs_svs st x \<noteq> None" for x
    using that d(6) [of x] by auto
  have eqs: "sfs_vol st' = sfs_vol st" "sfs_vnodes st' = sfs_vnodes st @ [p]"
    "sfs_absvns st' = (sfs_absvns st)(p \<mapsto> \<lparr>vn_refcount = 1, vn_fs = Some (sfs_absfs st), vn_ops = True\<rparr>)" by (simp_all add: st'_def)
  have dist: "distinct (sfs_vnodes st @ [p])" using d(2) fresh(1) by simp
  have dom: "dom (sfs_svs st') = set (sfs_vnodes st @ [p])" using d(3) by (auto simp: st'_def)
  have adom: "dom ((sfs_absvns st)(p \<mapsto> \<lparr>vn_refcount = 1, vn_fs = Some (sfs_absfs st), vn_ops = True\<rparr>)) = set (sfs_vnodes st @ [p])" using d(4) by auto
  have av: "vnodes_ok ((sfs_absvns st)(p \<mapsto> \<lparr>vn_refcount = 1, vn_fs = Some (sfs_absfs st), vn_ops = True\<rparr>))" using d(5) by (simp add: vnodes_ok_def)
  have ino: "sv_ino sx \<noteq> ino" if "sfs_svs st x = Some sx" for x sx using other [of x] that by simp
  have table: "f (sv_ino sx) = Some (sv_i sx)" if "sfs_svs st' x = Some sx" for x sx
    using that fi d(6) [of x sx] ino [of x sx] by (auto simp: st'_def split: if_splits)
  have inj: "x = y" if "sfs_svs st' x = Some sx" "sfs_svs st' y = Some sy" "sv_ino sx = sv_ino sy" for x y sx sy
    using that ino [of x sx] ino [of y sy] d(7) [of x sx y sy] by (auto simp: st'_def split: if_splits)
  have on_disk: "disk (sfs_vol st) (unat i) = dinode_bytes e \<or> (\<exists>x sx. sfs_svs st' x = Some sx \<and> sv_ino sx = i \<and> sv_dirty sx)" if e: "f i = Some e" for i e
  proof (cases "i = ino")
    case True
    then have "e = d" using e fi by simp
    have "\<exists>x sx. sfs_svs st' x = Some sx \<and> sv_ino sx = i \<and> sv_dirty sx" if "ft \<noteq> SFS_TYPE_INVAL"
      using True that by (intro exI [of _ p]) (simp add: st'_def)
    then show ?thesis using dk True \<open>e = d\<close> by blast
  next
    case False
    then have "(f(ino := None)) i = Some e" using e by simp
    from d(8) [OF this] have "disk (sfs_vol st) (unat i) = dinode_bytes e \<or> (\<exists>x sx. sfs_svs st x = Some sx \<and> sv_ino sx = i \<and> sv_dirty sx)" by blast
    then show ?thesis
    proof (elim disjE exE conjE)
      fix x sx assume x: "sfs_svs st x = Some sx" "sv_ino sx = i" "sv_dirty sx"
      then have "sfs_svs st' x = Some sx" using p by (auto simp: st'_def)
      then show ?thesis using x by blast
    qed simp
  qed
  have "mounted f st'" by (rule mountedI [OF eqs vol dist dom adom av table inj on_disk])
  moreover have "refs st p = 0" using fresh(2) by (simp add: vn_refs_def)
  ultimately show thesis using run by (intro that [of st']) (simp_all add: st'_def fun_eq_iff)
qed

lemma mounted_without:
  assumes m: "mounted f st" and "\<forall>v sv. sfs_svs st v = Some sv \<longrightarrow> sv_ino sv \<noteq> ino"
  shows "mounted (f(ino := None)) st"
proof -
  note d = mountedD [OF m]
  have on_disk: "disk (sfs_vol st) (unat i) = dinode_bytes e \<or> (\<exists>v sv. sfs_svs st v = Some sv \<and> sv_ino sv = i \<and> sv_dirty sv)"
    if "(f(ino := None)) i = Some e" for i e using d(8) [of i e] that by (auto split: if_splits)
  show ?thesis
    by (rule mountedI [OF refl refl refl vol_drop [OF d(1)] d(2-5) _ _ on_disk]) (use d(6) assms(2) in simp, rule d(7))
qed

lemma incref_ok:
  assumes m: "mounted f st" and v: "sfs_svs st v \<noteq> None"
  obtains vs where "vnode_incref v (sfs_absvns st) = Some vs" "mounted f (st\<lparr>sfs_absvns := vs\<rparr>)" "vn_refs vs = (refs st)(v := refs st v + 1)"
proof -
  note d = mountedD [OF m]
  from v d(3,4) have "sfs_absvns st v \<noteq> None" by blast
  then obtain vs where vs: "vnode_incref v (sfs_absvns st) = Some vs" "vnodes_ok vs" "vn_refs vs = (refs st)(v := refs st v + 1)"
    using vnode_incref_eq [OF d(5)] by metis
  have "dom vs = dom (sfs_absvns st)" using vs(1) by (auto simp: vnode_incref_def bind_eq_Some_conv split: if_splits)
  then have "mounted f (st\<lparr>sfs_absvns := vs\<rparr>)" using m vs(2) by (simp add: mounted_def)
  with vs show thesis by (intro that)
qed

text \<open>A vnode of an inode of the table.\<close>

lemma loadvnode_ok:
  assumes m: "mounted f st" and fi: "f ino = Some d" and km: "\<forall>p. km = Some p \<longrightarrow> sfs_svs st p = None"
  obtains r st' where "sfs_loadvnode km room ino SFS_TYPE_INVAL st = Some (r, st')" "mounted f st'" "same_files f (sfs_vol st) (sfs_vol st')"
    "\<exists>rs. sfs_vol st' = (sfs_vol st)\<lparr>rd_codes := rs\<rparr> \<and> (rd_codes (sfs_vol st) = [] \<longrightarrow> rs = [])"
    "\<forall>v sv. sfs_svs st v = Some sv \<longrightarrow> sfs_svs st' v = Some sv"
    "case r of Inl e \<Rightarrow> refs st' = refs st \<and> (e = ENOMEM \<or> rd_codes (sfs_vol st) \<noteq> [])
      | Inr v \<Rightarrow> refs st' = (refs st)(v := refs st v + 1) \<and> (\<exists>sv. sfs_svs st' v = Some sv \<and> sv_ino sv = ino \<and> sv_i sv = d)"
proof -
  note md = mountedD [OF m]
  obtain found where find: "find_loaded ino SFS_TYPE_INVAL (sfs_vnodes st) st = Some found" and found:
    "case found of None \<Rightarrow> \<forall>v\<in>set (sfs_vnodes st). \<forall>sv. sfs_svs st v = Some sv \<longrightarrow> sv_ino sv \<noteq> ino
     | Some v \<Rightarrow> v \<in> set (sfs_vnodes st) \<and> (\<exists>sv. sfs_svs st v = Some sv \<and> sv_ino sv = ino)"
    using find_loaded_ok [OF m order.refl, of SFS_TYPE_INVAL ino] by auto
  show thesis
  proof (cases found)
    case (Some v)
    with found obtain sv where sv: "sfs_svs st v = Some sv" "sv_ino sv = ino" by auto
    then have "sv_i sv = d" using md(6) [OF sv(1)] fi by simp
    obtain vs where vs: "vnode_incref v (sfs_absvns st) = Some vs" "mounted f (st\<lparr>sfs_absvns := vs\<rparr>)" "vn_refs vs = (refs st)(v := refs st v + 1)"
      by (rule incref_ok [OF m]) (use sv(1) in auto)
    then show thesis using find Some sv \<open>sv_i sv = d\<close>
      by (intro that [of "Inr v" "st\<lparr>sfs_absvns := vs\<rparr>"]) (simp_all add: sfs_loadvnode_def exI [of _ "rd_codes (sfs_vol st)"])
  next
    case None
    with found have none: "\<forall>v sv. sfs_svs st v = Some sv \<longrightarrow> sv_ino sv \<noteq> ino" using md(3) by (auto simp: domIff set_eq_iff)
    show thesis
    proof (cases km)
      case None
      then show thesis using find \<open>found = None\<close> m
        by (intro that [of "Inl ENOMEM" st]) (simp_all add: sfs_loadvnode_def exI [of _ "rd_codes (sfs_vol st)"])
    next
      case (Some p)
      then have p: "sfs_svs st p = None" using km by simp
      have dk: "disk (sfs_vol st) (unat ino) = dinode_bytes d" using md(8) [OF fi] none by blast
      have used: "sfs_bused ino (sfs_vol st) = Some True" by (rule bused_ok [OF vol_okD(1) [OF md(1)] vol_okD(3,4) [OF md(1) fi]])
      obtain r rs where rd: "sfs_readblock ino (sfs_vol st) = Some (r, (sfs_vol st)\<lparr>rd_codes := rs\<rparr>)" "fs_ok ((sfs_vol st)\<lparr>rd_codes := rs\<rparr>)"
        "r = Inr (disk (sfs_vol st) (unat ino)) \<or> (\<exists>e. r = Inl e) \<and> rd_codes (sfs_vol st) \<noteq> []" "rd_codes (sfs_vol st) = [] \<longrightarrow> rs = []"
        by (rule readblock_ok [OF vol_okD(1) [OF md(1)] vol_okD(4) [OF md(1) fi]])
      note mc = mounted_codes [OF m rd(2)]
      let ?st = "st\<lparr>sfs_vol := (sfs_vol st)\<lparr>rd_codes := rs\<rparr>\<rparr>"
      have shape: "\<exists>rs'. (sfs_vol st)\<lparr>rd_codes := rs\<rparr> = (sfs_vol st)\<lparr>rd_codes := rs'\<rparr> \<and> (rd_codes (sfs_vol st) = [] \<longrightarrow> rs' = [])" using rd(4) by blast
      show thesis
      proof (cases r)
        case (Inl e)
        then show thesis using find \<open>found = None\<close> Some used rd(1,3) mc shape
          by (intro that [of "Inl e" ?st]) (simp_all add: sfs_loadvnode_def)
      next
        case (Inr b)
        with rd(3) dk have b: "b = dinode_bytes d" by simp
        have "bytes_dinode b = d" unfolding b by (rule dinode_round [OF vol_okD(5) [OF md(1) fi]])
        obtain st' where ld: "load_inode p room ino SFS_TYPE_INVAL b ?st = (if room then Some (Inr p, st') else Some (Inl ENOMEM, ?st))"
          "mounted f st'" "sfs_vol st' = sfs_vol ?st" "sfs_svs st' = (sfs_svs ?st)(p \<mapsto> \<lparr>sv_i = d, sv_ino = ino, sv_dirty = (SFS_TYPE_INVAL \<noteq> SFS_TYPE_INVAL)\<rparr>)"
          "refs st' = (refs ?st)(p := refs ?st p + 1)"
          by (rule load_inode_ok [OF mounted_without [OF mc(1)] mountedD(1) [OF mc(1)] fi, where ft = SFS_TYPE_INVAL and b = b])
            (use none p dk \<open>bytes_dinode b = d\<close> in simp_all)
        have run: "sfs_loadvnode km room ino SFS_TYPE_INVAL st = (if room then Some (Inr p, st') else Some (Inl ENOMEM, ?st))"
          using find \<open>found = None\<close> Some used rd(1) Inr ld(1) by (simp add: sfs_loadvnode_def)
        show thesis
        proof (cases room)
          case True
          then show thesis using ld p run mc(2) shape by (intro that [of "Inr p" st']) simp_all
        next
          case False
          then show thesis using run mc shape by (intro that [of "Inl ENOMEM" ?st]) simp_all
        qed
      qed
    qed
  qed
qed

section \<open>New inodes\<close>

definition empty_inode :: "u16 \<Rightarrow> sfs_dinode" where
  "empty_inode t = \<lparr>sfi_size = 0, sfi_type = t, sfi_linkcount = 0, sfi_direct = replicate SFS_NDIRECT 0, sfi_indirect = 0,
     sfi_waste = replicate SFS_NWASTE 0\<rparr>"

lemma bytes_dinode_zeros: "bytes_dinode zeros = empty_inode SFS_TYPE_INVAL"
  using words_of_zeros [of 128] by (simp add: bytes_dinode_def empty_inode_def zeros_def)

lemma empty_inode_sel: "dinode_wf (empty_inode t)" "sfi_type (empty_inode t) = t"
  by (simp_all add: empty_inode_def dinode_wf_def)

lemma blocks_of_empty: "blocks_of (file_at i (empty_inode t)) s = {}"
proof -
  have "replicate SFS_NDIRECT (0::u32) ! j = 0" if "j < SFS_NDIRECT" for j using that by simp
  then have "file_map (file_at i (empty_inode t)) s j = 0" for j by (auto simp: file_map_def empty_inode_def idwords_def)
  then show ?thesis by (simp add: blocks_of_def) (simp add: empty_inode_def)
qed

lemma mounted_vol:
  assumes m: "mounted f st" and vol: "vol_ok f s'" and dk: "\<And>i d. f i = Some d \<Longrightarrow> disk s' (unat i) = disk (sfs_vol st) (unat i)"
  shows "mounted f (st\<lparr>sfs_vol := s'\<rparr>)"
proof -
  note d = mountedD [OF m]
  have eqs: "sfs_vol (st\<lparr>sfs_vol := s'\<rparr>) = s'" "sfs_vnodes (st\<lparr>sfs_vol := s'\<rparr>) = sfs_vnodes st" "sfs_absvns (st\<lparr>sfs_vol := s'\<rparr>) = sfs_absvns st"
    by simp_all
  have dom: "dom (sfs_svs (st\<lparr>sfs_vol := s'\<rparr>)) = set (sfs_vnodes st)" using d(3) by simp
  show ?thesis
    by (rule mountedI [OF eqs vol d(2) dom d(4,5)]) (use d(6) in simp, use d(7) in simp, use d(8) dk in \<open>simp, metis\<close>)
qed

text \<open>A block in use for nothing is freed.\<close>

lemma free_lone_block:
  assumes m: "mounted f st" and b: "f b = None" "in_use (sfs_vol st) b" "b \<noteq> 0" "unat b < unat (sb_nblocks (sfs_vol st))"
    and lone: "\<And>j e. f j = Some e \<Longrightarrow> b \<notin> blocks_of (file_at j e) (sfs_vol st)"
  obtains s' where "sfs_bfree b (sfs_vol st) = Some s'" "mounted f (st\<lparr>sfs_vol := s'\<rparr>)" "same_files f (sfs_vol st) s'"
    "bm_used (sfs_freemap s') = (bm_used (sfs_freemap (sfs_vol st)))(unat b := False)" "rd_codes s' = rd_codes (sfs_vol st)"
proof -
  note d = mountedD [OF m]
  have bw: "bitmap_wf (sfs_freemap (sfs_vol st))" using vol_okD(1) [OF d(1)] by (simp add: fs_ok_def)
  obtain s' where s': "sfs_bfree b (sfs_vol st) = Some s'" "frees (sfs_vol st) s' {unat b}" by (rule bfree_ok [OF bw b(2)])
  note g = freesD [OF s'(2)]
  have fs: "fs_ok s'" by (rule frees_fs_ok [OF vol_okD(1) [OF d(1)] s'(2)]) (use b(3,4) in \<open>auto simp: unat_gt_0\<close>)
  have ino: "in_use s' j" if "f j = Some e" for j e using vol_okD(3) [OF d(1) that] b(1) that by (auto simp: g unat_eq_iff)
  have keep: "in_use s' c \<and> disk s' (unat c) = disk (sfs_vol st) (unat c)" if "f j = Some e" "c \<in> blocks_of (file_at j e) (sfs_vol st)" for j e c
    using lone [OF that(1)] that(2) blocks_owned [OF vol_okD(7) [OF d(1) that(1)] that(2)] by (auto simp: g owned_def unat_eq_iff)
  have nb: "sb_nblocks s' = sb_nblocks (sfs_vol st)" using g by (simp add: same_volume_def)
  have vol: "vol_ok f s'" by (rule vol_frame(1) [OF d(1) fs nb ino keep]) simp_all
  have "same_files f (sfs_vol st) s'" by (rule vol_frame(2) [OF d(1) fs nb ino keep]) simp_all
  moreover have "mounted f (st\<lparr>sfs_vol := s'\<rparr>)" by (rule mounted_vol [OF m vol]) (simp add: g)
  moreover have "bm_used (sfs_freemap s') = (bm_used (sfs_freemap (sfs_vol st)))(unat b := False)" by (auto simp: g fun_eq_iff)
  ultimately show thesis using s'(1) g by (intro that)
qed

text \<open>The allocation of an inode.\<close>

lemma balloc_inode:
  assumes m: "mounted f st" and al: "sfs_balloc (sfs_vol st) = Some (Inr b, s')" and type: "t = SFS_TYPE_FILE \<or> t = SFS_TYPE_DIR"
  shows "f b = None" and "b \<noteq> 0" and "mounted f (st\<lparr>sfs_vol := s'\<rparr>)" and "vol_ok (f(b \<mapsto> empty_inode t)) s'" and "same_files f (sfs_vol st) s'"
    and "disk s' (unat b) = zeros" and "rd_codes (sfs_vol st) = [] \<Longrightarrow> rd_codes s' = []" and "unat b < unat (sb_nblocks s')" and "in_use s' b"
    and "f j = Some e \<Longrightarrow> b \<notin> blocks_of (file_at j e) s'"
proof -
  note d = mountedD [OF m]
  let ?s = "sfs_vol st"
  obtain r s1 where r: "sfs_balloc ?s = Some (r, s1)" "fs_ok s1" "same_volume ?s s1"
    "case r of Inl e \<Rightarrow> bm_used (sfs_freemap s1) = bm_used (sfs_freemap ?s) \<and> disk s1 = disk ?s \<and> (rd_codes ?s = [] \<longrightarrow> e = ENOSPC)
      | Inr b \<Rightarrow> b \<noteq> 0 \<and> unat b < unat (sb_nblocks ?s) \<and> \<not> in_use ?s b \<and>
          bm_used (sfs_freemap s1) = (bm_used (sfs_freemap ?s))(unat b := True) \<and> disk s1 = (disk ?s)(unat b := zeros)"
    by (rule balloc_ok [OF vol_okD(1) [OF d(1)]])
  from r(1) al have eq: "r = Inr b" "s1 = s'" by simp_all
  from r(2-4) have b: "b \<noteq> 0" "unat b < unat (sb_nblocks ?s)" "\<not> in_use ?s b" "bm_used (sfs_freemap s') = (bm_used (sfs_freemap ?s))(unat b := True)"
    "disk s' = (disk ?s)(unat b := zeros)" and fs: "fs_ok s'" and sv: "same_volume ?s s'" unfolding eq by simp_all
  show fb: "f b = None" using vol_okD(3) [OF d(1)] b(3) by (cases "f b") auto
  show "b \<noteq> 0" by fact
  have nb: "sb_nblocks s' = sb_nblocks ?s" using sv by (simp add: same_volume_def)
  show lt: "unat b < unat (sb_nblocks s')" and used: "in_use s' b" and "disk s' (unat b) = zeros" using b(2,4,5) by (simp_all add: nb)
  show "rd_codes ?s = [] \<Longrightarrow> rd_codes s' = []" using sv by (simp add: same_volume_def)
  have ino: "in_use s' j" if "f j = Some e" for j e using vol_okD(3) [OF d(1) that] by (simp add: b(4))
  have keep: "in_use s' c \<and> disk s' (unat c) = disk ?s (unat c)" and notb: "c \<noteq> b" if "f j = Some e" "c \<in> blocks_of (file_at j e) ?s" for j e c
    using blocks_owned [OF vol_okD(7) [OF d(1) that(1)] that(2)] b(3) by (auto simp: b(4,5) owned_def unat_eq_iff)
  have vol: "vol_ok f s'" by (rule vol_frame(1) [OF d(1) fs nb ino keep]) simp_all
  show "same_files f ?s s'" by (rule vol_frame(2) [OF d(1) fs nb ino keep]) simp_all
  have same: "blocks_of (file_at j e) s' = blocks_of (file_at j e) ?s" if "f j = Some e" for j e
    by (rule vol_frame(3) [OF d(1) fs nb]) (use ino keep that in blast)+
  then show lone: "b \<notin> blocks_of (file_at j e) s'" if "f j = Some e" for j e using notb [OF that, of b] that by auto
  show "vol_ok (f(b \<mapsto> empty_inode t)) s'"
    by (rule vol_add [OF vol fb b(1) used lt]) (use lone type in \<open>auto simp: blocks_of_empty empty_inode_sel\<close>)
  show "mounted f (st\<lparr>sfs_vol := s'\<rparr>)" by (rule mounted_vol [OF m vol]) (use fb in \<open>auto simp: b(5) unat_eq_iff\<close>)
qed

lemma makeobj_ok:
  assumes m: "mounted f st" and km: "\<forall>p. km = Some p \<longrightarrow> sfs_svs st p = None" and type: "t = SFS_TYPE_FILE \<or> t = SFS_TYPE_DIR"
  obtains r st' where "sfs_makeobj km room t st = Some (r, st')" "same_files f (sfs_vol st) (sfs_vol st')"
    "case r of Inl e \<Rightarrow> mounted f st' \<and> refs st' = refs st \<and> sfs_svs st' = sfs_svs st \<and> (e = ENOSPC \<or> e = ENOMEM \<or> rd_codes (sfs_vol st) \<noteq> [])
      | Inr v \<Rightarrow> sfs_svs st v = None \<and> refs st' = (refs st)(v := refs st v + 1) \<and> (\<exists>ino. f ino = None \<and> ino \<noteq> 0 \<and> mounted (f(ino \<mapsto> empty_inode t)) st' \<and>
          sfs_svs st' = (sfs_svs st)(v \<mapsto> \<lparr>sv_i = empty_inode t, sv_ino = ino, sv_dirty = True\<rparr>))"
    "rd_codes (sfs_vol st) = [] \<longrightarrow> rd_codes (sfs_vol st') = []"
proof -
  note d = mountedD [OF m]
  let ?s = "sfs_vol st"
  obtain r s1 where r: "sfs_balloc ?s = Some (r, s1)" "fs_ok s1" "same_volume ?s s1"
    "case r of Inl e \<Rightarrow> bm_used (sfs_freemap s1) = bm_used (sfs_freemap ?s) \<and> disk s1 = disk ?s \<and> (rd_codes ?s = [] \<longrightarrow> e = ENOSPC)
      | Inr b \<Rightarrow> b \<noteq> 0 \<and> unat b < unat (sb_nblocks ?s) \<and> \<not> in_use ?s b \<and>
          bm_used (sfs_freemap s1) = (bm_used (sfs_freemap ?s))(unat b := True) \<and> disk s1 = (disk ?s)(unat b := zeros)"
    by (rule balloc_ok [OF vol_okD(1) [OF d(1)]])
  show thesis
  proof (cases r)
    case (Inl e)
    have used: "in_use s1 b = in_use ?s b" "disk s1 = disk ?s" for b using r(4) Inl by simp_all
    have nb: "sb_nblocks s1 = sb_nblocks ?s" "rd_codes ?s = [] \<longrightarrow> rd_codes s1 = []" using r(3) by (simp_all add: same_volume_def)
    have ino: "in_use s1 j" if "f j = Some e'" for j e' using vol_okD(3) [OF d(1) that] by (simp add: used)
    have keep: "in_use s1 c \<and> disk s1 (unat c) = disk ?s (unat c)" if "f j = Some e'" "c \<in> blocks_of (file_at j e') ?s" for j e' c
      using blocks_owned [OF vol_okD(7) [OF d(1) that(1)] that(2)] by (simp add: used owned_def)
    have vol: "vol_ok f s1" by (rule vol_frame(1) [OF d(1) r(2) nb(1) ino keep]) simp_all
    have "same_files f ?s s1" by (rule vol_frame(2) [OF d(1) r(2) nb(1) ino keep]) simp_all
    moreover have "mounted f (st\<lparr>sfs_vol := s1\<rparr>)" by (rule mounted_vol [OF m vol]) (simp add: used)
    ultimately show thesis using r Inl nb(2) by (intro that [of "Inl e" "st\<lparr>sfs_vol := s1\<rparr>"]) (auto simp: sfs_makeobj_def)
  next
    case (Inr b)
    with r(1) have al: "sfs_balloc ?s = Some (Inr b, s1)" by simp
    note a = balloc_inode [OF m al type]
    let ?st = "st\<lparr>sfs_vol := s1\<rparr>" and ?f = "f(b \<mapsto> empty_inode t)"
    have none: "sv_ino sv \<noteq> b" if "sfs_svs st v = Some sv" for v sv using d(6) [OF that] a(1) by auto
    obtain found where find: "find_loaded b t (sfs_vnodes ?st) ?st = Some found" and
      "case found of None \<Rightarrow> True | Some v \<Rightarrow> v \<in> set (sfs_vnodes ?st) \<and> (\<exists>sv. sfs_svs ?st v = Some sv \<and> sv_ino sv = b)"
      using find_loaded_ok [OF a(3) order.refl, of t b] none by (fastforce split: option.splits)
    then have "found = None" using none by (cases found) auto
    obtain s2 where fr: "sfs_bfree b s1 = Some s2" "mounted f (?st\<lparr>sfs_vol := s2\<rparr>)" "same_files f s1 s2" "rd_codes s2 = rd_codes s1"
      by (rule free_lone_block [of f ?st b]) (use a in simp_all)
    show thesis
    proof (cases km)
      case None
      then have "sfs_makeobj km room t st = Some (Inl ENOMEM, st\<lparr>sfs_vol := s2\<rparr>)"
        using find \<open>found = None\<close> al fr(1) by (simp add: sfs_makeobj_def sfs_loadvnode_def)
      then show thesis using fr a(5,7) by (intro that) (auto intro: same_files_trans)
    next
      case (Some p)
      then have p: "sfs_svs st p = None" using km by simp
      have used: "sfs_bused b s1 = Some True" by (rule bused_ok [OF r(2) a(9,8)])
      obtain r1 rs where rd: "sfs_readblock b s1 = Some (r1, s1\<lparr>rd_codes := rs\<rparr>)" "fs_ok (s1\<lparr>rd_codes := rs\<rparr>)"
        "r1 = Inr (disk s1 (unat b)) \<or> (\<exists>e. r1 = Inl e) \<and> rd_codes s1 \<noteq> []" "rd_codes s1 = [] \<longrightarrow> rs = []"
        by (rule readblock_ok [OF r(2) a(8)])
      let ?s1 = "s1\<lparr>rd_codes := rs\<rparr>" and ?st1 = "st\<lparr>sfs_vol := s1\<lparr>rd_codes := rs\<rparr>\<rparr>"
      have mc: "mounted f ?st1" "same_files f s1 ?s1" using mounted_codes [OF a(3), of rs] rd(2) by simp_all
      have vol1: "vol_ok ?f ?s1"
        by (rule vol_frame(1) [OF a(4) rd(2)]) (use vol_okD(3) [OF a(4)] blocks_owned [OF vol_okD(7) [OF a(4)]] in \<open>auto simp: owned_def\<close>)
      obtain s3 where fr1: "sfs_bfree b ?s1 = Some s3" "mounted f (?st1\<lparr>sfs_vol := s3\<rparr>)" "same_files f ?s1 s3" "rd_codes s3 = rs"
        by (rule free_lone_block [of f ?st1 b]) (use a mc(1) vol_frame(3) [OF mountedD(1) [OF a(3)]] in \<open>simp_all add: blocks_of_def\<close>)
      have keep: "same_files f ?s ?s1" "same_files f ?s s3" using a(5) mc(2) fr1(3) by (blast intro: same_files_trans)+
      have quiet: "rd_codes ?s = [] \<longrightarrow> rs = []" using a(7) rd(4) by simp
      have start: "sfs_makeobj km room t st = (do {
          (result, st) \<leftarrow> (case r1 of Inl e \<Rightarrow> Some (Inl e, ?st1) | Inr blk \<Rightarrow> load_inode p room b t blk ?st1);
          (case result of Inl e \<Rightarrow> do { s \<leftarrow> sfs_bfree b (sfs_vol st); Some (Inl e, st\<lparr>sfs_vol := s\<rparr>) } | Inr sv \<Rightarrow> Some (Inr sv, st)) })"
        using find \<open>found = None\<close> al Some used rd(1) by (simp add: sfs_makeobj_def sfs_loadvnode_def Let_def)
      show thesis
      proof (cases r1)
        case (Inl e)
        then have "sfs_makeobj km room t st = Some (Inl e, st\<lparr>sfs_vol := s3\<rparr>)" by (simp add: start fr1(1))
        then show thesis using fr1(2,4) keep(2) quiet Inl rd(3) a(7) by (intro that) auto
      next
        case (Inr blk)
        then have blk: "bytes_dinode blk = empty_inode SFS_TYPE_INVAL" using rd(3) a(6) bytes_dinode_zeros by simp
        have t0: "t \<noteq> SFS_TYPE_INVAL" using type by auto
        obtain st' where ld: "load_inode p room b t blk ?st1 = (if room then Some (Inr p, st') else Some (Inl ENOMEM, ?st1))"
          "mounted ?f st'" "sfs_vol st' = sfs_vol ?st1" "sfs_svs st' = (sfs_svs ?st1)(p \<mapsto> \<lparr>sv_i = empty_inode t, sv_ino = b, sv_dirty = (t \<noteq> SFS_TYPE_INVAL)\<rparr>)"
          "refs st' = (refs ?st1)(p := refs ?st1 p + 1)"
          by (rule load_inode_ok [of ?f b ?st1 "empty_inode t" p blk t room])
            (use mc(1) vol1 a(1) p blk t0 in \<open>simp_all add: fun_upd_idem empty_inode_def\<close>)
        show thesis
        proof (cases room)
          case True
          then have "sfs_makeobj km room t st = Some (Inr p, st')" unfolding start using Inr ld(1) by simp
          then show thesis using ld p t0 keep(1) a(1,2) quiet by (intro that [of "Inr p" st']) auto
        next
          case False
          then have "sfs_makeobj km room t st = Some (Inl ENOMEM, st\<lparr>sfs_vol := s3\<rparr>)" unfolding start using Inr ld(1) fr1(1) by simp
          then show thesis using fr1(2,4) keep(2) quiet by (intro that) auto
        qed
      qed
    qed
  qed
qed

section \<open>Dropping a reference\<close>

definition unloaded :: "nat \<Rightarrow> sfs_state \<Rightarrow> sfs_state" where
  "unloaded v st = st\<lparr>sfs_vnodes := remove1 v (sfs_vnodes st), sfs_absvns := (sfs_absvns st)(v := None), sfs_svs := (sfs_svs st)(v := None)\<rparr>"

lemma unloaded_ok:
  assumes m: "mounted f st" and v: "sfs_svs st v = Some sv" and f': "f' = f \<and> \<not> sv_dirty sv \<or> f' = f(sv_ino sv := None)"
  shows "mounted f' (unloaded v st)"
proof -
  note d = mountedD [OF m]
  let ?av = "(sfs_absvns st)(v := None)"
  have eqs: "sfs_vol (unloaded v st) = sfs_vol st" "sfs_vnodes (unloaded v st) = remove1 v (sfs_vnodes st)" "sfs_absvns (unloaded v st) = ?av"
    and svs: "sfs_svs (unloaded v st) = (sfs_svs st)(v := None)" by (simp_all add: unloaded_def)
  have vol: "vol_ok f' (sfs_vol st)" using f' d(1) vol_drop by auto
  have dist: "distinct (remove1 v (sfs_vnodes st))" using d(2) by simp
  have dom: "dom (sfs_svs (unloaded v st)) = set (remove1 v (sfs_vnodes st))" "dom ?av = set (remove1 v (sfs_vnodes st))"
    using d(2-4) by (simp_all add: svs)
  have av: "vnodes_ok ?av" using d(5) by (simp add: vnodes_ok_def)
  have ne: "sv_ino sx \<noteq> sv_ino sv" if "sfs_svs (unloaded v st) x = Some sx" for x sx
    using that d(7) [OF v, of x sx] by (auto simp: svs split: if_splits)
  have table: "f' (sv_ino sx) = Some (sv_i sx)" if "sfs_svs (unloaded v st) x = Some sx" for x sx
    using that ne [OF that] f' d(6) [of x sx] by (auto simp: svs split: if_splits)
  have inj: "x = y" if "sfs_svs (unloaded v st) x = Some sx" "sfs_svs (unloaded v st) y = Some sy" "sv_ino sx = sv_ino sy" for x y sx sy
    using that d(7) [of x sx y sy] by (auto simp: svs split: if_splits)
  have on_disk: "disk (sfs_vol st) (unat i) = dinode_bytes e \<or> (\<exists>x sx. sfs_svs (unloaded v st) x = Some sx \<and> sv_ino sx = i \<and> sv_dirty sx)"
    if e: "f' i = Some e" for i e
  proof -
    have fi: "f i = Some e" using f' e by (auto split: if_splits)
    have other: "i \<noteq> sv_ino sv \<or> \<not> sv_dirty sv" using f' e by auto
    show ?thesis
    proof (cases "disk (sfs_vol st) (unat i) = dinode_bytes e")
      case False
      then obtain x sx where x: "sfs_svs st x = Some sx" "sv_ino sx = i" "sv_dirty sx" using d(8) [OF fi] by blast
      then have "x \<noteq> v" using other v by auto
      then show ?thesis using x by (auto simp: svs)
    qed simp
  qed
  show ?thesis by (rule mountedI [OF eqs vol dist dom av table inj on_disk])
qed

lemma truncated_step:
  assumes "truncated R sv s K sv' s'"
  shows "file_ok R sv' s'" and "\<forall>b\<in>R. disk s' (unat b) = disk s (unat b)" and "sb_nblocks s' = sb_nblocks s"
    and "rd_codes s = [] \<longrightarrow> rd_codes s' = []"
  using assms by (simp_all add: truncated_def same_volume_def)

lemma loaded_file_ok:
  assumes "mounted f st" and "sfs_svs st v = Some sv"
  shows "file_ok (rest sv (sfs_vol st)) sv (sfs_vol st)"
proof -
  note d = mountedD [OF assms(1)]
  have "file_ok {} sv (sfs_vol st)"
    using vol_okD(7) [OF d(1) d(6) [OF assms(2)]] same_inode(3) [of "file_at (sv_ino sv) (sv_i sv)" sv] by simp
  then show ?thesis by (rule file_ok_rest)
qed

text \<open>The last reference to a file.\<close>

lemma reclaim_last_ok:
  assumes m: "mounted f st" and v: "sfs_svs st v = Some sv" and one: "refs st v = 1"
  obtains r st' f' where "reclaim_last v st = Some (r, st')" "mounted f' st'" "same_files (f(sv_ino sv := None)) (sfs_vol st) (sfs_vol st')"
    "\<forall>j. j \<noteq> sv_ino sv \<longrightarrow> f' j = f j" "rd_codes (sfs_vol st) = [] \<longrightarrow> r = None"
    "sfi_linkcount (sv_i sv) \<noteq> 0 \<longrightarrow> r = None \<and> f' = f \<and> same_files f (sfs_vol st) (sfs_vol st')"
    "if r = None then refs st' = (refs st)(v := 0) \<and> sfs_svs st' = (sfs_svs st)(v := None) \<and> (sfi_linkcount (sv_i sv) = 0 \<longrightarrow> f' = f(sv_ino sv := None) \<and> \<not> in_use (sfs_vol st') (sv_ino sv))
     else refs st' = refs st"
    "rd_codes (sfs_vol st) = [] \<longrightarrow> rd_codes (sfs_vol st') = []" "\<forall>w. w \<noteq> v \<longrightarrow> sfs_svs st' w = sfs_svs st w"
proof -
  note d = mountedD [OF m]
  have in_table: "v \<in> set (sfs_vnodes st)" using v d(3) by auto
  then obtain x where x: "sfs_absvns st v = Some x" using d(4) by blast
  with one have cleanup: "vnode_cleanup v (sfs_absvns st) = Some ((sfs_absvns st)(v \<mapsto> x\<lparr>vn_refcount := 0, vn_fs := None, vn_ops := False\<rparr>))"
    by (simp add: vnode_cleanup_def vn_refs_def)
  have unl: "refs (unloaded v st0) = (refs st0)(v := 0)" "sfs_svs (unloaded v st0) = (sfs_svs st0)(v := None)" "sfs_vol (unloaded v st0) = sfs_vol st0" for st0
    by (simp_all add: unloaded_def fun_eq_iff)
  show thesis
  proof (cases "sfi_linkcount (sv_i sv) = 0")
    case False
    obtain s' where sy: "on_sv v sfs_sync_inode st = Some (None, st\<lparr>sfs_svs := (sfs_svs st)(v \<mapsto> sv\<lparr>sv_dirty := False\<rparr>), sfs_vol := s'\<rparr>)"
      "mounted f (st\<lparr>sfs_svs := (sfs_svs st)(v \<mapsto> sv\<lparr>sv_dirty := False\<rparr>), sfs_vol := s'\<rparr>)" "same_files f (sfs_vol st) s'"
      "s' = (sfs_vol st)\<lparr>disk := disk s'\<rparr>" by (rule sync_inode_ok [OF m v])
    let ?st1 = "st\<lparr>sfs_svs := (sfs_svs st)(v \<mapsto> sv\<lparr>sv_dirty := False\<rparr>), sfs_vol := s'\<rparr>"
    have "mounted f (unloaded v ?st1)" by (rule unloaded_ok [OF sy(2), where sv = "sv\<lparr>sv_dirty := False\<rparr>"]) simp_all
    moreover have "reclaim_last v st = Some (None, unloaded v ?st1)"
      using v False sy(1) in_table cleanup by (simp add: reclaim_last_def unloaded_def)
    moreover have "rd_codes s' = rd_codes (sfs_vol st)" by (subst sy(4)) simp
    ultimately show thesis using False sy(3) unl by (intro that [of None "unloaded v ?st1" f]) (auto simp: same_files_def)
  next
    case True
    obtain r sv1 s1 K where tr: "sfs_itrunc sv 0 (sfs_vol st) = Some (r, sv1, s1)" "rd_codes (sfs_vol st) = [] \<longrightarrow> r = None"
      "truncated (rest sv (sfs_vol st)) sv (sfs_vol st) K sv1 s1"
      using sfs_itrunc_ok [OF loaded_file_ok [OF m v], of 0] by auto
    note ts = truncated_step [OF tr(3)] and ed = itrunc_edited [OF tr(1)]
    let ?st1 = "st\<lparr>sfs_svs := (sfs_svs st)(v \<mapsto> sv1), sfs_vol := s1\<rparr>" and ?f1 = "f(sv_ino sv \<mapsto> sv_i sv1)"
    have m1: "mounted ?f1 ?st1" by (rule mounted_step(1) [OF m v ts(1) ed ts(2,3)])
    have others: "same_files (f(sv_ino sv := None)) (sfs_vol st) s1"
      using mounted_step(2) [OF m v ts(1) ed ts(2,3)] by (auto simp: same_files_def)
    have run1: "on_sv v (\<lambda>sv. sfs_itrunc sv 0) st = Some (r, ?st1)" using v tr(1) by (simp add: on_sv_def)
    have ino: "sv_ino sv1 = sv_ino sv" "sfi_linkcount (sv_i sv1) = 0" using ed True by (simp_all add: edited_def)
    show thesis
    proof (cases r)
      case (Some e)
      then have "reclaim_last v st = Some (Some e, ?st1)" using v True run1 by (simp add: reclaim_last_def)
      then show thesis using m1 others tr(2) Some ts(4) True by (intro that [of "Some e" ?st1 ?f1]) simp_all
    next
      case None
      have v1: "sfs_svs ?st1 v = Some sv1" by simp
      obtain s2 where sy: "on_sv v sfs_sync_inode ?st1 = Some (None, ?st1\<lparr>sfs_svs := (sfs_svs ?st1)(v \<mapsto> sv1\<lparr>sv_dirty := False\<rparr>), sfs_vol := s2\<rparr>)"
        "mounted ?f1 (?st1\<lparr>sfs_svs := (sfs_svs ?st1)(v \<mapsto> sv1\<lparr>sv_dirty := False\<rparr>), sfs_vol := s2\<rparr>)" "same_files ?f1 (sfs_vol ?st1) s2"
        "s2 = (sfs_vol ?st1)\<lparr>disk := disk s2\<rparr>" by (rule sync_inode_ok [OF m1 v1])
      let ?st2 = "?st1\<lparr>sfs_svs := (sfs_svs ?st1)(v \<mapsto> sv1\<lparr>sv_dirty := False\<rparr>), sfs_vol := s2\<rparr>"
      have m2: "mounted (?f1(sv_ino sv := None)) (unloaded v ?st2)" by (rule unloaded_ok [OF sy(2), where sv = "sv1\<lparr>sv_dirty := False\<rparr>"]) (simp_all add: ino)
      have f2: "?f1(sv_ino sv := None) = f(sv_ino sv := None)" by simp
      note vd = mountedD(1) [OF sy(2)]
      have fi: "?f1 (sv_ino sv) = Some (sv_i sv1)" by simp
      obtain s3 where fr: "sfs_bfree (sv_ino sv) (sfs_vol (unloaded v ?st2)) = Some s3" "mounted (f(sv_ino sv := None)) ((unloaded v ?st2)\<lparr>sfs_vol := s3\<rparr>)"
        "same_files (f(sv_ino sv := None)) (sfs_vol (unloaded v ?st2)) s3" "bm_used (sfs_freemap s3) = (bm_used (sfs_freemap (sfs_vol (unloaded v ?st2))))(unat (sv_ino sv) := False)"
        "rd_codes s3 = rd_codes (sfs_vol (unloaded v ?st2))"
      proof (rule free_lone_block [OF m2 [unfolded f2], of "sv_ino sv"])
        show "sv_ino sv \<notin> blocks_of (file_at j e) (sfs_vol (unloaded v ?st2))" if "(f(sv_ino sv := None)) j = Some e" for j e
          using vol_okD(8) [OF vd, of j e "sv_ino sv" "sv_i sv1"] that by (auto simp: unl split: if_splits)
      qed (use vol_okD(2-4) [OF vd fi] in \<open>simp_all add: unl\<close>)
      have "reclaim_last v st = Some (None, (unloaded v ?st2)\<lparr>sfs_vol := s3\<rparr>)"
        using v True run1 None sy(1) in_table cleanup fr(1) by (simp add: reclaim_last_def unl unloaded_def)
      moreover have "same_files (f(sv_ino sv := None)) (sfs_vol st) s3"
      proof -
        have "sfs_vol (unloaded v ?st2) = s2" "sfs_vol ?st1 = s1" by (simp_all add: unl)
        with fr(3) sy(3) have "same_files (f(sv_ino sv := None)) s2 s3" "same_files ?f1 s1 s2" by simp_all
        with same_files_drop [OF this(2)] others show ?thesis by (blast intro: same_files_trans)
      qed
      moreover have "rd_codes s2 = rd_codes s1" by (subst sy(4)) simp
      moreover have "\<not> in_use s3 (sv_ino sv)" by (simp add: fr(4))
      ultimately show thesis using fr(2,5) True ts(4) unl
        by (intro that [of None "(unloaded v ?st2)\<lparr>sfs_vol := s3\<rparr>" "f(sv_ino sv := None)"]) simp_all
    qed
  qed
qed

lemma decref_ok:
  assumes m: "mounted f st" and v: "sfs_svs st v = Some sv"
  obtains st' f' where "sfs_decref v st = Some st'" "mounted f' st'" "same_files (f(sv_ino sv := None)) (sfs_vol st) (sfs_vol st')"
    "\<forall>j. j \<noteq> sv_ino sv \<longrightarrow> f' j = f j" "rd_codes (sfs_vol st) = [] \<longrightarrow> rd_codes (sfs_vol st') = []"
    "1 < refs st v \<or> sfi_linkcount (sv_i sv) \<noteq> 0 \<longrightarrow> f' = f \<and> same_files f (sfs_vol st) (sfs_vol st')"
    "1 < refs st v \<or> sfi_linkcount (sv_i sv) \<noteq> 0 \<or> rd_codes (sfs_vol st) = [] \<longrightarrow> refs st' = (refs st)(v := refs st v - 1)"
    "refs st v = 1 \<and> sfi_linkcount (sv_i sv) = 0 \<and> rd_codes (sfs_vol st) = [] \<longrightarrow> f' = f(sv_ino sv := None) \<and> \<not> in_use (sfs_vol st') (sv_ino sv)"
    "\<forall>w. w \<noteq> v \<longrightarrow> sfs_svs st' w = sfs_svs st w"
proof -
  note d = mountedD [OF m]
  obtain x where x: "sfs_absvns st v = Some x" using v d(3,4) by (metis domD domI)
  have r: "refs st v = vn_refcount x" "0 < vn_refcount x" using x d(5) by (simp_all add: vn_refs_def vnodes_ok_def)
  show thesis
  proof (cases "vn_refcount x > 1")
    case True
    let ?st' = "st\<lparr>sfs_absvns := (sfs_absvns st)(v \<mapsto> x\<lparr>vn_refcount := vn_refcount x - 1\<rparr>)\<rparr>"
    have "sfs_decref v st = Some ?st'" using x True by (simp add: sfs_decref_def vnode_decref_count_def)
    moreover have "dom (sfs_absvns ?st') = dom (sfs_absvns st)" "vnodes_ok (sfs_absvns ?st')" using x d(5) True by (auto simp: vnodes_ok_def)
    then have "mounted f ?st'" using m by (simp add: mounted_def)
    ultimately show thesis using r True by (intro that [of ?st' f]) (simp_all add: fun_eq_iff)
  next
    case False
    then have one: "refs st v = 1" using r by simp
    obtain r st' f' where l: "reclaim_last v st = Some (r, st')" "mounted f' st'" "same_files (f(sv_ino sv := None)) (sfs_vol st) (sfs_vol st')"
      "\<forall>j. j \<noteq> sv_ino sv \<longrightarrow> f' j = f j" "rd_codes (sfs_vol st) = [] \<longrightarrow> r = None"
      "sfi_linkcount (sv_i sv) \<noteq> 0 \<longrightarrow> r = None \<and> f' = f \<and> same_files f (sfs_vol st) (sfs_vol st')"
      "if r = None then refs st' = (refs st)(v := 0) \<and> sfs_svs st' = (sfs_svs st)(v := None) \<and> (sfi_linkcount (sv_i sv) = 0 \<longrightarrow> f' = f(sv_ino sv := None) \<and> \<not> in_use (sfs_vol st') (sv_ino sv))
       else refs st' = refs st"
      "rd_codes (sfs_vol st) = [] \<longrightarrow> rd_codes (sfs_vol st') = []" "\<forall>w. w \<noteq> v \<longrightarrow> sfs_svs st' w = sfs_svs st w"
      by (rule reclaim_last_ok [OF m v one])
    have "st\<lparr>sfs_absvns := sfs_absvns st\<rparr> = st" by simp
    then have "sfs_decref v st = Some st'"
      using x one r l(1) by (simp add: sfs_decref_def vnode_decref_count_def sfs_reclaim_def)
    then show thesis using l one by (intro that [of st' f']) (auto split: if_splits)
  qed
qed

end
