(* ===== verification/SfsFsops.thy ===== *)
theory SfsFsops
  imports SfsTable
begin

text \<open>
  Mounting, writing back and unmounting a volume: \<open>kern/fs/sfs/sfs_fsops.c\<close>. The device is the state of the disk
  driver, which a mount extends to a volume and an unmount gives back. Messages are left
  out. \<open>al\<close> says which of the \<open>kmalloc\<close> calls of a mount succeed. The second half shows that a mount after a
  writeback gives back the volume as it was.
\<close>

section \<open>Geometry\<close>

abbreviation SFS_MAGIC :: u32 where "SFS_MAGIC \<equiv> 0xabadf001"
abbreviation SFS_VOLNAME_SIZE :: nat where "SFS_VOLNAME_SIZE \<equiv> 32"
abbreviation SFS_SUPER_BLOCK :: u32 where "SFS_SUPER_BLOCK \<equiv> 0"
abbreviation SFS_FREEMAP_START :: u32 where "SFS_FREEMAP_START \<equiv> 2"
abbreviation SFS_BITSPERBLOCK :: u32 where "SFS_BITSPERBLOCK \<equiv> 4096"

definition SFS_ROUNDUP :: "u32 \<Rightarrow> u32 \<Rightarrow> u32" where
  "SFS_ROUNDUP a b = (a + b - 1) div b * b"

definition SFS_FREEMAPBITS :: "u32 \<Rightarrow> u32" where
  "SFS_FREEMAPBITS nblocks = SFS_ROUNDUP nblocks SFS_BITSPERBLOCK"

definition SFS_FREEMAPBLOCKS :: "u32 \<Rightarrow> u32" where
  "SFS_FREEMAPBLOCKS nblocks = SFS_FREEMAPBITS nblocks div SFS_BITSPERBLOCK"

section \<open>The freemap\<close>

definition freemap_read :: "nat \<Rightarrow> sfs_fs \<Rightarrow> (errno option \<times> sfs_fs) option" where
  "freemap_read j s = do {
     (result, s) \<leftarrow> sfs_readblock (SFS_FREEMAP_START + word_of_nat j) s;
     Some (case result of
         Inl e \<Rightarrow> (Some e, s)
       | Inr b \<Rightarrow> (None, s\<lparr>sfs_freemap := (sfs_freemap s)\<lparr>bv :=
           (let v = bitmap_getdata (sfs_freemap s) in take (j * SFS_BLOCKSIZE) v @ b @ drop (j * SFS_BLOCKSIZE + SFS_BLOCKSIZE) v)\<rparr>\<rparr>)) }"

definition freemap_write :: "nat \<Rightarrow> sfs_fs \<Rightarrow> (errno option \<times> sfs_fs) option" where
  "freemap_write j s = sfs_writeblock (SFS_FREEMAP_START + word_of_nat j)
     (take SFS_BLOCKSIZE (drop (j * SFS_BLOCKSIZE) (bitmap_getdata (sfs_freemap s)))) s"

fun freemap_loop :: "uio_rw \<Rightarrow> nat list \<Rightarrow> sfs_fs \<Rightarrow> (errno option \<times> sfs_fs) option" where
  "freemap_loop rw [] s = Some (None, s)"
| "freemap_loop rw (j # js) s = do {
     (result, s) \<leftarrow> (if rw = UIO_READ then freemap_read j s else freemap_write j s);
     (case result of
        Some e \<Rightarrow> Some (Some e, s)
      | None \<Rightarrow> freemap_loop rw js s) }"

definition sfs_freemapio :: "uio_rw \<Rightarrow> sfs_fs \<Rightarrow> (errno option \<times> sfs_fs) option" where
  "sfs_freemapio rw s = freemap_loop rw [0..<unat (SFS_FREEMAPBLOCKS (sb_nblocks s))] s"

section \<open>Writing back\<close>

definition sfs_fsync :: "nat \<Rightarrow> sfs_state \<Rightarrow> (errno option \<times> sfs_state) option" where
  "sfs_fsync v st = on_sv v sfs_sync_inode st"

text \<open>The results of \<open>VOP_FSYNC\<close> are dropped.\<close>

fun sync_vnode_list :: "nat list \<Rightarrow> sfs_state \<Rightarrow> sfs_state option" where
  "sync_vnode_list [] st = Some st"
| "sync_vnode_list (v # vs) st = do {
     (result, st) \<leftarrow> sfs_fsync v st;
     sync_vnode_list vs st }"

definition sfs_sync_vnodes :: "sfs_state \<Rightarrow> (errno option \<times> sfs_state) option" where
  "sfs_sync_vnodes st = do { st \<leftarrow> sync_vnode_list (sfs_vnodes st) st; Some (None, st) }"

definition sfs_sync_freemap :: "sfs_fs \<Rightarrow> (errno option \<times> sfs_fs) option" where
  "sfs_sync_freemap s =
     (if sfs_freemapdirty s then do {
        (result, s) \<leftarrow> sfs_freemapio UIO_WRITE s;
        (case result of
           Some e \<Rightarrow> Some (Some e, s)
         | None \<Rightarrow> Some (None, s\<lparr>sfs_freemapdirty := False\<rparr>)) }
      else Some (None, s))"

definition superblock_bytes :: "sfs_state \<Rightarrow> block" where
  "superblock_bytes st = word_bytes (sb_magic st) @ word_bytes (sb_nblocks (sfs_vol st)) @ sb_volname st @ bytes_of (sb_reserved st)"

definition sfs_sync_superblock :: "sfs_state \<Rightarrow> (errno option \<times> sfs_state) option" where
  "sfs_sync_superblock st =
     (if sfs_superdirty (sfs_vol st) then do {
        (result, s) \<leftarrow> sfs_writeblock SFS_SUPER_BLOCK (superblock_bytes st) (sfs_vol st);
        (case result of
           Some e \<Rightarrow> Some (Some e, st\<lparr>sfs_vol := s\<rparr>)
         | None \<Rightarrow> Some (None, st\<lparr>sfs_vol := s\<lparr>sfs_superdirty := False\<rparr>\<rparr>)) }
      else Some (None, st))"

definition sfs_sync :: "sfs_state \<Rightarrow> (errno option \<times> sfs_state) option" where
  "sfs_sync st = do {
     (result, st) \<leftarrow> sfs_sync_vnodes st;
     (case result of
        Some e \<Rightarrow> Some (Some e, st)
      | None \<Rightarrow> do {
          (result, s) \<leftarrow> sfs_sync_freemap (sfs_vol st);
          let st = st\<lparr>sfs_vol := s\<rparr>;
          (case result of
             Some e \<Rightarrow> Some (Some e, st)
           | None \<Rightarrow> sfs_sync_superblock st) }) }"

definition sfs_getvolname :: "sfs_state \<Rightarrow> u8 list" where
  "sfs_getvolname st = takeWhile (\<lambda>c. c \<noteq> 0) (sb_volname st)"

section \<open>Unmounting\<close>

definition sfs_fs_destroy :: "sfs_state \<Rightarrow> lhd option" where
  "sfs_fs_destroy st = do {
     kassert (sfs_vnodes st = []);
     Some (lhd.truncate (sfs_vol st)) }"

text \<open>An error with the volume as it is, or the device.\<close>

definition sfs_unmount :: "sfs_state \<Rightarrow> (errno + lhd) option" where
  "sfs_unmount st =
     (if length (sfs_vnodes st) > 0 then Some (Inl EBUSY)
      else do {
        kassert (\<not> sfs_superdirty (sfs_vol st));
        kassert (\<not> sfs_freemapdirty (sfs_vol st));
        dev \<leftarrow> sfs_fs_destroy st;
        Some (Inr dev) })"

section \<open>Mounting\<close>

definition sfs_fs_create :: "bool \<Rightarrow> bool \<Rightarrow> nat \<Rightarrow> lhd \<Rightarrow> sfs_state option" where
  "sfs_fs_create km1 km2 fs dev =
     (if \<not> km1 then None
      else if \<not> km2 then None
      else Some \<lparr>sfs_absfs = fs, sb_magic = 0, sb_volname = [], sb_reserved = [],
        sfs_vol = lhd.extend dev (sfs_fs.fields 0 False \<lparr>nbits = 0, bv = []\<rparr> False),
        sfs_svs = Map.empty, sfs_absvns = Map.empty, sfs_vnodes = []\<rparr>)"

text \<open>The superblock of a block, its name ended in the last byte.\<close>

definition load_superblock :: "block \<Rightarrow> sfs_state \<Rightarrow> sfs_state" where
  "load_superblock b st = (let ws = words_of b in
     st\<lparr>sb_magic := ws ! 0, sfs_vol := (sfs_vol st)\<lparr>sb_nblocks := ws ! 1\<rparr>,
        sb_volname := take SFS_VOLNAME_SIZE (drop 8 b), sb_reserved := drop 10 ws\<rparr>)"

definition end_volname :: "sfs_state \<Rightarrow> sfs_state" where
  "end_volname st = st\<lparr>sb_volname := (sb_volname st)[SFS_VOLNAME_SIZE - 1 := 0]\<rparr>"

text \<open>From the check of the magic number on; an error with the device.\<close>

definition mount_volume :: "(nat \<Rightarrow> bool) \<Rightarrow> sfs_state \<Rightarrow> (errno \<times> lhd + sfs_state) option" where
  "mount_volume al st =
     (if sb_magic st \<noteq> SFS_MAGIC then do { dev \<leftarrow> sfs_fs_destroy st; Some (Inl (EINVAL, dev)) }
      else do {
        let st = end_volname st;
        fm \<leftarrow> bitmap_create (al 2) (al 3) (unat (SFS_FREEMAPBITS (sb_nblocks (sfs_vol st))));
        (case fm of
           None \<Rightarrow> do { dev \<leftarrow> sfs_fs_destroy st; Some (Inl (ENOMEM, dev)) }
         | Some fm \<Rightarrow> do {
             (result, s) \<leftarrow> sfs_freemapio UIO_READ ((sfs_vol st)\<lparr>sfs_freemap := fm\<rparr>);
             let st = st\<lparr>sfs_vol := s\<rparr>;
             (case result of
                Some e \<Rightarrow> do { dev \<leftarrow> sfs_fs_destroy st; Some (Inl (e, dev)) }
              | None \<Rightarrow> Some (Inr st)) }) })"

definition sfs_domount :: "(nat \<Rightarrow> bool) \<Rightarrow> nat \<Rightarrow> nat \<Rightarrow> lhd \<Rightarrow> (errno \<times> lhd + sfs_state) option" where
  "sfs_domount al fs blocksize dev =
     (if blocksize \<noteq> SFS_BLOCKSIZE then Some (Inl (ENXIO, dev))
      else case sfs_fs_create (al 0) (al 1) fs dev of
        None \<Rightarrow> Some (Inl (ENOMEM, dev))
      | Some st \<Rightarrow> do {
          (result, s) \<leftarrow> sfs_readblock SFS_SUPER_BLOCK (sfs_vol st);
          let st = st\<lparr>sfs_vol := s\<rparr>;
          (case result of
             Inl e \<Rightarrow> do { dev \<leftarrow> sfs_fs_destroy st; Some (Inl (e, dev)) }
           | Inr b \<Rightarrow> mount_volume al (load_superblock b st)) })"

section \<open>Writing back all vnodes\<close>

lemma sync_vnode_list_ok:
  assumes "mounted f st" and "set vs \<subseteq> dom (sfs_svs st)"
  shows "\<exists>st'. sync_vnode_list vs st = Some st' \<and> mounted f st' \<and> same_files f (sfs_vol st) (sfs_vol st') \<and>
    (\<exists>dk. sfs_vol st' = (sfs_vol st)\<lparr>disk := dk\<rparr> \<and> (\<forall>b. f b = None \<longrightarrow> dk (unat b) = disk (sfs_vol st) (unat b))) \<and>
    (\<forall>v sv. sfs_svs st' v = Some sv \<longrightarrow> v \<in> set vs \<or> \<not> (\<exists>so. sfs_svs st v = Some so \<and> sv_dirty so) \<longrightarrow> \<not> sv_dirty sv) \<and>
    (\<exists>g. st' = st\<lparr>sfs_svs := g, sfs_vol := sfs_vol st'\<rparr> \<and> dom g = dom (sfs_svs st))"
  using assms
proof (induction vs arbitrary: st)
  case Nil
  then show ?case by (intro exI [of _ st]) (auto intro!: exI [of _ "sfs_svs st"] exI [of _ "disk (sfs_vol st)"])
next
  case (Cons v vs)
  then obtain sv where v: "sfs_svs st v = Some sv" by auto
  obtain s1 where sy: "on_sv v sfs_sync_inode st = Some (None, st\<lparr>sfs_svs := (sfs_svs st)(v \<mapsto> sv\<lparr>sv_dirty := False\<rparr>), sfs_vol := s1\<rparr>)"
    "mounted f (st\<lparr>sfs_svs := (sfs_svs st)(v \<mapsto> sv\<lparr>sv_dirty := False\<rparr>), sfs_vol := s1\<rparr>)" "same_files f (sfs_vol st) s1"
    "s1 = (sfs_vol st)\<lparr>disk := disk s1\<rparr>" "\<forall>b. b \<noteq> sv_ino sv \<longrightarrow> disk s1 (unat b) = disk (sfs_vol st) (unat b)"
    by (rule sync_inode_ok [OF Cons.prems(1) v])
  let ?st1 = "st\<lparr>sfs_svs := (sfs_svs st)(v \<mapsto> sv\<lparr>sv_dirty := False\<rparr>), sfs_vol := s1\<rparr>"
  have fi: "f (sv_ino sv) = Some (sv_i sv)" by (rule mountedD(6) [OF Cons.prems(1) v])
  have "set vs \<subseteq> dom (sfs_svs ?st1)" using Cons.prems(2) v by auto
  from Cons.IH [OF sy(2) this] obtain st' dk g where IH: "sync_vnode_list vs ?st1 = Some st'" "mounted f st'" "same_files f (sfs_vol ?st1) (sfs_vol st')"
    "sfs_vol st' = (sfs_vol ?st1)\<lparr>disk := dk\<rparr>" "\<forall>b. f b = None \<longrightarrow> dk (unat b) = disk (sfs_vol ?st1) (unat b)"
    "\<forall>w sw. sfs_svs st' w = Some sw \<longrightarrow> w \<in> set vs \<or> \<not> (\<exists>so. sfs_svs ?st1 w = Some so \<and> sv_dirty so) \<longrightarrow> \<not> sv_dirty sw"
    "st' = ?st1\<lparr>sfs_svs := g, sfs_vol := sfs_vol st'\<rparr>" "dom g = dom (sfs_svs ?st1)" by blast
  have s1: "sfs_vol ?st1 = s1" by simp
  have ne: "b \<noteq> sv_ino sv" if "f b = None" for b using that fi by auto
  have "sfs_vol st' = (sfs_vol st)\<lparr>disk := dk\<rparr>" unfolding IH(4) s1 by (subst sy(4)) simp
  moreover have "dk (unat b) = disk (sfs_vol st) (unat b)" if "f b = None" for b
    using IH(5) sy(5) ne [OF that] that unfolding s1 by simp
  moreover have "sync_vnode_list (v # vs) st = Some st'" using sy(1) IH(1) by (simp add: sfs_fsync_def)
  moreover have "same_files f (sfs_vol st) (sfs_vol st')" using sy(3) IH(3) unfolding s1 by (rule same_files_trans)
  moreover have "\<not> sv_dirty sw" if "sfs_svs st' w = Some sw" "w \<in> set (v # vs) \<or> \<not> (\<exists>so. sfs_svs st w = Some so \<and> sv_dirty so)" for w sw
  proof (cases "w = v")
    case True
    then show ?thesis using IH(6) [rule_format, OF that(1)] by simp
  next
    case False
    then show ?thesis using IH(6) [rule_format, OF that(1)] that(2) by auto
  qed
  moreover have "st' = st\<lparr>sfs_svs := g, sfs_vol := sfs_vol st'\<rparr>" by (subst IH(7)) simp
  moreover have "dom g = dom (sfs_svs st)" using IH(8) v by auto
  ultimately show ?case using IH(2) by blast
qed

lemma sync_vnodes_ok:
  assumes m: "mounted f st"
  obtains st' dk g where "sfs_sync_vnodes st = Some (None, st')" "mounted f st'" "same_files f (sfs_vol st) (sfs_vol st')"
    "st' = st\<lparr>sfs_svs := g, sfs_vol := (sfs_vol st)\<lparr>disk := dk\<rparr>\<rparr>" "\<forall>b. f b = None \<longrightarrow> dk (unat b) = disk (sfs_vol st) (unat b)"
    "\<forall>i d. f i = Some d \<longrightarrow> dk (unat i) = dinode_bytes d"
proof -
  note d = mountedD [OF m]
  have "set (sfs_vnodes st) \<subseteq> dom (sfs_svs st)" using d(3) by simp
  from sync_vnode_list_ok [OF m this] obtain st' dk g where st': "sync_vnode_list (sfs_vnodes st) st = Some st'" "mounted f st'"
    "same_files f (sfs_vol st) (sfs_vol st')" "sfs_vol st' = (sfs_vol st)\<lparr>disk := dk\<rparr>" "\<forall>b. f b = None \<longrightarrow> dk (unat b) = disk (sfs_vol st) (unat b)"
    "\<forall>v sv. sfs_svs st' v = Some sv \<longrightarrow> v \<in> set (sfs_vnodes st) \<or> \<not> (\<exists>so. sfs_svs st v = Some so \<and> sv_dirty so) \<longrightarrow> \<not> sv_dirty sv"
    "st' = st\<lparr>sfs_svs := g, sfs_vol := sfs_vol st'\<rparr>" "dom g = dom (sfs_svs st)" by blast
  have g: "sfs_svs st' = g" by (subst st'(7)) simp
  have "\<not> sv_dirty sv" if "sfs_svs st' v = Some sv" for v sv
    using st'(6) that st'(8) d(3) g by blast
  then have "disk (sfs_vol st') (unat i) = dinode_bytes e" if "f i = Some e" for i e
    using mountedD(8) [OF st'(2) that] by blast
  then have "\<forall>i e. f i = Some e \<longrightarrow> dk (unat i) = dinode_bytes e" by (simp add: st'(4))
  moreover have "sfs_sync_vnodes st = Some (None, st')" by (simp add: sfs_sync_vnodes_def st'(1))
  moreover have "st' = st\<lparr>sfs_svs := g, sfs_vol := (sfs_vol st)\<lparr>disk := dk\<rparr>\<rparr>" using st'(7) unfolding st'(4) .
  ultimately show thesis using st'(2,3,5) by (intro that)
qed

section \<open>The metadata on the disk\<close>

lemma read_quiet:
  assumes quiet: "rd_codes s = []" and len: "length (disk s (unat blk)) = SFS_BLOCKSIZE" and range: "unat blk < unat (d_nblocks s)"
  shows "sfs_readblock blk s = Some (Inr (disk s (unat blk)), s)"
proof -
  let ?u = "SFSUIO (replicate SFS_BLOCKSIZE 0) blk UIO_READ"
  have req: "block_request None ?u blk s" using range by (simp add: block_request_def SFSUIO_def uio_kinit_def uio_ready_def)
  from lhd_read_block [OF req SFSUIO_sel(1) len] obtain r u' and s' :: sfs_fs where run: "lhd_io None ?u s = Some (r, u', s')"
    and res: "case r of None \<Rightarrow> moved (disk s (unat blk)) ?u (s\<lparr>rd_codes := tl (rd_codes s)\<rparr>) u' s'
     | Some e \<Rightarrow> u' = ?u \<and> same_rest (s\<lparr>rd_codes := tl (rd_codes s)\<rparr>) s' \<and>
         (e = EFAULT \<and> uio_segflg ?u \<noteq> UIO_SYSSPACE \<or> lhd_code_to_errno (next_code (rd_codes s)) = Some e \<and> s' = s\<lparr>rd_codes := tl (rd_codes s)\<rparr>)"
    by blast
  have none: "r = None" using res SFSUIO_sel(2) by (cases r) (auto simp: quiet)
  have same: "s\<lparr>rd_codes := tl (rd_codes s)\<rparr> = s" using quiet by simp
  have m: "moved (disk s (unat blk)) ?u s u' s'" using res unfolding none same by simp
  have "s' = s" using m by (simp add: moved_def Let_def SFSUIO_sel)
  moreover have "kbuffer u' = disk s (unat blk)" using m len by (simp add: kbuffer_def moved_def Let_def SFSUIO_sel)
  moreover have "sfs_rwblock 10 None ?u s = Some (None, u', s')" using run none by (simp add: numeral_eq_Suc)
  ultimately show ?thesis by (simp add: sfs_readblock_def)
qed

lemma words_of_append: "length xs mod 4 = 0 \<Longrightarrow> words_of (xs @ ys) = words_of xs @ words_of ys"
proof (induction xs rule: words_of.induct)
  case (1 a b c d xs)
  then show ?case by simp
qed auto

lemma words_of_word: "words_of (word_bytes w @ ys) = w # words_of ys"
  by (simp add: word_bytes_def bytes_word_bytes)

abbreviation freemap_blocks :: "sfs_fs \<Rightarrow> nat" where "freemap_blocks s \<equiv> unat (SFS_FREEMAPBLOCKS (sb_nblocks s))"

definition chunk :: "u8 list \<Rightarrow> nat \<Rightarrow> block" where
  "chunk v j = take SFS_BLOCKSIZE (drop (j * SFS_BLOCKSIZE) v)"

definition meta_block :: "sfs_fs \<Rightarrow> nat \<Rightarrow> bool" where
  "meta_block s b \<longleftrightarrow> b = 0 \<or> 2 \<le> b \<and> b < freemap_blocks s + 2"

text \<open>The superblock and the freemap lie on the volume, outside of all files, and what has not changed is on the disk.\<close>

definition meta_ok :: "itable \<Rightarrow> sfs_state \<Rightarrow> bool" where
  "meta_ok f st \<longleftrightarrow> (let s = sfs_vol st; n = freemap_blocks s in
     sb_magic st = SFS_MAGIC \<and> length (sb_volname st) = SFS_VOLNAME_SIZE \<and> last (sb_volname st) = 0 \<and> length (sb_reserved st) = 118 \<and>
     n + 2 \<le> unat (sb_nblocks s) \<and> nbits (sfs_freemap s) = unat (SFS_FREEMAPBITS (sb_nblocks s)) \<and>
     (\<forall>b. meta_block s (unat b) \<longrightarrow> f b = None \<and> (\<forall>j e. f j = Some e \<longrightarrow> b \<notin> blocks_of (file_at j e) s)) \<and>
     (sfs_superdirty s \<or> disk s 0 = superblock_bytes st) \<and>
     (sfs_freemapdirty s \<or> (\<forall>j<n. disk s (j + 2) = chunk (bv (sfs_freemap s)) j)))"

lemma freemap_bits: "unat (SFS_FREEMAPBITS n) = unat (SFS_FREEMAPBLOCKS n) * 4096"
proof -
  define x where "x = n + 4096 - 1"
  have d: "unat (x div 4096) = unat x div 4096" by (simp add: unat_div)
  have "unat x div 4096 < 1048576" using unat_lt_32 [of x] by (intro less_mult_imp_div_less) simp
  then have "unat (x div 4096) * unat (4096 :: u32) < 2 ^ LENGTH(32)" unfolding d by simp
  then have m: "unat (x div 4096 * 4096) = unat x div 4096 * 4096" using unat_mult_lem [of "x div 4096" 4096] by (simp add: d)
  then have "unat (x div 4096 * 4096 div 4096) = unat x div 4096" by (simp add: unat_div)
  with m show ?thesis by (simp add: SFS_FREEMAPBITS_def SFS_FREEMAPBLOCKS_def SFS_ROUNDUP_def x_def [symmetric])
qed

lemma freemap_length:
  assumes "bitmap_wf b" and "nbits b = k * 4096"
  shows "length (bv b) = k * SFS_BLOCKSIZE"
  using assms by (simp add: bitmap_wf_def DIVROUNDUP_def)

lemma freemap_block:
  assumes "j + 2 < unat (n::u32)"
  shows "unat (SFS_FREEMAP_START + word_of_nat j) = j + 2"
proof -
  have "j + 2 < 4294967296" using assms unat_lt_32 [of n] by linarith
  then have "unat (word_of_nat (j + 2) :: u32) = j + 2" by (rule unat_word_of_nat_32)
  then show ?thesis by (simp add: add.commute)
qed

text \<open>Writing the freemap.\<close>

lemma freemap_write_ok:
  assumes "fs_ok s" and "\<forall>j\<in>set js. j + 2 < unat (sb_nblocks s) \<and> length (chunk (bv (sfs_freemap s)) j) = SFS_BLOCKSIZE"
  shows "\<exists>dk. freemap_loop UIO_WRITE js s = Some (None, s\<lparr>disk := dk\<rparr>) \<and> fs_ok (s\<lparr>disk := dk\<rparr>) \<and>
    (\<forall>j. dk (j + 2) = (if j \<in> set js then chunk (bv (sfs_freemap s)) j else disk s (j + 2))) \<and> (\<forall>b<2. dk b = disk s b)"
  using assms
proof (induction js arbitrary: s)
  case Nil
  then show ?case by (intro exI [of _ "disk s"]) simp
next
  case (Cons j js)
  let ?c = "chunk (bv (sfs_freemap s)) j" and ?b = "SFS_FREEMAP_START + word_of_nat j"
  have j: "unat ?b = j + 2" "j + 2 < unat (sb_nblocks s)" "length ?c = SFS_BLOCKSIZE" using Cons.prems(2) freemap_block [of j "sb_nblocks s"] by simp_all
  have lt: "unat ?b < unat (sb_nblocks s)" using j by simp
  note w = writeblock_ok [OF Cons.prems(1) lt j(3), unfolded j(1)]
  let ?s = "s\<lparr>disk := (disk s)(j + 2 := ?c)\<rparr>"
  have "freemap_loop UIO_WRITE (j # js) s = freemap_loop UIO_WRITE js ?s"
    using w(1) by (simp add: freemap_write_def chunk_def bitmap_getdata_def)
  moreover have pre: "\<forall>j\<in>set js. j + 2 < unat (sb_nblocks ?s) \<and> length (chunk (bv (sfs_freemap ?s)) j) = SFS_BLOCKSIZE" using Cons.prems(2) by simp
  from Cons.IH [OF w(2) pre] obtain dk where "freemap_loop UIO_WRITE js ?s = Some (None, ?s\<lparr>disk := dk\<rparr>)" "fs_ok (?s\<lparr>disk := dk\<rparr>)"
    "\<forall>j. dk (j + 2) = (if j \<in> set js then chunk (bv (sfs_freemap ?s)) j else disk ?s (j + 2))" "\<forall>b<2. dk b = disk ?s b" by blast
  ultimately show ?case by (intro exI [of _ dk]) auto
qed

text \<open>Reading it back.\<close>

lemma take_chunk: "take ((k + 1) * SFS_BLOCKSIZE) v = take (k * SFS_BLOCKSIZE) v @ chunk v k"
proof -
  have "(k + 1) * SFS_BLOCKSIZE = k * SFS_BLOCKSIZE + SFS_BLOCKSIZE" by simp
  then show ?thesis unfolding chunk_def by (simp only: take_add)
qed

lemma freemap_read_ok:
  assumes "rd_codes s = []" and "\<forall>b. length (disk s b) = SFS_BLOCKSIZE" and "n + 2 \<le> unat (sb_nblocks s)" "unat (sb_nblocks s) \<le> unat (d_nblocks s)"
    and "\<forall>j<n. disk s (j + 2) = chunk v j" and "length v = n * SFS_BLOCKSIZE" "length (bv (sfs_freemap s)) = n * SFS_BLOCKSIZE"
    and "k \<le> n" "take (k * SFS_BLOCKSIZE) (bv (sfs_freemap s)) = take (k * SFS_BLOCKSIZE) v"
  shows "freemap_loop UIO_READ [k..<n] s = Some (None, s\<lparr>sfs_freemap := (sfs_freemap s)\<lparr>bv := v\<rparr>\<rparr>)"
  using assms
proof (induction "n - k" arbitrary: k s)
  case 0
  then have "bv (sfs_freemap s) = v" by simp
  then show ?case using 0 by simp
next
  case (Suc m)
  then have k: "k < n" "[k..<n] = k # [Suc k..<n]" by (simp_all add: upt_conv_Cons)
  let ?w = "bv (sfs_freemap s)" and ?b = "SFS_FREEMAP_START + word_of_nat k"
  have b: "unat ?b = k + 2" using k(1) Suc.prems(3) by (intro freemap_block [of k "sb_nblocks s"]) simp
  have rd: "sfs_readblock ?b s = Some (Inr (disk s (unat ?b)), s)"
    by (rule read_quiet [OF Suc.prems(1)]) (use Suc.prems(2-4) b k(1) in simp_all)
  let ?w' = "take (k * SFS_BLOCKSIZE) ?w @ chunk v k @ drop (k * SFS_BLOCKSIZE + SFS_BLOCKSIZE) ?w"
  let ?s = "s\<lparr>sfs_freemap := (sfs_freemap s)\<lparr>bv := ?w'\<rparr>\<rparr>"
  have step: "freemap_loop UIO_READ [k..<n] s = freemap_loop UIO_READ [Suc k..<n] ?s"
    unfolding k(2) using rd Suc.prems(5) k(1) by (simp add: freemap_read_def bitmap_getdata_def Let_def b)
  have kn: "k * SFS_BLOCKSIZE + SFS_BLOCKSIZE \<le> n * SFS_BLOCKSIZE" using k(1) by simp
  have lc: "length (chunk v k) = SFS_BLOCKSIZE" using kn Suc.prems(6) by (simp add: chunk_def)
  have len: "length ?w' = n * SFS_BLOCKSIZE" using kn Suc.prems(7) lc by simp
  have "take (Suc k * SFS_BLOCKSIZE) ?w' = take (Suc k * SFS_BLOCKSIZE) v"
    using take_chunk [of k v] Suc.prems(9) lc kn Suc.prems(6,7) by simp
  with Suc.hyps(1) [of "Suc k" ?s] Suc.hyps(2) Suc.prems k(1) len show ?case unfolding step by simp
qed

section \<open>Writing back the volume\<close>

lemma meta_okD:
  assumes "meta_ok f st"
  shows "sb_magic st = SFS_MAGIC" and "length (sb_volname st) = SFS_VOLNAME_SIZE" and "last (sb_volname st) = 0" and "length (sb_reserved st) = 118"
    and "freemap_blocks (sfs_vol st) + 2 \<le> unat (sb_nblocks (sfs_vol st))" and "nbits (sfs_freemap (sfs_vol st)) = freemap_blocks (sfs_vol st) * 4096"
    and "f b = Some d \<Longrightarrow> \<not> meta_block (sfs_vol st) (unat b)"
    and "f j = Some e \<Longrightarrow> b \<in> blocks_of (file_at j e) (sfs_vol st) \<Longrightarrow> \<not> meta_block (sfs_vol st) (unat b)"
    and "\<not> sfs_superdirty (sfs_vol st) \<Longrightarrow> disk (sfs_vol st) 0 = superblock_bytes st"
    and "\<not> sfs_freemapdirty (sfs_vol st) \<Longrightarrow> j' < freemap_blocks (sfs_vol st) \<Longrightarrow> disk (sfs_vol st) (j' + 2) = chunk (bv (sfs_freemap (sfs_vol st))) j'"
  using assms unfolding meta_ok_def Let_def freemap_bits by (metis option.distinct(1))+

lemma meta_okI:
  assumes mt: "meta_ok f st" and same: "sb_magic st' = sb_magic st" "sb_volname st' = sb_volname st" "sb_reserved st' = sb_reserved st"
    "sb_nblocks (sfs_vol st') = sb_nblocks (sfs_vol st)" "sfs_freemap (sfs_vol st') = sfs_freemap (sfs_vol st)"
    and blocks: "\<And>j e. f j = Some e \<Longrightarrow> blocks_of (file_at j e) (sfs_vol st') = blocks_of (file_at j e) (sfs_vol st)"
    and super: "sfs_superdirty (sfs_vol st') \<or> disk (sfs_vol st') 0 = superblock_bytes st"
    and fmap: "sfs_freemapdirty (sfs_vol st') \<or> (\<forall>j<freemap_blocks (sfs_vol st). disk (sfs_vol st') (j + 2) = chunk (bv (sfs_freemap (sfs_vol st))) j)"
  shows "meta_ok f st'"
proof -
  note md = meta_okD [OF mt]
  have "superblock_bytes st' = superblock_bytes st" by (simp add: superblock_bytes_def same)
  moreover have "meta_block (sfs_vol st') = meta_block (sfs_vol st)" by (simp add: fun_eq_iff meta_block_def same)
  moreover have "f b = None \<and> (\<forall>j e. f j = Some e \<longrightarrow> b \<notin> blocks_of (file_at j e) (sfs_vol st'))" if "meta_block (sfs_vol st) (unat b)" for b
  proof (intro conjI allI impI)
    show "f b = None" using md(7) [of b] that by (cases "f b") auto
    show "b \<notin> blocks_of (file_at j e) (sfs_vol st')" if "f j = Some e" for j e
      using md(8) [OF that, of b] \<open>meta_block (sfs_vol st) (unat b)\<close> blocks [OF that] by auto
  qed
  ultimately show ?thesis using md(1-6) super fmap by (simp add: meta_ok_def Let_def same freemap_bits)
qed

text \<open>The metadata blocks are written.\<close>

lemma meta_written:
  assumes m: "mounted f st" and mt: "meta_ok f st" and s': "s' = (sfs_vol st)\<lparr>disk := dk, sfs_superdirty := a, sfs_freemapdirty := b\<rparr>" "fs_ok s'"
    and dk: "\<And>c. \<not> meta_block (sfs_vol st) c \<Longrightarrow> dk c = disk (sfs_vol st) c"
    and super: "a \<or> dk 0 = superblock_bytes st" and fmap: "b \<or> (\<forall>j<freemap_blocks (sfs_vol st). dk (j + 2) = chunk (bv (sfs_freemap (sfs_vol st))) j)"
  shows "mounted f (st\<lparr>sfs_vol := s'\<rparr>)" and "meta_ok f (st\<lparr>sfs_vol := s'\<rparr>)" and "same_files f (sfs_vol st) s'"
proof -
  note d = mountedD [OF m] and md = meta_okD [OF mt]
  have nb: "sb_nblocks s' = sb_nblocks (sfs_vol st)" by (simp add: s'(1))
  have ino: "in_use s' j" if "f j = Some e" for j e using vol_okD(3) [OF d(1) that] by (simp add: s'(1))
  have keep: "in_use s' c \<and> disk s' (unat c) = disk (sfs_vol st) (unat c)" if "f j = Some e" "c \<in> blocks_of (file_at j e) (sfs_vol st)" for j e c
    using blocks_owned [OF vol_okD(7) [OF d(1) that(1)] that(2)] dk [OF md(8) [OF that]] by (simp add: s'(1) owned_def)
  have vol: "vol_ok f s'" by (rule vol_frame(1) [OF d(1) s'(2) nb ino keep]) simp_all
  show "same_files f (sfs_vol st) s'" by (rule vol_frame(2) [OF d(1) s'(2) nb ino keep]) simp_all
  have same: "blocks_of (file_at j e) s' = blocks_of (file_at j e) (sfs_vol st)" if "f j = Some e" for j e
    by (rule vol_frame(3) [OF d(1) s'(2) nb]) (use ino keep that in blast)+
  show "mounted f (st\<lparr>sfs_vol := s'\<rparr>)" by (rule mounted_vol [OF m vol]) (use dk md(7) in \<open>simp add: s'(1)\<close>)
  show "meta_ok f (st\<lparr>sfs_vol := s'\<rparr>)"
    using same super fmap by (intro meta_okI [OF mt]) (simp_all add: s'(1))
qed

lemma sync_ok:
  assumes m: "mounted f st" and mt: "meta_ok f st"
  obtains g s' where "sfs_sync st = Some (None, st\<lparr>sfs_svs := g, sfs_vol := s'\<rparr>)" "mounted f (st\<lparr>sfs_svs := g, sfs_vol := s'\<rparr>)"
    "meta_ok f (st\<lparr>sfs_svs := g, sfs_vol := s'\<rparr>)" "same_files f (sfs_vol st) s'" "\<not> sfs_superdirty s'" "\<not> sfs_freemapdirty s'"
    "rd_codes s' = rd_codes (sfs_vol st)" "\<forall>i d. f i = Some d \<longrightarrow> disk s' (unat i) = dinode_bytes d" "dom g = set (sfs_vnodes st)"
proof -
  note md = meta_okD [OF mt]
  obtain st1 dk g where v: "sfs_sync_vnodes st = Some (None, st1)" "mounted f st1" "same_files f (sfs_vol st) (sfs_vol st1)"
    "st1 = st\<lparr>sfs_svs := g, sfs_vol := (sfs_vol st)\<lparr>disk := dk\<rparr>\<rparr>" "\<forall>b. f b = None \<longrightarrow> dk (unat b) = disk (sfs_vol st) (unat b)"
    "\<forall>i d. f i = Some d \<longrightarrow> dk (unat i) = dinode_bytes d" by (rule sync_vnodes_ok [OF m])
  let ?s1 = "(sfs_vol st)\<lparr>disk := dk\<rparr>" and ?n = "freemap_blocks (sfs_vol st)"
  have vol1: "sfs_vol st1 = ?s1" by (simp add: v(4))
  have meta_same: "dk c = disk (sfs_vol st) c" if "meta_block (sfs_vol st) c" for c
  proof -
    have "c < 4294967296" using that md(5) unat_lt_32 [of "sb_nblocks (sfs_vol st)"] unfolding meta_block_def by linarith
    then have c: "unat (word_of_nat c :: u32) = c" by (rule unat_word_of_nat_32)
    then have "f (word_of_nat c) = None" using md(7) [of "word_of_nat c"] that by (cases "f (word_of_nat c)") auto
    with v(5) c show ?thesis by metis
  qed
  have blocks1: "blocks_of (file_at j e) ?s1 = blocks_of (file_at j e) (sfs_vol st)" if "f j = Some e" for j e
  proof -
    have "disk ?s1 (unat b) = disk (sfs_vol st) (unat b)" if b: "b \<in> blocks_of (file_at j e) (sfs_vol st)" for b
    proof -
      have "f b = None" using vol_okD(8) [OF mountedD(1) [OF m] \<open>f j = Some e\<close>] b by (cases "f b") auto
      then show ?thesis using v(5) by simp
    qed
    then show ?thesis using blocks_owned [OF vol_okD(7) [OF mountedD(1) [OF m] that]] mountedD(1) [OF v(2)]
      by (intro untouched(3) [OF vol_okD(7) [OF mountedD(1) [OF m] that]]) (auto simp: vol1 vol_ok_def owned_def)
  qed
  have "meta_block (sfs_vol st) 0" "\<And>j. j < ?n \<Longrightarrow> meta_block (sfs_vol st) (j + 2)" by (simp_all add: meta_block_def)
  then have mt1: "meta_ok f st1"
    using blocks1 md(9,10) meta_same by (intro meta_okI [OF mt]) (auto simp: vol1, simp_all add: v(4))
  note md1 = meta_okD [OF mt1]
  have mb: "meta_block (sfs_vol st1) = meta_block (sfs_vol st)" by (simp add: fun_eq_iff meta_block_def vol1)
  have fs1: "fs_ok ?s1" using vol_okD(1) [OF mountedD(1) [OF v(2)]] by (simp add: vol1)
  have bw: "bitmap_wf (sfs_freemap ?s1)" using fs1 by (simp add: fs_ok_def)
  have bl: "length (bv (sfs_freemap ?s1)) = ?n * SFS_BLOCKSIZE" by (rule freemap_length [OF bw]) (use md(6) in simp)
  have pre: "\<forall>j\<in>set [0..<?n]. j + 2 < unat (sb_nblocks ?s1) \<and> length (chunk (bv (sfs_freemap ?s1)) j) = SFS_BLOCKSIZE"
  proof
    fix j assume "j \<in> set [0..<?n]"
    then have "j < ?n" by simp
    then have "j * SFS_BLOCKSIZE + SFS_BLOCKSIZE \<le> ?n * SFS_BLOCKSIZE" and "j + 2 < unat (sb_nblocks ?s1)" using md(5) by simp_all
    then show "j + 2 < unat (sb_nblocks ?s1) \<and> length (chunk (bv (sfs_freemap ?s1)) j) = SFS_BLOCKSIZE" using bl by (simp add: chunk_def)
  qed
  from freemap_write_ok [OF fs1 pre] obtain dk2 where w: "freemap_loop UIO_WRITE [0..<?n] ?s1 = Some (None, ?s1\<lparr>disk := dk2\<rparr>)" "fs_ok (?s1\<lparr>disk := dk2\<rparr>)"
    "\<forall>j. dk2 (j + 2) = (if j \<in> set [0..<?n] then chunk (bv (sfs_freemap ?s1)) j else disk ?s1 (j + 2))" "\<forall>b<2. dk2 b = disk ?s1 b" by blast
  define dk3 where "dk3 = (if sfs_freemapdirty (sfs_vol st) then dk2 else dk)"
  have dk3: "dk3 c = dk c" if "\<not> meta_block (sfs_vol st) c" for c
  proof (cases "c < 2")
    case False
    then obtain j where "c = j + 2" by (metis le_add_diff_inverse2 not_less)
    then show ?thesis using w(3) that by (simp add: dk3_def meta_block_def)
  qed (use w(4) in \<open>simp add: dk3_def\<close>)
  have dk3_map: "\<forall>j<?n. dk3 (j + 2) = chunk (bv (sfs_freemap (sfs_vol st))) j"
    using w(3) md1(10) by (simp add: dk3_def vol1)
  have dk3_0: "dk3 0 = dk 0" using w(4) by (simp add: dk3_def)
  let ?s3 = "?s1\<lparr>disk := dk3, sfs_freemapdirty := False\<rparr>"
  have fm: "sfs_sync_freemap ?s1 = Some (None, ?s3)"
    using w(1) by (cases "sfs_freemapdirty (sfs_vol st)") (simp_all add: sfs_sync_freemap_def sfs_freemapio_def dk3_def)
  have fs3: "fs_ok ?s3" using w(2) fs1 by (cases "sfs_freemapdirty (sfs_vol st)") (simp_all add: dk3_def fs_ok_def)
  have l0: "length (superblock_bytes st) = SFS_BLOCKSIZE" using md(2,4) by (simp add: superblock_bytes_def word_bytes_def)
  have nz: "unat SFS_SUPER_BLOCK < unat (sb_nblocks ?s3)" using md(5) by simp
  note w0 = writeblock_ok [OF fs3 nz l0]
  define dk4 where "dk4 = (if sfs_superdirty (sfs_vol st) then dk3(0 := superblock_bytes st) else dk3)"
  let ?s4 = "?s1\<lparr>disk := dk4, sfs_superdirty := False, sfs_freemapdirty := False\<rparr>" and ?st = "st\<lparr>sfs_svs := g, sfs_vol := (sfs_vol st)\<lparr>disk := dk, sfs_freemapdirty := False\<rparr>\<rparr>"
  have sbb: "superblock_bytes (st1\<lparr>sfs_vol := ?s3\<rparr>) = superblock_bytes st" by (simp add: superblock_bytes_def v(4))
  have sb: "sfs_sync_superblock (st1\<lparr>sfs_vol := ?s3\<rparr>) = Some (None, st1\<lparr>sfs_vol := ?s4\<rparr>)"
  proof (cases "sfs_superdirty (sfs_vol st)")
    case True
    then show ?thesis unfolding sfs_sync_superblock_def sbb using w0(1) by (simp add: dk4_def)
  next
    case False
    have "?s4 = ?s3" unfolding dk4_def if_not_P [OF False] using False by (cases "sfs_vol st") simp
    then show ?thesis unfolding sfs_sync_superblock_def using False by simp
  qed
  have fs4: "fs_ok ?s4" using w0(2) fs3 by (cases "sfs_superdirty (sfs_vol st)") (simp_all add: dk4_def fs_ok_def)
  have dk4: "dk4 c = disk (sfs_vol st1) c" if "\<not> meta_block (sfs_vol st1) c" for c
  proof -
    have "c \<noteq> 0" using that by (auto simp: meta_block_def)
    then show ?thesis using dk3 [of c] that unfolding mb by (simp add: dk4_def vol1)
  qed
  have sup: "False \<or> dk4 0 = superblock_bytes st1" using md1(9) by (simp add: dk4_def dk3_0 vol1 superblock_bytes_def v(4))
  have map4: "False \<or> (\<forall>j<freemap_blocks (sfs_vol st1). dk4 (j + 2) = chunk (bv (sfs_freemap (sfs_vol st1))) j)"
    using dk3_map by (simp add: dk4_def vol1)
  have s4: "?s4 = (sfs_vol st1)\<lparr>disk := dk4, sfs_superdirty := False, sfs_freemapdirty := False\<rparr>" by (simp add: vol1)
  note mw = meta_written [OF v(2) mt1 s4 fs4 dk4 sup map4]
  have st': "st1\<lparr>sfs_vol := ?s4\<rparr> = st\<lparr>sfs_svs := g, sfs_vol := ?s4\<rparr>" by (simp add: v(4))
  have run: "sfs_sync st = Some (None, st\<lparr>sfs_svs := g, sfs_vol := ?s4\<rparr>)"
    unfolding st' [symmetric] using sb fm by (simp add: sfs_sync_def v(1) vol1)
  have same: "same_files f (sfs_vol st) ?s4" using v(3) mw(3) by (rule same_files_trans)
  have ondisk: "\<forall>i d. f i = Some d \<longrightarrow> disk ?s4 (unat i) = dinode_bytes d"
    using v(6) dk4 md1(7) by (simp add: vol1)
  have dom: "dom g = set (sfs_vnodes st)" using mountedD(3) [OF v(2)] by (simp add: v(4))
  show thesis
    by (rule that [OF run mw(1) [unfolded st'] mw(2) [unfolded st'] same _ _ _ ondisk dom]) simp_all
qed

section \<open>Mounting again\<close>

text \<open>The superblock of a volume, read back.\<close>

lemma load_superblock_ok:
  assumes "length (sb_volname st) = SFS_VOLNAME_SIZE" and "last (sb_volname st) = 0"
  shows "end_volname (load_superblock (superblock_bytes st) st0) = st0\<lparr>sb_magic := sb_magic st, sb_volname := sb_volname st,
    sb_reserved := sb_reserved st, sfs_vol := (sfs_vol st0)\<lparr>sb_nblocks := sb_nblocks (sfs_vol st)\<rparr>\<rparr>"
    and "sb_magic (load_superblock (superblock_bytes st) st0) = sb_magic st"
proof -
  let ?b = "superblock_bytes st" and ?ws = "words_of (superblock_bytes st)"
  have ws: "?ws = sb_magic st # sb_nblocks (sfs_vol st) # words_of (sb_volname st) @ sb_reserved st"
    using assms(1) by (simp add: superblock_bytes_def words_of_word words_of_append)
  have len: "length (words_of (sb_volname st)) = 8" by (simp add: assms(1))
  have w: "?ws ! 0 = sb_magic st" "?ws ! 1 = sb_nblocks (sfs_vol st)" "drop 10 ?ws = sb_reserved st" using len by (simp_all add: ws)
  have vn: "take SFS_VOLNAME_SIZE (drop 8 ?b) = sb_volname st" using assms(1) by (simp add: superblock_bytes_def word_bytes_def)
  have "sb_volname st ! 31 = 0" using assms by (cases "sb_volname st = []") (auto simp: last_conv_nth)
  then have upd: "(sb_volname st)[31 := 0] = sb_volname st" by (metis list_update_id)
  show "sb_magic (load_superblock ?b st0) = sb_magic st" by (simp add: load_superblock_def Let_def w)
  show "end_volname (load_superblock ?b st0) = st0\<lparr>sb_magic := sb_magic st, sb_volname := sb_volname st,
      sb_reserved := sb_reserved st, sfs_vol := (sfs_vol st0)\<lparr>sb_nblocks := sb_nblocks (sfs_vol st)\<rparr>\<rparr>"
    unfolding end_volname_def load_superblock_def Let_def w vn by (simp add: upd)
qed

lemma remount_ok:
  fixes fs :: nat
  assumes m: "mounted f st" and mt: "meta_ok f st" and clean: "\<not> sfs_superdirty (sfs_vol st)" "\<not> sfs_freemapdirty (sfs_vol st)"
    and quiet: "rd_codes (sfs_vol st) = []" and ondisk: "\<forall>i d. f i = Some d \<longrightarrow> disk (sfs_vol st) (unat i) = dinode_bytes d"
    and al: "al 0" "al 1" "al 2" "al 3"
  defines "st' \<equiv> st\<lparr>sfs_absfs := fs, sfs_svs := Map.empty, sfs_absvns := Map.empty, sfs_vnodes := []\<rparr>"
  shows "sfs_domount al fs SFS_BLOCKSIZE (lhd.truncate (sfs_vol st)) = Some (Inr st')" and "mounted f st'"
proof -
  let ?s = "sfs_vol st" and ?n = "freemap_blocks (sfs_vol st)"
  note md = meta_okD [OF mt] and fs_ok = vol_okD(1) [OF mountedD(1) [OF m]]
  have fk: "bitmap_wf (sfs_freemap ?s)" "unat (sb_nblocks ?s) \<le> unat (d_nblocks ?s)" "\<forall>b. length (disk ?s b) = SFS_BLOCKSIZE"
    using fs_ok by (simp_all add: fs_ok_def)
  define s0 where "s0 = lhd.extend (lhd.truncate ?s) (sfs_fs.fields 0 False \<lparr>nbits = 0, bv = []\<rparr> False)"
  have s0: "rd_codes s0 = []" "disk s0 = disk ?s" "d_nblocks s0 = d_nblocks ?s"
    by (simp_all add: s0_def lhd.defs sfs_fs.defs quiet)
  define st0 where "st0 = \<lparr>sfs_absfs = fs, sb_magic = 0, sb_volname = [], sb_reserved = [], sfs_vol = s0, sfs_svs = Map.empty,
    sfs_absvns = Map.empty, sfs_vnodes = []\<rparr>"
  have d0: "disk s0 0 = superblock_bytes st" using md(9) clean(1) by (simp add: s0)
  have "length (disk s0 0) = SFS_BLOCKSIZE" using fk(3) by (simp add: s0)
  moreover have "0 < unat (d_nblocks s0)" using fk(2) md(5) by (simp add: s0)
  ultimately have rd: "sfs_readblock SFS_SUPER_BLOCK s0 = Some (Inr (superblock_bytes st), s0)"
    using read_quiet [OF s0(1), of SFS_SUPER_BLOCK] d0 by simp
  have start: "sfs_domount al fs SFS_BLOCKSIZE (lhd.truncate ?s) = mount_volume al (load_superblock (superblock_bytes st) st0)"
    using al rd by (simp add: sfs_domount_def sfs_fs_create_def s0_def [symmetric] st0_def)
  note ls = load_superblock_ok [OF md(2,3), of st0]
  let ?N = "unat (SFS_FREEMAPBITS (sb_nblocks ?s))"
  obtain b where b: "bitmap_create True True ?N = Some (Some b)" "bitmap_wf b" "nbits b = ?N" using bitmap_create_ok [of ?N] by blast
  have lb: "length (bv b) = ?n * SFS_BLOCKSIZE" "length (bv (sfs_freemap ?s)) = ?n * SFS_BLOCKSIZE"
    using freemap_length [OF b(2)] freemap_length [OF fk(1) md(6)] b(3) by (simp_all add: freemap_bits)
  let ?s1 = "s0\<lparr>sb_nblocks := sb_nblocks ?s, sfs_freemap := b\<rparr>"
  have nb1: "sb_nblocks ?s1 = sb_nblocks ?s" by simp
  have io: "sfs_freemapio UIO_READ ?s1 = Some (None, ?s1\<lparr>sfs_freemap := b\<lparr>bv := bv (sfs_freemap ?s)\<rparr>\<rparr>)"
  proof -
    have "freemap_loop UIO_READ [0..<?n] ?s1 = Some (None, ?s1\<lparr>sfs_freemap := (sfs_freemap ?s1)\<lparr>bv := bv (sfs_freemap ?s)\<rparr>\<rparr>)"
      by (rule freemap_read_ok) (use s0 fk(2,3) md(5,10) clean(2) lb in simp_all)
    then show ?thesis unfolding sfs_freemapio_def nb1 by simp
  qed
  have "b\<lparr>bv := bv (sfs_freemap ?s)\<rparr> = sfs_freemap ?s" using b(3) md(6) by (cases b; cases "sfs_freemap ?s") (simp add: freemap_bits)
  then have vol: "?s1\<lparr>sfs_freemap := b\<lparr>bv := bv (sfs_freemap ?s)\<rparr>\<rparr> = ?s"
    using clean by (cases ?s) (simp add: s0_def lhd.defs sfs_fs.defs)
  have ev: "sfs_vol (end_volname (load_superblock (superblock_bytes st) st0)) = s0\<lparr>sb_nblocks := sb_nblocks ?s\<rparr>"
    unfolding ls(1) by (simp add: st0_def)
  have "mount_volume al (load_superblock (superblock_bytes st) st0) =
      Some (Inr ((end_volname (load_superblock (superblock_bytes st) st0))\<lparr>sfs_vol := ?s\<rparr>))"
    using ls(2) md(1) b(1) al io unfolding vol by (simp add: mount_volume_def ev Let_def)
  moreover have "(end_volname (load_superblock (superblock_bytes st) st0))\<lparr>sfs_vol := ?s\<rparr> = st'"
    unfolding ls(1) by (cases st) (simp add: st'_def st0_def)
  ultimately show "sfs_domount al fs SFS_BLOCKSIZE (lhd.truncate ?s) = Some (Inr st')" unfolding start by simp
  have eqs: "sfs_vol st' = ?s" "sfs_vnodes st' = []" "sfs_absvns st' = Map.empty" "sfs_svs st' = Map.empty" by (simp_all add: st'_def)
  show "mounted f st'"
    by (rule mountedI [OF eqs(1-3) mountedD(1) [OF m]]) (use ondisk in \<open>simp_all add: eqs vnodes_ok_def\<close>)
qed

end
