(* ===== verification/SfsProperties.thy ===== *)
theory SfsProperties
  imports SfsFsops
begin

text \<open>
  The properties of SFS, with a small volume for the witnesses: eight blocks, of which a file
  with the number 3 has block 4 as its first, and in a second state the blocks 6 and 7 through the
  indirect block 5. A third one is mounted, with nothing written back yet.
\<close>

section \<open>A volume\<close>

definition demo_dinode :: "u32 \<Rightarrow> u32 \<Rightarrow> sfs_vnode" where
  "demo_dinode n ib = \<lparr>sv_i = \<lparr>sfi_size = n, sfi_type = SFS_TYPE_FILE, sfi_linkcount = 1,
     sfi_direct = 4 # replicate 14 0, sfi_indirect = ib, sfi_waste = replicate 110 0\<rparr>, sv_ino = 3, sv_dirty = False\<rparr>"

definition demo_volume :: "u8 \<Rightarrow> sfs_fs" where
  "demo_volume used = \<lparr>kmem = (\<lambda>_. 0), umem = (\<lambda>_. 0), accessible = (\<lambda>_. True),
     disk = (\<lambda>_. zeros)(5 := bytes_of (6 # 7 # replicate 126 0)), d_nblocks = 8, rd_codes = [], wr_codes = [],
     sb_nblocks = 8, sfs_superdirty = False, sfs_freemap = \<lparr>nbits = 8, bv = [used]\<rparr>, sfs_freemapdirty = False\<rparr>"

lemma demo_used: "bm_used (sfs_freemap (demo_volume u)) i \<longleftrightarrow> i < 8 \<and> bit u i"
  by (auto simp: demo_volume_def bm_used_def bit_at_def)

lemma below_8: "(i::nat) < 8 \<longleftrightarrow> i \<in> {0, 1, 2, 3, 4, 5, 6, 7}"
  by auto

lemma demo_fs_ok: "bit u 0 \<Longrightarrow> fs_ok (demo_volume u)"
proof -
  assume u: "bit u 0"
  have "length (disk (demo_volume u) b) = SFS_BLOCKSIZE" for b by (simp add: demo_volume_def)
  moreover have "bitmap_wf (sfs_freemap (demo_volume u))" by (simp add: demo_volume_def bitmap_wf_def DIVROUNDUP_def)
  ultimately show ?thesis using u unfolding fs_ok_def demo_used by (simp add: demo_volume_def)
qed

lemma demo_map:
  "file_map (demo_dinode n 0) (demo_volume u) i = (if i = 0 then 4 else 0)"
  "file_map (demo_dinode n 5) (demo_volume u) i = (if i = 0 then 4 else if i = 15 then 6 else if i = 16 then 7 else 0)"
proof -
  have "replicate 14 (0::u32) ! (i - 1) = 0" if "i < 15" "i \<noteq> 0" using that by simp
  moreover have "replicate 126 (0::u32) ! (i - 15 - 2) = 0" if "17 \<le> i" "i < 143" using that by simp
  ultimately show "file_map (demo_dinode n 0) (demo_volume u) i = (if i = 0 then 4 else 0)"
    "file_map (demo_dinode n 5) (demo_volume u) i = (if i = 0 then 4 else if i = 15 then 6 else if i = 16 then 7 else 0)"
    by (auto simp: file_map_def demo_dinode_def demo_volume_def idwords_def nth_Cons' simp del: replicate.simps)
qed

lemma demo_small: "file_ok {0, 1, 2, 3} (demo_dinode n 0) (demo_volume 0x1f)"
  using demo_fs_ok [of "0x1f"] unfolding file_ok_def demo_map owned_def demo_used
  by (auto simp: demo_volume_def demo_dinode_def)

lemma demo_large: "file_ok {0, 1, 2, 3} (demo_dinode n 5) (demo_volume 0xff)"
  using demo_fs_ok [of "0xff"] unfolding file_ok_def demo_map owned_def demo_used
  by (auto simp: demo_volume_def demo_dinode_def split: if_splits)

section \<open>Properties\<close>

text \<open>C32: A call of \<open>sfs_bmap\<close> for a block a file can have never panics, whatever errors the disk gives on reads.
  The file stays sound, so every block of it is marked in use, owned by it alone and mapped once; no byte
  of the file or of a block in use for something else (\<open>R\<close>) changes; a block that is
  handed out for writing is the one that was there or one that was free; without an allocation nothing
  changes; and the only error of a sound disk is \<open>ENOSPC\<close>, for an allocation.\<close>

lemma bmap_keeps_content:
  assumes "file_ok R sv s" and "unat fileblock < SFS_NDIRECT + SFS_DBPERIDB"
  shows "\<exists>r sv' s'. sfs_bmap sv fileblock doalloc s = Some (r, sv', s') \<and> file_ok R sv' s' \<and>
    (\<forall>off. file_byte sv' s' off = file_byte sv s off) \<and> sfi_size (sv_i sv') = sfi_size (sv_i sv) \<and>
    (\<forall>b. in_use s b \<longrightarrow> in_use s' b) \<and> (\<forall>b\<in>R. disk s' (unat b) = disk s (unat b)) \<and>
    (\<forall>j. j \<noteq> unat fileblock \<longrightarrow> file_map sv' s' j = file_map sv s j) \<and>
    (case r of Inl e \<Rightarrow> file_map sv' s' (unat fileblock) = file_map sv s (unat fileblock) \<and> (rd_codes s = [] \<longrightarrow> doalloc \<and> e = ENOSPC)
     | Inr b \<Rightarrow> file_map sv' s' (unat fileblock) = b \<and> (doalloc \<longrightarrow> b \<noteq> 0) \<and>
         (file_map sv s (unat fileblock) \<noteq> 0 \<longrightarrow> b = file_map sv s (unat fileblock))) \<and>
    (\<not> doalloc \<longrightarrow> sv' = sv \<and> (\<exists>rs. s' = s\<lparr>rd_codes := rs\<rparr>))"
proof -
  from sfs_bmap_ok [OF assms, of doalloc] obtain r and sv' :: sfs_vnode and s' :: sfs_fs where
    "sfs_bmap sv fileblock doalloc s = Some (r, sv', s')" "bmapped R sv s (unat fileblock) doalloc (r, sv', s')"
    by (metis prod_cases3)
  then show ?thesis by (intro exI [of _ r] exI [of _ sv'] exI [of _ s']) (simp add: bmapped_def)
qed

text \<open>On the small volume, the first block of the indirect block.\<close>

lemma bmap_keeps_content_witness:
  "\<exists>r sv' s'. sfs_bmap (demo_dinode 512 0) 15 True (demo_volume 0x1f) = Some (r, sv', s') \<and> file_ok {0, 1, 2, 3} sv' s' \<and>
    (\<forall>off. file_byte sv' s' off = file_byte (demo_dinode 512 0) (demo_volume 0x1f) off)"
  using bmap_keeps_content [OF demo_small, of 15 512 True] by fastforce

text \<open>C33: A truncation of a sound file never panics. On success the file is sound, has the new size, the bytes before
  the new end are as before, and the disk blocks in use are those from before without the blocks that are
  dropped, and without the indirect block when the file has none any more. Dropped are
  the direct blocks at or past the new end in blocks, but of the blocks behind the indirect block only those
  strictly past it: one block past the end is kept (\<open>kept_blocks\<close>). Nothing of a block in
  use for something else changes, and a sound disk gives success.\<close>

lemma truncate_frees_blocks:
  assumes "file_ok R sv s" and "0 \<le> len" and "len < 2 ^ 32"
  shows "\<exists>r sv' s'. sfs_itrunc sv len s = Some (r, sv', s') \<and> (rd_codes s = [] \<longrightarrow> r = None) \<and>
    (r = None \<longrightarrow> file_ok R sv' s' \<and> sfi_size (sv_i sv') = word_of_int len \<and>
      (\<forall>off. int off < len \<longrightarrow> file_byte sv' s' off = file_byte sv s off) \<and>
      (\<forall>i. file_map sv' s' i = (if kept_blocks (nat ((len + 511) div 512)) i then file_map sv s i else 0)) \<and>
      (\<forall>b. b \<noteq> 0 \<longrightarrow> (in_use s' b \<longleftrightarrow> in_use s b \<and>
         (\<forall>i. file_map sv s i = b \<longrightarrow> kept_blocks (nat ((len + 511) div 512)) i) \<and>
         (sfi_indirect (sv_i sv) = b \<longrightarrow> sfi_indirect (sv_i sv') = b))) \<and>
      (\<forall>b\<in>R. disk s' (unat b) = disk s (unat b)))"
proof -
  from sfs_itrunc_ok [OF assms] obtain r and sv' :: sfs_vnode and s' :: sfs_fs where run: "sfs_itrunc sv len s = Some (r, sv', s')"
    "rd_codes s = [] \<longrightarrow> r = None" and t: "r = None \<longrightarrow> truncated R sv s (kept_blocks (nat ((len + 511) div 512))) sv' s' \<and>
    sfi_size (sv_i sv') = word_of_int len" by metis
  have "kept_blocks (nat ((len + 511) div 512)) (off div SFS_BLOCKSIZE)" if "int off < len" for off
  proof -
    have "int (off div 512) < (len + 511) div 512" using that by (simp add: zdiv_int)
    then have "off div 512 < nat ((len + 511) div 512)" by linarith
    then show ?thesis by (simp add: kept_blocks_def)
  qed
  with run t show ?thesis by (intro exI [of _ r] exI [of _ sv'] exI [of _ s']) (auto simp: truncated_def)
qed

text \<open>A file of 17 blocks is cut to 15. The block behind the new end stays in the file and in use.\<close>

lemma truncate_frees_blocks_witness:
  "\<exists>sv' s'. sfs_itrunc (demo_dinode 8704 5) 7680 (demo_volume 0xff) = Some (None, sv', s') \<and> file_ok {0, 1, 2, 3} sv' s' \<and>
    file_map sv' s' 15 = 6 \<and> in_use s' 6 \<and> \<not> in_use s' 7"
proof -
  have e: "rd_codes (demo_volume 0xff) = []" by (simp add: demo_volume_def)
  have k: "kept_blocks (nat ((7680 + 511) div 512)) i \<longleftrightarrow> i \<le> 15 \<and> i \<noteq> 15 \<or> i = 15" for i by (auto simp: kept_blocks_def)
  have used: "in_use (demo_volume 0xff) 6" "in_use (demo_volume 0xff) 7" by (simp_all add: demo_used)
  have ib: "sfi_indirect (sv_i (demo_dinode 8704 5)) = 5" by (simp add: demo_dinode_def)
  from truncate_frees_blocks [OF demo_large, of 7680 8704] obtain sv' and s' :: sfs_fs where
    r: "sfs_itrunc (demo_dinode 8704 5) 7680 (demo_volume 0xff) = Some (None, sv', s')" "file_ok {0, 1, 2, 3} sv' s'"
    and m: "\<forall>i. file_map sv' s' i = (if kept_blocks (nat ((7680 + 511) div 512)) i then file_map (demo_dinode 8704 5) (demo_volume 0xff) i else 0)"
    and u: "\<forall>b. b \<noteq> 0 \<longrightarrow> (in_use s' b \<longleftrightarrow> in_use (demo_volume 0xff) b \<and>
         (\<forall>i. file_map (demo_dinode 8704 5) (demo_volume 0xff) i = b \<longrightarrow> kept_blocks (nat ((7680 + 511) div 512)) i) \<and>
         (sfi_indirect (sv_i (demo_dinode 8704 5)) = b \<longrightarrow> sfi_indirect (sv_i sv') = b))"
    unfolding e by auto
  have "file_map sv' s' 15 = 6" using m unfolding k demo_map by simp
  moreover have "in_use s' 6" using u [rule_format, of 6] used unfolding k demo_map ib by simp
  moreover have "\<not> in_use s' 7" using u [rule_format, of 7] unfolding k demo_map ib by auto
  ultimately show ?thesis using r by blast
qed

text \<open>C34: \<open>sfs_io\<close> writes what the request holds, wherever it begins and ends in its blocks. It never panics; it
  writes a first part \<open>bs\<close> of the bytes of the request, all of them if it returns success, at the
  offset of the request and nowhere else in the file; the request is advanced by that much, the size grows to
  the end of what was written if that is behind the old end, the file stays sound and no block in use
  for something else changes. With a disk that gives no read errors the only errors are \<open>EFAULT\<close> (the program's
  buffer is not accessible), \<open>ENOSPC\<close> and \<open>EFBIG\<close>. Offsets are below 4 GB and the volume not larger than that: beyond,
  the byte offset of a block wraps.\<close>

lemma file_is_written:
  assumes "file_ok R sv s" and "uio_ready cur u" and "uio_rw u = UIO_WRITE"
    and "0 \<le> uio_offset u" and "nat (uio_offset u) + unat (uio_resid u) < 2 ^ 32" and "unat (sb_nblocks s) \<le> 2 ^ 23"
  shows "\<exists>r sv' u' s' bs. sfs_io cur sv u s = Some (r, sv', u', s') \<and> file_ok R sv' s' \<and> (\<forall>b\<in>R. disk s' (unat b) = disk s (unat b)) \<and>
    take (length bs) (source u s) = bs \<and> uio_offset u' = uio_offset u + int (length bs) \<and> unat (uio_resid u) = length bs + unat (uio_resid u') \<and>
    file_byte sv' s' = store (file_byte sv s) (nat (uio_offset u)) bs \<and>
    unat (sfi_size (sv_i sv')) = new_size (unat (sfi_size (sv_i sv))) (uio_offset u) (length bs) \<and>
    (case r of None \<Rightarrow> uio_resid u' = 0 | Some e \<Rightarrow> rd_codes s = [] \<longrightarrow> e = EFAULT \<or> e = ENOSPC \<or> e = EFBIG)"
  using assms by (intro sfs_io_write) (auto simp: in_reach_def)

text \<open>Three bytes from the kernel across the end of the first block of the small file.\<close>

lemma file_is_written_witness:
  "\<exists>r sv' u' s' bs. sfs_io None (demo_dinode 512 0) (uio_kinit [7, 8, 9] 510 UIO_WRITE) (demo_volume 0x1f) = Some (r, sv', u', s') \<and>
    file_ok {0, 1, 2, 3} sv' s' \<and> file_byte sv' s' = store (file_byte (demo_dinode 512 0) (demo_volume 0x1f)) 510 bs \<and>
    take (length bs) [7, 8, 9] = bs \<and> (r = None \<longrightarrow> bs = [7, 8, 9] \<and> unat (sfi_size (sv_i sv')) = 513)"
proof -
  let ?u = "uio_kinit [7, 8, 9] 510 UIO_WRITE"
  have u: "uio_ready None ?u" "uio_rw ?u = UIO_WRITE" "uio_offset ?u = 510" "unat (uio_resid ?u) = 3" "source ?u (demo_volume 0x1f) = [7, 8, 9]"
    by (simp_all add: uio_ready_def uio_kinit_def source_def)
  have v: "unat (sb_nblocks (demo_volume 0x1f)) \<le> 2 ^ 23" "unat (sfi_size (sv_i (demo_dinode 512 0))) = 512"
    by (simp_all add: demo_volume_def demo_dinode_def)
  from file_is_written [OF demo_small u(1,2) _ _ v(1), of 512] u(3,4) obtain r sv' u' and s' :: sfs_fs and bs where
    run: "sfs_io None (demo_dinode 512 0) ?u (demo_volume 0x1f) = Some (r, sv', u', s')" "file_ok {0, 1, 2, 3} sv' s'"
    and bs: "take (length bs) (source ?u (demo_volume 0x1f)) = bs" "3 = length bs + unat (uio_resid u')"
    and fb: "file_byte sv' s' = store (file_byte (demo_dinode 512 0) (demo_volume 0x1f)) 510 bs"
    and size: "unat (sfi_size (sv_i sv')) = new_size (unat (sfi_size (sv_i (demo_dinode 512 0)))) 510 (length bs)"
    and res: "case r of None \<Rightarrow> uio_resid u' = 0 | Some e \<Rightarrow> rd_codes (demo_volume 0x1f) = [] \<longrightarrow> e = EFAULT \<or> e = ENOSPC \<or> e = EFBIG"
    by auto
  have "bs = [7, 8, 9]" if "r = None" using bs res that by (auto simp: u(5))
  moreover have "unat (sfi_size (sv_i sv')) = 513" if "bs = [7, 8, 9]" using size that by (simp add: new_size_def v(2))
  ultimately show ?thesis using run bs(1) fb by (intro exI [of _ r] exI [of _ sv'] exI [of _ u'] exI [of _ s'] exI [of _ bs]) (simp add: u(5))
qed

text \<open>C35: \<open>sfs_io\<close> reads what the file holds. It never panics and changes no byte of the file and no block in use for
  something else; on success it has delivered the bytes of the file from the offset of the request on, up to the
  end of the request or of the file, whichever comes first, into the buffer of the request, and has advanced the
  request by that much: in the kernel's buffer behind what was there, in a program's buffer from its address on,
  with every other byte of the program's memory as before. Holes read as zeros.\<close>

lemma file_is_read:
  assumes "file_ok R sv s" and "uio_ready cur u" and "uio_rw u = UIO_READ"
    and "0 \<le> uio_offset u" and "nat (uio_offset u) + unat (uio_resid u) < 2 ^ 32" and "unat (sb_nblocks s) \<le> 2 ^ 23"
  shows "\<exists>r sv' u' s'. sfs_io cur sv u s = Some (r, sv', u', s') \<and> file_ok R sv' s' \<and> (\<forall>b\<in>R. disk s' (unat b) = disk s (unat b)) \<and>
    file_byte sv' s' = file_byte sv s \<and> sfi_size (sv_i sv') = sfi_size (sv_i sv) \<and>
    (r = None \<longrightarrow>
      (let n = min (unat (uio_resid u)) (unat (sfi_size (sv_i sv)) - nat (uio_offset u));
           bs = map (file_byte sv s) [nat (uio_offset u)..<nat (uio_offset u) + n]
       in uio_offset u' = uio_offset u + int n \<and> unat (uio_resid u) = n + unat (uio_resid u') \<and>
          (if uio_segflg u = UIO_SYSSPACE
           then umem s' = umem s \<and> iov_kpast (hd (uio_iov u')) = iov_kpast (hd (uio_iov u)) @ bs
           else umem s' = store (umem s) (unat (iov_ubase (hd (uio_iov u)))) bs)))"
proof -
  let ?n = "min (unat (uio_resid u)) (unat (sfi_size (sv_i sv)) - nat (uio_offset u))"
  have reach: "in_reach u (unat (uio_resid u)) s" using assms(4-6) by (simp add: in_reach_def)
  from sfs_io_read [OF assms(1,2) reach assms(3)] obtain r sv' u' and s' :: sfs_fs where
    run: "sfs_io cur sv u s = Some (r, sv', u', s')" "carried R sv s sv' s'" "file_byte sv' s' = file_byte sv s" and
    p: "r = None \<longrightarrow> passed (map (file_byte sv s) [nat (uio_offset u)..<nat (uio_offset u) + ?n]) u (umem s) u' (umem s')" by blast
  let ?bs = "map (file_byte sv s) [nat (uio_offset u)..<nat (uio_offset u) + ?n]"
  have "uio_offset u' = uio_offset u + int ?n \<and> unat (uio_resid u) = ?n + unat (uio_resid u') \<and>
      (if uio_segflg u = UIO_SYSSPACE then umem s' = umem s \<and> iov_kpast (hd (uio_iov u')) = iov_kpast (hd (uio_iov u)) @ ?bs
       else umem s' = store (umem s) (unat (iov_ubase (hd (uio_iov u)))) ?bs)" if "r = None"
  proof -
    from p that have m: "passed ?bs u (umem s) u' (umem s')" by blast
    have len: "length ?bs = ?n" by simp
    have "if uio_segflg u = UIO_SYSSPACE then umem s' = umem s \<and> iov_kpast (hd (uio_iov u')) = iov_kpast (hd (uio_iov u)) @ ?bs
       else umem s' = store (umem s) (unat (iov_ubase (hd (uio_iov u)))) ?bs"
      using m assms(3) by (simp add: passed_def moved_def Let_def memory_def split: if_splits)
    then show ?thesis using passedD(3,4) [OF m] unfolding len by blast
  qed
  then show ?thesis using run unfolding Let_def carried_def by (intro exI [of _ r] exI [of _ sv'] exI [of _ u'] exI [of _ s']) blast
qed

text \<open>Ten bytes at offset 8190 of a file that ends at 8193.\<close>

lemma file_is_read_witness:
  "\<exists>r sv' u' s'. sfs_io None (demo_dinode 8193 5) (uio_kinit (replicate 10 255) 8190 UIO_READ) (demo_volume 0xff) = Some (r, sv', u', s') \<and>
    (r = None \<longrightarrow> uio_offset u' = 8193 \<and> iov_kpast (hd (uio_iov u')) =
       map (file_byte (demo_dinode 8193 5) (demo_volume 0xff)) [8190..<8193])"
proof -
  let ?u = "uio_kinit (replicate 10 255) 8190 UIO_READ"
  have u: "uio_ready None ?u" "uio_rw ?u = UIO_READ" "uio_offset ?u = 8190" "unat (uio_resid ?u) = 10" "uio_segflg ?u = UIO_SYSSPACE"
    "iov_kpast (hd (uio_iov ?u)) = []" by (simp_all add: uio_ready_def uio_kinit_def)
  have v: "unat (sb_nblocks (demo_volume 0xff)) \<le> 2 ^ 23" "unat (sfi_size (sv_i (demo_dinode 8193 5))) = 8193"
    by (simp_all add: demo_volume_def demo_dinode_def)
  have n: "min 10 (8193 - 8190) = (3::nat)" "nat 8190 + 10 < 2 ^ 32" "nat 8190 = 8190" "(8190::nat) + 3 = 8193" "(8190::int) + int 3 = 8193" by simp_all
  from file_is_read [OF demo_large u(1,2) _ _ v(1), of 8193] obtain r sv' u' and s' :: sfs_fs where
    run: "sfs_io None (demo_dinode 8193 5) ?u (demo_volume 0xff) = Some (r, sv', u', s')"
    and res: "r = None \<longrightarrow> (let n = min 10 (8193 - nat 8190); bs = map (file_byte (demo_dinode 8193 5) (demo_volume 0xff)) [nat 8190..<nat 8190 + n]
       in uio_offset u' = 8190 + int n \<and> 10 = n + unat (uio_resid u') \<and>
          (if UIO_SYSSPACE = UIO_SYSSPACE then umem s' = umem (demo_volume 0xff) \<and> iov_kpast (hd (uio_iov u')) = [] @ bs
           else umem s' = store (umem (demo_volume 0xff)) (unat (iov_ubase (hd (uio_iov ?u)))) bs))"
    unfolding u(3-6) v(2) using n(2) by (metis order.refl zero_le_numeral)
  from res have "r = None \<longrightarrow> uio_offset u' = 8193 \<and> iov_kpast (hd (uio_iov u')) =
      map (file_byte (demo_dinode 8193 5) (demo_volume 0xff)) [8190..<8193]"
    unfolding n Let_def if_P [OF refl] append_Nil by blast
  with run show ?thesis by blast
qed

text \<open>C36: A write that meets a medium error reports success, and nothing has been written: the driver has taken the
  data out of the request before the error, and the retry of \<open>sfs_rwblock\<close> finds an empty request, which the driver
  accepts.\<close>

lemma failed_write_is_lost:
  assumes "length data = SFS_BLOCKSIZE" and "unat blk < unat (d_nblocks s)" and "wr_codes s = LHD_MEDIA # cs"
  shows "sfs_writeblock blk data s = Some (None, s\<lparr>wr_codes := cs\<rparr>)"
proof -
  let ?u = "SFSUIO data blk UIO_WRITE"
  have req: "block_request None ?u blk s"
    using assms by (simp add: block_request_def SFSUIO_def uio_kinit_def uio_ready_def)
  have eio: "lhd_code_to_errno (next_code (wr_codes s)) = Some EIO"
    unfolding assms(3) by (simp add: next_code_def lhd_code_to_errno_def Let_def)
  from lhd_write_block [OF req SFSUIO_sel(1)] obtain r u' and s' :: sfs_fs where run: "lhd_io None ?u s = Some (r, u', s')"
    and res: "if r = Some EFAULT \<and> u' = ?u then same_rest s s' \<and> umem s' = umem s \<and> uio_segflg ?u \<noteq> UIO_SYSSPACE
     else \<exists>bs s1. length bs = LHD_SECTSIZE \<and> moved bs ?u s u' s1 \<and> r = lhd_code_to_errno (next_code (wr_codes s)) \<and>
       s' = s1\<lparr>wr_codes := tl (wr_codes s), disk := (if r = None then (disk s)(unat blk := bs) else disk s)\<rparr>" by blast
  have "\<not> (r = Some EFAULT \<and> u' = ?u)" using res SFSUIO_sel(2) by force
  with res have "\<exists>bs s1. length bs = LHD_SECTSIZE \<and> moved bs ?u s u' s1 \<and> r = Some EIO \<and> s' = s1\<lparr>wr_codes := cs, disk := disk s\<rparr>"
    unfolding eio by (simp add: assms(3) cong: conj_cong)
  then obtain bs and s1 :: sfs_fs where b: "length bs = LHD_SECTSIZE" "moved bs ?u s u' s1" "r = Some EIO"
    "s' = s1\<lparr>wr_codes := cs, disk := disk s\<rparr>" by blast
  have "unat (uio_resid ?u) = 512" "uio_offset ?u = int (unat blk) * 512" by (simp_all add: SFSUIO_def uio_kinit_def assms(1))
  with b(1,2) have "unat (uio_resid u') = 0" and off: "uio_offset u' = int (unat blk + 1) * 512" by (simp_all add: moved_def)
  then have u': "uio_resid u' = 0" "uio_offset u' = int (unat blk + 1) * 512" by (simp_all only: unat_eq_zero)
  have s': "s' = s\<lparr>wr_codes := cs\<rparr>" using b(2,4) by (simp add: moved_def Let_def SFSUIO_sel)
  have "(word_of_int (uio_offset u' sdiv 512) :: u32) = blk + 1" "uio_offset u' smod 512 = 0"
    unfolding u'(2) block_offset by simp_all
  moreover have "\<not> blk + 1 > d_nblocks s"
    using assms(2) unat_add_lem [of blk 1] unat_lt_32 [of "d_nblocks s"] by (simp add: word_less_nat_alt)
  ultimately have "lhd_io None u' s' = Some (None, u', s')" by (simp add: lhd_io_def Let_def u'(1) s')
  moreover have "sfs_rwblock 10 None ?u s = sfs_rwblock 9 None u' s'" using run b(3) by (simp add: numeral_eq_Suc)
  ultimately have "sfs_rwblock 10 None ?u s = Some (None, u', s')" by (simp add: numeral_eq_Suc)
  then show ?thesis using assms(1) s' by (simp add: sfs_writeblock_def)
qed

lemma failed_write_is_lost_witness:
  "sfs_writeblock 4 zeros ((demo_volume 0x1f)\<lparr>wr_codes := [LHD_MEDIA], disk := \<lambda>_. replicate 512 1\<rparr>) =
    Some (None, (demo_volume 0x1f)\<lparr>wr_codes := [], disk := \<lambda>_. replicate 512 1\<rparr>)"
  using failed_write_is_lost [of zeros 4 "(demo_volume 0x1f)\<lparr>wr_codes := [LHD_MEDIA], disk := \<lambda>_. replicate 512 1\<rparr>" "[]"]
  by (simp add: demo_volume_def)

text \<open>C37: A directory is a map from names to inode numbers (\<open>dir_map\<close>), and the three operations are those of a map:
  \<open>sfs_dir_findname\<close> looks a name up, \<open>sfs_dir_unlink\<close> of the slot it hands back removes it, \<open>sfs_dir_link\<close>
  adds it, with \<open>EEXIST\<close> exactly if it is there, \<open>ENAMETOOLONG\<close> if it does not fit an entry, and no other
  error of a sound disk than \<open>ENOSPC\<close> and \<open>EFBIG\<close>. None of them panics: a name is never found twice. An operation
  that fails leaves the map as it was, the directory stays sound, and no block in use for something else
  changes, whatever errors the disk gives on reads.\<close>

lemma directory_is_map:
  assumes "dir_ok R sv s" and "0 \<notin> set name" and "ino \<noteq> SFS_NOINO"
  shows "(\<exists>r emp s1. sfs_dir_findname sv name s = Some (r, emp, sv, s1) \<and> dir_ok R sv s1 \<and> dir_map sv s1 = dir_map sv s \<and>
      (case r of
         Inl e \<Rightarrow> if e = ENOENT then dir_map sv s name = None else rd_codes s \<noteq> []
       | Inr (n, slot) \<Rightarrow> dir_map sv s name = Some n \<and>
           (\<exists>r' sv' s2. sfs_dir_unlink sv slot s1 = Some (r', sv', s2) \<and> dir_ok R sv' s2 \<and> (\<forall>b\<in>R. disk s2 (unat b) = disk s (unat b)) \<and>
             dir_map sv' s2 = (if r' = None then (dir_map sv s)(name := None) else dir_map sv s)))) \<and>
    (\<exists>r sv' s'. sfs_dir_link sv name ino s = Some (r, sv', s') \<and> dir_ok R sv' s' \<and> (\<forall>b\<in>R. disk s' (unat b) = disk s (unat b)) \<and>
      (case r of
         Inr slot \<Rightarrow> dir_map sv s name = None \<and> dir_map sv' s' = (dir_map sv s)(name \<mapsto> ino)
       | Inl e \<Rightarrow> dir_map sv' s' = dir_map sv s \<and> (rd_codes s = [] \<longrightarrow>
           (if dir_map sv s name \<noteq> None then e = EEXIST else if length name \<ge> SFS_NAMELEN then e = ENAMETOOLONG
            else e = ENOSPC \<or> e = EFBIG))))"
proof
  obtain r emp s1 where f: "sfs_dir_findname sv name s = Some (r, emp, sv, s1)" "dir_ok R sv s1" "file_byte sv s1 = file_byte sv s"
    "dir_map sv s1 = dir_map sv s" "\<forall>b\<in>R. disk s1 (unat b) = disk s (unat b)"
    and res: "case r of Inl e \<Rightarrow> if e = ENOENT then dir_map sv s name = None \<and>
          (\<forall>i. emp = Some i \<longrightarrow> i < dir_slots sv \<and> \<not> entry_used (dir_entries sv s ! i)) else rd_codes s \<noteq> []
      | Inr (n, i) \<Rightarrow> dir_map sv s name = Some n \<and> i < dir_slots sv \<and> entry_holds name (dir_entries sv s ! i)"
    by (rule findname_is_lookup [OF assms(1)])
  have es: "dir_entries sv s1 = dir_entries sv s" using same_bytes(1) [OF f(3) refl] .
  have unlink: "\<exists>r' sv' s2. sfs_dir_unlink sv slot s1 = Some (r', sv', s2) \<and> dir_ok R sv' s2 \<and> (\<forall>b\<in>R. disk s2 (unat b) = disk s (unat b)) \<and>
      dir_map sv' s2 = (if r' = None then (dir_map sv s)(name := None) else dir_map sv s)" if "r = Inr (n, slot)" for n slot
  proof -
    from res that have "slot < dir_slots sv" "entry_holds name (dir_entries sv s1 ! slot)" by (simp_all add: es)
    from unlink_is_removal [OF f(2) this] show ?thesis using f(4,5) by (metis (no_types, lifting))
  qed
  show "\<exists>r emp s1. sfs_dir_findname sv name s = Some (r, emp, sv, s1) \<and> dir_ok R sv s1 \<and> dir_map sv s1 = dir_map sv s \<and>
      (case r of
         Inl e \<Rightarrow> if e = ENOENT then dir_map sv s name = None else rd_codes s \<noteq> []
       | Inr (n, slot) \<Rightarrow> dir_map sv s name = Some n \<and>
           (\<exists>r' sv' s2. sfs_dir_unlink sv slot s1 = Some (r', sv', s2) \<and> dir_ok R sv' s2 \<and> (\<forall>b\<in>R. disk s2 (unat b) = disk s (unat b)) \<and>
             dir_map sv' s2 = (if r' = None then (dir_map sv s)(name := None) else dir_map sv s)))"
  proof (cases r)
    case (Inl e)
    then show ?thesis using f res by (intro exI [of _ r] exI [of _ emp] exI [of _ s1]) (auto split: if_splits)
  next
    case (Inr x)
    obtain n slot where r: "r = Inr (n, slot)" using Inr by (cases x) simp
    from res have "dir_map sv s name = Some n" by (simp add: r)
    with f(1,2,4) unlink [OF r] show ?thesis unfolding r by (intro exI [of _ "Inr (n, slot)"] exI [of _ emp] exI [of _ s1]) (simp only: sum.case prod.case simp_thms)
  qed
  show "\<exists>r sv' s'. sfs_dir_link sv name ino s = Some (r, sv', s') \<and> dir_ok R sv' s' \<and> (\<forall>b\<in>R. disk s' (unat b) = disk s (unat b)) \<and>
      (case r of
         Inr slot \<Rightarrow> dir_map sv s name = None \<and> dir_map sv' s' = (dir_map sv s)(name \<mapsto> ino)
       | Inl e \<Rightarrow> dir_map sv' s' = dir_map sv s \<and> (rd_codes s = [] \<longrightarrow>
           (if dir_map sv s name \<noteq> None then e = EEXIST else if length name \<ge> SFS_NAMELEN then e = ENAMETOOLONG
            else e = ENOSPC \<or> e = EFBIG)))"
    by (rule link_is_update [OF assms]) blast
qed

text \<open>A name in a directory of two free entries, in block 4 of the small volume.\<close>

lemma directory_is_map_witness:
  "\<exists>sv r sv' s'. sfs_dir_link sv [97] 3 (demo_volume 0x1f) = Some (r, sv', s') \<and> dir_map sv (demo_volume 0x1f) = Map.empty \<and>
    (case r of Inr slot \<Rightarrow> dir_map sv' s' = [[97] \<mapsto> 3] | Inl e \<Rightarrow> e = ENOSPC \<or> e = EFBIG)"
proof -
  let ?sv = "demo_dinode 128 0" and ?s = "demo_volume 0x1f"
  let ?dv = "?sv\<lparr>sv_i := (sv_i ?sv)\<lparr>sfi_type := SFS_TYPE_DIR\<rparr>\<rparr>"
  have m: "file_map ?dv ?s = file_map ?sv ?s" by (simp add: file_map_def fun_eq_iff)
  have "file_ok {0, 1, 2, 3} ?dv ?s" using demo_small [of 128] by (simp add: file_ok_def m)
  moreover have "file_byte ?dv ?s off = 0" for off
    unfolding file_byte_def Let_def m demo_map(1) by (simp add: demo_volume_def zeros_def)
  then have "dir_entry ?dv ?s i = \<lparr>sfd_ino = 0, sfd_name = replicate 60 0\<rparr>" for i
    by (simp add: dir_entry_def bytes_direntry_def map_replicate_const bytes_word_def numeral_eq_Suc)
  then have "filter entry_used (dir_entries ?dv ?s) = []" by (simp add: dir_entries_def filter_empty_conv)
  then have e: "entries_ok (dir_entries ?dv ?s)" "dir_map ?dv ?s = Map.empty" by (simp_all add: entries_ok_def dir_map_def entries_map_def)
  ultimately have ok: "dir_ok {0, 1, 2, 3} ?dv ?s" by (simp add: dir_ok_def) (simp add: demo_dinode_def)
  have c: "rd_codes ?s = []" by (simp add: demo_volume_def)
  from conjunct2 [OF directory_is_map [OF ok, of "[97]" 3]] obtain r sv' and s' :: sfs_fs where
    "sfs_dir_link ?dv [97] 3 ?s = Some (r, sv', s')" and
    "case r of Inr slot \<Rightarrow> dir_map ?dv ?s [97] = None \<and> dir_map sv' s' = (dir_map ?dv ?s)([97] \<mapsto> 3)
       | Inl e \<Rightarrow> dir_map sv' s' = dir_map ?dv ?s \<and> (rd_codes ?s = [] \<longrightarrow>
           (if dir_map ?dv ?s [97] \<noteq> None then e = EEXIST else if length [97::u8] \<ge> SFS_NAMELEN then e = ENAMETOOLONG
            else e = ENOSPC \<or> e = EFBIG))" by auto
  then show ?thesis using e(2) c by (intro exI [of _ ?dv] exI [of _ r] exI [of _ sv'] exI [of _ s']) (cases r; simp)
qed

section \<open>A mounted volume\<close>

text \<open>Eight blocks with one empty file, of inode 3, which is loaded at address 100. Its inode, the freemap and
  the superblock have not been written back.\<close>

definition demo_inode :: "u16 \<Rightarrow> sfs_dinode" where
  "demo_inode links = (empty_inode SFS_TYPE_FILE)\<lparr>sfi_linkcount := links\<rparr>"

definition demo_mounted :: "u16 \<Rightarrow> sfs_state" where
  "demo_mounted links = \<lparr>sfs_absfs = 9, sb_magic = SFS_MAGIC, sb_volname = replicate 32 0, sb_reserved = replicate 118 0,
     sfs_vol = (demo_volume 0)\<lparr>disk := \<lambda>_. zeros, sfs_superdirty := True, sfs_freemap := \<lparr>nbits = 4096, bv = 0xf # replicate 511 (-1)\<rparr>,
       sfs_freemapdirty := True\<rparr>,
     sfs_svs = [100 \<mapsto> \<lparr>sv_i = demo_inode links, sv_ino = 3, sv_dirty = True\<rparr>],
     sfs_absvns = [100 \<mapsto> \<lparr>vn_refcount = 1, vn_fs = Some 9, vn_ops = True\<rparr>], sfs_vnodes = [100]\<rparr>"

lemma demo_mounted_used: "bm_used (sfs_freemap (sfs_vol (demo_mounted n))) i \<longleftrightarrow> i < 4 \<or> 8 \<le> i \<and> i < 4096"
proof (cases "i < 8")
  case True
  then show ?thesis unfolding below_8 by (auto simp: demo_mounted_def bm_used_def bit_at_def)
next
  case False
  then have "i div 8 \<noteq> 0" "i < 4096 \<Longrightarrow> i div 8 - 1 < 511" by auto
  then show ?thesis using False by (auto simp: demo_mounted_def bm_used_def bit_at_def nth_Cons' simp del: replicate.simps)
qed

lemma demo_mounted_fs_ok: "fs_ok (sfs_vol (demo_mounted n))"
proof -
  have "length (disk (sfs_vol (demo_mounted n)) b) = SFS_BLOCKSIZE" for b by (simp add: demo_mounted_def)
  moreover have "bitmap_wf (sfs_freemap (sfs_vol (demo_mounted n)))" by (simp add: demo_mounted_def bitmap_wf_def DIVROUNDUP_def)
  ultimately show ?thesis unfolding fs_ok_def demo_mounted_used by (auto simp: demo_mounted_def demo_volume_def)
qed

lemma demo_no_blocks: "blocks_of (file_at i (demo_inode n)) s = {}"
proof -
  have "file_map (file_at i (demo_inode n)) s = file_map (file_at i (empty_inode SFS_TYPE_FILE)) s"
    by (simp add: file_map_def demo_inode_def fun_eq_iff)
  moreover have "sfi_indirect (demo_inode n) = sfi_indirect (empty_inode SFS_TYPE_FILE)" by (simp add: demo_inode_def)
  ultimately have "blocks_of (file_at i (demo_inode n)) s = blocks_of (file_at i (empty_inode SFS_TYPE_FILE)) s"
    by (simp only: blocks_of_def file_at_sel)
  then show ?thesis by (simp only: blocks_of_empty)
qed

lemma demo_mounted_ok: "mounted [3 \<mapsto> demo_inode n] (demo_mounted n)"
proof (rule mountedI [OF refl refl refl])
  have "vol_ok Map.empty (sfs_vol (demo_mounted n))" using demo_mounted_fs_ok by (simp add: vol_ok_def)
  then show "vol_ok [3 \<mapsto> demo_inode n] (sfs_vol (demo_mounted n))"
    by (rule vol_add) (use demo_no_blocks in \<open>simp_all add: demo_mounted_used\<close>,
      simp_all add: demo_inode_def empty_inode_def dinode_wf_def demo_mounted_def demo_volume_def)
qed (auto simp: demo_mounted_def vnodes_ok_def split: if_splits)

lemma demo_mounted_meta: "meta_ok [3 \<mapsto> demo_inode n] (demo_mounted n)"
proof -
  have nb: "sb_nblocks (sfs_vol (demo_mounted n)) = 8" by (simp add: demo_mounted_def demo_volume_def)
  have bits: "SFS_FREEMAPBLOCKS 8 = 1" "SFS_FREEMAPBITS 8 = 4096" by (simp_all add: SFS_FREEMAPBLOCKS_def SFS_FREEMAPBITS_def SFS_ROUNDUP_def)
  have "b = 3 \<Longrightarrow> \<not> meta_block (sfs_vol (demo_mounted n)) (unat b)" for b :: u32 by (simp add: meta_block_def nb bits)
  then show ?thesis unfolding meta_ok_def Let_def nb bits using demo_no_blocks
    by (auto simp: demo_mounted_def last_replicate split: if_splits)
qed

lemma demo_mounted_quiet: "rd_codes (sfs_vol (demo_mounted n)) = []" "sfs_svs (demo_mounted n) 100 = Some \<lparr>sv_i = demo_inode n, sv_ino = 3, sv_dirty = True\<rparr>"
  "refs (demo_mounted n) 100 = 1" "sfs_vnodes (demo_mounted n) = [100]"
  by (simp_all add: demo_mounted_def demo_volume_def vn_refs_def)

section \<open>Properties of a mounted volume\<close>

text \<open>C38: Writing back and mounting again lose nothing. After \<open>sfs_sync\<close> of a mounted volume whose table of
  inodes is \<open>f\<close>, wherever the inodes are, loaded, changed or on the disk, an \<open>sfs_domount\<close> of the
  device gives a volume with the same superblock, freemap, table and content of every file, and no vnode loaded. An \<open>sfs_unmount\<close> gives that
  device back if no vnode is loaded and is refused with \<open>EBUSY\<close> otherwise; none of the three panics.\<close>

lemma volume_remounts:
  assumes "mounted f st" and "meta_ok f st" and "rd_codes (sfs_vol st) = []"
  shows "\<exists>st1 st2. sfs_sync st = Some (None, st1) \<and> mounted f st1 \<and> same_files f (sfs_vol st) (sfs_vol st1) \<and>
    sfs_unmount st1 = Some (if sfs_vnodes st = [] then Inr (lhd.truncate (sfs_vol st1)) else Inl EBUSY) \<and>
    sfs_domount (\<lambda>_. True) fs SFS_BLOCKSIZE (lhd.truncate (sfs_vol st1)) = Some (Inr st2) \<and>
    mounted f st2 \<and> sfs_vnodes st2 = [] \<and> sfs_vol st2 = sfs_vol st1 \<and>
    (sb_magic st2, sb_volname st2, sb_reserved st2) = (sb_magic st, sb_volname st, sb_reserved st)"
proof -
  obtain g s' where sy: "sfs_sync st = Some (None, st\<lparr>sfs_svs := g, sfs_vol := s'\<rparr>)" "mounted f (st\<lparr>sfs_svs := g, sfs_vol := s'\<rparr>)"
    "meta_ok f (st\<lparr>sfs_svs := g, sfs_vol := s'\<rparr>)" "same_files f (sfs_vol st) s'" "\<not> sfs_superdirty s'" "\<not> sfs_freemapdirty s'"
    "rd_codes s' = rd_codes (sfs_vol st)" "\<forall>i d. f i = Some d \<longrightarrow> disk s' (unat i) = dinode_bytes d" "dom g = set (sfs_vnodes st)"
    by (rule sync_ok [OF assms(1,2)])
  let ?st1 = "st\<lparr>sfs_svs := g, sfs_vol := s'\<rparr>"
  let ?st2 = "?st1\<lparr>sfs_absfs := fs, sfs_svs := Map.empty, sfs_absvns := Map.empty, sfs_vnodes := []\<rparr>"
  have "sfs_domount (\<lambda>_. True) fs SFS_BLOCKSIZE (lhd.truncate (sfs_vol ?st1)) = Some (Inr ?st2)" "mounted f ?st2"
    using remount_ok [OF sy(2,3), of "\<lambda>_. True" fs] sy(5-8) assms(3) by simp_all
  moreover have "sfs_unmount ?st1 = Some (if sfs_vnodes st = [] then Inr (lhd.truncate (sfs_vol ?st1)) else Inl EBUSY)"
    using sy(5,6) by (simp add: sfs_unmount_def sfs_fs_destroy_def)
  ultimately show ?thesis using sy(1,2,4) by (intro exI [of _ ?st1] exI [of _ ?st2]) simp
qed

text \<open>The small volume: the inode is found after the mount, the unmount is refused.\<close>

lemma volume_remounts_witness:
  "\<exists>st1 st2. sfs_sync (demo_mounted 1) = Some (None, st1) \<and> sfs_unmount st1 = Some (Inl EBUSY) \<and>
    sfs_domount (\<lambda>_. True) 7 SFS_BLOCKSIZE (lhd.truncate (sfs_vol st1)) = Some (Inr st2) \<and> mounted [3 \<mapsto> demo_inode 1] st2"
  using volume_remounts [OF demo_mounted_ok demo_mounted_meta demo_mounted_quiet(1), of 1 7] unfolding demo_mounted_quiet(4) by auto

text \<open>C39: \<open>VOP_DECREF\<close> of a loaded vnode never panics and touches no other file. As long as the
  file has a link or another reference the table of inodes and the content of every file stay; the last reference
  writes the inode back and drops the vnode, and of a file without a link it removes the inode and frees its block. On a
  sound disk the count of the vnode goes down by one and no other changes.\<close>

lemma dropped_reference:
  assumes "mounted f st" and "sfs_svs st v = Some sv"
  shows "\<exists>st' f'. sfs_decref v st = Some st' \<and> mounted f' st' \<and> same_files (f(sv_ino sv := None)) (sfs_vol st) (sfs_vol st') \<and>
    (\<forall>j. j \<noteq> sv_ino sv \<longrightarrow> f' j = f j) \<and> (\<forall>w. w \<noteq> v \<longrightarrow> sfs_svs st' w = sfs_svs st w) \<and>
    (1 < refs st v \<or> sfi_linkcount (sv_i sv) \<noteq> 0 \<longrightarrow> f' = f \<and> same_files f (sfs_vol st) (sfs_vol st')) \<and>
    (1 < refs st v \<or> sfi_linkcount (sv_i sv) \<noteq> 0 \<or> rd_codes (sfs_vol st) = [] \<longrightarrow> refs st' = (refs st)(v := refs st v - 1)) \<and>
    (refs st v = 1 \<and> sfi_linkcount (sv_i sv) = 0 \<and> rd_codes (sfs_vol st) = [] \<longrightarrow>
      f' = f(sv_ino sv := None) \<and> \<not> in_use (sfs_vol st') (sv_ino sv))"
  by (rule decref_ok [OF assms]) blast

text \<open>The file of the small volume without a link is removed.\<close>

lemma dropped_reference_witness:
  "\<exists>st'. sfs_decref 100 (demo_mounted 0) = Some st' \<and> mounted Map.empty st' \<and> \<not> in_use (sfs_vol st') 3 \<and> refs st' 100 = 0"
proof -
  from dropped_reference [OF demo_mounted_ok demo_mounted_quiet(2), of 0] obtain st' f' where st': "sfs_decref 100 (demo_mounted 0) = Some st'"
    "mounted f' st'" and r: "refs st' = (refs (demo_mounted 0))(100 := refs (demo_mounted 0) 100 - 1)"
    and l: "f' = [3 \<mapsto> demo_inode 0](3 := None) \<and> \<not> in_use (sfs_vol st') 3"
    by (auto simp: demo_mounted_quiet demo_inode_def empty_inode_def)
  have "f' = Map.empty" using l by simp
  then show ?thesis using st' l r demo_mounted_quiet(3) [of 0] by (intro exI [of _ st']) simp
qed



end
