(* ===== verification/ByteOrder.thy ===== *)
theory ByteOrder
  imports Prelude
begin

text \<open>
  \<open>kern/lib/bswap.c\<close> and \<open>kern/lib/time.c\<close>: byte swapping at three widths, the pasting of two
  32-bit words (the machine is big-endian), and arithmetic on time values. Seconds and
  nanoseconds are integers: a sum of two nanosecond fields below a second fits their 32 bits.
\<close>

section \<open>Byte swapping\<close>

definition bswap16 :: "u16 \<Rightarrow> u16" where
  "bswap16 val = push_bit 8 (val AND 0x00ff) OR drop_bit 8 (val AND 0xff00)"

definition bswap32 :: "u32 \<Rightarrow> u32" where
  "bswap32 val = push_bit 24 (val AND 0x000000ff) OR push_bit 8 (val AND 0x0000ff00)
     OR drop_bit 8 (val AND 0x00ff0000) OR drop_bit 24 (val AND 0xff000000)"

definition bswap64 :: "u64 \<Rightarrow> u64" where
  "bswap64 val = push_bit 56 (val AND 0x00000000000000ff) OR push_bit 40 (val AND 0x000000000000ff00)
     OR push_bit 24 (val AND 0x0000000000ff0000) OR push_bit 8 (val AND 0x00000000ff000000)
     OR push_bit 8 (val AND 0x000000ff00000000) OR push_bit 24 (val AND 0x0000ff0000000000)
     OR drop_bit 40 (val AND 0x00ff000000000000) OR drop_bit 56 (val AND 0xff00000000000000)"

definition join32to64 :: "u32 \<Rightarrow> u32 \<Rightarrow> u64" where
  "join32to64 x1 x2 = push_bit 32 (ucast x1) OR ucast x2"

definition split64to32 :: "u64 \<Rightarrow> u32 \<times> u32" where
  "split64to32 x = (ucast (drop_bit 32 x), ucast (x AND 0xffffffff))"

text \<open>Byte \<open>k\<close> of a word, counted from the least significant.\<close>

definition byte_of :: "'a::len word \<Rightarrow> nat \<Rightarrow> u8" where
  "byte_of w k = ucast (drop_bit (8 * k) w)"

lemma byte_masks:
  "(0x00ff :: u16) = mask 8" "(0xff00 :: u16) = push_bit 8 (mask 8)"
  "(0x000000ff :: u32) = mask 8" "(0x0000ff00 :: u32) = push_bit 8 (mask 8)"
  "(0x00ff0000 :: u32) = push_bit 16 (mask 8)" "(0xff000000 :: u32) = push_bit 24 (mask 8)"
  by (simp_all add: mask_eq_exp_minus_1)

lemma bit_byte_of: "bit (byte_of w k) i \<longleftrightarrow> i < 8 \<and> bit w (8 * k + i)"
  by (simp add: byte_of_def bit_simps)

lemma bit_bswap32: "bit (bswap32 w) i \<longleftrightarrow> i < 32 \<and> bit w (8 * (3 - i div 8) + i mod 8)"
proof (cases "i < 32")
  case True
  consider "i < 8" | "8 \<le> i" "i < 16" | "16 \<le> i" "i < 24" | "24 \<le> i" "i < 32" using True by linarith
  then show ?thesis
  proof cases
    case 1
    then show ?thesis
      unfolding bswap32_def byte_masks by (simp add: bit_simps add.commute)
  next
    case 2
    then have "i div 8 = 1" "i mod 8 = i - 8" by (auto intro: div_nat_eqI simp: mod_if)
    with 2 show ?thesis unfolding bswap32_def byte_masks by (auto simp: bit_simps add.commute)
  next
    case 3
    then have "i div 8 = 2" "i mod 8 = i - 16" by (auto intro: div_nat_eqI simp: mod_if)
    with 3 show ?thesis unfolding bswap32_def byte_masks by (auto simp: bit_simps add.commute)
  next
    case 4
    then have "i div 8 = 3" "i mod 8 = i - 24" by (auto intro: div_nat_eqI simp: mod_if)
    with 4 show ?thesis unfolding bswap32_def byte_masks by (auto simp: bit_simps add.commute)
  qed
qed (auto dest: bit_imp_le_length)

lemma bswap32_byte:
  assumes "k < 4"
  shows "byte_of (bswap32 w) k = byte_of w (3 - k)"
proof (rule bit_eqI)
  fix i
  have "(8 * k + i) div 8 = k" "(8 * k + i) mod 8 = i" if "i < 8" using that by auto
  with assms show "bit (byte_of (bswap32 w) k) i = bit (byte_of w (3 - k)) i"
    by (auto simp: bit_byte_of bit_bswap32)
qed

lemma bswap32_involution: "bswap32 (bswap32 w) = w"
proof (rule bit_word_eqI)
  fix i assume "i < LENGTH(32)"
  then have i: "i < 32" by simp
  let ?j = "8 * (3 - i div 8) + i mod 8"
  have d: "i div 8 < 4" "i mod 8 < 8" using i by auto
  then have j: "?j < 32" "?j div 8 = 3 - i div 8" "?j mod 8 = i mod 8" by auto
  then have "8 * (3 - ?j div 8) + ?j mod 8 = i" using d mult_div_mod_eq [of 8 i] by simp
  with i j show "bit (bswap32 (bswap32 w)) i = bit w i" by (simp only: bit_bswap32) simp
qed

lemma bit_bswap16: "bit (bswap16 w) i \<longleftrightarrow> i < 16 \<and> bit w (if i < 8 then i + 8 else i - 8)"
  unfolding bswap16_def byte_masks by (auto simp: bit_simps add.commute dest: bit_imp_le_length)

lemma bswap16_involution: "bswap16 (bswap16 w) = w"
proof (rule bit_word_eqI)
  fix i assume "i < LENGTH(16)"
  then show "bit (bswap16 (bswap16 w)) i = bit w i" by (cases "i < 8") (auto simp: bit_bswap16)
qed

lemma bswap16_byte: "k < 2 \<Longrightarrow> byte_of (bswap16 w) k = byte_of w (1 - k)"
  by (rule bit_eqI) (cases k; auto simp: bit_byte_of bit_bswap16 add.commute)

text \<open>At 64 bits two of the eight bytes go the wrong way: a value confined to byte 4 ends up in
  byte 5 instead of byte 3.\<close>

lemma bswap64_byte4: "byte_of (bswap64 0x0000001200000000) 3 = 0" "byte_of (bswap64 0x0000001200000000) 5 = 0x12"
  by (simp_all add: bswap64_def byte_of_def)

lemma bswap64_low:
  assumes "\<And>i. bit w i \<Longrightarrow> i < 32 \<or> 48 \<le> i" and "k < 8"
  shows "byte_of (bswap64 w) k = byte_of w (7 - k)"
proof -
  have m: "(0xff00000000 :: u64) = push_bit 32 (mask 8)" "(0xff0000000000 :: u64) = push_bit 40 (mask 8)"
    by (simp_all add: mask_eq_exp_minus_1)
  have zero: "w AND push_bit 32 (mask 8) = 0" "w AND push_bit 40 (mask 8) = 0"
    by (rule bit_eqI, auto simp: bit_simps dest!: assms(1))+
  have masks: "(0xff :: u64) = mask 8" "(0xff00 :: u64) = push_bit 8 (mask 8)" "(0xff0000 :: u64) = push_bit 16 (mask 8)"
    "(0xff000000 :: u64) = push_bit 24 (mask 8)" "(0xff000000000000 :: u64) = push_bit 48 (mask 8)"
    "(0xff00000000000000 :: u64) = push_bit 56 (mask 8)"
    by (simp_all add: mask_eq_exp_minus_1)
  have eq: "bswap64 w = push_bit 56 (w AND mask 8) OR push_bit 40 (w AND push_bit 8 (mask 8))
     OR push_bit 24 (w AND push_bit 16 (mask 8)) OR push_bit 8 (w AND push_bit 24 (mask 8))
     OR drop_bit 40 (w AND push_bit 48 (mask 8)) OR drop_bit 56 (w AND push_bit 56 (mask 8))"
    unfolding bswap64_def m zero by (simp only: masks push_bit_of_0 or.right_neutral or.left_neutral)
  have "k = 0 \<or> k = 1 \<or> k = 2 \<or> k = 3 \<or> k = 4 \<or> k = 5 \<or> k = 6 \<or> k = 7" using assms(2) by linarith
  then show ?thesis
    by (elim disjE; intro bit_eqI; unfold eq; auto simp: bit_byte_of bit_simps add.commute dest: assms(1))
qed

lemma split_join: "split64to32 (join32to64 x1 x2) = (x1, x2)"
proof -
  have m: "(0xffffffff :: u64) = mask 32" by (simp add: mask_eq_exp_minus_1)
  have "ucast (drop_bit 32 (join32to64 x1 x2)) = x1"
    by (rule bit_eqI) (auto simp: join32to64_def bit_simps dest: bit_imp_le_length)
  moreover have "ucast (join32to64 x1 x2 AND mask 32) = x2"
    by (rule bit_eqI) (auto simp: join32to64_def bit_simps dest: bit_imp_le_length)
  ultimately show ?thesis by (simp add: split64to32_def m)
qed

lemma join_split: "(case split64to32 x of (x1, x2) \<Rightarrow> join32to64 x1 x2) = x"
proof -
  have m: "(0xffffffff :: u64) = mask 32" by (simp add: mask_eq_exp_minus_1)
  show ?thesis
    unfolding split64to32_def join32to64_def m
    by (simp, rule bit_eqI) (auto simp: bit_simps dest: bit_imp_le_length)
qed

section \<open>Time\<close>

record timespec =
  tv_sec :: int
  tv_nsec :: int

definition timespec_add :: "timespec \<Rightarrow> timespec \<Rightarrow> timespec" where
  "timespec_add ts1 ts2 =
     (let nsec = tv_nsec ts1 + tv_nsec ts2; sec = tv_sec ts1 + tv_sec ts2
      in if nsec \<ge> 1000000000 then \<lparr>tv_sec = sec + 1, tv_nsec = nsec - 1000000000\<rparr>
         else \<lparr>tv_sec = sec, tv_nsec = nsec\<rparr>)"

definition timespec_sub :: "timespec \<Rightarrow> timespec \<Rightarrow> timespec" where
  "timespec_sub ts1 ts2 =
     (let r = (if tv_nsec ts1 < tv_nsec ts2
               then \<lparr>tv_sec = tv_sec ts1 - 1, tv_nsec = tv_nsec ts1 + 1000000000\<rparr> else ts1)
      in \<lparr>tv_sec = tv_sec r - tv_sec ts2, tv_nsec = tv_nsec r - tv_nsec ts2\<rparr>)"

definition timespec_wf :: "timespec \<Rightarrow> bool" where
  "timespec_wf ts \<longleftrightarrow> 0 \<le> tv_nsec ts \<and> tv_nsec ts < 1000000000"

definition nanos :: "timespec \<Rightarrow> int" where
  "nanos ts = tv_sec ts * 1000000000 + tv_nsec ts"

lemma timespec_add_ok:
  "timespec_wf a \<Longrightarrow> timespec_wf b \<Longrightarrow> timespec_wf (timespec_add a b) \<and> nanos (timespec_add a b) = nanos a + nanos b"
  by (auto simp: timespec_wf_def timespec_add_def nanos_def Let_def algebra_simps)

lemma timespec_sub_ok:
  "timespec_wf a \<Longrightarrow> timespec_wf b \<Longrightarrow> timespec_wf (timespec_sub a b) \<and> nanos (timespec_sub a b) = nanos a - nanos b"
  by (auto simp: timespec_wf_def timespec_sub_def nanos_def Let_def algebra_simps)

lemma nanos_inj: "timespec_wf a \<Longrightarrow> timespec_wf b \<Longrightarrow> nanos a = nanos b \<Longrightarrow> a = b"
proof -
  assume wf: "timespec_wf a" "timespec_wf b" and eq: "nanos a = nanos b"
  from wf eq have "tv_sec a = tv_sec b" unfolding timespec_wf_def nanos_def by linarith
  with eq show "a = b" by (simp add: nanos_def)
qed

lemma timespec_sub_add: "timespec_wf a \<Longrightarrow> timespec_wf b \<Longrightarrow> timespec_sub (timespec_add a b) b = a"
  using timespec_add_ok [of a b] timespec_sub_ok [of "timespec_add a b" b] by (intro nanos_inj) auto

section \<open>Byte order and time\<close>

text \<open>The 16 and 32 bit swaps reverse the bytes and undo themselves.\<close>

theorem byte_swaps:
  shows "(\<forall>w k. k < 4 \<longrightarrow> byte_of (bswap32 w) k = byte_of w (3 - k)) \<and> bswap32 (bswap32 w) = w \<and>
    (\<forall>v k. k < 2 \<longrightarrow> byte_of (bswap16 v) k = byte_of v (1 - k)) \<and> bswap16 (bswap16 v) = v"
  by (simp add: bswap32_byte bswap32_involution bswap16_byte bswap16_involution)

theorem byte_swaps_witness:
  "byte_of (bswap32 0x11223344) 0 = 0x11 \<and> bswap32 0x11223344 = 0x44332211"
  using byte_swaps [of "0x11223344" 0] byte_swaps [of "0x44332211" 0]
  by (auto simp: bswap32_def byte_of_def)

text \<open>\<open>bswap64\<close> does not reverse the bytes of every value: its fifth byte, counted from the
  least significant one, moves up where it should move down, so the two swaps of a value need not
  give it back.\<close>

theorem bswap64_is_wrong:
  "byte_of (bswap64 0x0000001200000000) 3 \<noteq> byte_of (0x0000001200000000 :: u64) 4 \<and>
   bswap64 (bswap64 0x0000001200000000) \<noteq> 0x0000001200000000"
  using bswap64_byte4 by (simp add: byte_of_def bswap64_def)



end
