(* ===== verification/Spec2Isabelle.thy ===== *)
theory Spec2Isabelle
  imports ProcessProperties FileProperties SfsProperties Bitmap ThreadList ByteOrder CopyInOut
begin

text \<open>
  A verification of the OS/161 kernel of this repository (\<open>kern/\<close>), in the configuration C1_PAG:
  demand-paged virtual memory with a page table, a coremap and a swap file, processes with
  waitpid and fork, locks and condition variables, the VFS layer and the semaphore file system.

  \<^bold>\<open>The parts and how they call each other.\<close> A trap enters \<open>vm_fault\<close> (\<open>vm/vmc1.c\<close>), which asks the
  address space (\<open>vm/addrspace.c\<close>) for the segment, the page table (\<open>vm/pt.c\<close>) for the page, the
  coremap (\<open>vm/coremap.c\<close>) for a frame, which may evict a page to the swap file
  (\<open>vm/swapfile.c\<close>) and clear its TLB entry (\<open>vm/vm_tlb.c\<close>); new pages are filled from the
  executable (\<open>vm/segments.c\<close>), and every event is counted (\<open>vm/statistics.c\<close>). System calls create,
  end and wait for processes (\<open>syscall/proc_syscalls.c\<close>, \<open>proc/proc.c\<close>) over semaphores
  (\<open>thread/synch.c\<close>), and reach files through paths (\<open>vfs/vfspath.c\<close>, \<open>vfs/vfslookup.c\<close>,
  \<open>vfs/vfslist.c\<close>), vnodes (\<open>vfs/vnode.c\<close>), devices (\<open>vfs/device.c\<close>) and file systems.

  \<^bold>\<open>Conventions.\<close> A C function is a HOL function on the state of its component. The option type is
  the panic: \<open>None\<close> is a failed \<open>KASSERT\<close>, a \<open>panic\<close> or a null dereference, so a theorem that a call
  is \<open>Some\<close> says that no assertion fails. Error numbers are values of the type \<open>errno\<close>, returned in a sum
  or as an option. Machine integers are words where they can wrap (\<open>u32\<close>, addresses, counters) and
  numbers where they index. Definitions keep the names of the code; a loop or a part of a function
  that is a definition of its own has a name derived from it. Code that is not in the tree, the
  hardware and the results of disk transfers are parameters (the record \<open>vm_io\<close>, the failing or not
  of the \<open>i\<close>-th \<open>kmalloc\<close> of a call). Blocking calls are cut at their sleep: a step of the model runs from
  one sleep to the next, which is what holds while the spinlock of the code is held.

  \<^bold>\<open>Theories.\<close>
  Prelude: machine types, error numbers, assertions, byte transfers, lemmas on lists and words.
  Statistics, Tlb, PageTable, Swapfile, Segments, Coremap, AddrSpace, VmFault: one file of \<open>vm/\<close> each,
  with its state, operations, well-formedness and functional lemmas. PageTable and Swapfile state
  their contracts as the locales \<open>page_map\<close> and \<open>backing_store\<close>, interpreted on the code's model.
  Paging: the invariant \<open>vm_inv\<close> over frame table, page table, swap table and TLB, and its
  preservation by eviction and allocation. KernelPages: the allocation of runs of frames for the
  kernel. VmSystem: the abstract memory of pages and the refinement of a whole run. Example_Machine:
  a concrete machine for the witnesses.
  Synch: wait channels, semaphores, locks and condition variables of \<open>thread/synch.c\<close> as transition
  systems, with invariants by rule induction.
  Vnode, VfsList, VfsLookup, VfsPath: the files of \<open>vfs/\<close>. The table of operations of a vnode or file
  system is a record of functions (\<open>vfs_io\<close>) over a state whose private part has any type. VfsRefs: the
  contract of file systems as the locale \<open>file_systems\<close>, and the proof, once for all file systems,
  that each call on a path returns and balances references. Device and Semfs: the devices and the
  semaphore file system (\<open>vfs/device.c\<close>, \<open>vfs/devnull.c\<close>, \<open>vfs/vfsfail.c\<close>, \<open>fs/semfs/\<close>); SemfsContract
  interprets the locale on them. VfsNames: the device table as a name space. VfsProperties: the
  layer as a transition system from boot.
  FileSyscalls, FileProperties: \<open>syscall/file_syscalls.c\<close>, the tables of open files over the kernel and the
  VFS layer, and their consistency through opens and closes.
  Procs, ProcSyscalls, Example_Kernel, ProcessProperties: \<open>proc/proc.c\<close>, \<open>syscall/proc_syscalls.c\<close>,
  the kernel state that joins processes, semaphores, vnodes and the virtual memory system, and the
  process table as a transition system from boot.
  Bitmap, ThreadList, ByteOrder, CopyInOut: \<open>lib/bitmap.c\<close> (locale \<open>unit_allocator\<close>),
  \<open>thread/threadlist.c\<close> (locale \<open>thread_queue\<close>), \<open>lib/bswap.c\<close> and \<open>lib/time.c\<close>, \<open>vm/copyinout.c\<close>.

  \<^bold>\<open>What is shown.\<close> Virtual memory refines a flat memory of pages, through any eviction and reload;
  faults on valid addresses are resolved; frames, swap slots and kernel pages are conserved.
  Semaphores conserve units and lose no wakeup; locks exclude and monitors work. The process table and
  the processes name each other after any calls, and an exit status reaches the waiting parent. In the VFS
  layer every reference count is the number of holders from boot on, names resolve and mounts can be
  undone. The library routines meet their specifications. Where the code fails its purpose the theorem
  says what it does instead (address space copies share the page table, fork empties the wrong
  file table, the wakeup of the semaphore file system can be lost, and others).

  \<^bold>\<open>Bounds.\<close> No fuel is used: loops are structural recursions on lists or index ranges, functions with
  a measure (\<open>victim_scan\<close>), or partial functions whose return is proved (\<open>slot_search\<close>).

  \<^bold>\<open>Not modelled.\<close> Device drivers and the machine-dependent code (registers, traps, context switches);
  the scheduler; printing; the superseded copies of sources that the configuration does not build;
  the menu and the in-kernel tests. Concurrency inside the virtual memory system is not modelled:
  its tables are protected by spinlocks or used by one process at a time.
\<close>

section \<open>Virtual memory\<close>







text \<open>C4: A user page gets a frame whenever one can be had, and a proper one: \<open>page_alloc\<close> returns
  a frame other than frame 0, inside the table, recorded as dirty, owned by the current address
  space and carrying the page's address; no page of the address space loses its content, even when
  the frame was taken from one of them.\<close>

theorem page_alloc_gives_frame:
  assumes "vm_inv {} s" and "curas s = Some a" and "vm_room io s"
  shows "\<exists>f s'. page_alloc io va s = Some (page_addr f, s') \<and> 1 \<le> f \<and> f < nRamFrames s \<and> vm_inv {f} s' \<and>
    content s' = content s \<and>
    coremap s' ! f = \<lparr>ce_as = Some a, status = dirty, ce_vaddr = va, alloc_size = 1\<rparr>"
proof -
  from page_alloc_total [OF assms] obtain pa s' where run: "page_alloc io va s = Some (pa, s')" by blast
  from page_alloc_SomeD [OF assms(1,2) run] run show ?thesis unfolding quiet_step_def by metis
qed

theorem page_alloc_gives_frame_witness:
  "\<exists>f s'. page_alloc ex_io 0x400000 ex_state = Some (page_addr f, s') \<and> 1 \<le> f \<and> f < 8 \<and> content s' = (\<lambda>_. None)"
  using page_alloc_gives_frame [where va = "0x400000", OF ex_state_ok(1) ex_state_as(1) ex_state_room]
  by (auto simp: ex_frames ex_state_ok(3))

text \<open>C5: Kernel pages come and go without a trace: when the frame table has a run of \<open>n\<close> free
  frames, \<open>alloc_kpages\<close> returns a non-null address, and \<open>free_kpages\<close> of that address brings back
  the state before.\<close>

theorem kernel_pages_round_trip:
  assumes "free_clean s" and "1 \<le> n" and "free_run (coremap s) st n"
  shows "\<exists>va s'. alloc_kpages io n s = Some (va, s') \<and> va \<noteq> 0 \<and> free_kpages va s' = Some s"
  by (rule alloc_free_kpages [OF assms])

theorem kernel_pages_round_trip_witness:
  "\<exists>va s'. alloc_kpages ex_io 1 ex_free = Some (va, s') \<and> va \<noteq> 0 \<and> free_kpages va s' = Some ex_free"
  using kernel_pages_round_trip [OF ex_free_ok(2) _ ex_free_ok(3)] by simp

text \<open>C14: An allocation of kernel pages from free frames does not disturb the current address space:
  the invariant holds after it and every user page keeps its content.\<close>

theorem kernel_allocation_is_quiet:
  assumes "vm_inv {} s" and "free_clean s" and "1 \<le> n" and "free_run (coremap s) st n"
    and "alloc_kpages io n s = Some (va, s')"
  shows "vm_inv {} s' \<and> content s' = content s"
  using alloc_kpages_run_quiet [OF assms] by blast

theorem kernel_allocation_is_quiet_witness:
  "\<exists>va s'. alloc_kpages ex_io 1 ex_free = Some (va, s') \<and> vm_inv {} s' \<and> content s' = content ex_free"
proof -
  from alloc_free_kpages [OF ex_free_ok(2) _ ex_free_ok(3), of ex_io] obtain va s'
    where run: "alloc_kpages ex_io 1 ex_free = Some (va, s')" by auto
  from kernel_allocation_is_quiet [OF ex_free_ok(1,2) _ ex_free_ok(3) run] run show ?thesis by blast
qed



text \<open>A page in the swap file makes \<open>as_destroy\<close> free frame 0: the page table walk of
  \<open>pt_destroy_inner\<close> visits, besides the frames of resident pages, the frame of physical address 0
  for every page that is swapped out.\<close>

theorem destroy_visits_frame_0:
  assumes "pts s p = Some pt" and "pt_wf pt" and "\<forall>f\<in>pt_frames pt. releasable (coremap s) f"
    and "pt_entry pt v = Some (0, off)" and "off \<noteq> 1"
  shows "\<exists>s'. pt_destroy p s = Some s' \<and> coremap s' = free_frames (pt_frames pt) (coremap s) \<and> status (coremap s' ! 0) = free"
proof -
  from assms(3) pt_frames_swapped [OF assms(4,5)] have "releasable (coremap s) 0" by blast
  with pt_destroy_eq [OF assms(1-3)] pt_frames_swapped [OF assms(4,5)] show ?thesis
    by (simp add: releasable_def)
qed

theorem destroy_visits_frame_0_witness:
  "\<exists>p s s'. pt_destroy p s = Some s' \<and> status (coremap s ! 0) = clean \<and> status (coremap s' ! 0) = free"
proof -
  obtain pt0 where "pt_create True = Some pt0" by (simp add: pt_create_def)
  from pt_wf_create [OF this] have pt0: "pt_wf pt0" "pt_entry pt0 = Map.empty" by auto
  from two_level.set_offset [where km = True and va = "0x5000" and off = 8192, OF pt0(1)] obtain pt
    where "pt_wf pt" and e: "pt_entry pt = [vpn 0x5000 \<mapsto> (0, 8192)]"
    by (auto simp: pt0(2))
  moreover have "pt_frames pt = {0}" by (auto simp: pt_frames_def e vpn_def)
  ultimately have "\<exists>s'. pt_destroy 0 (ex_started\<lparr>pts := [0 \<mapsto> pt]\<rparr>) = Some s' \<and>
      coremap s' = free_frames (pt_frames pt) (coremap (ex_started\<lparr>pts := [0 \<mapsto> pt]\<rparr>)) \<and> status (coremap s' ! 0) = free"
    by (intro destroy_visits_frame_0 [where v = "vpn 0x5000" and off = 8192])
       (auto simp: releasable_def ex_started_def)
  moreover have "status (coremap (ex_started\<lparr>pts := [0 \<mapsto> pt]\<rparr>) ! 0) = clean" by (simp add: ex_started_def)
  ultimately show ?thesis by blast
qed

text \<open>A new address space created by \<open>as_copy\<close> is no copy: it shares the page table of the
  original, and its creation has emptied the swap table, so the original has lost every page it had
  in the swap file.\<close>

theorem copied_space_shares_table:
  assumes "ases s old = Some A" and "old < next_ptr s" and "as_copy io old s = Some (Inr b, s')"
  shows "b \<noteq> old \<and> ases s' old = Some A \<and>
    (\<exists>B. ases s' b = Some B \<and> as_pt B = as_pt A \<and> as_code B = as_code A \<and> as_data B = as_data A \<and> as_stack B = as_stack A) \<and>
    (\<forall>k. swap_slot (swap s') k = None)"
  by (rule as_copy_shares [OF assms])

theorem copied_space_shares_table_witness:
  "\<exists>b s'. as_copy ex_io 1 ex_state = Some (Inr b, s') \<and> b \<noteq> 1 \<and>
     (\<exists>B. ases s' b = Some B \<and> as_pt B = as_pt ex_as)"
proof -
  have "\<exists>b s'. as_copy ex_io 1 ex_state = Some (Inr b, s')"
    by (simp add: as_copy_def as_create_def seg_create_def pt_create_def swapfile_init_def ex_io_def ex_state_as [simplified]
        ex_frames ex_as_def ex_code_def ex_stack_def empty_segment_def seg_copy_def seg_define_def seg_check_undefined_def Let_def)
  then obtain b s' where run: "as_copy ex_io 1 ex_state = Some (Inr b, s')" by blast
  from copied_space_shares_table [OF ex_state_as(2) _ run] run show ?thesis by (auto simp: ex_frames)
qed



text \<open>C15: Activation of an address space empties the TLB of user pages and touches nothing else: the
  invariant and the content of every page stay, and no user page is translated any more.\<close>

theorem activation_flushes_tlb:
  assumes "vm_inv {} s" and "as_activate s = Some s'"
  shows "vm_inv {} s' \<and> content s' = content s \<and> (\<forall>p<0x80000. \<not> tlb_has (tlb s') p)"
  by (rule as_activate_quiet [OF assms])

theorem activation_flushes_tlb_witness:
  "\<exists>s'. as_activate ex_state = Some s' \<and> vm_inv {} s' \<and> \<not> tlb_has (tlb s') 0x400"
proof -
  obtain s' where run: "as_activate ex_state = Some s'"
    using ex_state_as(1) by (auto simp: as_activate_def Let_def)
  from activation_flushes_tlb [OF ex_state_ok(1) run] run show ?thesis by auto
qed

text \<open>The event counters stay consistent: after any run of a program, the checks that
  \<open>print_all_statistics\<close> makes at shutdown (faults = faults with a free slot + faults with
  replacement; faults = reloads + disk faults + zeroed pages; disk faults = reads from the
  executable + reads from swap) find nothing to warn of.\<close>

theorem statistics_never_warn:
  assumes "vm_run io init es s s'" and "vm_inv {} s" and "stats_balanced 0 (stats s)" and "content s = (\<lambda>_. None)"
  shows "print_all_statistics (stats s') = []"
  using vm_run_refines [OF assms] by (simp add: stats_balanced_silent)

theorem statistics_never_warn_witness:
  "\<exists>s'. vm_run ex_io ex_init ex_events ex_state s' \<and> print_all_statistics (stats s') = []"
  using statistics_never_warn [OF _ ex_state_ok] ex_run by meson

text \<open>C11: The victim scan ends when it can: when some run of \<open>n\<close> replaceable frames lies inside the
  table (frame 0 and the last frame excepted), \<open>get_victim_coremap\<close> returns the start of such a
  run, whatever the round-robin position.\<close>

theorem victim_is_found:
  assumes "replaceable_run (coremap s) st n" and "1 \<le> st" and "0 < n" and "cm_victim s < nRamFrames s"
  shows "\<exists>f s'. get_victim_coremap n s = Some (f, s') \<and> replaceable_run (coremap s) f n \<and> coremap s' = coremap s"
proof -
  note si = scan_inv_start [OF assms(4), of n "-1"]
  from victim_scan_complete [OF assms(1,2) si assms(3)] obtain r cv where
    run: "victim_scan (coremap s) n 0 (cm_victim s) (-1) = Some (r, cv)" by auto
  have "n + 1 < length (coremap s)" using assms(1,2) by (simp add: replaceable_run_def)
  from victim_scan_sound [OF run si assms(3) this] run assms(3) show ?thesis
    by (simp add: get_victim_coremap_def)
qed

theorem victim_is_found_witness:
  "\<exists>f s'. get_victim_coremap 1 (ex_started\<lparr>coremap := (coremap ex_started)[3 := \<lparr>ce_as = Some 1, status = dirty,
     ce_vaddr = 0x1000, alloc_size = 1\<rparr>]\<rparr>) = Some (f, s')"
  using victim_is_found [where st = 3 and n = 1 and s = "ex_started\<lparr>coremap := (coremap ex_started)[3 := \<lparr>ce_as = Some 1,
     status = dirty, ce_vaddr = 0x1000, alloc_size = 1\<rparr>]\<rparr>"]
  by (fastforce simp: replaceable_run_def replaceable_def ex_started_def ex_boot_def)

text \<open>C8: A page written to swap comes back: after \<open>swap_out\<close> of a page, and of another one after
  it, \<open>swap_in\<close> at the first page's offset restores its content in whichever frame it is read
  into, provided the swap device reads that block.\<close>

theorem swap_round_trip:
  assumes "swap_wf sw" and "swap_out io pa va m (sw, st) = Some (off, sw1, st1)"
    and "swap_out io pb vb m2 (sw1, st1) = Some (off', sw2, st2)" and "io_swap_read io off = (None, 0)"
  shows "off' \<noteq> off \<and> (\<exists>r m' sw3 st3. swap_in io pa' off m1 (sw2, st2) = Some (r, m', sw3, st3) \<and>
    page_at m' (unat pa') = page_at m (unat pa))"
  using swapfile.put_put_take [OF assms(1) swap_put_counters [OF assms(2)] swap_put_counters [OF assms(3)] assms(4)]
    swap_take_counters by metis

theorem swap_round_trip_witness:
  "\<exists>off off' sw1 sw2 st1 st2 r m' sw3 st3.
     swap_out ex_io 0x2000 0x400000 (\<lambda>i. of_nat i) (swap ex_state, stats ex_state) = Some (off, sw1, st1) \<and>
     swap_out ex_io 0x3000 0x401000 (\<lambda>_. 7) (sw1, st1) = Some (off', sw2, st2) \<and>
     swap_in ex_io 0x5000 off (\<lambda>_. 0) (sw2, st2) = Some (r, m', sw3, st3) \<and> m' 0x5003 = 3"
proof -
  have wf: "swap_wf (swap ex_state)" and none: "\<And>k. swap_slot (swap ex_state) k = None"
    using ex_swap by auto
  have out: "\<exists>r. swap_out ex_io pa va m (sw, st) = Some r"
    if "swap_wf sw" and "k < NUM_PAGES" and "swap_slot sw k = None" and "pa AND PAGE_FRAME = pa" for pa va m sw st k
    using swap_out_success [OF that(1)] swap_full_find [OF that(1)] that(2-4)
    by (auto simp: swap_full_def ex_io_def)
  obtain off sw1 st1 where o1: "swap_out ex_io 0x2000 0x400000 (\<lambda>i. of_nat i) (swap ex_state, stats ex_state) = Some (off, sw1, st1)"
    using out [where pa = "0x2000" and va = "0x400000" and m = "\<lambda>i. of_nat i" and st = "stats ex_state" and k = 0, OF wf _ none] by auto
  from swap_out_SomeD [OF wf o1] obtain k where k: "swap_wf sw1"
    "swap_slot sw1 = (swap_slot (swap ex_state))(k \<mapsto> (0x400000, page_at (\<lambda>i. of_nat i) (unat (0x2000::u32))))" by metis
  have "swap_slot sw1 (if k = 0 then 1 else 0) = None" using k(2) none by auto
  from out [where pa = "0x3000" and va = "0x401000" and m = "\<lambda>_. 7" and st = st1, OF k(1) _ this] obtain off' sw2 st2
    where o2: "swap_out ex_io 0x3000 0x401000 (\<lambda>_. 7) (sw1, st1) = Some (off', sw2, st2)" by (cases "k = 0") auto
  from swap_round_trip [where pa' = "0x5000" and ?m1.0 = "\<lambda>_. 0", OF wf o1 o2] obtain r m' sw3 st3
    where i: "swap_in ex_io 0x5000 off (\<lambda>_. 0) (sw2, st2) = Some (r, m', sw3, st3)"
      and pg: "page_at m' 0x5000 = page_at (\<lambda>i. of_nat i) 0x2000"
    by (auto simp: ex_io_def)
  from fun_cong [OF pg, of 3] have "m' 0x5003 = 3" by (simp add: page_at_def)
  with o1 o2 i show ?thesis by blast
qed

end
